(* ===== verification/Connectal_Prelude.thy ===== *)
theory Connectal_Prelude
  imports Main "HOL-Library.Word"
begin

text \<open>
  Shared material of the Connectal development: the machine integers of the C sources, the
  outcome of a computation that may fault (\<open>'a result\<close>), word-addressed memory with
  explicit bounds (\<open>rd\<close>, \<open>wr\<close> and their block versions), and the generic lemmas on words,
  lists and results that the component theories use.  \<open>result_simps\<close> collects the rules that
  run a computation, \<open>mem_simps\<close> those that read and write memory.
\<close>

unbundle bit_operations_syntax

named_theorems result_simps \<open>rules that evaluate computations in the result type\<close>
named_theorems mem_simps \<open>rules that read and write bounded word memory\<close>

section \<open>Machine integers\<close>

type_synonym u8 = "8 word"
type_synonym u16 = "16 word"
type_synonym u32 = "32 word"
type_synonym u64 = "64 word"

section \<open>Computations that may fault\<close>

text \<open>
  A C function of the sources either returns, or ends the process (\<open>exit\<close>, \<open>assert\<close>), or
  performs an access the language leaves undefined, or loops for ever.  Everything but the
  return is a \<open>fault\<close>; a computation is a value of \<open>fault + 'a\<close>.
\<close>

datatype fault =
    OutOfBounds      \<comment> \<open>read or write outside the object\<close>
  | NullDeref        \<comment> \<open>dereference of a null pointer\<close>
  | AssertFailed     \<comment> \<open>\<open>assert\<close> or \<open>BUG_ON\<close>\<close>
  | Exit int         \<comment> \<open>\<open>exit(n)\<close>\<close>
  | NoReturn         \<comment> \<open>the loop never ends\<close>
  | UseAfterFree     \<comment> \<open>access to memory that was given back\<close>

type_synonym 'a result = "fault + 'a"

definition rbind :: "'a result \<Rightarrow> ('a \<Rightarrow> 'b result) \<Rightarrow> 'b result" where
  "rbind m f = (case m of Inl e \<Rightarrow> Inl e | Inr x \<Rightarrow> f x)"

definition rassert :: "bool \<Rightarrow> fault \<Rightarrow> unit result" where
  "rassert b e = (if b then Inr () else Inl e)"

lemma rbind_Inl [simp, result_simps]: "rbind (Inl e) f = Inl e"
  by (simp add: rbind_def)

lemma rbind_Inr [simp, result_simps]: "rbind (Inr x) f = f x"
  by (simp add: rbind_def)

lemma rassert_True [simp, result_simps]: "rassert True e = Inr ()"
  by (simp add: rassert_def)

lemma rassert_False [simp, result_simps]: "rassert False e = Inl e"
  by (simp add: rassert_def)

lemma rassert_eq_Inr [simp]: "rassert b e = Inr u \<longleftrightarrow> b"
  by (simp add: rassert_def)

lemma rbind_eq_Inr: "rbind m f = Inr y \<longleftrightarrow> (\<exists>x. m = Inr x \<and> f x = Inr y)"
  by (auto simp: rbind_def split: sum.splits)

lemma rbind_InrE:
  assumes "rbind m f = Inr y"
  obtains x where "m = Inr x" and "f x = Inr y"
  using assms by (auto simp: rbind_eq_Inr)

lemma rbind_assoc: "rbind (rbind m f) g = rbind m (\<lambda>x. rbind (f x) g)"
  by (cases m) simp_all

lemma rbind_return [simp]: "rbind m Inr = m"
  by (cases m) simp_all

text \<open>The result of a loop that may run for ever, which is a \<open>partial_function\<close> on \<open>option\<close>.\<close>

definition returned :: "'a result option \<Rightarrow> 'a result" where
  "returned r = (case r of None \<Rightarrow> Inl NoReturn | Some x \<Rightarrow> x)"

lemma returned_Some [simp, result_simps]: "returned (Some r) = r"
  by (simp add: returned_def)

text \<open>The error numbers of \<open>errno.h\<close> that the sources return (negated).\<close>

definition EIO :: int where "EIO = 5"
definition ENXIO :: int where "ENXIO = 6"
definition EAGAIN :: int where "EAGAIN = 11"
definition ENOMEM :: int where "ENOMEM = 12"
definition EFAULT :: int where "EFAULT = 14"
definition EBUSY :: int where "EBUSY = 16"
definition ENODEV :: int where "ENODEV = 19"
definition EINVAL :: int where "EINVAL = 22"
definition ENOTTY :: int where "ENOTTY = 25"

lemmas errno_defs = EIO_def ENXIO_def EAGAIN_def ENOMEM_def EFAULT_def EBUSY_def ENODEV_def
  EINVAL_def ENOTTY_def

section \<open>Word memory\<close>

text \<open>
  A block of 32-bit words (a mapped or malloc'ed region) and pointers into it, as word
  offsets from its start.  Pointers are integers, so that \<open>data-1\<close> below the start is a
  pointer, whose use is a fault.
\<close>

type_synonym mem = "u32 list"
type_synonym ptr = int

definition rd :: "mem \<Rightarrow> ptr \<Rightarrow> u32 result" where
  "rd m p = (if 0 \<le> p \<and> p < int (length m) then Inr (m ! nat p) else Inl OutOfBounds)"

definition wr :: "mem \<Rightarrow> ptr \<Rightarrow> u32 \<Rightarrow> mem result" where
  "wr m p v = (if 0 \<le> p \<and> p < int (length m) then Inr (m[nat p := v]) else Inl OutOfBounds)"

lemma rd_int [mem_simps]: "i < length m \<Longrightarrow> rd m (int i) = Inr (m ! i)"
  by (simp add: rd_def)

lemma wr_int [mem_simps]: "i < length m \<Longrightarrow> wr m (int i) v = Inr (m[i := v])"
  by (simp add: wr_def)

lemma rd_out: "p < 0 \<or> int (length m) \<le> p \<Longrightarrow> rd m p = Inl OutOfBounds"
  by (auto simp: rd_def)

lemma wr_out: "p < 0 \<or> int (length m) \<le> p \<Longrightarrow> wr m p v = Inl OutOfBounds"
  by (auto simp: wr_def)

lemma wr_length: "wr m p v = Inr m' \<Longrightarrow> length m' = length m"
  by (auto simp: wr_def split: if_splits)

lemma rd_word [mem_simps]: "unat w < length m \<Longrightarrow> rd m (uint w) = Inr (m ! unat w)"
  using rd_int [of "unat w" m] by simp

lemma wr_word [mem_simps]: "unat w < length m \<Longrightarrow> wr m (uint w) v = Inr (m[unat w := v])"
  using wr_int [of "unat w" m] by simp

text \<open>Arrays of other types, with the indices of C.\<close>

definition aget :: "'a list \<Rightarrow> int \<Rightarrow> 'a result" where
  "aget a i = (if 0 \<le> i \<and> i < int (length a) then Inr (a ! nat i) else Inl OutOfBounds)"

definition aset :: "'a list \<Rightarrow> int \<Rightarrow> 'a \<Rightarrow> 'a list result" where
  "aset a i v = (if 0 \<le> i \<and> i < int (length a) then Inr (a[nat i := v]) else Inl OutOfBounds)"

lemma aget_int [mem_simps]: "i < length a \<Longrightarrow> aget a (int i) = Inr (a ! i)"
  by (simp add: aget_def)

lemma aset_int [mem_simps]: "i < length a \<Longrightarrow> aset a (int i) v = Inr (a[i := v])"
  by (simp add: aset_def)

text \<open>Overwriting a block in the middle of a list, and reading a block.\<close>

definition splice :: "'a list \<Rightarrow> nat \<Rightarrow> 'a list \<Rightarrow> 'a list" where
  "splice m i ws = take i m @ ws @ drop (i + length ws) m"

definition slice :: "'a list \<Rightarrow> nat \<Rightarrow> nat \<Rightarrow> 'a list" where
  "slice m i n = take n (drop i m)"

lemma length_splice [simp]: "i + length ws \<le> length m \<Longrightarrow> length (splice m i ws) = length m"
  by (simp add: splice_def)

lemma splice_Nil [simp]: "i \<le> length m \<Longrightarrow> splice m i [] = m"
  by (simp add: splice_def)

lemma splice_Cons:
  "i < length m \<Longrightarrow> splice m i (w # ws) = splice (m[i := w]) (Suc i) ws"
  by (simp add: splice_def take_Suc_conv_app_nth)

lemma splice_single: "i < length m \<Longrightarrow> splice m i [w] = m[i := w]"
  by (simp add: splice_Cons)

lemma splice_update_before: "i < length m \<Longrightarrow> (splice m (Suc i) ws)[i := w] = splice m i (w # ws)"
  by (simp add: splice_def list_update_append take_Suc_conv_app_nth)

lemma splice_update_after:
  "i + length ws < length m \<Longrightarrow> (splice m i ws)[i + length ws := w] = splice m i (ws @ [w])"
  by (simp add: splice_def list_update_append Cons_nth_drop_Suc [symmetric])

lemma nth_splice:
  assumes "i + length ws \<le> length m" and "k < length m"
  shows "splice m i ws ! k = (if i \<le> k \<and> k < i + length ws then ws ! (k - i) else m ! k)"
  using assms by (auto simp: splice_def nth_append min_def)

lemma length_slice [simp]: "i + n \<le> length m \<Longrightarrow> length (slice m i n) = n"
  by (simp add: slice_def)

lemma slice_0 [simp]: "slice m i 0 = []"
  by (simp add: slice_def)

lemma slice_Suc: "i < length m \<Longrightarrow> slice m i (Suc n) = m ! i # slice m (Suc i) n"
  by (simp add: slice_def Cons_nth_drop_Suc [symmetric])

lemma slice_eqI:
  assumes "i + n \<le> length m" and "length ws = n" and "\<And>k. k < n \<Longrightarrow> m ! (i + k) = ws ! k"
  shows "slice m i n = ws"
  using assms by (auto intro!: nth_equalityI simp: slice_def)

lemma slice_cong:
  assumes "i + n \<le> length m" and "i + n \<le> length m'" and "\<And>k. i \<le> k \<Longrightarrow> k < i + n \<Longrightarrow> m' ! k = m ! k"
  shows "slice m' i n = slice m i n"
  using assms by (auto intro!: nth_equalityI simp: slice_def)

lemma slice_splice: "i + length ws \<le> length m \<Longrightarrow> slice (splice m i ws) i (length ws) = ws"
  by (intro slice_eqI) (simp_all add: nth_splice)

lemma slice_update_other: "k < i \<or> i + n \<le> k \<Longrightarrow> slice (m[k := v]) i n = slice m i n"
  by (auto simp: slice_def drop_update_swap)

section \<open>Words\<close>

lemma unat_less_size: "unat (x :: 'a::len word) < 2 ^ LENGTH('a)"
  by simp

lemma unat_of_nat_small: "n < 2 ^ LENGTH('a::len) \<Longrightarrow> unat (of_nat n :: 'a word) = n"
  by (simp add: unat_of_nat)

lemma sint_int_unat:
  fixes x :: "'a::len word"
  assumes "unat x < 2 ^ (LENGTH('a) - 1)"
  shows "sint x = int (unat x)"
proof -
  have "uint x < 2 ^ (LENGTH('a) - 1)"
    using assms by (metis of_nat_less_iff of_nat_numeral of_nat_power uint_nat)
  moreover have "0 \<le> uint x" by simp
  then have "- (2 ^ (LENGTH('a) - 1)) \<le> uint x" by (rule order_trans [rotated]) simp
  ultimately have "signed_take_bit (LENGTH('a) - 1) (uint x) = uint x"
    by (intro signed_take_bit_int_eq_self)
  then show ?thesis by (simp add: sint_uint)
qed

lemma and_mask_take_bit: "(x :: 'a::len word) AND mask n = take_bit n x"
  by (simp add: take_bit_eq_mask)

lemma unat_take_bit: "unat (take_bit n (x :: 'a::len word)) = unat x mod 2 ^ n"
  by (simp add: unsigned_take_bit_eq flip: take_bit_eq_mod)

lemma unat_drop_bit: "unat (drop_bit n (x :: 'a::len word)) = unat x div 2 ^ n"
  by (simp add: unat_drop_bit_eq flip: drop_bit_eq_div)

lemma unat_ucast_mod: "unat (ucast (x :: 'a::len word) :: 'b::len word) = unat x mod 2 ^ LENGTH('b)"
  by (simp add: unsigned_ucast_eq take_bit_eq_mod)

lemma word_and_16: "(x :: u32) AND 0xffff = take_bit 16 x"
  by (simp add: take_bit_eq_mask mask_eq_exp_minus_1)

lemma and_65534:
  fixes x :: u32
  shows "unat (x AND 0xfffe) = 2 * ((unat x mod 2 ^ 16) div 2)"
proof -
  have m: "(0xfffe :: u32) = 2 * mask 15"
    by (simp add: mask_eq_exp_minus_1)
  have eq: "x AND 0xfffe = 2 * drop_bit 1 (take_bit 16 x)"
    unfolding m by (rule bit_word_eqI) (auto simp: bit_simps)
  have "unat (drop_bit 1 (take_bit 16 x)) = (unat x mod 2 ^ 16) div 2"
    unfolding unat_drop_bit unat_take_bit by simp
  moreover from this have "2 * unat (drop_bit 1 (take_bit 16 x)) < 2 ^ 32"
    by (simp del: drop_bit_Suc One_nat_def)
  ultimately show ?thesis
    unfolding eq by (simp add: unat_word_ariths del: drop_bit_Suc One_nat_def)
qed

lemma word_cat_unat:
  fixes a :: "'a::len word" and b :: "'b::len word"
  assumes "LENGTH('c::len) = LENGTH('a) + LENGTH('b)"
  shows "unat (word_cat a b :: 'c word) = unat a * 2 ^ LENGTH('b) + unat b"
proof -
  have "uint (word_cat a b :: 'c word) = concat_bit LENGTH('b) (uint b) (uint a) mod 2 ^ LENGTH('c)"
    by (simp add: word_cat_eq' unsigned_of_int take_bit_eq_mod)
  also have "concat_bit LENGTH('b) (uint b) (uint a) = uint b + uint a * 2 ^ LENGTH('b)"
    by (simp add: concat_bit_eq push_bit_eq_mult take_bit_eq_mod)
  also have "(uint b + uint a * 2 ^ LENGTH('b)) mod 2 ^ LENGTH('c) = uint b + uint a * 2 ^ LENGTH('b)"
  proof (rule mod_pos_pos_trivial)
    have "uint b < 2 ^ LENGTH('b)" and ua: "uint a < 2 ^ LENGTH('a)" by simp_all
    moreover from ua have "uint a * 2 ^ LENGTH('b) \<le> (2 ^ LENGTH('a) - 1) * 2 ^ LENGTH('b)"
      by (intro mult_right_mono) simp_all
    moreover have "(2 ^ LENGTH('a) - 1) * 2 ^ LENGTH('b) = 2 ^ LENGTH('a) * 2 ^ LENGTH('b) - (2 :: int) ^ LENGTH('b)"
      by (simp add: algebra_simps)
    ultimately have "uint b + uint a * 2 ^ LENGTH('b) < 2 ^ LENGTH('a) * 2 ^ LENGTH('b)"
      by linarith
    then show "uint b + uint a * 2 ^ LENGTH('b) < 2 ^ LENGTH('c)"
      by (simp add: assms power_add)
  qed simp
  finally have "int (unat (word_cat a b :: 'c word)) = int (unat a * 2 ^ LENGTH('b) + unat b)"
    by simp
  then show ?thesis
    by (simp only: of_nat_eq_iff)
qed

section \<open>Arithmetic\<close>

text \<open>A quotient by a power of two of a number that lies in an aligned block.\<close>

lemma div_block:
  fixes a k x :: nat
  assumes "a * k \<le> x" and "x < a * k + k"
  shows "x div k = a"
proof -
  have "x = a * k + (x - a * k)" and "x - a * k < k" using assms by linarith+
  then show ?thesis by (metis add.commute add_cancel_right_right div_less div_mult_self3 gr_implies_not0)
qed

lemma mod_block:
  fixes a k x :: nat
  assumes "a * k \<le> x" and "x < a * k + k"
  shows "x mod k = x - a * k"
  using div_block [OF assms] by (simp add: minus_mult_div_eq_mod [symmetric] mult.commute)

lemma div_mod_sub:
  fixes x k l :: nat
  assumes "k * l \<le> x" and "l > 0"
  shows "(x - k * l) div l = x div l - k" "(x - k * l) mod l = x mod l" "k \<le> x div l"
proof -
  from assms(1) obtain y where "x = y + k * l" by (metis le_add_diff_inverse2)
  with assms(2) show "(x - k * l) div l = x div l - k" "(x - k * l) mod l = x mod l" "k \<le> x div l"
    by simp_all
qed

lemma or_push_bit:
  fixes a b :: "'a::len word"
  assumes "unat a < 2 ^ n"
  shows "a OR push_bit n b = a + push_bit n b"
proof -
  have "take_bit n a = a" using assms by (simp add: word_unat_eq_iff unat_take_bit)
  then have "a AND push_bit n b = take_bit n a AND push_bit n b" by simp
  also have "\<dots> = 0" by (rule bit_word_eqI) (auto simp: bit_simps)
  finally show ?thesis by (rule disjunctive_add_eq_or [symmetric])
qed

lemma scast_of_nat:
  fixes x :: nat
  assumes "x < 2 ^ (LENGTH('a::len) - 1)"
  shows "(scast (of_nat x :: 'a word) :: 'b::len word) = of_nat x"
proof -
  have "(2 :: nat) ^ (LENGTH('a) - 1) < 2 ^ LENGTH('a)" by (rule power_strict_increasing) simp_all
  with assms have "x < 2 ^ LENGTH('a)" by (rule less_trans)
  then have "unat (of_nat x :: 'a word) = x" by (simp add: unat_of_nat)
  then have "sint (of_nat x :: 'a word) = int x" using assms by (subst sint_int_unat) simp_all
  moreover have "(scast (of_nat x :: 'a word) :: 'b word) = of_int (sint (of_nat x :: 'a word))" by simp
  ultimately show ?thesis by simp
qed

section \<open>The first number with a property\<close>

lemma takeWhile_upt:
  "(\<forall>k < length (takeWhile P [0..<N]). P k) \<and> length (takeWhile P [0..<N]) \<le> N \<and>
   (length (takeWhile P [0..<N]) < N \<longrightarrow> \<not> P (length (takeWhile P [0..<N])))"
proof -
  define c where "c = length (takeWhile P [0..<N])"
  have le: "c \<le> N" unfolding c_def using length_takeWhile_le [of P "[0..<N]"] by simp
  have "P k" if "k < c" for k
  proof -
    have "takeWhile P [0..<N] ! k \<in> set (takeWhile P [0..<N])" using that unfolding c_def by (rule nth_mem)
    then have "P (takeWhile P [0..<N] ! k)" by (rule set_takeWhileD [THEN conjunct2])
    moreover have "takeWhile P [0..<N] ! k = k" using takeWhile_nth [of k P "[0..<N]"] that le by (simp add: c_def)
    ultimately show ?thesis by simp
  qed
  moreover have "\<not> P c" if "c < N"
    using nth_length_takeWhile [of P "[0..<N]"] that by (simp add: c_def)
  ultimately show ?thesis using le unfolding c_def by blast
qed

lemma takeWhile_upt_eq:
  assumes "\<forall>k < m. P k" and "\<not> P m" and "m < N"
  shows "length (takeWhile P [0..<N]) = m"
proof -
  define c where "c = length (takeWhile P [0..<N])"
  have "\<forall>k < c. P k" "c < N \<longrightarrow> \<not> P c" "c \<le> N" using takeWhile_upt [of P N] unfolding c_def by blast+
  with assms have "c = m" by (metis linorder_neqE_nat order_less_trans)
  then show ?thesis by (simp add: c_def)
qed

section \<open>Decimal numbers\<close>

text \<open>The conversion \<open>%d\<close> of \<open>printf\<close>.\<close>

fun digits :: "nat \<Rightarrow> string" where
  "digits n = (if n < 10 then [char_of (48 + n)] else digits (n div 10) @ [char_of (48 + n mod 10)])"

declare digits.simps [simp del]

definition show_int :: "int \<Rightarrow> string" where
  "show_int i = (if i < 0 then CHR ''-'' # digits (nat (- i)) else digits (nat i))"

end
