(* ===== verification/Portal_Mem.thy ===== *)
theory Portal_Mem
  imports Connectal_Prelude
begin

text \<open>
  The \<open>portalmem\<close> kernel driver (\<open>drivers/portalmem/portalmem.c\<close>, \<open>portalmem.h\<close>): allocation
  of a DMA buffer as a scatter-gather table of page blocks, the mapping of the buffer into user
  space and into the kernel, the debugger's access to it, and the \<open>ioctl\<close> interface.  The
  services of the Linux kernel the driver calls are the fields of a record \<open>'s kernel\<close>, a
  parameter of every definition that uses them; \<open>'s\<close> is the kernel's own state.
\<close>

section \<open>Data\<close>

text \<open>Page size of the supported platforms (x86 and ARM).\<close>

definition PAGE_SIZE :: nat where
  "PAGE_SIZE = 4096"

text \<open>
  An entry of the scatter-gather table: the page frame number of its first page and its length
  in bytes.  \<open>sg_set_page\<close> is called with offset 0, so the physical address of the entry is
  that of its first page.
\<close>

record sg_entry =
  sg_page :: nat
  sg_length :: nat

definition sg_phys :: "sg_entry \<Rightarrow> nat" where
  "sg_phys s = sg_page s * PAGE_SIZE"

record pa_buffer =
  pb_size :: nat
  kmap_cnt :: int
  vaddr :: int
  sg_table :: "sg_entry list"

text \<open>Specification: the physical address of byte \<open>x\<close> of the buffer a table describes.\<close>

fun phys_at :: "sg_entry list \<Rightarrow> nat \<Rightarrow> nat option" where
  "phys_at [] x = None"
| "phys_at (s # ss) x =
     (if x < sg_length s then Some (sg_phys s + x) else phys_at ss (x - sg_length s))"

definition table_size :: "sg_entry list \<Rightarrow> nat" where
  "table_size ss = sum_list (map sg_length ss)"

lemma table_size_simps [simp]:
  "table_size [] = 0"
  "table_size (s # ss) = sg_length s + table_size ss"
  by (simp_all add: table_size_def)

lemma phys_at_defined: "(\<exists>a. phys_at ss x = Some a) \<longleftrightarrow> x < table_size ss"
  by (induction ss arbitrary: x) auto

section \<open>Allocation\<close>

datatype gfp_flags = high_order_gfp_flags | low_order_gfp_flags

text \<open>
  \<open>k_page_align len\<close> is \<open>PAGE_ALIGN(round_up(len, 4096))\<close>; \<open>k_kmalloc\<close> answers whether
  the heap had room; \<open>k_alloc_pages\<close> the page frame number of a block of \<open>2 ^ order\<close> pages
  or null; \<open>k_dma_buf_export\<close> whether the export succeeded; \<open>k_dma_buf_fd\<close> the new
  descriptor or a negative error; \<open>k_vmalloc\<close> whether a page array could be allocated;
  \<open>k_vmap\<close> the kernel address of a mapping of the given pages, 0 for null and a negative
  number for an error pointer.
\<close>

record 's kernel =
  k_page_align :: "u64 \<Rightarrow> u64"
  k_kmalloc :: "'s \<Rightarrow> bool \<times> 's"
  k_alloc_pages :: "'s \<Rightarrow> gfp_flags \<Rightarrow> nat \<Rightarrow> nat option \<times> 's"
  k_sg_alloc_table :: "'s \<Rightarrow> nat \<Rightarrow> int \<times> 's"
  k_dma_buf_export :: "'s \<Rightarrow> pa_buffer \<Rightarrow> bool \<times> 's"
  k_dma_buf_fd :: "'s \<Rightarrow> pa_buffer \<Rightarrow> int \<times> 's"
  k_vmalloc :: "'s \<Rightarrow> nat \<Rightarrow> bool \<times> 's"
  k_vmap :: "'s \<Rightarrow> nat list \<Rightarrow> int \<times> 's"

definition orders :: "nat list" where
  "orders = [8, 4, 0]"

definition block_size :: "nat \<Rightarrow> nat" where
  "block_size ord = 2 ^ ord * PAGE_SIZE"

text \<open>
  The \<open>for\<close> loop over \<open>orders\<close>: the first order that fits in what remains, does not exceed
  \<open>max_order\<close> and for which the page allocator has a block.
\<close>

fun try_orders :: "'s kernel \<Rightarrow> int \<Rightarrow> nat \<Rightarrow> nat list \<Rightarrow> 's \<Rightarrow> (nat \<times> nat) option \<times> 's" where
  "try_orders K size_remaining max_order [] s = (None, s)"
| "try_orders K size_remaining max_order (ord # ords) s =
     (if size_remaining \<ge> int (block_size ord) \<and> max_order \<ge> ord then
        (case k_alloc_pages K s (if ord > 4 then high_order_gfp_flags else low_order_gfp_flags) ord of
           (Some page, s') \<Rightarrow> (Some (ord, page), s')
         | (None, s') \<Rightarrow> try_orders K size_remaining max_order ords s')
      else try_orders K size_remaining max_order ords s)"

text \<open>
  The \<open>while (size_remaining > 0)\<close> loop.  \<open>pages\<close> is the list of blocks (order, first page)
  in allocation order, \<open>info\<close> whether the variable of that name is non-null.  The result of
  \<open>kmalloc\<close> for a list cell is not checked before it is written.
\<close>

function alloc_loop ::
  "'s kernel \<Rightarrow> int \<Rightarrow> nat \<Rightarrow> (nat \<times> nat) list \<Rightarrow> bool \<Rightarrow> 's \<Rightarrow> ((nat \<times> nat) list \<times> bool \<times> 's) result" where
  "alloc_loop K size_remaining max_order pages info s =
     (if size_remaining > 0 then
        (case try_orders K size_remaining max_order orders s of
           (None, s1) \<Rightarrow> Inr (pages, False, s1)
         | (Some (ord, page), s1) \<Rightarrow>
             (case k_kmalloc K s1 of
                (False, s2) \<Rightarrow> Inl NullDeref
              | (True, s2) \<Rightarrow>
                  alloc_loop K (size_remaining - int (block_size ord)) ord
                    (pages @ [(ord, page)]) True s2))
      else Inr (pages, info, s))"
  by pat_completeness auto
termination
  by (relation "measure (\<lambda>(K, r, _). nat r)") (auto simp: block_size_def PAGE_SIZE_def)

declare alloc_loop.simps [simp del]

text \<open>The kernel objects the function allocates and frees, as a log.\<close>

datatype kobj = Buffer_obj | Table_obj | Info_obj
datatype heap_event = Kmalloc kobj | Kfree kobj | Dma_buf_put

definition sg_of_block :: "nat \<times> nat \<Rightarrow> sg_entry" where
  "sg_of_block b = \<lparr>sg_page = snd b, sg_length = block_size (fst b)\<rparr>"

text \<open>
  \<open>portalmem_dmabuffer_create\<close>: the returned descriptor or error, the buffer when it was
  exported, and the log.  \<open>free_buffer_page\<close> does nothing (its body is commented out in the
  source), so the failure path frees the list cells and the buffer record only, and the table
  when it is reached through a failing \<open>sg_alloc_table\<close>.  When \<open>dma_buf_export\<close> fails, the
  error pointer is dereferenced by the following \<open>printk\<close>.
\<close>

definition portalmem_dmabuffer_create ::
  "'s kernel \<Rightarrow> u64 \<Rightarrow> 's \<Rightarrow> (int \<times> pa_buffer option \<times> heap_event list \<times> 's) result" where
  "portalmem_dmabuffer_create K len s =
     (let len = k_page_align K len in
      case k_kmalloc K s of
        (False, s) \<Rightarrow> Inr (- ENOMEM, None, [], s)
      | (True, s) \<Rightarrow>
      (case k_kmalloc K s of
        (False, s) \<Rightarrow> Inr (- ENOMEM, None, [Kmalloc Buffer_obj, Kfree Buffer_obj], s)
      | (True, s) \<Rightarrow>
        rbind (alloc_loop K (sint len) (hd orders) [] False s) (\<lambda>(pages, info, s).
          let log = [Kmalloc Buffer_obj, Kmalloc Table_obj] @ map (\<lambda>_. Kmalloc Info_obj) pages;
              free_infos = map (\<lambda>_. Kfree Info_obj) pages in
          if info then
            (case k_sg_alloc_table K s (length pages) of (ret, s) \<Rightarrow>
             if ret = 0 then
               (let buffer = \<lparr>pb_size = unat len, kmap_cnt = 0, vaddr = 0,
                              sg_table = map sg_of_block pages\<rparr> in
                case k_dma_buf_export K s buffer of
                  (False, s) \<Rightarrow> Inl NullDeref
                | (True, s) \<Rightarrow>
                  (case k_dma_buf_fd K s buffer of (return_fd, s) \<Rightarrow>
                   if return_fd < 0
                   then Inr (return_fd, None, log @ free_infos @ [Dma_buf_put], s)
                   else Inr (return_fd, Some buffer, log @ free_infos, s)))
             else Inr (- ENOMEM, None, log @ [Kfree Table_obj] @ free_infos @ [Kfree Buffer_obj], s))
          else Inr (- ENOMEM, None, log @ free_infos @ [Kfree Buffer_obj], s))))"

subsection \<open>What the allocation loop guarantees\<close>

lemma try_orders_Some:
  "try_orders K r m ords s = (Some (ord, page), s') \<Longrightarrow>
   ord \<in> set ords \<and> ord \<le> m \<and> int (block_size ord) \<le> r"
  by (induction ords arbitrary: s) (auto split: if_splits prod.splits option.splits)

lemma sum_blocks_pos: "block_size ord > 0"
  by (simp add: block_size_def PAGE_SIZE_def)

text \<open>
  When the loop ends with \<open>info\<close> set, the blocks it added cover exactly what remained, their
  orders come from \<open>orders\<close> and never increase.
\<close>

lemma alloc_loop_blocks:
  assumes "alloc_loop K r m acc info s = Inr (pages, True, s')" and "0 \<le> r"
  shows "\<exists>new. pages = acc @ new \<and> int (sum_list (map (\<lambda>b. block_size (fst b)) new)) = r \<and>
           sorted_wrt (\<ge>) (map fst new) \<and> (\<forall>b \<in> set new. fst b \<in> set orders \<and> fst b \<le> m) \<and>
           (new = [] \<longrightarrow> info)"
  using assms
proof (induction K r m acc info s arbitrary: pages s' rule: alloc_loop.induct)
  case (1 K r m acc info s)
  show ?case
  proof (cases "r > 0")
    case False
    with "1.prems" show ?thesis by (subst (asm) alloc_loop.simps) (auto intro: exI [of _ "[]"])
  next
    case True
    with "1.prems"(1) obtain ord page s1 s2 where
      t: "try_orders K r m orders s = (Some (ord, page), s1)" and
      k: "k_kmalloc K s1 = (True, s2)" and
      rec: "alloc_loop K (r - int (block_size ord)) ord (acc @ [(ord, page)]) True s2 = Inr (pages, True, s')"
      by (subst (asm) alloc_loop.simps) (auto split: prod.splits option.splits bool.splits)
    from try_orders_Some [OF t] have ord: "ord \<in> set orders" "ord \<le> m" "int (block_size ord) \<le> r"
      by auto
    from "1.IH" [OF True t [symmetric] refl refl k [symmetric] refl rec] ord(3)
    obtain new where new: "pages = (acc @ [(ord, page)]) @ new"
      "int (sum_list (map (\<lambda>b. block_size (fst b)) new)) = r - int (block_size ord)"
      "sorted_wrt (\<ge>) (map fst new)" "\<forall>b \<in> set new. fst b \<in> set orders \<and> fst b \<le> ord"
      by auto
    show ?thesis
      by (rule exI [of _ "(ord, page) # new"]) (use new ord in auto)
  qed
qed

text \<open>
  Documented behaviour of the page allocator: a block of \<open>2 ^ ord\<close> pages starts at a multiple
  of its size, below the physical address limit of the translation hardware.
\<close>

definition alloc_aligned :: "'s kernel \<Rightarrow> bool" where
  "alloc_aligned K \<longleftrightarrow>
     (\<forall>s flags ord p s'. k_alloc_pages K s flags ord = (Some p, s') \<longrightarrow> 2 ^ ord dvd p \<and> p < 2 ^ 32)"

lemma alloc_alignedD:
  "alloc_aligned K \<Longrightarrow> k_alloc_pages K s flags ord = (Some p, s') \<Longrightarrow> 2 ^ ord dvd p \<and> p < 2 ^ 32"
  unfolding alloc_aligned_def by blast

lemma try_orders_aligned:
  "try_orders K r m ords s = (Some (ord, page), s') \<Longrightarrow> alloc_aligned K \<Longrightarrow> 2 ^ ord dvd page \<and> page < 2 ^ 32"
  by (induction ords arbitrary: s)
     (auto dest: alloc_alignedD split: if_split_asm prod.split_asm option.split_asm)

lemma alloc_loop_aligned:
  assumes "alloc_loop K r m acc info s = Inr (pages, True, s')" and "alloc_aligned K"
    and "\<forall>b \<in> set acc. 2 ^ fst b dvd snd b \<and> snd b < 2 ^ 32"
  shows "\<forall>b \<in> set pages. 2 ^ fst b dvd snd b \<and> snd b < 2 ^ 32"
  using assms
proof (induction K r m acc info s arbitrary: pages s' rule: alloc_loop.induct)
  case (1 K r m acc info s)
  show ?case
  proof (cases "r > 0")
    case False
    with "1.prems" show ?thesis by (subst (asm) alloc_loop.simps) auto
  next
    case True
    with "1.prems"(1) obtain ord page s1 s2 where
      t: "try_orders K r m orders s = (Some (ord, page), s1)" and
      k: "k_kmalloc K s1 = (True, s2)" and
      rec: "alloc_loop K (r - int (block_size ord)) ord (acc @ [(ord, page)]) True s2 = Inr (pages, True, s')"
      by (subst (asm) alloc_loop.simps) (auto split: prod.splits option.splits bool.splits)
    from try_orders_aligned [OF t "1.prems"(2)] "1.prems"(3)
    show ?thesis
      by (intro "1.IH" [OF True t [symmetric] refl refl k [symmetric] refl rec "1.prems"(2)]) auto
  qed
qed

lemma table_size_blocks: "table_size (map sg_of_block bs) = sum_list (map (\<lambda>b. block_size (fst b)) bs)"
  by (induction bs) (auto simp: sg_of_block_def)

text \<open>
  A scatter-gather table the DMA code can describe: block lengths of the three orders, largest
  first.
\<close>

definition sg_wf :: "sg_entry list \<Rightarrow> bool" where
  "sg_wf ss \<longleftrightarrow>
     (\<forall>s \<in> set ss. sg_length s \<in> {2 ^ 20, 2 ^ 16, 2 ^ 12}) \<and> sorted_wrt (\<ge>) (map sg_length ss)"

lemma sg_wf_blocks:
  assumes "\<forall>b \<in> set bs. fst b \<in> set orders" and "sorted_wrt (\<ge>) (map fst bs)"
  shows "sg_wf (map sg_of_block bs)"
proof -
  have "\<forall>b \<in> set bs. sg_length (sg_of_block b) \<in> {2 ^ 20, 2 ^ 16, 2 ^ 12}"
    using assms(1) by (auto simp: sg_of_block_def block_size_def PAGE_SIZE_def orders_def)
  moreover have "sorted_wrt (\<ge>) (map (sg_length \<circ> sg_of_block) bs)"
    using assms(2) by (auto simp: sorted_wrt_map sg_of_block_def block_size_def elim!: sorted_wrt_mono_rel [rotated])
  ultimately show ?thesis by (simp add: sg_wf_def)
qed

lemma create_cases:
  assumes "portalmem_dmabuffer_create K len s = Inr (fd, Some b, log, s')"
  obtains pages s1 s2 where
    "alloc_loop K (sint (k_page_align K len)) 8 [] False s1 = Inr (pages, True, s2)"
    "b = \<lparr>pb_size = unat (k_page_align K len), kmap_cnt = 0, vaddr = 0, sg_table = map sg_of_block pages\<rparr>"
    "0 \<le> fd"
    "log = [Kmalloc Buffer_obj, Kmalloc Table_obj] @ map (\<lambda>_. Kmalloc Info_obj) pages @ map (\<lambda>_. Kfree Info_obj) pages"
  using assms
  by (auto simp: portalmem_dmabuffer_create_def Let_def orders_def elim!: rbind_InrE
           split: prod.split_asm bool.split_asm if_split_asm)

lemma create_table:
  assumes "portalmem_dmabuffer_create K len s = Inr (fd, Some b, log, s')"
    and "unat (k_page_align K len) < 2 ^ 63"
  shows "sg_wf (sg_table b) \<and> table_size (sg_table b) = pb_size b \<and> pb_size b = unat (k_page_align K len) \<and> sg_table b \<noteq> [] \<and>
         kmap_cnt b = 0 \<and> vaddr b = 0 \<and> 0 \<le> fd"
proof -
  from assms(1) obtain pages s1 s2 where
    fd: "0 \<le> fd" and
    loop: "alloc_loop K (sint (k_page_align K len)) 8 [] False s1 = Inr (pages, True, s2)" and
    b: "b = \<lparr>pb_size = unat (k_page_align K len), kmap_cnt = 0, vaddr = 0, sg_table = map sg_of_block pages\<rparr>"
    by (rule create_cases)
  have si: "sint (k_page_align K len) = int (unat (k_page_align K len))"
    using assms(2) by (intro sint_int_unat) simp
  from alloc_loop_blocks [OF loop] have
    "int (sum_list (map (\<lambda>b. block_size (fst b)) pages)) = sint (k_page_align K len)"
    "sorted_wrt (\<ge>) (map fst pages)" "\<forall>b \<in> set pages. fst b \<in> set orders" "pages \<noteq> []"
    using si by auto
  moreover from this(1) si have "sum_list (map (\<lambda>b. block_size (fst b)) pages) = unat (k_page_align K len)"
    by (metis of_nat_eq_iff)
  ultimately show ?thesis using b fd
    by (simp add: sg_wf_blocks table_size_blocks)
qed

lemma create_aligned:
  assumes "portalmem_dmabuffer_create K len s = Inr (fd, Some b, log, s')" and "alloc_aligned K"
  shows "\<forall>g \<in> set (sg_table b). sg_length g dvd sg_phys g \<and> sg_phys g < 2 ^ 44"
proof -
  from assms(1) obtain pages s1 s2 where
    "alloc_loop K (sint (k_page_align K len)) 8 [] False s1 = Inr (pages, True, s2)" and
    b: "sg_table b = map sg_of_block pages"
    by (rule create_cases) auto
  from alloc_loop_aligned [OF this(1) assms(2)]
  have "\<forall>b \<in> set pages. 2 ^ fst b dvd snd b \<and> snd b < 2 ^ 32" by simp
  then show ?thesis
    by (auto simp: b sg_of_block_def sg_phys_def block_size_def PAGE_SIZE_def)
qed

section \<open>Mapping into user space\<close>

text \<open>
  The loop of \<open>pa_dma_buf_mmap\<close> over the table: the calls \<open>remap_pfn_range (addr, pfn, len)\<close>
  it makes, for a mapping that ends at \<open>vm_end\<close>.
\<close>

fun mmap_loop :: "sg_entry list \<Rightarrow> nat \<Rightarrow> nat \<Rightarrow> nat \<Rightarrow> (nat \<times> nat \<times> nat) list" where
  "mmap_loop [] addr vm_end offset = []"
| "mmap_loop (sg # sgs) addr vm_end offset =
     (let remainder = vm_end - addr in
      if offset \<ge> sg_length sg then mmap_loop sgs addr vm_end (offset - sg_length sg)
      else
        (let (page, len) = (if offset \<noteq> 0
                            then (sg_page sg + offset div PAGE_SIZE, sg_length sg - offset)
                            else (sg_page sg, sg_length sg));
             len = min len remainder;
             addr' = addr + len
         in (addr, page, len) # (if addr' \<ge> vm_end then [] else mmap_loop sgs addr' vm_end 0)))"

definition pa_dma_buf_mmap :: "pa_buffer \<Rightarrow> nat \<Rightarrow> nat \<Rightarrow> nat \<Rightarrow> int \<times> (nat \<times> nat \<times> nat) list" where
  "pa_dma_buf_mmap buffer vm_start vm_end vm_pgoff =
     (0, mmap_loop (sg_table buffer) vm_start vm_end (vm_pgoff * PAGE_SIZE))"

text \<open>The physical address a virtual address has after a sequence of \<open>remap_pfn_range\<close> calls.\<close>

fun mapped :: "(nat \<times> nat \<times> nat) list \<Rightarrow> nat \<Rightarrow> nat option" where
  "mapped [] v = None"
| "mapped ((a, pfn, len) # rs) v =
     (if a \<le> v \<and> v < a + len then Some (pfn * PAGE_SIZE + (v - a)) else mapped rs v)"

lemma mapped_mmap_loop:
  assumes "addr \<le> v" "v < vm_end" "PAGE_SIZE dvd offset" "\<forall>s \<in> set ss. PAGE_SIZE dvd sg_length s"
  shows "mapped (mmap_loop ss addr vm_end offset) v = phys_at ss (offset + (v - addr))"
  using assms
proof (induction ss arbitrary: addr offset)
  case (Cons s ss)
  show ?case
  proof (cases "offset \<ge> sg_length s")
    case True
    then have "\<not> offset + (v - addr) < sg_length s"
      "offset - sg_length s + (v - addr) = offset + (v - addr) - sg_length s" by auto
    with True Cons.prems Cons.IH [of addr "offset - sg_length s"] show ?thesis
      by (simp add: Let_def)
  next
    case False
    let ?len = "min (sg_length s - offset) (vm_end - addr)"
    have off: "offset div PAGE_SIZE * PAGE_SIZE = offset" using Cons.prems(3) by simp
    have "(if offset \<noteq> 0 then (sg_page s + offset div PAGE_SIZE, sg_length s - offset)
           else (sg_page s, sg_length s)) = (sg_page s + offset div PAGE_SIZE, sg_length s - offset)"
      by simp
    then have unfold: "mmap_loop (s # ss) addr vm_end offset =
        (addr, sg_page s + offset div PAGE_SIZE, ?len) #
        (if addr + ?len \<ge> vm_end then [] else mmap_loop ss (addr + ?len) vm_end 0)"
      using False by (simp only: mmap_loop.simps Let_def if_False prod.case)
    show ?thesis
    proof (cases "v < addr + ?len")
      case True
      then have "offset + (v - addr) < sg_length s" using False Cons.prems(1) by auto
      with True Cons.prems(1) off show ?thesis
        unfolding unfold by (simp add: sg_phys_def algebra_simps)
    next
      case 2: False
      then have "?len = sg_length s - offset" "addr + ?len \<le> v" using Cons.prems by auto
      then show ?thesis
        unfolding unfold using False Cons.prems Cons.IH [of "addr + ?len" 0]
        by (auto simp: add.commute)
    qed
  qed
qed simp

lemma sg_wf_pages: "sg_wf ss \<Longrightarrow> \<forall>s \<in> set ss. PAGE_SIZE dvd sg_length s"
  by (auto simp: sg_wf_def PAGE_SIZE_def)

section \<open>Mapping into the kernel\<close>

text \<open>
  The page array \<open>pa_dma_buf_begin_cpu_access\<close> fills: \<open>i\<close> is the index of the entry and
  \<open>tmp\<close> the pages stored so far in an array of \<open>npages\<close> slots.
\<close>

definition page_align :: "nat \<Rightarrow> nat" where
  "page_align x = (x + PAGE_SIZE - 1) div PAGE_SIZE * PAGE_SIZE"

fun fill_pages :: "nat \<Rightarrow> nat \<Rightarrow> sg_entry list \<Rightarrow> nat list \<Rightarrow> nat list result" where
  "fill_pages npages i [] tmp = Inr tmp"
| "fill_pages npages i (sg # sgs) tmp =
     (let n = page_align (sg_length sg) div PAGE_SIZE in
      if i \<ge> npages then Inl AssertFailed
      else if length tmp + n > npages then Inl OutOfBounds
      else fill_pages npages (Suc i) sgs (tmp @ [sg_page sg ..< sg_page sg + n]))"

definition pa_dma_buf_begin_cpu_access ::
  "'s kernel \<Rightarrow> pa_buffer \<Rightarrow> 's \<Rightarrow> (int \<times> pa_buffer \<times> 's) result" where
  "pa_dma_buf_begin_cpu_access K buffer s =
     rbind
       (if kmap_cnt buffer = 0 then
          (let npages = page_align (pb_size buffer) div PAGE_SIZE in
           case k_vmalloc K s npages of
             (True, s) \<Rightarrow>
               rbind (fill_pages npages 0 (sg_table buffer) []) (\<lambda>pages. Inr (k_vmap K s pages))
           | (False, s) \<Rightarrow> Inr (vaddr buffer, s))
        else Inr (vaddr buffer, s))
       (\<lambda>(va, s).
         let buffer = (if va > 0 then buffer\<lparr>vaddr := va, kmap_cnt := kmap_cnt buffer + 1\<rparr> else buffer)
         in if va < 0 then Inr (va, buffer, s)
            else if va = 0 then Inr (- ENOMEM, buffer, s)
            else Inr (0, buffer, s))"

text \<open>The boolean of the result says whether the kernel mapping is torn down (\<open>vunmap\<close>).\<close>

definition pa_dma_buf_end_cpu_access :: "pa_buffer \<Rightarrow> bool \<times> pa_buffer" where
  "pa_dma_buf_end_cpu_access buffer =
     (let buffer = buffer\<lparr>kmap_cnt := kmap_cnt buffer - 1\<rparr> in
      if kmap_cnt buffer = 0 then (True, buffer\<lparr>vaddr := 0\<rparr>) else (False, buffer))"

definition pa_dma_buf_kmap :: "pa_buffer \<Rightarrow> nat \<Rightarrow> int" where
  "pa_dma_buf_kmap buffer offset = vaddr buffer + int (offset * PAGE_SIZE)"

definition pa_dma_buf_vmap :: "'s kernel \<Rightarrow> pa_buffer \<Rightarrow> 's \<Rightarrow> (int \<times> pa_buffer \<times> 's) result" where
  "pa_dma_buf_vmap K buffer s =
     rbind (pa_dma_buf_begin_cpu_access K buffer s) (\<lambda>(_, buffer, s). Inr (vaddr buffer, buffer, s))"

text \<open>The reference count and the kernel address agree: mapped exactly while in use.\<close>

definition kmap_ok :: "pa_buffer \<Rightarrow> bool" where
  "kmap_ok b \<longleftrightarrow> kmap_cnt b \<ge> 0 \<and> vaddr b \<ge> 0 \<and> (vaddr b = 0 \<longleftrightarrow> kmap_cnt b = 0)"

subsection \<open>Properties of the kernel mapping\<close>

lemma page_align_multiple: "PAGE_SIZE dvd x \<Longrightarrow> page_align x = x"
proof -
  assume "PAGE_SIZE dvd x"
  then obtain k where "x = PAGE_SIZE * k" ..
  then show ?thesis by (simp add: page_align_def PAGE_SIZE_def)
qed

definition table_pages :: "sg_entry list \<Rightarrow> nat list" where
  "table_pages ss = concat (map (\<lambda>s. [sg_page s ..< sg_page s + sg_length s div PAGE_SIZE]) ss)"

lemma table_pages_Cons [simp]:
  "table_pages (s # ss) = [sg_page s ..< sg_page s + sg_length s div PAGE_SIZE] @ table_pages ss"
  "table_pages [] = []"
  by (simp_all add: table_pages_def)

lemma length_table_pages:
  "\<forall>s \<in> set ss. PAGE_SIZE dvd sg_length s \<Longrightarrow> length (table_pages ss) * PAGE_SIZE = table_size ss"
  by (induction ss) (auto simp: algebra_simps)

lemma fill_pages_ok:
  assumes "\<forall>s \<in> set ss. PAGE_SIZE dvd sg_length s \<and> 0 < sg_length s"
    and "length tmp + length (table_pages ss) \<le> npages" and "i \<le> length tmp"
  shows "fill_pages npages i ss tmp = Inr (tmp @ table_pages ss)"
  using assms
proof (induction ss arbitrary: i tmp)
  case (Cons s ss)
  then have "0 < sg_length s div PAGE_SIZE" by (auto simp: PAGE_SIZE_def elim!: dvdE)
  with Cons show ?case by (simp add: Let_def page_align_multiple)
qed simp

text \<open>The page array lists the pages of the buffer in order: page \<open>k\<close> holds byte \<open>k * 4096\<close>.\<close>

lemma table_pages_phys:
  assumes "\<forall>s \<in> set ss. PAGE_SIZE dvd sg_length s" and "x < table_size ss"
  shows "x div PAGE_SIZE < length (table_pages ss) \<and>
         phys_at ss x = Some (table_pages ss ! (x div PAGE_SIZE) * PAGE_SIZE + x mod PAGE_SIZE)"
  using assms
proof (induction ss arbitrary: x)
  case (Cons s ss)
  obtain n where n: "sg_length s = n * PAGE_SIZE"
    using Cons.prems(1) by (metis dvdE list.set_intros(1) mult.commute)
  have P: "PAGE_SIZE > 0" by (simp add: PAGE_SIZE_def)
  then have nd: "sg_length s div PAGE_SIZE = n" by (simp add: n)
  show ?case
  proof (cases "x < sg_length s")
    case True
    then have "x div PAGE_SIZE < n" using P by (simp add: n less_mult_imp_div_less)
    with True nd show ?thesis
      by (simp add: sg_phys_def nth_append algebra_simps)
  next
    case False
    then obtain y where y: "x = y + n * PAGE_SIZE" using n by (metis le_add_diff_inverse2 not_less)
    with P have "(x - n * PAGE_SIZE) div PAGE_SIZE = x div PAGE_SIZE - n"
      "(x - n * PAGE_SIZE) mod PAGE_SIZE = x mod PAGE_SIZE" "n \<le> x div PAGE_SIZE"
      by simp_all
    moreover have "x - sg_length s < table_size ss" using False Cons.prems(2) by auto
    with Cons.IH [of "x - sg_length s"] Cons.prems(1)
    have "(x - n * PAGE_SIZE) div PAGE_SIZE < length (table_pages ss) \<and> phys_at ss (x - n * PAGE_SIZE) =
        Some (table_pages ss ! ((x - n * PAGE_SIZE) div PAGE_SIZE) * PAGE_SIZE + (x - n * PAGE_SIZE) mod PAGE_SIZE)"
      by (simp add: n)
    ultimately show ?thesis
      using False n nd by (auto simp: nth_append)
  qed
qed simp

lemma begin_cpu_access_kmap_ok:
  assumes "kmap_ok b" and "pa_dma_buf_begin_cpu_access K b s = Inr (rc, b', s')"
  shows "kmap_ok b' \<and> sg_table b' = sg_table b \<and> pb_size b' = pb_size b \<and>
         (if rc = 0 then kmap_cnt b' = kmap_cnt b + 1 \<and> vaddr b' > 0 else rc < 0 \<and> b' = b)"
  using assms
  by (auto simp: pa_dma_buf_begin_cpu_access_def kmap_ok_def Let_def errno_defs elim!: rbind_InrE
        split: if_split_asm prod.split_asm bool.split_asm)

lemma end_cpu_access_kmap_ok:
  assumes "kmap_ok b" and "kmap_cnt b > 0" and "pa_dma_buf_end_cpu_access b = (unmap, b')"
  shows "kmap_ok b' \<and> kmap_cnt b' = kmap_cnt b - 1 \<and> (unmap \<longleftrightarrow> vaddr b' = 0)"
  using assms by (auto simp: pa_dma_buf_end_cpu_access_def kmap_ok_def Let_def split: if_splits)

section \<open>The debugger's access, release and the ioctl interface\<close>

text \<open>
  \<open>custom_vma_access\<close>: the entry and the offset in it that the loop stops at, as the physical
  address the copy starts from (the kernel's linear mapping of it is \<open>page_address\<close>), and the
  length of the copy.  After the last entry the loop leaves the address of the last page it saw
  and the offset that remains.
\<close>

fun vma_access_loop :: "sg_entry list \<Rightarrow> nat \<Rightarrow> nat \<Rightarrow> nat \<times> nat" where
  "vma_access_loop [] maddr offset = (maddr, offset)"
| "vma_access_loop (sg # sgs) maddr offset =
     (if offset < sg_length sg then (sg_phys sg, offset)
      else vma_access_loop sgs (sg_phys sg) (offset - sg_length sg))"

definition custom_vma_access :: "pa_buffer option \<Rightarrow> nat \<Rightarrow> nat \<Rightarrow> int \<Rightarrow> int + (nat \<times> int)" where
  "custom_vma_access buffer vm_start addr len =
     (case buffer of
        None \<Rightarrow> Inl (- EFAULT)
      | Some b \<Rightarrow>
          (let (maddr, offset) = vma_access_loop (sg_table b) 0 (addr - vm_start)
           in Inr (maddr + offset, len)))"

lemma vma_access_phys:
  "x < table_size ss \<Longrightarrow> phys_at ss x = Some (fst (vma_access_loop ss m x) + snd (vma_access_loop ss m x))"
  by (induction ss arbitrary: x m) auto

text \<open>\<open>pa_buffer_free\<close> and its callers; the pages themselves are not given back.\<close>

definition pa_buffer_free :: "pa_buffer \<Rightarrow> heap_event list" where
  "pa_buffer_free b = [Kfree Table_obj, Kfree Buffer_obj]"

definition pa_dma_buf_release :: "pa_buffer \<Rightarrow> heap_event list" where
  "pa_dma_buf_release b = pa_buffer_free b"

type_synonym fd_table = "int \<Rightarrow> pa_buffer option"

definition portalmem_dmabuffer_destroy :: "fd_table \<Rightarrow> int \<Rightarrow> (int \<times> heap_event list) result" where
  "portalmem_dmabuffer_destroy fget fd =
     (case fget fd of
        None \<Rightarrow> Inl NullDeref
      | Some b \<Rightarrow> Inr (0, pa_dma_buf_release b))"

text \<open>
  The argument of \<open>PA_DMA_ADDRESSES\<close> in user memory: the header and the entries (address,
  length) the caller made room for.  A write past them corrupts the caller's memory.
\<close>

record PortalAlloc =
  header_fd :: int
  numEntries :: int
  pa_entries :: "(nat \<times> nat) list"

text \<open>
  The copy loop: \<open>cpy k\<close> says whether the \<open>k\<close>-th \<open>copy_to_user\<close> of the loop succeeds.  The
  boolean of the result is false after a failed copy.
\<close>

fun copy_entries :: "(nat \<Rightarrow> bool) \<Rightarrow> nat \<Rightarrow> sg_entry list \<Rightarrow> (nat \<times> nat) list \<Rightarrow> (bool \<times> (nat \<times> nat) list) result" where
  "copy_entries cpy i [] es = Inr (True, es)"
| "copy_entries cpy i (sg # sgs) es =
     (if \<not> cpy (2 * i) then Inr (False, es)
      else if i \<ge> length es then Inl OutOfBounds
      else
        (let es = es[i := (sg_phys sg, snd (es ! i))] in
         if \<not> cpy (2 * i + 1) then Inr (False, es)
         else copy_entries cpy (Suc i) sgs (es[i := (fst (es ! i), sg_length sg)])))"

fun element_size_loop :: "sg_entry list \<Rightarrow> int \<Rightarrow> int \<Rightarrow> nat" where
  "element_size_loop [] i index = 0"
| "element_size_loop (sg # sgs) i index =
     (if i = index then sg_length sg else element_size_loop sgs (i + 1) index)"

datatype pa_cmd =
    PA_DMA_ADDRESSES PortalAlloc
  | PA_MALLOC u64
  | PA_ELEMENT_SIZE int int
  | PA_other u32

text \<open>
  The environment of a call: open descriptors, whether the copy of the argument from user space,
  the copies of the entries and the copy of the header back succeed.
\<close>

record ioctl_env =
  fget :: fd_table
  copy_in :: bool
  copy_entry :: "nat \<Rightarrow> bool"
  copy_out :: bool

text \<open>
  The reply of a call: its return value, the balance of \<open>fget\<close> and \<open>fput\<close>, the caller's
  structure afterwards, a new buffer.
\<close>

record ioctl_reply =
  ioctl_rc :: int
  file_refs :: int
  user_arg :: "PortalAlloc option"
  new_buffer :: "pa_buffer option"

definition pa_unlocked_ioctl ::
  "'s kernel \<Rightarrow> ioctl_env \<Rightarrow> pa_cmd \<Rightarrow> 's \<Rightarrow> (ioctl_reply \<times> 's) result" where
  "pa_unlocked_ioctl K E cmd s =
     (case cmd of
        PA_DMA_ADDRESSES u \<Rightarrow>
          (if \<not> copy_in E then Inr (\<lparr>ioctl_rc = - EFAULT, file_refs = 0, user_arg = Some u, new_buffer = None\<rparr>, s)
           else case fget E (header_fd u) of
             None \<Rightarrow> Inl NullDeref
           | Some b \<Rightarrow>
               rbind (if numEntries u > 0 then copy_entries (copy_entry E) 0 (sg_table b) (pa_entries u)
                      else Inr (True, pa_entries u)) (\<lambda>(ok, es).
                 let u' = u\<lparr>pa_entries := es\<rparr> in
                 if \<not> ok then Inr (\<lparr>ioctl_rc = - EFAULT, file_refs = 1, user_arg = Some u', new_buffer = None\<rparr>, s)
                 else if \<not> copy_out E
                 then Inr (\<lparr>ioctl_rc = - EFAULT, file_refs = 0, user_arg = Some u', new_buffer = None\<rparr>, s)
                 else Inr (\<lparr>ioctl_rc = 0, file_refs = 0,
                            user_arg = Some (u'\<lparr>numEntries := int (length (sg_table b))\<rparr>),
                            new_buffer = None\<rparr>, s)))
      | PA_MALLOC len \<Rightarrow>
          rbind (portalmem_dmabuffer_create K len s) (\<lambda>(fd, b, log, s).
            Inr (\<lparr>ioctl_rc = fd, file_refs = 0, user_arg = None, new_buffer = b\<rparr>, s))
      | PA_ELEMENT_SIZE fd index \<Rightarrow>
          (if \<not> copy_in E then Inr (\<lparr>ioctl_rc = - EFAULT, file_refs = 0, user_arg = None, new_buffer = None\<rparr>, s)
           else case fget E fd of
             None \<Rightarrow> Inl NullDeref
           | Some b \<Rightarrow>
               Inr (\<lparr>ioctl_rc = int (element_size_loop (sg_table b) 0 index), file_refs = 0, user_arg = None,
                     new_buffer = None\<rparr>, s))
      | PA_other c \<Rightarrow> Inr (\<lparr>ioctl_rc = - ENOTTY, file_refs = 0, user_arg = None, new_buffer = None\<rparr>, s))"

subsection \<open>What the entries of the user's structure hold afterwards\<close>

lemma copy_entries_all:
  assumes "\<forall>k. cpy k" and "i + length ss \<le> length es"
  shows "copy_entries cpy i ss es =
         Inr (True, take i es @ map (\<lambda>s. (sg_phys s, sg_length s)) ss @ drop (i + length ss) es)"
  using assms
proof (induction ss arbitrary: i es)
  case (Cons s ss)
  then show ?case
    by (simp add: Let_def take_Suc_conv_app_nth)
qed simp

lemma copy_entries_overflow:
  assumes "\<forall>k. cpy k" and "length es < i + length ss" and "i \<le> length es"
  shows "copy_entries cpy i ss es = Inl OutOfBounds"
  using assms by (induction ss arbitrary: i es) (auto simp: Let_def)

lemma element_size_loop_nth:
  "element_size_loop ss i (i + int k) = (if k < length ss then sg_length (ss ! k) else 0)"
proof (induction ss arbitrary: i k)
  case (Cons s ss)
  show ?case
  proof (cases k)
    case (Suc k')
    then have "i + int k = (i + 1) + int k'" by simp
    then show ?thesis using Cons.IH [of "i + 1" k'] Suc by (simp add: add.assoc)
  qed simp
qed simp

section \<open>Properties\<close>

text \<open>
  A kernel for concrete runs: its state is the next free page frame; blocks are handed out
  aligned to their size as long as there are page frames, everything else succeeds.
\<close>

definition demo_kernel :: "nat kernel" where
  "demo_kernel =
     \<lparr>k_page_align = (\<lambda>len. (len + 4095) AND NOT 4095),
      k_kmalloc = (\<lambda>s. (True, s)),
      k_alloc_pages = (\<lambda>s flags ord. let p = (s + 2 ^ ord - 1) div 2 ^ ord * 2 ^ ord in
        if p < 2 ^ 32 then (Some p, p + 2 ^ ord) else (None, s)),
      k_sg_alloc_table = (\<lambda>s n. (0, s)),
      k_dma_buf_export = (\<lambda>s b. (True, s)),
      k_dma_buf_fd = (\<lambda>s b. (5, s)),
      k_vmalloc = (\<lambda>s n. (True, s)),
      k_vmap = (\<lambda>s ps. (4096, s))\<rparr>"

definition demo_buffer :: pa_buffer where
  "demo_buffer =
     \<lparr>pb_size = 69632, kmap_cnt = 0, vaddr = 0,
      sg_table = [\<lparr>sg_page = 256, sg_length = 65536\<rparr>, \<lparr>sg_page = 272, sg_length = 4096\<rparr>]\<rparr>"

definition demo_log :: "heap_event list" where
  "demo_log = [Kmalloc Buffer_obj, Kmalloc Table_obj, Kmalloc Info_obj, Kmalloc Info_obj,
               Kfree Info_obj, Kfree Info_obj]"

lemma demo_create:
  "portalmem_dmabuffer_create demo_kernel 69000 250 = Inr (5, Some demo_buffer, demo_log, 273)"
  by (simp add: portalmem_dmabuffer_create_def alloc_loop.simps orders_def block_size_def PAGE_SIZE_def
      demo_kernel_def demo_buffer_def demo_log_def sg_of_block_def)

lemma demo_aligned: "alloc_aligned demo_kernel"
  by (auto simp: alloc_aligned_def demo_kernel_def Let_def split: if_splits)

lemma demo_align: "unat (k_page_align demo_kernel 69000) = 69632"
  by (simp add: demo_kernel_def)

lemma demo_align_bound: "unat (k_page_align demo_kernel 69000) < 2 ^ 63"
  by (simp add: demo_align)

text \<open>
  C23: a buffer that \<open>portalmem_dmabuffer_create\<close> exports has a non-empty scatter-gather table
  of blocks of 1 MB, 64 KB and 4 KB, largest first, whose lengths add up to the page-aligned
  requested length, which is also the size recorded in the buffer.
\<close>

theorem dmabuffer_create_covers_length:
  assumes "portalmem_dmabuffer_create K len s = Inr (fd, Some b, log, s')"
    and "unat (k_page_align K len) < 2 ^ 63"
  shows "sg_wf (sg_table b) \<and> table_size (sg_table b) = unat (k_page_align K len) \<and>
         pb_size b = unat (k_page_align K len) \<and> sg_table b \<noteq> [] \<and> 0 \<le> fd"
  using create_table [OF assms] by simp

theorem dmabuffer_create_covers_length_witness:
  "sg_wf (sg_table demo_buffer) \<and> table_size (sg_table demo_buffer) = 69632"
  using dmabuffer_create_covers_length [OF demo_create demo_align_bound] by (simp add: demo_align)

text \<open>
  C26: after \<open>mmap\<close> of a created buffer every virtual address of the mapped range is backed by
  the physical address of the corresponding byte of the buffer, starting at the page offset the
  caller asked for.
\<close>

theorem mmap_backs_every_byte:
  assumes "portalmem_dmabuffer_create K len s = Inr (fd, Some b, log, s')"
    and "unat (k_page_align K len) < 2 ^ 63"
    and "vm_start \<le> v" and "v < vm_end"
  shows "mapped (snd (pa_dma_buf_mmap b vm_start vm_end vm_pgoff)) v =
         phys_at (sg_table b) (vm_pgoff * PAGE_SIZE + (v - vm_start))"
proof -
  have "\<forall>s \<in> set (sg_table b). PAGE_SIZE dvd sg_length s"
    using create_table [OF assms(1,2)] sg_wf_pages by blast
  with assms(3,4) show ?thesis
    by (simp add: pa_dma_buf_mmap_def mapped_mmap_loop)
qed

theorem mmap_backs_every_byte_witness:
  "mapped (snd (pa_dma_buf_mmap demo_buffer 8192 73728 1)) 70000 = Some (272 * 4096 + 368)"
  using mmap_backs_every_byte [OF demo_create demo_align_bound, of 8192 70000 73728 1]
  by (simp add: demo_buffer_def sg_phys_def PAGE_SIZE_def)

text \<open>
  The first \<open>begin_cpu_access\<close> on a created buffer never trips its \<open>BUG_ON\<close> nor overruns
  the page array; the pages handed to \<open>vmap\<close> are those of the buffer in byte order.
\<close>

theorem begin_cpu_access_maps_buffer:
  assumes "portalmem_dmabuffer_create K len s = Inr (fd, Some b, log, s')"
    and "unat (k_page_align K len) < 2 ^ 63"
    and "k_vmalloc K t (pb_size b div PAGE_SIZE) = (True, t1)"
    and "k_vmap K t1 (table_pages (sg_table b)) = (va, t2)" and "va > 0"
  shows "pa_dma_buf_begin_cpu_access K b t = Inr (0, b\<lparr>vaddr := va, kmap_cnt := 1\<rparr>, t2) \<and>
         (\<forall>x < pb_size b. phys_at (sg_table b) x =
            Some (table_pages (sg_table b) ! (x div PAGE_SIZE) * PAGE_SIZE + x mod PAGE_SIZE))"
proof -
  let ?ss = "sg_table b"
  have wf: "sg_wf ?ss" and size: "table_size ?ss = pb_size b"
    using create_table [OF assms(1,2)] by auto
  then have pages: "\<forall>s \<in> set ?ss. PAGE_SIZE dvd sg_length s \<and> 0 < sg_length s"
    using sg_wf_pages [OF wf] by (auto simp: sg_wf_def)
  then have len: "length (table_pages ?ss) * PAGE_SIZE = pb_size b"
    using size length_table_pages by auto
  then have "page_align (pb_size b) div PAGE_SIZE = length (table_pages ?ss)"
    "pb_size b div PAGE_SIZE = length (table_pages ?ss)"
    by (auto simp: page_align_multiple PAGE_SIZE_def simp flip: len)
  moreover have "kmap_cnt b = 0" using create_table [OF assms(1,2)] by simp
  ultimately have "pa_dma_buf_begin_cpu_access K b t = Inr (0, b\<lparr>vaddr := va, kmap_cnt := 1\<rparr>, t2)"
    using assms(3-5) fill_pages_ok [OF pages, of "[]"]
    by (simp add: pa_dma_buf_begin_cpu_access_def Let_def)
  then show ?thesis using table_pages_phys pages size by auto
qed

theorem begin_cpu_access_maps_buffer_witness:
  "pa_dma_buf_begin_cpu_access demo_kernel demo_buffer 273 =
     Inr (0, demo_buffer\<lparr>vaddr := 4096, kmap_cnt := 1\<rparr>, 273)"
  using begin_cpu_access_maps_buffer [OF demo_create demo_align_bound, of 273 273 4096 273]
  by (simp add: demo_kernel_def)

text \<open>
  The runs of \<open>begin_cpu_access\<close> and \<open>end_cpu_access\<close> on a buffer; \<open>n\<close> counts the
  accesses that succeeded and have not ended.
\<close>

inductive kmap_reach :: "'s kernel \<Rightarrow> pa_buffer \<Rightarrow> pa_buffer \<Rightarrow> nat \<Rightarrow> bool" for K b0 where
  kmap_start: "kmap_reach K b0 b0 0"
| kmap_begin: "kmap_reach K b0 b n \<Longrightarrow> pa_dma_buf_begin_cpu_access K b s = Inr (rc, b', s') \<Longrightarrow>
    kmap_reach K b0 b' (if rc = 0 then Suc n else n)"
| kmap_end: "kmap_reach K b0 b (Suc n) \<Longrightarrow> pa_dma_buf_end_cpu_access b = (unmap, b') \<Longrightarrow>
    kmap_reach K b0 b' n"

lemma kmap_reach_count:
  "kmap_reach K b0 b n \<Longrightarrow> kmap_cnt b0 = 0 \<Longrightarrow> vaddr b0 = 0 \<Longrightarrow> kmap_ok b \<and> kmap_cnt b = int n"
proof (induction rule: kmap_reach.induct)
  case kmap_start
  then show ?case by (simp add: kmap_ok_def)
next
  case (kmap_begin b n s rc b' s')
  then show ?case using begin_cpu_access_kmap_ok [of b K s rc b' s'] by (auto split: if_splits)
next
  case (kmap_end b n unmap b')
  then show ?case using end_cpu_access_kmap_ok [of b unmap b'] by simp
qed

text \<open>
  Over every run of \<open>begin_cpu_access\<close> and \<open>end_cpu_access\<close> on a new buffer the use count
  is the number of accesses in progress, and the kernel mapping exists exactly while there is one.
\<close>

theorem kmap_balanced:
  assumes "kmap_reach K b0 b n" and "kmap_cnt b0 = 0" and "vaddr b0 = 0"
  shows "kmap_cnt b = int n \<and> (vaddr b > 0 \<longleftrightarrow> n > 0)"
  using kmap_reach_count [OF assms] by (auto simp: kmap_ok_def)

theorem kmap_balanced_witness:
  "let b = snd (pa_dma_buf_end_cpu_access (demo_buffer\<lparr>vaddr := 4096, kmap_cnt := 2\<rparr>))
   in kmap_cnt b = 1 \<and> vaddr b = 4096"
proof -
  let ?b1 = "demo_buffer\<lparr>vaddr := 4096, kmap_cnt := 1\<rparr>" and ?b2 = "demo_buffer\<lparr>vaddr := 4096, kmap_cnt := 2\<rparr>"
  have "pa_dma_buf_begin_cpu_access demo_kernel demo_buffer 0 = Inr (0, ?b1, 0)"
    "pa_dma_buf_begin_cpu_access demo_kernel ?b1 0 = Inr (0, ?b2, 0)"
    by (simp_all add: pa_dma_buf_begin_cpu_access_def demo_buffer_def demo_kernel_def Let_def
        page_align_def PAGE_SIZE_def)
  then have "kmap_reach demo_kernel demo_buffer ?b2 2"
    using kmap_begin [OF kmap_begin [OF kmap_start]] by (fastforce simp: numeral_2_eq_2)
  then have "kmap_reach demo_kernel demo_buffer (snd (pa_dma_buf_end_cpu_access ?b2)) 1"
    by (intro kmap_end [of _ _ ?b2 1 "fst (pa_dma_buf_end_cpu_access ?b2)"]) (simp_all add: numeral_2_eq_2)
  from kmap_balanced [OF this] show ?thesis
    by (simp add: demo_buffer_def pa_dma_buf_end_cpu_access_def)
qed

text \<open>
  The protocol of \<open>PA_DMA_ADDRESSES\<close>.  A call with \<open>numEntries\<close> 0 reports the number of
  entries and writes none; a second call with room for that many fills in exactly the physical
  address and the length of every block, and neither call keeps a reference to the file.
\<close>

theorem dma_addresses_protocol:
  assumes "fget E (header_fd u) = Some b" and "copy_in E" and "\<forall>k. copy_entry E k" and "copy_out E"
    and "numEntries u = 0" and "length es = length (sg_table b)" and "sg_table b \<noteq> []"
  shows "\<exists>u1. pa_unlocked_ioctl K E (PA_DMA_ADDRESSES u) s =
           Inr (\<lparr>ioctl_rc = 0, file_refs = 0, user_arg = Some u1, new_buffer = None\<rparr>, s) \<and>
         pa_entries u1 = pa_entries u \<and> numEntries u1 = int (length (sg_table b)) \<and>
         pa_unlocked_ioctl K E (PA_DMA_ADDRESSES (u1\<lparr>pa_entries := es\<rparr>)) s =
           Inr (\<lparr>ioctl_rc = 0, file_refs = 0,
                 user_arg = Some (u1\<lparr>pa_entries := map (\<lambda>g. (sg_phys g, sg_length g)) (sg_table b)\<rparr>),
                 new_buffer = None\<rparr>, s)"
  using assms by (simp add: pa_unlocked_ioctl_def Let_def copy_entries_all)

definition demo_env :: ioctl_env where
  "demo_env = \<lparr>fget = (\<lambda>fd. if fd = 5 then Some demo_buffer else None), copy_in = True,
               copy_entry = (\<lambda>_. True), copy_out = True\<rparr>"

theorem dma_addresses_protocol_witness:
  "pa_unlocked_ioctl demo_kernel demo_env
     (PA_DMA_ADDRESSES \<lparr>header_fd = 5, numEntries = 2, pa_entries = [(0, 0), (0, 0)]\<rparr>) 0 =
   Inr (\<lparr>ioctl_rc = 0, file_refs = 0,
         user_arg = Some \<lparr>header_fd = 5, numEntries = 2, pa_entries = [(1048576, 65536), (1114112, 4096)]\<rparr>,
         new_buffer = None\<rparr>, 0)"
  using dma_addresses_protocol [of demo_env "\<lparr>header_fd = 5, numEntries = 0, pa_entries = []\<rparr>"
      demo_buffer "[(0, 0), (0, 0)]" demo_kernel 0]
  by (auto simp: demo_env_def demo_buffer_def pa_unlocked_ioctl_def sg_phys_def PAGE_SIZE_def)

text \<open>
  When \<open>PA_DMA_ADDRESSES\<close> is called with a positive \<open>numEntries\<close> but room for fewer
  entries than the buffer has blocks, the call writes past the caller's array: the count in the
  header is not consulted as a limit.
\<close>

theorem dma_addresses_ignores_capacity:
  assumes "fget E (header_fd u) = Some b" and "copy_in E" and "\<forall>k. copy_entry E k"
    and "numEntries u > 0" and "length (pa_entries u) < length (sg_table b)"
  shows "pa_unlocked_ioctl K E (PA_DMA_ADDRESSES u) s = Inl OutOfBounds"
  using assms by (simp add: pa_unlocked_ioctl_def copy_entries_overflow)

theorem dma_addresses_ignores_capacity_witness:
  "pa_unlocked_ioctl demo_kernel demo_env
     (PA_DMA_ADDRESSES \<lparr>header_fd = 5, numEntries = 1, pa_entries = [(0, 0)]\<rparr>) 0 = Inl OutOfBounds"
  using dma_addresses_ignores_capacity [of demo_env "\<lparr>header_fd = 5, numEntries = 1, pa_entries = [(0, 0)]\<rparr>"
      demo_buffer demo_kernel 0]
  by (simp add: demo_env_def demo_buffer_def)

text \<open>The failing exit of the allocation loop and what is freed there.\<close>

lemma create_alloc_failure:
  assumes "k_kmalloc K s = (True, s1)" and "k_kmalloc K s1 = (True, s2)"
    and "alloc_loop K (sint (k_page_align K len)) 8 [] False s2 = Inr (pages, False, s3)"
  shows "portalmem_dmabuffer_create K len s =
    Inr (- ENOMEM, None,
         [Kmalloc Buffer_obj, Kmalloc Table_obj] @ map (\<lambda>_. Kmalloc Info_obj) pages @
         map (\<lambda>_. Kfree Info_obj) pages @ [Kfree Buffer_obj], s3)"
  using assms by (simp add: portalmem_dmabuffer_create_def orders_def Let_def)

text \<open>
  When the page allocator runs out before the buffer is complete, the call returns
  \<open>-ENOMEM\<close>, frees the buffer record and every list cell, but never the scatter-gather table
  it allocated.
\<close>

theorem create_leaks_table_on_alloc_failure:
  assumes "k_kmalloc K s = (True, s1)" and "k_kmalloc K s1 = (True, s2)"
    and "alloc_loop K (sint (k_page_align K len)) 8 [] False s2 = Inr (pages, False, s3)"
  shows "\<exists>log. portalmem_dmabuffer_create K len s = Inr (- ENOMEM, None, log, s3) \<and>
           Kmalloc Table_obj \<in> set log \<and> Kfree Table_obj \<notin> set log \<and> Kfree Buffer_obj \<in> set log \<and>
           count_list log (Kfree Info_obj) = count_list log (Kmalloc Info_obj)"
proof -
  have "count_list (map (\<lambda>_. x) pages) y = (if x = y then length pages else 0)" for x y :: heap_event
    by (induction pages) auto
  then show ?thesis
    unfolding create_alloc_failure [OF assms] by auto
qed

definition demo_full_kernel :: "nat kernel" where
  "demo_full_kernel = demo_kernel\<lparr>k_alloc_pages := (\<lambda>s flags ord. (None, s))\<rparr>"

theorem create_leaks_table_on_alloc_failure_witness:
  "portalmem_dmabuffer_create demo_full_kernel 4096 0 =
     Inr (- 12, None, [Kmalloc Buffer_obj, Kmalloc Table_obj, Kfree Buffer_obj], 0)"
proof -
  have loop: "alloc_loop demo_full_kernel (sint (k_page_align demo_full_kernel 4096)) 8 [] False 0 =
      Inr ([], False, 0)"
    by (simp add: alloc_loop.simps orders_def demo_full_kernel_def demo_kernel_def)
  have km: "k_kmalloc demo_full_kernel 0 = (True, 0)"
    by (simp add: demo_full_kernel_def demo_kernel_def)
  from create_leaks_table_on_alloc_failure [OF km km loop] create_alloc_failure [OF km km loop]
  show ?thesis by (auto simp: errno_defs)
qed

end
