(* ===== verification/Mmu.thy ===== *)
theory Mmu
  imports Connectal_Prelude
begin

text \<open>
  The address translation unit the host programs (\<open>bsv/MMU.bsv\<close>, module \<open>mkMMU\<close>): the two
  block RAMs as functions of their addresses, the methods of its request interface that write
  them, and the five pipeline stages of a translation as one function.  The widths are those of
  the hardware: 32 scatter-gather lists of 256 entries, 44-bit offsets, page shifts 12, 16 and 20.
\<close>

section \<open>Requests\<close>

datatype mmu_req =
    Sglist u32 u32 u64 u32
  | Region u32 u64 u32 u64 u32 u64 u32
  | IdRequest int
  | IdReturn u32
  | SetInterface u32 u32

section \<open>State\<close>

type_synonym list_id = "5 word"
type_synonym mem_offset = "44 word"

record single_region =
  barrier :: u32
  idxOffset :: u8

record region =
  reg8 :: single_region
  reg4 :: single_region
  reg0 :: single_region

record mmu =
  regall :: "list_id \<Rightarrow> region option"
  mmu_pages :: "list_id \<Rightarrow> u8 \<Rightarrow> u32"

datatype dma_error = DmaErrorSGLIdInvalid | DmaErrorOffsetOutOfRange

section \<open>The request interface\<close>

text \<open>
  \<open>iid\<close> is the number of the unit.  A \<open>sglist\<close> request for another unit ends the simulation
  (\<open>$finish\<close>).
\<close>

definition mmu_sglist :: "u16 \<Rightarrow> u32 \<Rightarrow> u32 \<Rightarrow> u64 \<Rightarrow> u32 \<Rightarrow> mmu \<Rightarrow> mmu result" where
  "mmu_sglist iid pointer pointerIndex addr len m =
     (if iid \<noteq> ucast (drop_bit 16 pointer) then Inl (Exit 0)
      else Inr (m\<lparr>mmu_pages := (mmu_pages m)(ucast pointer := (mmu_pages m (ucast pointer))(ucast pointerIndex := ucast addr))\<rparr>))"

definition mmu_region ::
  "u32 \<Rightarrow> u64 \<Rightarrow> u32 \<Rightarrow> u64 \<Rightarrow> u32 \<Rightarrow> u64 \<Rightarrow> u32 \<Rightarrow> mmu \<Rightarrow> mmu" where
  "mmu_region pointer barr8 index8 barr4 index4 barr0 index0 m =
     m\<lparr>regall := (regall m)(ucast pointer \<mapsto>
        \<lparr>reg8 = \<lparr>barrier = ucast barr8, idxOffset = ucast index8\<rparr>,
         reg4 = \<lparr>barrier = ucast barr4, idxOffset = ucast index4\<rparr>,
         reg0 = \<lparr>barrier = ucast barr0, idxOffset = ucast index0\<rparr>\<rparr>)\<rparr>"

text \<open>The effect of \<open>idReturn\<close> on the translation state: the list becomes invalid.\<close>

definition mmu_idReturn :: "u32 \<Rightarrow> mmu \<Rightarrow> mmu" where
  "mmu_idReturn sglId m = m\<lparr>regall := (regall m)(ucast sglId := None)\<rparr>"

definition mmu_request :: "u16 \<Rightarrow> mmu_req \<Rightarrow> mmu \<Rightarrow> mmu result" where
  "mmu_request iid r m =
     (case r of
        Sglist p i a l \<Rightarrow> mmu_sglist iid p i a l m
      | Region p b8 i8 b4 i4 b0 i0 \<Rightarrow> Inr (mmu_region p b8 i8 b4 i4 b0 i0 m)
      | IdReturn sglId \<Rightarrow> Inr (mmu_idReturn sglId m)
      | IdRequest fd \<Rightarrow> Inr m
      | SetInterface a b \<Rightarrow> Inr m)"

primrec mmu_requests :: "u16 \<Rightarrow> mmu_req list \<Rightarrow> mmu \<Rightarrow> mmu result" where
  "mmu_requests iid [] m = Inr m"
| "mmu_requests iid (r # rs) m = rbind (mmu_request iid r m) (mmu_requests iid rs)"

lemma mmu_requests_append:
  "mmu_requests iid (rs @ rs') m = rbind (mmu_requests iid rs m) (mmu_requests iid rs')"
proof (induction rs arbitrary: m)
  case (Cons r rs)
  then show ?case by (cases "mmu_request iid r m") simp_all
qed simp

section \<open>Translation\<close>

text \<open>Stage 2: compare the offset with the barriers of the three regions.\<close>

definition stage2 :: "region \<Rightarrow> mem_offset \<Rightarrow> bool \<times> bool \<times> bool" where
  "stage2 r off =
     (let off0 = ucast (drop_bit 12 off) :: 32 word;
          off4 = ucast (drop_bit 16 off) :: 28 word;
          off8 = ucast (drop_bit 20 off) :: 24 word
      in (off8 < ucast (barrier (reg8 r)), off4 < ucast (barrier (reg4 r)), off0 < barrier (reg0 r)))"

text \<open>Stage 3: select a region; page size 0 stands for none.\<close>

definition stage3 :: "bool \<times> bool \<times> bool \<Rightarrow> region \<Rightarrow> mem_offset \<Rightarrow> nat \<times> u8 \<times> u8" where
  "stage3 conds r off =
     (case conds of (cond8, cond4, cond0) \<Rightarrow>
        if cond8 then (3, ucast (drop_bit 20 off), idxOffset (reg8 r))
        else if cond4 then (2, ucast (drop_bit 16 off), idxOffset (reg4 r))
        else if cond0 then (1, ucast (drop_bit 12 off), idxOffset (reg0 r))
        else (0, 0, 0))"

text \<open>Stage 5: concatenate the page number with the low bits of the offset.\<close>

definition stage5 :: "nat \<Rightarrow> u32 \<Rightarrow> mem_offset \<Rightarrow> mem_offset" where
  "stage5 pageSize page off =
     (if pageSize = 1 then word_cat page (ucast off :: 12 word)
      else if pageSize = 2 then word_cat (ucast page :: 28 word) (ucast off :: 16 word)
      else word_cat (ucast page :: 24 word) (ucast off :: 20 word))"

definition mmu_translate :: "mmu \<Rightarrow> list_id \<Rightarrow> mem_offset \<Rightarrow> dma_error + 'a::len word" where
  "mmu_translate m ptr off =
     (case regall m ptr of
        None \<Rightarrow> Inl DmaErrorSGLIdInvalid
      | Some r \<Rightarrow>
          (case stage3 (stage2 r off) r off of (pageSize, pbase, idx) \<Rightarrow>
             if pageSize = 0 then Inl DmaErrorOffsetOutOfRange
             else Inr (ucast (stage5 pageSize (mmu_pages m ptr (pbase + idx)) off))))"

lemma mmu_translate_cong:
  "mmu_pages m' l = mmu_pages m l \<Longrightarrow> regall m' l = regall m l \<Longrightarrow>
   mmu_translate m' l off = mmu_translate m l off"
  unfolding mmu_translate_def by (simp only:)

subsection \<open>The translation on natural numbers\<close>

text \<open>
  The stages read as arithmetic, for barriers that fit the narrowest comparison.
\<close>

definition page_off :: "nat \<Rightarrow> mem_offset \<Rightarrow> nat" where
  "page_off sh off = unat off div 2 ^ sh"

lemma stage2_nat:
  assumes "unat (barrier (reg8 r)) < 2 ^ 24" and "unat (barrier (reg4 r)) < 2 ^ 28"
  shows "stage2 r off =
    (page_off 20 off < unat (barrier (reg8 r)), page_off 16 off < unat (barrier (reg4 r)),
     page_off 12 off < unat (barrier (reg0 r)))"
proof -
  have b: "unat off < 2 ^ 44" using unat_less_size [of off] by simp
  have "unat off div 2 ^ 20 < 2 ^ 24" "unat off div 2 ^ 16 < 2 ^ 28" "unat off div 2 ^ 12 < 2 ^ 32"
    using b by (simp_all add: less_mult_imp_div_less)
  with assms show ?thesis
    by (simp add: stage2_def Let_def word_less_nat_alt unat_ucast_mod unat_drop_bit page_off_def)
qed

lemma unat_stage5:
  "unat (stage5 1 page off) = unat page * 2 ^ 12 + unat off mod 2 ^ 12"
  "unat (stage5 2 page off) = unat page mod 2 ^ 28 * 2 ^ 16 + unat off mod 2 ^ 16"
  "unat (stage5 3 page off) = unat page mod 2 ^ 24 * 2 ^ 20 + unat off mod 2 ^ 20"
  by (simp_all add: stage5_def word_cat_unat unat_ucast_mod)

lemma page_index:
  assumes "page_off sh off + q = n + 256 * k"
  shows "ucast (drop_bit sh off) + of_nat q = (of_nat n :: u8)"
proof -
  have "ucast (drop_bit sh off) = (of_nat (page_off sh off) :: u8)"
    by (simp add: word_unat_eq_iff unat_of_nat unat_ucast_mod unat_drop_bit page_off_def)
  then have "ucast (drop_bit sh off) + of_nat q = (of_nat (n + 256 * k) :: u8)"
    by (simp flip: assms)
  also have "\<dots> = of_nat n" by (simp add: word_unat_eq_iff unat_of_nat del: of_nat_add of_nat_mult)
  finally show ?thesis .
qed

end
