(* ===== verification/Send_Fd.thy ===== *)
theory Send_Fd
  imports Portal_Mem Mmu
begin

text \<open>
  Registration of a DMA buffer with the translation unit (\<open>cpp/dmaSendFd.h\<close> and its variant
  for buffers the caller describes itself, \<open>lib/cpp/userReference.h\<close>): one request per block
  of the scatter-gather table, an end marker, and the barriers and index offsets of the three
  regions.  The functions return the list of requests they issue, in order.
\<close>

section \<open>The requests for a list of blocks\<close>

definition shifts :: "nat list" where
  "shifts = [20, 16, 12, 0]"

text \<open>A block as the loop sees it: address and length, both of type \<open>long\<close>.\<close>

type_synonym dma_entry = "u64 \<times> u64"

text \<open>The inner loop over \<open>j\<close>: count the block in its region and turn the address into a page number.\<close>

fun shift_loop :: "nat list \<Rightarrow> nat \<Rightarrow> u32 list \<Rightarrow> u64 \<Rightarrow> u64 \<Rightarrow> u32 list \<times> u64" where
  "shift_loop [] j regions addr len = (regions, addr)"
| "shift_loop (sh # shs) j regions addr len =
     (if len = push_bit sh 1
      then (regions[j := regions ! j + 1], signed_drop_bit sh addr)
      else shift_loop shs (Suc j) regions addr len)"

text \<open>The loop over the blocks, with the end marker.\<close>

fun sglist_loop :: "u32 \<Rightarrow> nat \<Rightarrow> dma_entry list \<Rightarrow> u32 list \<Rightarrow> mmu_req list \<times> u32 list" where
  "sglist_loop sid i [] regions = ([Sglist sid (of_nat i) 0 0], regions)"
| "sglist_loop sid i ((addr, len) # es) regions =
     (let (regions, addr) = shift_loop (take 3 shifts) 0 regions addr len;
          (rs, regions) = sglist_loop sid (Suc i) es regions
      in (Sglist sid (of_nat i) addr (ucast len) # rs, regions))"

text \<open>
  The loop that computes the barriers: \<open>entryCount\<close> and \<open>idxOffset\<close> are \<open>unsigned char\<close>.
\<close>

fun region_loop :: "(u32 \<times> nat) list \<Rightarrow> u8 \<Rightarrow> u64 \<Rightarrow> (u64 \<times> u32) list" where
  "region_loop [] entryCount border = []"
| "region_loop ((r, d) # xs) entryCount border =
     (let idxOffset = entryCount - ucast border;
          entryCount = entryCount + ucast r;
          border = border + ucast r
      in (border, ucast idxOffset) # region_loop xs entryCount (push_bit d border))"

definition shift_steps :: "nat list" where
  "shift_steps = [shifts ! 0 - shifts ! 1, shifts ! 1 - shifts ! 2, shifts ! 2 - shifts ! 3]"

definition region_request :: "u32 \<Rightarrow> u32 list \<Rightarrow> mmu_req" where
  "region_request sid regions =
     (let bi = region_loop (zip regions shift_steps) 0 0
      in Region sid (fst (bi ! 0)) (snd (bi ! 0)) (fst (bi ! 1)) (snd (bi ! 1)) (fst (bi ! 2)) (snd (bi ! 2)))"

definition send_entries :: "u32 \<Rightarrow> dma_entry list \<Rightarrow> mmu_req list" where
  "send_entries sid es =
     (let (rs, regions) = sglist_loop sid 0 es [0, 0, 0]
      in rs @ [region_request sid regions])"

section \<open>Where the blocks come from\<close>

definition dma_entry_of :: "sg_entry \<Rightarrow> dma_entry" where
  "dma_entry_of s = (of_nat (sg_phys s), of_nat (sg_length s))"

text \<open>In the kernel: the table of the file behind the descriptor.\<close>

definition send_fd_to_portal_kernel :: "fd_table \<Rightarrow> int \<Rightarrow> u32 \<Rightarrow> (int \<times> mmu_req list) result" where
  "send_fd_to_portal_kernel files fd sid =
     (case files fd of
        None \<Rightarrow> Inl NullDeref
      | Some b \<Rightarrow> Inr (sint sid, send_entries sid (map dma_entry_of (sg_table b))))"

text \<open>
  In user space: two calls of \<open>PA_DMA_ADDRESSES\<close>, the second with room for one entry more than
  reported.  An error is returned before anything is sent.
\<close>

definition send_fd_to_portal_user ::
  "'s kernel \<Rightarrow> ioctl_env \<Rightarrow> int \<Rightarrow> u32 \<Rightarrow> 's \<Rightarrow> (int \<times> mmu_req list) result" where
  "send_fd_to_portal_user K E fd sid s =
     rbind (pa_unlocked_ioctl K E (PA_DMA_ADDRESSES \<lparr>header_fd = fd, numEntries = 0, pa_entries = []\<rparr>) s)
     (\<lambda>(r, s).
       if ioctl_rc r \<noteq> 0 then Inr (ioctl_rc r, [])
       else
         (let n = numEntries (the (user_arg r));
              u = \<lparr>header_fd = fd, numEntries = n, pa_entries = replicate (nat n + 1) (0, 0)\<rparr>
          in rbind (pa_unlocked_ioctl K E (PA_DMA_ADDRESSES u) s) (\<lambda>(r, s).
               if ioctl_rc r \<noteq> 0 then Inr (ioctl_rc r, [])
               else Inr (sint sid,
                 send_entries sid (map (\<lambda>(a, l). (of_nat a, of_nat l))
                   (take (nat n) (pa_entries (the (user_arg r)))))))))"

text \<open>
  In the simulation: block lengths are asked for one by one with \<open>PA_ELEMENT_SIZE\<close> until it
  answers 0, and the address is the offset in the buffer with the list number in the bits above
  32.  \<open>elem i\<close> is the answer for index \<open>i\<close>; a negative one ends the function at once, after
  the requests for the blocks before it.
\<close>

partial_function (option) bsim_loop ::
  "(nat \<Rightarrow> int) \<Rightarrow> u32 \<Rightarrow> nat \<Rightarrow> u32 \<Rightarrow> u32 list \<Rightarrow> (mmu_req list \<times> u32 list \<times> int option) option" where
  "bsim_loop elem sid i size_accum regions =
     (let len = elem i in
      if len < 0 then Some ([], regions, Some len)
      else if len = 0 then Some ([Sglist sid (of_nat i) 0 0], regions, None)
      else
        (let addr = scast size_accum OR push_bit 32 (scast sid);
             (regions, addr) = shift_loop (take 3 shifts) 0 regions addr (of_int len)
         in Option.bind (bsim_loop elem sid (Suc i) (size_accum + of_int len) regions)
              (\<lambda>(rs, regions, err). Some (Sglist sid (of_nat i) addr (of_int len) # rs, regions, err))))"

definition send_fd_to_portal_bsim :: "(nat \<Rightarrow> int) \<Rightarrow> u32 \<Rightarrow> (int \<times> mmu_req list) result" where
  "send_fd_to_portal_bsim elem sid =
     (case bsim_loop elem sid 0 0 [0, 0, 0] of
        None \<Rightarrow> Inl NoReturn
      | Some (rs, regions, Some rc) \<Rightarrow> Inr (rc, rs)
      | Some (rs, regions, None) \<Rightarrow> Inr (sint sid, rs @ [region_request sid regions]))"

text \<open>\<open>send_reference_to_portal\<close>: the same over an array the caller passes.\<close>

fun reference_loop :: "u32 \<Rightarrow> nat \<Rightarrow> nat \<Rightarrow> dma_entry list \<Rightarrow> u32 list \<Rightarrow> (mmu_req list \<times> u32 list) result" where
  "reference_loop sid i 0 data regions = Inr ([Sglist sid (of_nat i) 0 0], regions)"
| "reference_loop sid i (Suc k) data regions =
     (if i \<ge> length data then Inl OutOfBounds
      else
        (let (addr, len) = data ! i;
             (regions, addr) = shift_loop (take 3 shifts) 0 regions addr len
         in rbind (reference_loop sid (Suc i) k data regions) (\<lambda>(rs, regions).
              Inr (Sglist sid (of_nat i) addr (ucast len) # rs, regions))))"

definition send_reference_to_portal :: "int \<Rightarrow> dma_entry list \<Rightarrow> u32 \<Rightarrow> (int \<times> mmu_req list) result" where
  "send_reference_to_portal num data sid =
     rbind (reference_loop sid 0 (nat num) data [0, 0, 0]) (\<lambda>(rs, regions).
       Inr (sint sid, rs @ [region_request sid regions]))"

section \<open>What the requests do to the translation unit\<close>

lemma signed_drop_bit_of_nat:
  assumes "x < 2 ^ 63"
  shows "signed_drop_bit n (of_nat x :: u64) = of_nat (x div 2 ^ n)"
proof (rule word_unat_eq_iff [THEN iffD2])
  let ?w = "of_nat x :: u64"
  have w: "unat ?w = x" using assms by (simp add: unat_of_nat)
  then have "sint ?w = int x" using assms by (subst sint_int_unat) simp_all
  then have "sint (signed_drop_bit n ?w) = int (x div 2 ^ n)"
    by (simp add: sint_signed_drop_bit_eq drop_bit_eq_div zdiv_int)
  moreover have "of_int (sint (signed_drop_bit n ?w)) = signed_drop_bit n ?w" by simp
  ultimately have "signed_drop_bit n ?w = of_int (int (x div 2 ^ n))" by (simp only:)
  then show "unat (signed_drop_bit n ?w) = unat (of_nat (x div 2 ^ n) :: u64)" by simp
qed

text \<open>The shift of a block length, and the blocks the registration supports.\<close>

definition ord_shift :: "nat \<Rightarrow> nat" where
  "ord_shift len = (if len = 2 ^ 20 then 20 else if len = 2 ^ 16 then 16 else 12)"

definition sg_dma_ok :: "sg_entry \<Rightarrow> bool" where
  "sg_dma_ok s \<longleftrightarrow> sg_length s \<in> {2 ^ 20, 2 ^ 16, 2 ^ 12} \<and> sg_length s dvd sg_phys s \<and> sg_phys s < 2 ^ 44"

definition page_number :: "sg_entry \<Rightarrow> nat" where
  "page_number s = sg_phys s div sg_length s"

fun bump :: "nat \<Rightarrow> u32 list \<Rightarrow> u32 list" where
  "bump len rs = (if len = 2 ^ 20 then rs[0 := rs ! 0 + 1]
                  else if len = 2 ^ 16 then rs[1 := rs ! 1 + 1] else rs[Suc (Suc 0) := rs ! Suc (Suc 0) + 1])"

lemma shift_loop_entry:
  assumes "sg_dma_ok s"
  shows "shift_loop (take 3 shifts) 0 regions (of_nat (sg_phys s)) (of_nat (sg_length s)) =
         (bump (sg_length s) regions, of_nat (page_number s))"
proof -
  have "sg_phys s < 2 ^ 63" using assms by (simp add: sg_dma_ok_def)
  then show ?thesis
    using assms by (auto simp: sg_dma_ok_def shifts_def numeral_3_eq_3 page_number_def push_bit_eq_mult
        signed_drop_bit_of_nat)
qed

lemma sglist_loop_Cons:
  assumes "sg_dma_ok s"
  shows "fst (sglist_loop sid i (dma_entry_of s # es) regions) =
      Sglist sid (of_nat i) (of_nat (page_number s)) (ucast (of_nat (sg_length s) :: u64)) #
      fst (sglist_loop sid (Suc i) es (bump (sg_length s) regions))"
    and "snd (sglist_loop sid i (dma_entry_of s # es) regions) =
      snd (sglist_loop sid (Suc i) es (bump (sg_length s) regions))"
  using assms by (simp_all add: dma_entry_of_def shift_loop_entry split: prod.splits)

definition count_len :: "nat \<Rightarrow> sg_entry list \<Rightarrow> nat" where
  "count_len len ss = length (filter (\<lambda>s. sg_length s = len) ss)"

lemma sglist_loop_regions:
  "\<forall>s \<in> set ss. sg_dma_ok s \<Longrightarrow>
   snd (sglist_loop sid i (map dma_entry_of ss) [a, b, c]) =
     [a + of_nat (count_len (2 ^ 20) ss), b + of_nat (count_len (2 ^ 16) ss), c + of_nat (count_len (2 ^ 12) ss)]"
proof (induction ss arbitrary: i a b c)
  case (Cons s ss)
  then have "sg_length s \<in> {2 ^ 20, 2 ^ 16, 2 ^ 12}" by (simp add: sg_dma_ok_def)
  with Cons show ?case by (auto simp: sglist_loop_Cons count_len_def algebra_simps)
qed (simp add: count_len_def)

text \<open>
  Running the requests of the block loop: the entries of the list hold the page numbers, every
  other list and the region table are as before.
\<close>

lemma sglist_loop_mmu:
  assumes "iid = ucast (drop_bit 16 sid)" and "\<forall>s \<in> set ss. sg_dma_ok s" and "i + length ss < 256"
  shows "\<exists>m'. mmu_requests iid (fst (sglist_loop sid i (map dma_entry_of ss) regions)) m = Inr m' \<and>
    regall m' = regall m \<and> (\<forall>l. l \<noteq> ucast sid \<longrightarrow> mmu_pages m' l = mmu_pages m l) \<and>
    (\<forall>j < i. mmu_pages m' (ucast sid) (of_nat j) = mmu_pages m (ucast sid) (of_nat j)) \<and>
    (\<forall>j < length ss. mmu_pages m' (ucast sid) (of_nat (i + j)) = of_nat (page_number (ss ! j)))"
  using assms(2,3)
proof (induction ss arbitrary: i regions m)
  case Nil
  have "(of_nat j :: u8) \<noteq> of_nat i" if "j < i" for j
    using that Nil by (simp add: word_unat_eq_iff unat_of_nat)
  moreover have "ucast (of_nat i :: u32) = (of_nat i :: u8)"
    using Nil by (simp add: word_unat_eq_iff unat_of_nat unat_ucast_mod)
  ultimately show ?case using assms(1) by (auto simp: mmu_request_def mmu_sglist_def)
next
  case (Cons s ss)
  have inj: "(of_nat j :: u8) \<noteq> of_nat i" if "j < i" for j
    using that Cons.prems by (simp add: word_unat_eq_iff unat_of_nat)
  have cast: "ucast (of_nat i :: u32) = (of_nat i :: u8)"
    using Cons.prems by (simp add: word_unat_eq_iff unat_of_nat unat_ucast_mod)
  have pg: "ucast (of_nat (page_number s) :: u64) = (of_nat (page_number s) :: u32)"
    by (simp add: word_unat_eq_iff unat_of_nat unat_ucast_mod mod_mod_cancel)
  let ?m1 = "m\<lparr>mmu_pages := (mmu_pages m)(ucast sid :=
      (mmu_pages m (ucast sid))(of_nat i := of_nat (page_number s)))\<rparr>"
  have "mmu_request iid (Sglist sid (of_nat i) (of_nat (page_number s)) len) m = Inr ?m1" for len
    using assms(1) by (simp add: mmu_request_def mmu_sglist_def cast pg)
  moreover from Cons.IH [of "Suc i" "bump (sg_length s) regions" ?m1] Cons.prems
  obtain m' where m': "mmu_requests iid (fst (sglist_loop sid (Suc i) (map dma_entry_of ss)
        (bump (sg_length s) regions))) ?m1 = Inr m'"
    "regall m' = regall m" "\<forall>l. l \<noteq> ucast sid \<longrightarrow> mmu_pages m' l = mmu_pages ?m1 l"
    "\<forall>j < Suc i. mmu_pages m' (ucast sid) (of_nat j) = mmu_pages ?m1 (ucast sid) (of_nat j)"
    "\<forall>j < length ss. mmu_pages m' (ucast sid) (of_nat (Suc i + j)) = of_nat (page_number (ss ! j))"
    by auto
  moreover have "mmu_pages m' (ucast sid) (of_nat j) = mmu_pages m (ucast sid) (of_nat j)" if "j < i" for j
    using m'(4) inj [OF that] less_SucI [OF that] by simp
  moreover have "mmu_pages m' (ucast sid) (of_nat (i + j)) = of_nat (page_number ((s # ss) ! j))"
    if "j < length (s # ss)" for j
    using m'(4,5) that by (cases j) (simp_all del: of_nat_Suc of_nat_add)
  ultimately show ?case
    using Cons.prems(1) by (intro exI [of _ m']) (auto simp: sglist_loop_Cons simp del: bump.simps)
qed

section \<open>Blocks of one size\<close>

lemma phys_at_blocks:
  assumes "\<forall>s \<in> set ss. sg_length s = L" and "L > 0"
  shows "phys_at (ss @ rest) x =
    (if x div L < length ss then Some (sg_phys (ss ! (x div L)) + x mod L)
     else phys_at rest (x - length ss * L))"
  using assms(1)
proof (induction ss arbitrary: x)
  case (Cons s ss)
  show ?case
  proof (cases "x < L")
    case False
    then have "x div L = Suc ((x - L) div L)" "x mod L = (x - L) mod L"
      using assms(2) by (simp_all add: le_div_geq le_mod_geq)
    with False Cons show ?thesis by (simp add: algebra_simps)
  qed (use Cons in simp)
qed simp

definition with_len :: "nat \<Rightarrow> sg_entry list \<Rightarrow> sg_entry list" where
  "with_len len ss = filter (\<lambda>s. sg_length s = len) ss"

lemma with_len_length: "length (with_len len ss) = count_len len ss"
  by (simp add: with_len_def count_len_def)

lemma with_len_all: "\<forall>s \<in> set (with_len len ss). sg_length s = len"
  by (simp add: with_len_def)

text \<open>A table sorted by block size is its three groups one after the other.\<close>

lemma sg_wf_groups:
  assumes "sg_wf ss"
  shows "with_len (2 ^ 20) ss @ with_len (2 ^ 16) ss @ with_len (2 ^ 12) ss = ss"
  using assms
proof (induction ss)
  case (Cons s ss)
  then have wf: "sg_wf ss" and s: "sg_length s \<in> {2 ^ 20, 2 ^ 16, 2 ^ 12}"
    and le: "\<forall>x \<in> set ss. sg_length x \<le> sg_length s"
    by (auto simp: sg_wf_def)
  have none: "with_len len ss = []" if "len > sg_length s" for len
    using le that by (force simp: with_len_def filter_empty_conv)
  from s Cons.IH [OF wf] show ?case
    using none [of "2 ^ 16"] none [of "2 ^ 20"] by (auto simp: with_len_def)
qed (simp add: with_len_def)

lemma count_len_total:
  assumes "sg_wf ss"
  shows "count_len (2 ^ 20) ss + count_len (2 ^ 16) ss + count_len (2 ^ 12) ss = length ss"
  using arg_cong [OF sg_wf_groups [OF assms], of length] by (simp add: with_len_length)

section \<open>The regions\<close>

text \<open>The region record the hardware stores for \<open>a\<close>, \<open>b\<close> and \<open>c\<close> blocks of the three sizes.\<close>

definition region_of :: "nat \<Rightarrow> nat \<Rightarrow> nat \<Rightarrow> region" where
  "region_of a b c =
     \<lparr>reg8 = \<lparr>barrier = of_nat a, idxOffset = of_nat 0\<rparr>,
      reg4 = \<lparr>barrier = of_nat (16 * a + b), idxOffset = of_nat (241 * a)\<rparr>,
      reg0 = \<lparr>barrier = of_nat (256 * a + 16 * b + c), idxOffset = of_nat (a + 241 * b)\<rparr>\<rparr>"

lemma ucast_of_nat_small:
  assumes "n < 2 ^ LENGTH('a)"
  shows "(ucast (of_nat n :: 'a::len word) :: 'b::len word) = of_nat n"
  using assms by (simp add: word_unat_eq_iff unat_of_nat unat_ucast_mod)

lemma region_request_mmu:
  assumes "a + b + c < 256"
  shows "mmu_request iid (region_request sid [of_nat a, of_nat b, of_nat c]) m =
         Inr (m\<lparr>regall := (regall m)(ucast sid \<mapsto> region_of a b c)\<rparr>)"
proof -
  have casts: "(ucast (of_nat a :: u32) :: u64) = of_nat a" "(ucast (of_nat b :: u32) :: u64) = of_nat b"
    "(ucast (of_nat c :: u32) :: u64) = of_nat c" "(ucast (of_nat a :: u32) :: u8) = of_nat a"
    "(ucast (of_nat b :: u32) :: u8) = of_nat b"
    using assms by (simp_all add: ucast_of_nat_small)
  have x: "of_nat (16 * a) + of_nat b = (of_nat (16 * a + b) :: u64)"
    "of_nat (256 * a + 16 * b) + of_nat c = (of_nat (256 * a + 16 * b + c) :: u64)"
    "push_bit 4 (of_nat a :: u64) = of_nat (16 * a)"
    "push_bit 4 (of_nat (16 * a + b) :: u64) = of_nat (256 * a + 16 * b)"
    by (simp_all add: push_bit_eq_mult algebra_simps)
  have y: "(ucast (of_nat (16 * a) :: u64) :: u8) = of_nat (16 * a)"
    "(ucast (of_nat (256 * a + 16 * b) :: u64) :: u8) = of_nat (256 * a + 16 * b)"
    "(ucast (of_nat (16 * a + b) :: u64) :: u32) = of_nat (16 * a + b)"
    "(ucast (of_nat (256 * a + 16 * b + c) :: u64) :: u32) = of_nat (256 * a + 16 * b + c)"
    "(ucast (of_nat a :: u64) :: u32) = of_nat a"
    using assms by (intro ucast_of_nat_small; simp)+
  have u8: "(256 :: u8) = 0" by simp
  have z: "(of_nat a :: u8) - of_nat (16 * a) = of_nat (241 * a)"
    "(of_nat a + of_nat b :: u8) - of_nat (256 * a + 16 * b) = of_nat (a + 241 * b)"
    by (simp_all add: algebra_simps u8)
  have u: "ucast (ucast w :: u32) = w" for w :: u8
    using unat_less_size [of w] by (simp add: word_unat_eq_iff unat_ucast_mod)
  show ?thesis
    by (simp add: u region_request_def shift_steps_def shifts_def Let_def casts x y z
        mmu_request_def mmu_region_def region_of_def del: of_nat_add of_nat_mult)
qed

section \<open>Registration programs the translation\<close>

text \<open>The state of the unit that describes a table: its regions and the page number of every block.\<close>

definition mmu_holds :: "mmu \<Rightarrow> list_id \<Rightarrow> sg_entry list \<Rightarrow> bool" where
  "mmu_holds m l ss \<longleftrightarrow>
     regall m l = Some (region_of (count_len (2 ^ 20) ss) (count_len (2 ^ 16) ss) (count_len (2 ^ 12) ss)) \<and>
     (\<forall>j < length ss. mmu_pages m l (of_nat j) = of_nat (page_number (ss ! j)))"

lemma send_entries_mmu:
  assumes "iid = ucast (drop_bit 16 sid)" and "\<forall>s \<in> set ss. sg_dma_ok s" and "sg_wf ss"
    and "length ss < 256"
  shows "\<exists>m'. mmu_requests iid (send_entries sid (map dma_entry_of ss)) m = Inr m' \<and>
           mmu_holds m' (ucast sid) ss \<and>
           (\<forall>l. l \<noteq> ucast sid \<longrightarrow> mmu_pages m' l = mmu_pages m l \<and> regall m' l = regall m l)"
proof -
  from sglist_loop_mmu [OF assms(1,2), of 0 "[0, 0, 0]" m] assms(4)
  obtain m1 where m1: "mmu_requests iid (fst (sglist_loop sid 0 (map dma_entry_of ss) [0, 0, 0])) m = Inr m1"
    "regall m1 = regall m" "\<forall>l. l \<noteq> ucast sid \<longrightarrow> mmu_pages m1 l = mmu_pages m l"
    "\<forall>j < length ss. mmu_pages m1 (ucast sid) (of_nat j) = of_nat (page_number (ss ! j))"
    by auto
  have "count_len (2 ^ 20) ss + count_len (2 ^ 16) ss + count_len (2 ^ 12) ss < 256"
    using count_len_total [OF assms(3)] assms(4) by simp
  from region_request_mmu [OF this, of iid sid m1]
  show ?thesis
    using m1 sglist_loop_regions [OF assms(2), of sid 0 0 0 0]
    by (auto simp: send_entries_def mmu_requests_append mmu_holds_def split: prod.splits)
qed

lemma ucast_unat: "(ucast (w :: 'a::len word) :: 'b::len word) = of_nat (unat w)"
  by (simp add: word_unat_eq_iff unat_ucast_mod unat_of_nat)

text \<open>The three hits of the lookup, as one statement about a group of blocks of size \<open>2 ^ sh\<close>.\<close>

lemma page_hit:
  assumes "sg_dma_ok s" and "sg_length s = 2 ^ sh" and "sh \<in> {12, 16, 20}"
  shows "ucast (stage5 (if sh = 12 then 1 else if sh = 16 then 2 else 3) (of_nat (page_number s)) off) =
         (of_nat (sg_phys s + unat off mod 2 ^ sh) :: 'a::len word)"
proof -
  have "page_number s * 2 ^ sh = sg_phys s" "page_number s < 2 ^ (44 - sh)"
    using assms by (auto simp: sg_dma_ok_def page_number_def less_mult_imp_div_less)
  with assms(3) have "unat (stage5 (if sh = 12 then 1 else if sh = 16 then 2 else 3) (of_nat (page_number s)) off) =
      sg_phys s + unat off mod 2 ^ sh"
    by (auto simp: unat_stage5 unat_of_nat simp del: One_nat_def)
  then show ?thesis by (simp only: ucast_unat)
qed

lemma region_of_barriers:
  assumes "a + b + c < 256"
  shows "unat (barrier (reg8 (region_of a b c))) = a" "unat (barrier (reg4 (region_of a b c))) = 16 * a + b"
    "unat (barrier (reg0 (region_of a b c))) = 256 * a + 16 * b + c"
  using assms by (simp_all add: region_of_def unat_of_nat del: of_nat_add of_nat_mult)

lemma sub_block:
  assumes "\<not> x div 2 ^ 20 < (a :: nat)"
  shows "(x - a * 2 ^ 20) div 2 ^ 16 = x div 2 ^ 16 - 16 * a" "(x - a * 2 ^ 20) mod 2 ^ 16 = x mod 2 ^ 16"
    "16 * a \<le> x div 2 ^ 16"
proof -
  have "16 * a * 2 ^ 16 \<le> x" using assms by simp
  from div_mod_sub [OF this] show "(x - a * 2 ^ 20) div 2 ^ 16 = x div 2 ^ 16 - 16 * a"
    "(x - a * 2 ^ 20) mod 2 ^ 16 = x mod 2 ^ 16" "16 * a \<le> x div 2 ^ 16"
    by (simp_all add: mult.commute)
qed

lemma sub_block2:
  assumes "\<not> x div 2 ^ 20 < (a :: nat)" and "\<not> x div 2 ^ 16 < 16 * a + b"
  shows "(x - a * 2 ^ 20 - b * 2 ^ 16) div 2 ^ 12 = x div 2 ^ 12 - (256 * a + 16 * b)"
    "(x - a * 2 ^ 20 - b * 2 ^ 16) mod 2 ^ 12 = x mod 2 ^ 12" "256 * a + 16 * b \<le> x div 2 ^ 12"
proof -
  have le: "(256 * a + 16 * b) * 2 ^ 12 \<le> x" using assms by simp
  have "x - a * 2 ^ 20 - b * 2 ^ 16 = x - (256 * a + 16 * b) * 2 ^ 12" by (simp add: algebra_simps)
  with div_mod_sub [OF le] show "(x - a * 2 ^ 20 - b * 2 ^ 16) div 2 ^ 12 = x div 2 ^ 12 - (256 * a + 16 * b)"
    "(x - a * 2 ^ 20 - b * 2 ^ 16) mod 2 ^ 12 = x mod 2 ^ 12" "256 * a + 16 * b \<le> x div 2 ^ 12"
    by simp_all
qed

lemma sg_wf_nth_length:
  assumes "sg_wf ss" and "j < length ss"
  shows "sg_length (ss ! j) =
    (if j < count_len (2 ^ 20) ss then 2 ^ 20
     else if j < count_len (2 ^ 20) ss + count_len (2 ^ 16) ss then 2 ^ 16 else 2 ^ 12)"
proof -
  define A B C where "A = with_len (2 ^ 20) ss" and "B = with_len (2 ^ 16) ss" and "C = with_len (2 ^ 12) ss"
  have len: "count_len (2 ^ 20) ss = length A" "count_len (2 ^ 16) ss = length B"
    and all: "\<forall>s \<in> set A. sg_length s = 2 ^ 20" "\<forall>s \<in> set B. sg_length s = 2 ^ 16" "\<forall>s \<in> set C. sg_length s = 2 ^ 12"
    unfolding A_def B_def C_def by (rule with_len_length [symmetric] with_len_all)+
  have ss: "ss = A @ B @ C" using sg_wf_groups [OF assms(1)] by (simp only: A_def B_def C_def)
  have "sg_length ((A @ B @ C) ! j) =
      (if j < length A then 2 ^ 20 else if j < length A + length B then 2 ^ 16 else 2 ^ 12)"
    using all assms(2) ss by (auto simp: nth_append)
  then show ?thesis by (simp only: len flip: ss)
qed

text \<open>The address of a byte through the three groups, indexed in the whole table.\<close>

lemma phys_at_groups:
  fixes ss x
  defines "a \<equiv> count_len (2 ^ 20) ss" and "b \<equiv> count_len (2 ^ 16) ss" and "c \<equiv> count_len (2 ^ 12) ss"
  assumes "sg_wf ss"
  shows "phys_at ss x =
    (if x div 2 ^ 20 < a then Some (sg_phys (ss ! (x div 2 ^ 20)) + x mod 2 ^ 20)
     else if x div 2 ^ 16 < 16 * a + b then Some (sg_phys (ss ! (x div 2 ^ 16 - 15 * a)) + x mod 2 ^ 16)
     else if x div 2 ^ 12 < 256 * a + 16 * b + c
     then Some (sg_phys (ss ! (x div 2 ^ 12 - (255 * a + 15 * b))) + x mod 2 ^ 12)
     else None)"
proof -
  define A B C where "A = with_len (2 ^ 20) ss" and "B = with_len (2 ^ 16) ss" and "C = with_len (2 ^ 12) ss"
  have len: "length A = a" "length B = b" "length C = c"
    and all: "\<forall>s \<in> set A. sg_length s = 2 ^ 20" "\<forall>s \<in> set B. sg_length s = 2 ^ 16" "\<forall>s \<in> set C. sg_length s = 2 ^ 12"
    unfolding A_def B_def C_def a_def b_def c_def by (rule with_len_length with_len_all)+
  have ss: "ss = A @ B @ C" using sg_wf_groups [OF assms(4)] by (simp only: A_def B_def C_def)
  have nth: "ss ! k = A ! k" if "k < a" for k by (subst ss) (simp add: nth_append len that)
  have nthB: "ss ! (a + k) = B ! k" if "k < b" for k by (subst ss) (simp add: nth_append len that)
  have nthC: "ss ! (a + b + k) = C ! k" for k by (subst ss) (simp add: nth_append len)
  have 1: "phys_at ss x = (if x div 2 ^ 20 < a then Some (sg_phys (A ! (x div 2 ^ 20)) + x mod 2 ^ 20)
      else phys_at (B @ C) (x - a * 2 ^ 20))"
    by (subst ss, subst phys_at_blocks [OF all(1)]) (simp_all add: len)
  have 2: "phys_at (B @ C) y = (if y div 2 ^ 16 < b then Some (sg_phys (B ! (y div 2 ^ 16)) + y mod 2 ^ 16)
      else phys_at C (y - b * 2 ^ 16))" for y
    by (subst phys_at_blocks [OF all(2)]) (simp_all add: len)
  have 3: "phys_at C y = (if y div 2 ^ 12 < c then Some (sg_phys (C ! (y div 2 ^ 12)) + y mod 2 ^ 12) else None)" for y
    using phys_at_blocks [OF all(3), of "[]" y] by (simp add: len)
  consider "x div 2 ^ 20 < a" | "\<not> x div 2 ^ 20 < a" "x div 2 ^ 16 < 16 * a + b"
    | "\<not> x div 2 ^ 20 < a" "\<not> x div 2 ^ 16 < 16 * a + b" by blast
  then show ?thesis
  proof cases
    case 1
    then show ?thesis unfolding \<open>phys_at ss x = _\<close> by (simp add: nth)
  next
    case c2: 2
    note s = sub_block [OF c2(1)]
    have e: "x div 2 ^ 16 - 15 * a = a + (x div 2 ^ 16 - 16 * a)" and lt: "x div 2 ^ 16 - 16 * a < b"
      using s(3) c2(2) by linarith+
    show ?thesis unfolding 1 2 s(1,2) e nthB [OF lt] using c2 lt by simp
  next
    case c3: 3
    note s = sub_block [OF c3(1)] and s2 = sub_block2 [OF c3]
    have e: "x div 2 ^ 12 - (255 * a + 15 * b) = a + b + (x div 2 ^ 12 - (256 * a + 16 * b))"
      and lt: "\<not> x div 2 ^ 16 - 16 * a < b"
      "x div 2 ^ 12 - (256 * a + 16 * b) < c \<longleftrightarrow> x div 2 ^ 12 < 256 * a + 16 * b + c"
      using s(3) s2(3) c3(2) by linarith+
    show ?thesis unfolding 1 2 3 s(1,2) s2(1,2) e nthC using c3 lt by simp
  qed
qed

lemma region_of_lookup:
  assumes "a + b + c < 256"
  shows "stage3 (stage2 (region_of a b c) off) (region_of a b c) off =
    (if page_off 20 off < a then (3, ucast (drop_bit 20 off), of_nat 0)
     else if page_off 16 off < 16 * a + b then (2, ucast (drop_bit 16 off), of_nat (241 * a))
     else if page_off 12 off < 256 * a + 16 * b + c then (1, ucast (drop_bit 12 off), of_nat (a + 241 * b))
     else (0, 0, 0))"
  using assms region_of_barriers [OF assms]
  by (subst stage2_nat) (simp_all add: stage3_def region_of_def)

text \<open>Translation in a unit that holds a table answers with the physical address of the byte.\<close>

lemma mmu_translate_holds:
  assumes "mmu_holds m l ss" and "sg_wf ss" and "\<forall>s \<in> set ss. sg_dma_ok s" and "length ss < 256"
  shows "mmu_translate m l off =
    (case phys_at ss (unat off) of
       None \<Rightarrow> Inl DmaErrorOffsetOutOfRange
     | Some x \<Rightarrow> Inr (of_nat x :: 'a::len word))"
proof -
  define a b c where abc: "a = count_len (2 ^ 20) ss" "b = count_len (2 ^ 16) ss" "c = count_len (2 ^ 12) ss"
  have sum: "a + b + c = length ss" using count_len_total [OF assms(2)] by (simp only: abc)
  have r: "regall m l = Some (region_of a b c)" and
    pg: "j < length ss \<Longrightarrow> mmu_pages m l (of_nat j) = of_nat (page_number (ss ! j))" for j
    using assms(1) by (simp_all only: mmu_holds_def abc)
  have phys: "phys_at ss (unat off) =
    (if page_off 20 off < a then Some (sg_phys (ss ! (page_off 20 off)) + unat off mod 2 ^ 20)
     else if page_off 16 off < 16 * a + b then Some (sg_phys (ss ! (page_off 16 off - 15 * a)) + unat off mod 2 ^ 16)
     else if page_off 12 off < 256 * a + 16 * b + c
     then Some (sg_phys (ss ! (page_off 12 off - (255 * a + 15 * b))) + unat off mod 2 ^ 12)
     else None)"
    unfolding page_off_def abc by (rule phys_at_groups [OF assms(2)])
  have group: "sg_length (ss ! j) = (if j < a then 2 ^ 20 else if j < a + b then 2 ^ 16 else 2 ^ 12)"
    if "j < length ss" for j
    unfolding abc by (rule sg_wf_nth_length [OF assms(2) that])
  have sum': "a + b + c < 256" using sum assms(4) by simp
  note T = mmu_translate_def r option.case region_of_lookup [OF sum']
  consider (8) "page_off 20 off < a"
    | (4) "\<not> page_off 20 off < a" "page_off 16 off < 16 * a + b"
    | (0) "\<not> page_off 20 off < a" "\<not> page_off 16 off < 16 * a + b" "page_off 12 off < 256 * a + 16 * b + c"
    | (none) "\<not> page_off 20 off < a" "\<not> page_off 16 off < 16 * a + b" "\<not> page_off 12 off < 256 * a + 16 * b + c"
    by blast
  then show ?thesis
  proof cases
    case 8
    let ?j = "page_off 20 off"
    have j: "?j < length ss" using 8 sum by simp
    have "ucast (drop_bit 20 off) + of_nat 0 = (of_nat ?j :: u8)" by (rule page_index [of _ _ _ _ 0]) simp
    moreover have "ucast (stage5 3 (of_nat (page_number (ss ! ?j))) off) = (of_nat (sg_phys (ss ! ?j) + unat off mod 2 ^ 20) :: 'a word)"
      using page_hit [of "ss ! ?j" 20 off] assms(3) j group [OF j] 8 by (simp del: of_nat_add One_nat_def)
    ultimately show ?thesis
      using 8 pg [OF j] unfolding T phys by (simp del: of_nat_add)
  next
    case 4
    let ?j = "page_off 16 off - 15 * a"
    have ge: "16 * a \<le> page_off 16 off" using sub_block(3) 4(1) by (simp add: page_off_def)
    then have j: "?j < length ss" "\<not> ?j < a" "?j < a + b" using 4 sum by linarith+
    have "ucast (drop_bit 16 off) + of_nat (241 * a) = (of_nat ?j :: u8)"
      by (rule page_index [of _ _ _ _ a]) (use ge in linarith)
    moreover have "ucast (stage5 2 (of_nat (page_number (ss ! ?j))) off) = (of_nat (sg_phys (ss ! ?j) + unat off mod 2 ^ 16) :: 'a word)"
      using page_hit [of "ss ! ?j" 16 off] assms(3) j group [OF j(1)] by (simp del: of_nat_add One_nat_def)
    ultimately show ?thesis
      using 4 pg [OF j(1)] unfolding T phys by (simp del: of_nat_add of_nat_mult)
  next
    case 0
    let ?j = "page_off 12 off - (255 * a + 15 * b)"
    have ge: "256 * a + 16 * b \<le> page_off 12 off" using sub_block2(3) 0(1,2) by (simp add: page_off_def)
    then have j: "?j < length ss" "\<not> ?j < a" "\<not> ?j < a + b" using 0 sum by linarith+
    obtain k where "page_off 12 off = 256 * a + 16 * b + k" using ge le_Suc_ex by blast
    then have "ucast (drop_bit 12 off) + of_nat (a + 241 * b) = (of_nat ?j :: u8)"
      by (intro page_index [of _ _ _ _ "a + b"]) simp
    moreover have "ucast (stage5 1 (of_nat (page_number (ss ! ?j))) off) = (of_nat (sg_phys (ss ! ?j) + unat off mod 2 ^ 12) :: 'a word)"
      using page_hit [of "ss ! ?j" 12 off] assms(3) j group [OF j(1)] by (simp del: of_nat_add One_nat_def)
    ultimately show ?thesis
      using 0 pg [OF j(1)] unfolding T phys by (simp del: of_nat_mult of_nat_add One_nat_def)
  next
    case none
    then show ?thesis unfolding T phys by simp
  qed
qed

section \<open>The variants of the registration\<close>

lemma reference_loop_eq:
  "i + k = length data \<Longrightarrow>
   reference_loop sid i k data regions = Inr (sglist_loop sid i (drop i data) regions)"
proof (induction k arbitrary: i regions)
  case (Suc k)
  then have i: "i < length data" by simp
  obtain addr len where d: "data ! i = (addr, len)" by (cases "data ! i")
  obtain rg ad where s: "shift_loop (take 3 shifts) 0 regions addr len = (rg, ad)"
    by (cases "shift_loop (take 3 shifts) 0 regions addr len")
  have "drop i data = (addr, len) # drop (Suc i) data" using i d by (simp add: Cons_nth_drop_Suc [symmetric])
  with Suc.IH [of "Suc i" rg] Suc.prems i d s show ?case
    by (simp split: prod.splits)
qed simp

lemma sglist_loop_end:
  "\<exists>rs. fst (sglist_loop sid i es regions) = rs @ [Sglist sid (of_nat (i + length es)) 0 0]"
proof (induction es arbitrary: i regions)
  case (Cons e es)
  obtain addr len where e: "e = (addr, len)" by (cases e)
  obtain rg ad where s: "shift_loop (take 3 shifts) 0 regions addr len = (rg, ad)"
    by (cases "shift_loop (take 3 shifts) 0 regions addr len")
  from Cons.IH [of "Suc i" rg] obtain rs where
    "fst (sglist_loop sid (Suc i) es rg) = rs @ [Sglist sid (of_nat (Suc i + length es)) 0 0]" by blast
  then show ?case
    by (intro exI [of _ "Sglist sid (of_nat i) ad (ucast len) # rs"], cases "sglist_loop sid (Suc i) es rg")
       (simp add: e s)
qed simp

lemma sglist_loop_succeeds:
  assumes "iid = ucast (drop_bit 16 sid)"
  shows "\<exists>m'. mmu_requests iid (fst (sglist_loop sid i es regions)) m = Inr m'"
proof (induction es arbitrary: i regions m)
  case (Cons e es)
  obtain addr len where e: "e = (addr, len)" by (cases e)
  obtain rg ad where s: "shift_loop (take 3 shifts) 0 regions addr len = (rg, ad)"
    by (cases "shift_loop (take 3 shifts) 0 regions addr len")
  from Cons show ?case
    by (cases "sglist_loop sid (Suc i) es rg")
       (simp add: e s mmu_request_def mmu_sglist_def assms, metis fst_conv)
qed (simp add: mmu_request_def mmu_sglist_def assms)

lemma send_entries_succeeds:
  assumes "iid = ucast (drop_bit 16 sid)"
  shows "\<exists>m'. mmu_requests iid (send_entries sid es) m = Inr m'"
proof -
  from sglist_loop_succeeds [OF assms] obtain m1 where
    "mmu_requests iid (fst (sglist_loop sid 0 es [0, 0, 0])) m = Inr m1" by blast
  then show ?thesis
    by (cases "sglist_loop sid 0 es [0, 0, 0]")
       (simp add: send_entries_def mmu_requests_append region_request_def mmu_request_def Let_def)
qed

text \<open>The blocks the simulation registers: offsets in the buffer, tagged with the list number.\<close>

fun bsim_blocks :: "u32 \<Rightarrow> nat \<Rightarrow> sg_entry list \<Rightarrow> sg_entry list" where
  "bsim_blocks sid x [] = []"
| "bsim_blocks sid x (s # ss) =
     \<lparr>sg_page = unat sid * 2 ^ 20 + x div PAGE_SIZE, sg_length = sg_length s\<rparr> #
     bsim_blocks sid (x + sg_length s) ss"

lemma length_bsim_blocks: "length (bsim_blocks sid x ss) = length ss"
  by (induction ss arbitrary: x) simp_all

lemma sg_lengths_bsim_blocks: "map sg_length (bsim_blocks sid x ss) = map sg_length ss"
  by (induction ss arbitrary: x) simp_all

lemma sg_wf_bsim_blocks: "sg_wf ss \<Longrightarrow> sg_wf (bsim_blocks sid x ss)"
proof -
  assume "sg_wf ss"
  then have "(\<forall>l \<in> set (map sg_length ss). l \<in> {2 ^ 20, 2 ^ 16, 2 ^ 12}) \<and> sorted_wrt (\<ge>) (map sg_length ss)"
    by (simp add: sg_wf_def)
  then have "(\<forall>l \<in> set (map sg_length (bsim_blocks sid x ss)). l \<in> {2 ^ 20, 2 ^ 16, 2 ^ 12}) \<and>
      sorted_wrt (\<ge>) (map sg_length (bsim_blocks sid x ss))"
    unfolding sg_lengths_bsim_blocks .
  then show ?thesis by (simp add: sg_wf_def)
qed

lemma sg_wf_Cons: "sg_wf (s # ss) \<longleftrightarrow>
  sg_length s \<in> {2 ^ 20, 2 ^ 16, 2 ^ 12} \<and> (\<forall>x \<in> set ss. sg_length x \<le> sg_length s) \<and> sg_wf ss"
  by (auto simp: sg_wf_def)

lemma wf_dvd:
  "sg_wf (s # t # ss) \<Longrightarrow> sg_length t dvd sg_length s"
  by (auto simp: sg_wf_def)

lemma phys_bsim_block:
  assumes "PAGE_SIZE dvd x"
  shows "sg_phys \<lparr>sg_page = unat sid * 2 ^ 20 + x div PAGE_SIZE, sg_length = l\<rparr> = unat sid * 2 ^ 32 + x"
  using assms by (simp add: sg_phys_def PAGE_SIZE_def)

lemma bsim_blocks_ok:
  assumes "sg_wf ss" and "unat sid < 2 ^ 12" and "x + table_size ss \<le> 2 ^ 32"
    and "case ss of [] \<Rightarrow> True | s # _ \<Rightarrow> sg_length s dvd x"
  shows "\<forall>s \<in> set (bsim_blocks sid x ss). sg_dma_ok s"
  using assms
proof (induction ss arbitrary: x)
  case (Cons s ss)
  have l: "sg_length s \<in> {2 ^ 20, 2 ^ 16, 2 ^ 12}" and dx: "sg_length s dvd x" and wf: "sg_wf ss"
    using Cons.prems by (simp_all add: sg_wf_Cons)
  then have pg: "PAGE_SIZE dvd x" "sg_length s dvd 2 ^ 32"
    by (auto simp: PAGE_SIZE_def elim!: dvd_trans [rotated])
  have "sg_dma_ok \<lparr>sg_page = unat sid * 2 ^ 20 + x div PAGE_SIZE, sg_length = sg_length s\<rparr>"
    using Cons.prems(2,3) l dx pg unfolding sg_dma_ok_def phys_bsim_block [OF pg(1)] by auto
  moreover have "case ss of [] \<Rightarrow> True | t # _ \<Rightarrow> sg_length t dvd x + sg_length s"
    using Cons.prems(1) dx wf_dvd by (auto split: list.splits intro: dvd_trans)
  with Cons.IH [OF wf Cons.prems(2), of "x + sg_length s"] Cons.prems(3)
  have "\<forall>s \<in> set (bsim_blocks sid (x + sg_length s) ss). sg_dma_ok s" by (simp add: add.assoc)
  ultimately show ?case by simp
qed simp

lemma phys_at_bsim_blocks:
  assumes "\<forall>s \<in> set ss. PAGE_SIZE dvd sg_length s" and "PAGE_SIZE dvd x"
  shows "phys_at (bsim_blocks sid x ss) y = (if y < table_size ss then Some (unat sid * 2 ^ 32 + x + y) else None)"
  using assms
proof (induction ss arbitrary: x y)
  case (Cons s ss)
  then show ?case using phys_bsim_block [OF Cons.prems(2)] by (auto simp: dvd_add)
qed simp

text \<open>The answers of \<open>PA_ELEMENT_SIZE\<close> for a table.\<close>

definition table_elem :: "sg_entry list \<Rightarrow> nat \<Rightarrow> int" where
  "table_elem ss i = int (element_size_loop ss 0 (int i))"

lemma table_elem_nth: "table_elem ss i = (if i < length ss then int (sg_length (ss ! i)) else 0)"
  using element_size_loop_nth [of ss 0 i] by (simp add: table_elem_def)

lemma bsim_address:
  fixes sid :: u32
  assumes "x < 2 ^ 31" and "unat sid < 2 ^ 12"
  shows "scast (of_nat x :: u32) OR push_bit 32 (scast sid) = (of_nat (unat sid * 2 ^ 32 + x) :: u64)"
proof -
  have "scast (of_nat x :: u32) = (of_nat x :: u64)" using assms(1) by (intro scast_of_nat) simp
  moreover have "scast (of_nat (unat sid) :: u32) = (of_nat (unat sid) :: u64)"
    using assms(2) by (intro scast_of_nat) simp
  moreover have "(of_nat (unat sid) :: u32) = sid" by simp
  moreover have "(of_nat x :: u64) OR push_bit 32 (of_nat (unat sid)) = of_nat x + push_bit 32 (of_nat (unat sid))"
    using assms(1) by (intro or_push_bit) (simp add: unat_of_nat)
  ultimately show ?thesis by (simp add: push_bit_eq_mult del: of_nat_unat)
qed

lemma bsim_loop_eq:
  assumes "sg_wf all" and "unat sid < 2 ^ 12" and "x + table_size (drop i all) \<le> 2 ^ 31" and "PAGE_SIZE dvd x"
  shows "bsim_loop (table_elem all) sid i (of_nat x) regions =
    Some (fst (sglist_loop sid i (map dma_entry_of (bsim_blocks sid x (drop i all))) regions),
          snd (sglist_loop sid i (map dma_entry_of (bsim_blocks sid x (drop i all))) regions), None)"
  using assms(3,4)
proof (induction "length all - i" arbitrary: i x regions)
  case 0
  then show ?case by (subst bsim_loop.simps) (simp add: table_elem_nth)
next
  case (Suc n)
  then have i: "i < length all" by simp
  let ?l = "sg_length (all ! i)"
  have d: "drop i all = all ! i # drop (Suc i) all" using i by (simp add: Cons_nth_drop_Suc)
  have l: "?l \<in> {2 ^ 20, 2 ^ 16, 2 ^ 12}" using assms(1) i by (auto simp: sg_wf_def)
  have x: "x < 2 ^ 31" and sz: "x + ?l + table_size (drop (Suc i) all) \<le> 2 ^ 31" and pg: "PAGE_SIZE dvd x + ?l"
    using Suc.prems l by (auto simp: d PAGE_SIZE_def intro: dvd_add)
  have e: "table_elem all i = int ?l" using i by (simp add: table_elem_nth)
  let ?b = "\<lparr>sg_page = unat sid * 2 ^ 20 + x div PAGE_SIZE, sg_length = ?l\<rparr>"
  have entry: "dma_entry_of ?b = (scast (of_nat x :: u32) OR push_bit 32 (scast sid), of_int (int ?l))"
    unfolding dma_entry_of_def bsim_address [OF x assms(2)] phys_bsim_block [OF Suc.prems(2)] by simp
  have len: "(of_int (int ?l) :: u32) = ucast (of_int (int ?l) :: u64)"
    using l by auto
  from Suc.hyps(1) [of "Suc i" "x + ?l"] Suc.hyps(2) sz pg
  have IH: "bsim_loop (table_elem all) sid (Suc i) (of_nat x + of_int (int ?l)) rg =
    Some (fst (sglist_loop sid (Suc i) (map dma_entry_of (bsim_blocks sid (x + ?l) (drop (Suc i) all))) rg),
          snd (sglist_loop sid (Suc i) (map dma_entry_of (bsim_blocks sid (x + ?l) (drop (Suc i) all))) rg), None)" for rg
    by simp
  obtain rg ad where s: "shift_loop (take 3 shifts) 0 regions
      (scast (of_nat x :: u32) OR push_bit 32 (scast sid)) (of_int (int ?l)) = (rg, ad)"
    by fastforce
  have pos: "int ?l > 0" using l by auto
  show ?case
    unfolding d bsim_blocks.simps list.map entry
    by (subst bsim_loop.simps,
        cases "sglist_loop sid (Suc i) (map dma_entry_of (bsim_blocks sid (x + ?l) (drop (Suc i) all))) rg")
       (use pos in \<open>simp add: Let_def e s IH len [symmetric] del: of_int_of_nat_eq\<close>)
qed

section \<open>Properties\<close>

text \<open>
  C3: running the requests of a registration on the translation unit succeeds; afterwards the
  unit translates every offset of the buffer to the physical address of that byte, reports every
  offset past the end as out of range, and translates all other lists as before.
\<close>

theorem registration_translates:
  assumes "sg_wf ss" and "\<forall>s \<in> set ss. sg_dma_ok s" and "length ss < 256"
    and "iid = ucast (drop_bit 16 sid)"
  shows "\<exists>m'. mmu_requests iid (send_entries sid (map dma_entry_of ss)) m = Inr m' \<and>
    (\<forall>off. mmu_translate m' (ucast sid) off =
       (case phys_at ss (unat off) of
          None \<Rightarrow> Inl DmaErrorOffsetOutOfRange
        | Some x \<Rightarrow> Inr (of_nat x :: 'a::len word))) \<and>
    (\<forall>l off. l \<noteq> ucast sid \<longrightarrow> mmu_translate m' l off = (mmu_translate m l off :: dma_error + 'a word))"
proof -
  from send_entries_mmu [OF assms(4,2,1,3)] obtain m' where
    m': "mmu_requests iid (send_entries sid (map dma_entry_of ss)) m = Inr m'" "mmu_holds m' (ucast sid) ss"
      "\<forall>l. l \<noteq> ucast sid \<longrightarrow> mmu_pages m' l = mmu_pages m l \<and> regall m' l = regall m l"
    by blast
  then have "mmu_translate m' l off = (mmu_translate m l off :: dma_error + 'a word)" if "l \<noteq> ucast sid" for l off
    by (intro mmu_translate_cong) (use m'(3) that in blast)+
  with m' mmu_translate_holds [OF m'(2) assms(1-3), where 'a = 'a] show ?thesis by blast
qed

text \<open>A unit with no list registered, for concrete runs.\<close>

definition blank_mmu :: mmu where
  "blank_mmu = \<lparr>regall = (\<lambda>_. None), mmu_pages = (\<lambda>_ _. 0)\<rparr>"

definition demo_table :: "sg_entry list" where
  "demo_table = [\<lparr>sg_page = 512, sg_length = 1048576\<rparr>, \<lparr>sg_page = 272, sg_length = 65536\<rparr>,
                 \<lparr>sg_page = 7, sg_length = 4096\<rparr>]"

lemma demo_table_ok: "sg_wf demo_table" "\<forall>s \<in> set demo_table. sg_dma_ok s" "length demo_table < 256"
  by (simp_all add: demo_table_def sg_wf_def sg_dma_ok_def sg_phys_def PAGE_SIZE_def)

theorem registration_translates_witness:
  "\<exists>m'. mmu_requests 0 (send_entries 3 (map dma_entry_of demo_table)) blank_mmu = Inr m' \<and>
     mmu_translate m' 3 1114117 = Inr (7 * 4096 + 5 :: 40 word) \<and>
     mmu_translate m' 3 1118208 = (Inl DmaErrorOffsetOutOfRange :: dma_error + 40 word)"
proof -
  have l: "ucast (3 :: u32) = (3 :: list_id)" and i: "0 = (ucast (drop_bit 16 (3 :: u32)) :: u16)" by simp_all
  from registration_translates [OF demo_table_ok i, where 'a = 40 and m = blank_mmu]
  obtain m' where m': "mmu_requests 0 (send_entries 3 (map dma_entry_of demo_table)) blank_mmu = Inr m'"
    "\<forall>off. mmu_translate m' 3 off =
       (case phys_at demo_table (unat off) of
          None \<Rightarrow> Inl DmaErrorOffsetOutOfRange | Some x \<Rightarrow> Inr (of_nat x :: 40 word))"
    unfolding l by blast
  have "phys_at demo_table (unat (1114117 :: mem_offset)) = Some (7 * 4096 + 5)"
    "phys_at demo_table (unat (1118208 :: mem_offset)) = None"
    by (simp_all add: demo_table_def sg_phys_def PAGE_SIZE_def)
  with m' show ?thesis by simp
qed

text \<open>
  \<open>send_reference_to_portal\<close> called with the length of its array issues exactly the
  requests \<open>send_fd_to_portal\<close> issues for the same blocks.
\<close>

theorem send_reference_is_send_entries:
  "send_reference_to_portal (int (length data)) data sid = Inr (sint sid, send_entries sid data)"
  using reference_loop_eq [of 0 "length data" data sid "[0, 0, 0]"]
  by (simp add: send_reference_to_portal_def send_entries_def split: prod.splits)

text \<open>
  C30: the user-space variant of \<open>send_fd_to_portal\<close>, which learns the blocks through two
  \<open>PA_DMA_ADDRESSES\<close> calls, issues the same requests and returns the same value as the kernel
  variant, which reads the table directly.
\<close>

theorem send_fd_user_matches_kernel:
  assumes "fget E fd = Some b" and "copy_in E" and "\<forall>k. copy_entry E k" and "copy_out E"
  shows "send_fd_to_portal_user K E fd sid s = send_fd_to_portal_kernel (fget E) fd sid"
proof (cases "sg_table b = []")
  case True
  then show ?thesis
    using assms by (simp add: send_fd_to_portal_user_def send_fd_to_portal_kernel_def pa_unlocked_ioctl_def Let_def)
next
  case False
  then have "take (length (sg_table b)) (map (\<lambda>s. (sg_phys s, sg_length s)) (sg_table b) @ [(0, 0)]) =
      map (\<lambda>s. (sg_phys s, sg_length s)) (sg_table b)" by simp
  with False assms show ?thesis
    by (simp add: send_fd_to_portal_user_def send_fd_to_portal_kernel_def pa_unlocked_ioctl_def Let_def
        copy_entries_all dma_entry_of_def [abs_def] comp_def)
qed

theorem send_fd_user_matches_kernel_witness:
  "send_fd_to_portal_user demo_kernel demo_env 5 3 0 =
     Inr (3, send_entries 3 [(1048576, 65536), (1114112, 4096)])"
proof -
  have f: "fget demo_env 5 = Some demo_buffer" "copy_in demo_env" "\<forall>k. copy_entry demo_env k" "copy_out demo_env"
    by (simp_all add: demo_env_def)
  from send_fd_user_matches_kernel [OF f, of demo_kernel 3 0] show ?thesis
    by (simp add: send_fd_to_portal_kernel_def f demo_buffer_def dma_entry_of_def sg_phys_def PAGE_SIZE_def)
qed

text \<open>
  C33: the simulation variant returns, and after its requests the unit translates offset \<open>x\<close> of
  the buffer to the address whose low 32 bits are \<open>x\<close> and whose bits above are the list number.
\<close>

theorem send_fd_bsim_translates:
  assumes "sg_wf ss" and "table_size ss \<le> 2 ^ 31" and "length ss < 256" and "unat sid < 2 ^ 12"
    and "unat off < table_size ss"
  shows "\<exists>rs m'. send_fd_to_portal_bsim (table_elem ss) sid = Inr (sint sid, rs) \<and>
           mmu_requests 0 rs m = Inr m' \<and>
           mmu_translate m' (ucast sid) off = Inr (of_nat (unat sid * 2 ^ 32 + unat off) :: 'a::len word)"
proof -
  let ?bs = "bsim_blocks sid 0 ss"
  have pages: "\<forall>s \<in> set ss. PAGE_SIZE dvd sg_length s" by (rule sg_wf_pages [OF assms(1)])
  have send: "send_fd_to_portal_bsim (table_elem ss) sid = Inr (sint sid, send_entries sid (map dma_entry_of ?bs))"
    using bsim_loop_eq [OF assms(1,4), of 0 0 "[0, 0, 0]"] assms(2)
    by (simp add: send_fd_to_portal_bsim_def send_entries_def split: prod.splits)
  have ok: "\<forall>s \<in> set ?bs. sg_dma_ok s"
    using bsim_blocks_ok [OF assms(1,4), of 0] assms(2) by (simp split: list.splits)
  have iid: "0 = (ucast (drop_bit 16 sid) :: u16)"
    using assms(4) by (simp add: word_unat_eq_iff unat_ucast_mod unat_drop_bit)
  have len: "length ?bs < 256" using assms(3) by (simp add: length_bsim_blocks)
  note wf = sg_wf_bsim_blocks [OF assms(1), of sid 0]
  from send_entries_mmu [OF iid ok wf len] obtain m' where
    m': "mmu_requests 0 (send_entries sid (map dma_entry_of ?bs)) m = Inr m'" "mmu_holds m' (ucast sid) ?bs"
    by blast
  have "phys_at ?bs (unat off) = Some (unat sid * 2 ^ 32 + unat off)"
    using phys_at_bsim_blocks [OF pages, of 0 sid "unat off"] assms(5) by simp
  with mmu_translate_holds [OF m'(2) wf ok len, of off, where 'a = 'a] send m'(1) show ?thesis
    by (metis option.simps(5))
qed

theorem send_fd_bsim_translates_witness:
  "\<exists>rs m'. send_fd_to_portal_bsim (table_elem demo_table) 3 = Inr (3, rs) \<and>
     mmu_requests 0 rs blank_mmu = Inr m' \<and> mmu_translate m' 3 1048600 = Inr (0x300100018 :: 40 word)"
proof -
  have "table_size demo_table \<le> 2 ^ 31" "unat (3 :: u32) < 2 ^ 12" "unat (1048600 :: mem_offset) < table_size demo_table"
    by (simp_all add: demo_table_def)
  from send_fd_bsim_translates [OF demo_table_ok(1) this(1) demo_table_ok(3) this(2,3), of blank_mmu, where 'a = 40]
  show ?thesis by simp
qed

text \<open>
  C36: a buffer of 256 blocks does not fit the unit: the end marker of the list has index 256,
  which the 8-bit entry index reduces to 0, so after the registration the page number of the
  first block is 0.
\<close>

theorem end_marker_overwrites_first_block:
  assumes "length es = 256" and "mmu_requests iid (send_entries sid es) m = Inr m'"
  shows "mmu_pages m' (ucast sid) 0 = 0"
proof -
  obtain rs where rs: "fst (sglist_loop sid 0 es [0, 0, 0]) = rs @ [Sglist sid (of_nat (0 + 256)) 0 0]"
    using sglist_loop_end [of sid 0 es "[0, 0, 0]"] assms(1) by metis
  have "send_entries sid es = rs @ [Sglist sid 256 0 0, region_request sid (snd (sglist_loop sid 0 es [0, 0, 0]))]"
    using rs by (cases "sglist_loop sid 0 es [0, 0, 0]") (simp add: send_entries_def)
  with assms(2) obtain m1 m2 where
    "mmu_request iid (Sglist sid 256 0 0) m1 = Inr m2"
    "mmu_request iid (region_request sid (snd (sglist_loop sid 0 es [0, 0, 0]))) m2 = Inr m'"
    by (auto simp: mmu_requests_append rbind_return elim!: rbind_InrE)
  then show ?thesis
    by (auto simp: mmu_request_def mmu_sglist_def mmu_region_def region_request_def Let_def split: if_splits)
qed

theorem end_marker_overwrites_first_block_witness:
  "\<exists>m'. mmu_requests 0 (send_entries 3 (replicate 256 (0x7000, 0x1000))) blank_mmu = Inr m' \<and>
        mmu_pages m' 3 0 = 0"
proof -
  have "0 = (ucast (drop_bit 16 (3 :: u32)) :: u16)" by simp
  from send_entries_succeeds [OF this] obtain m' where
    m': "mmu_requests 0 (send_entries 3 (replicate 256 (0x7000, 0x1000))) blank_mmu = Inr m'" by blast
  from end_marker_overwrites_first_block [OF _ m'] show ?thesis using m' by simp
qed

end
