(* ===== verification/Portal_Interface.thy ===== *)
theory Portal_Interface
  imports Mmu
begin

text \<open>
  The transport interface of a portal (\<open>cpp/portal.h\<close>: \<open>PortalItemFunctions\<close>), the proxy and
  the dispatcher generated for one interface (\<open>generated/cpp/MMURequest.c\<close>), and the contract a
  transport keeps, as a locale.  The state \<open>'t\<close> of a transport is everything its functions read
  and write: the portal, its buffers, the other end of the connection.  \<open>'s\<close> is the state of the
  application the dispatcher calls back.
\<close>

section \<open>Item functions\<close>

type_synonym ('t, 's) indfunc = "'t \<Rightarrow> 's \<Rightarrow> u32 \<Rightarrow> int \<Rightarrow> ('t \<times> 's) result"

record ('t, 's) PortalItemFunctions =
  it_read :: "'t \<Rightarrow> ptr \<Rightarrow> (u32 \<times> ptr \<times> 't) result"
  it_write :: "'t \<Rightarrow> ptr \<Rightarrow> u32 \<Rightarrow> (ptr \<times> 't) result"
  it_writefd :: "'t \<Rightarrow> ptr \<Rightarrow> u32 \<Rightarrow> (ptr \<times> 't) result"
  it_mapchannelInd :: "'t \<Rightarrow> u32 \<Rightarrow> ptr result"
  it_mapchannelReq :: "'t \<Rightarrow> u32 \<Rightarrow> ptr result"
  it_send :: "'t \<Rightarrow> ptr \<Rightarrow> u32 \<Rightarrow> int \<Rightarrow> 't result"
  it_recv :: "'t \<Rightarrow> ptr \<Rightarrow> nat \<Rightarrow> (int \<times> 't) result"
  it_busywait :: "'t \<Rightarrow> ptr \<Rightarrow> (int \<times> 't) result"
  it_enableint :: "'t \<Rightarrow> int \<Rightarrow> 't result"
  it_event :: "('t, 's) indfunc \<Rightarrow> 't \<Rightarrow> 's \<Rightarrow> (int \<times> 't \<times> 's) result"

text \<open>A run of \<open>item->write\<close> calls and a run of \<open>item->read\<close> calls through one working pointer.\<close>

fun write_words :: "('t, 's) PortalItemFunctions \<Rightarrow> 't \<Rightarrow> ptr \<Rightarrow> u32 list \<Rightarrow> (ptr \<times> 't) result" where
  "write_words I t a [] = Inr (a, t)"
| "write_words I t a (w # ws) = rbind (it_write I t a w) (\<lambda>(a, t). write_words I t a ws)"

fun read_words :: "('t, 's) PortalItemFunctions \<Rightarrow> 't \<Rightarrow> ptr \<Rightarrow> nat \<Rightarrow> (u32 list \<times> 't) result" where
  "read_words I t a 0 = Inr ([], t)"
| "read_words I t a (Suc n) =
     rbind (it_read I t a) (\<lambda>(w, a, t). rbind (read_words I t a n) (\<lambda>(ws, t). Inr (w # ws, t)))"

text \<open>The header of a message: channel number and number of words including the header.\<close>

definition msg_header :: "u32 \<Rightarrow> nat \<Rightarrow> u32" where
  "msg_header ch n = push_bit 16 ch OR of_nat (n + 1)"

lemma msg_header_words:
  assumes "n + 1 < 2 ^ 16"
  shows "msg_header ch n AND 0xffff = of_nat (n + 1)"
proof -
  define k where "k = n + 1"
  have u: "unat (of_nat k :: u32) = k" using assms by (intro unat_of_nat_small) (simp add: k_def)
  have "take_bit 16 (msg_header ch n) = take_bit 16 (of_nat k)"
    unfolding msg_header_def k_def by (rule bit_word_eqI) (auto simp: bit_simps)
  also have "\<dots> = of_nat k"
    using assms [folded k_def] by (simp add: word_unat_eq_iff unat_take_bit u)
  finally show ?thesis by (simp only: word_and_16 k_def)
qed

lemma msg_header_channel:
  assumes "n + 1 < 2 ^ 16" and "ch < 0xffff"
  shows "drop_bit 16 (msg_header ch n) = ch"
proof -
  define k where "k = n + 1"
  have u: "unat (of_nat k :: u32) = k" using assms by (intro unat_of_nat_small) (simp add: k_def)
  have c: "take_bit 16 ch = ch" using assms(2)
    by (simp add: word_unat_eq_iff unat_take_bit word_less_nat_alt)
  have "drop_bit 16 (of_nat k :: u32) = 0"
    using assms(1) [folded k_def] by (simp add: word_unat_eq_iff unat_drop_bit u)
  then have "drop_bit 16 (msg_header ch n) = drop_bit 16 (push_bit 16 ch)"
    unfolding msg_header_def k_def [symmetric] by (simp add: drop_bit_or)
  also have "\<dots> = take_bit 16 ch" by (rule bit_word_eqI) (auto simp: bit_simps)
  finally show ?thesis by (simp only: c)
qed

text \<open>
  The body every generated proxy has: map the channel, wait, write the arguments (the descriptor
  argument of \<open>idRequest\<close> through \<open>writefd\<close>), send.
\<close>

definition transmit :: "('t, 's) PortalItemFunctions \<Rightarrow> 't \<Rightarrow> u32 \<Rightarrow> u32 list \<Rightarrow> int \<Rightarrow> 't result" where
  "transmit I t ch ws fd =
     rbind (it_mapchannelReq I t ch) (\<lambda>start.
     rbind (it_busywait I t start) (\<lambda>(r, t).
       if r \<noteq> 0 then Inr t
       else rbind (write_words I t start ws) (\<lambda>(a, t). it_send I t start (msg_header ch (length ws)) fd)))"

definition transmit_fd :: "('t, 's) PortalItemFunctions \<Rightarrow> 't \<Rightarrow> u32 \<Rightarrow> int \<Rightarrow> 't result" where
  "transmit_fd I t ch fd =
     rbind (it_mapchannelReq I t ch) (\<lambda>start.
     rbind (it_busywait I t start) (\<lambda>(r, t).
       if r \<noteq> 0 then Inr t
       else rbind (it_writefd I t start (of_int fd)) (\<lambda>(a, t). it_send I t start (msg_header ch 1) fd)))"

text \<open>The body of a dispatcher case: map the channel, receive, read the arguments.\<close>

definition collect :: "('t, 's) PortalItemFunctions \<Rightarrow> 't \<Rightarrow> u32 \<Rightarrow> nat \<Rightarrow> (u32 list \<times> 't) result" where
  "collect I t ch n =
     rbind (it_mapchannelInd I t ch) (\<lambda>a.
     rbind (it_recv I t a n) (\<lambda>(rc, t). read_words I t a n))"

section \<open>The MMURequest proxy\<close>

definition hi32 :: "u64 \<Rightarrow> u32" where
  "hi32 x = ucast (drop_bit 32 x)"

definition lo32 :: "u64 \<Rightarrow> u32" where
  "lo32 x = ucast x"

definition MMURequest_sglist ::
  "('t, 's) PortalItemFunctions \<Rightarrow> 't \<Rightarrow> u32 \<Rightarrow> u32 \<Rightarrow> u64 \<Rightarrow> u32 \<Rightarrow> 't result" where
  "MMURequest_sglist I t sglId sglIndex addr len =
     transmit I t 0 [sglId, sglIndex, hi32 addr, lo32 addr, len] (- 1)"

definition MMURequest_region ::
  "('t, 's) PortalItemFunctions \<Rightarrow> 't \<Rightarrow> u32 \<Rightarrow> u64 \<Rightarrow> u32 \<Rightarrow> u64 \<Rightarrow> u32 \<Rightarrow> u64 \<Rightarrow> u32 \<Rightarrow> 't result" where
  "MMURequest_region I t sglId barr8 index8 barr4 index4 barr0 index0 =
     transmit I t 1
       [sglId, hi32 barr8, lo32 barr8, index8, hi32 barr4, lo32 barr4, index4, hi32 barr0, lo32 barr0, index0] (- 1)"

definition MMURequest_idRequest :: "('t, 's) PortalItemFunctions \<Rightarrow> 't \<Rightarrow> int \<Rightarrow> 't result" where
  "MMURequest_idRequest I t fd = transmit_fd I t 2 fd"

definition MMURequest_idReturn :: "('t, 's) PortalItemFunctions \<Rightarrow> 't \<Rightarrow> u32 \<Rightarrow> 't result" where
  "MMURequest_idReturn I t sglId = transmit I t 3 [sglId] (- 1)"

definition MMURequest_setInterface :: "('t, 's) PortalItemFunctions \<Rightarrow> 't \<Rightarrow> u32 \<Rightarrow> u32 \<Rightarrow> 't result" where
  "MMURequest_setInterface I t interfaceId sglId = transmit I t 4 [interfaceId, sglId] (- 1)"

text \<open>The call of the proxy function for a request.\<close>

definition MMURequest_send :: "('t, 's) PortalItemFunctions \<Rightarrow> 't \<Rightarrow> mmu_req \<Rightarrow> 't result" where
  "MMURequest_send I t r =
     (case r of
        Sglist p i a l \<Rightarrow> MMURequest_sglist I t p i a l
      | Region p b8 i8 b4 i4 b0 i0 \<Rightarrow> MMURequest_region I t p b8 i8 b4 i4 b0 i0
      | IdRequest fd \<Rightarrow> MMURequest_idRequest I t fd
      | IdReturn sglId \<Rightarrow> MMURequest_idReturn I t sglId
      | SetInterface i sglId \<Rightarrow> MMURequest_setInterface I t i sglId)"

section \<open>The MMURequest dispatcher\<close>

text \<open>
  The state of a dispatcher: its static counter of unknown channels and the state of the
  application.  A callback is a function of the request it is called with.
\<close>

record 'c dispatch =
  runaway :: nat
  app :: 'c

definition join64 :: "u32 \<Rightarrow> u32 \<Rightarrow> u64" where
  "join64 h l = push_bit 32 (ucast h) OR ucast l"

definition callback :: "(mmu_req \<Rightarrow> 'c \<Rightarrow> 'c) \<Rightarrow> mmu_req \<Rightarrow> 'c dispatch \<Rightarrow> 'c dispatch" where
  "callback cb r s = s\<lparr>app := cb r (app s)\<rparr>"

definition MMURequest_handleMessage ::
  "('t, 'c dispatch) PortalItemFunctions \<Rightarrow> (mmu_req \<Rightarrow> 'c \<Rightarrow> 'c) \<Rightarrow> ('t, 'c dispatch) indfunc" where
  "MMURequest_handleMessage I cb t s channel messageFd =
     (if channel = 0 then
        rbind (collect I t channel 5) (\<lambda>(w, t).
          Inr (t, callback cb (Sglist (w ! 0) (w ! 1) (join64 (w ! 2) (w ! 3)) (w ! 4)) s))
      else if channel = 1 then
        rbind (collect I t channel 10) (\<lambda>(w, t).
          Inr (t, callback cb (Region (w ! 0) (join64 (w ! 1) (w ! 2)) (w ! 3) (join64 (w ! 4) (w ! 5)) (w ! 6)
                                 (join64 (w ! 7) (w ! 8)) (w ! 9)) s))
      else if channel = 2 then
        rbind (collect I t channel 1) (\<lambda>(w, t). Inr (t, callback cb (IdRequest messageFd) s))
      else if channel = 3 then
        rbind (collect I t channel 1) (\<lambda>(w, t). Inr (t, callback cb (IdReturn (w ! 0)) s))
      else if channel = 4 then
        rbind (collect I t channel 2) (\<lambda>(w, t). Inr (t, callback cb (SetInterface (w ! 0) (w ! 1)) s))
      else
        rbind (it_mapchannelInd I t channel) (\<lambda>_.
          if runaway s > 10 then Inl (Exit (- 1)) else Inr (t, s\<lparr>runaway := runaway s + 1\<rparr>)))"

section \<open>The contract of a transport\<close>

text \<open>A message in transit: channel, argument words, descriptor as the receiver will see it.\<close>

type_synonym message = "u32 \<times> u32 list \<times> int"

text \<open>
  \<open>rep t ms\<close>: in state \<open>t\<close> the messages \<open>ms\<close> have been sent and not yet handled, oldest
  first.  \<open>room n\<close>: with \<open>n\<close> messages waiting another one can be sent.  \<open>fits n\<close>: a message
  of \<open>n\<close> argument words can be sent.  \<open>fdmap\<close>: what becomes of a descriptor on the way.
\<close>

locale message_transport =
  fixes I :: "('t, 's) PortalItemFunctions"
    and rep :: "'t \<Rightarrow> message list \<Rightarrow> bool"
    and room :: "nat \<Rightarrow> bool"
    and fits :: "nat \<Rightarrow> bool"
    and fdmap :: "int \<Rightarrow> int"
  assumes writefd_is_write: "it_writefd I = it_write I"
    and put: "rep t ms \<Longrightarrow> room (length ms) \<Longrightarrow> fits (length ws) \<Longrightarrow> ch < 0xffff \<Longrightarrow>
      \<exists>t'. transmit I t ch ws fd = Inr t' \<and> rep t' (ms @ [(ch, ws, fdmap fd)])"
    and get: "rep t ((ch, ws, fd) # ms) \<Longrightarrow>
      \<exists>t0 t1. collect I t0 ch (length ws) = Inr (ws, t1) \<and>
        (\<forall>H s s'. H t0 s ch fd = Inr (t1, s') \<longrightarrow> (\<exists>rc t2. it_event I H t s = Inr (rc, t2, s') \<and> rep t2 ms))"
    and idle: "rep t [] \<Longrightarrow> \<exists>rc t'. it_event I H t s = Inr (rc, t', s) \<and> rep t' []"
begin

lemma put_fd:
  "rep t ms \<Longrightarrow> room (length ms) \<Longrightarrow> fits 1 \<Longrightarrow> ch < 0xffff \<Longrightarrow>
   \<exists>t'. transmit_fd I t ch fd = Inr t' \<and> rep t' (ms @ [(ch, [of_int fd], fdmap fd)])"
proof -
  have "transmit_fd I t ch fd = transmit I t ch [of_int fd] fd"
    unfolding transmit_fd_def transmit_def writefd_is_write
    by (intro arg_cong [where f = "rbind _"] ext) (auto simp: split_beta rbind_return)
  then show "rep t ms \<Longrightarrow> room (length ms) \<Longrightarrow> fits 1 \<Longrightarrow> ch < 0xffff \<Longrightarrow> ?thesis"
    using put [of t ms "[of_int fd]" ch fd] by simp
qed

end

section \<open>Requests over a transport\<close>

text \<open>The message the proxy sends for a request, and the request the dispatcher makes of it.\<close>

definition mmu_msg :: "(int \<Rightarrow> int) \<Rightarrow> mmu_req \<Rightarrow> message" where
  "mmu_msg fdmap r =
     (case r of
        Sglist p i a l \<Rightarrow> (0, [p, i, hi32 a, lo32 a, l], fdmap (- 1))
      | Region p b8 i8 b4 i4 b0 i0 \<Rightarrow>
          (1, [p, hi32 b8, lo32 b8, i8, hi32 b4, lo32 b4, i4, hi32 b0, lo32 b0, i0], fdmap (- 1))
      | IdRequest fd \<Rightarrow> (2, [of_int fd], fdmap fd)
      | IdReturn sglId \<Rightarrow> (3, [sglId], fdmap (- 1))
      | SetInterface i sglId \<Rightarrow> (4, [i, sglId], fdmap (- 1)))"

definition arrive :: "(int \<Rightarrow> int) \<Rightarrow> mmu_req \<Rightarrow> mmu_req" where
  "arrive fdmap r = (case r of IdRequest fd \<Rightarrow> IdRequest (fdmap fd) | _ \<Rightarrow> r)"

lemma join64_hi_lo: "join64 (hi32 x) (lo32 x) = x"
  unfolding join64_def hi32_def lo32_def
  by (rule bit_word_eqI) (auto simp: bit_simps)

text \<open>A run of the host: each step sends a request or polls for one.\<close>

datatype portal_step = Send_req mmu_req | Poll

fun portal_run ::
  "('t, 'c dispatch) PortalItemFunctions \<Rightarrow> (mmu_req \<Rightarrow> 'c \<Rightarrow> 'c) \<Rightarrow> portal_step list \<Rightarrow> 't \<Rightarrow> 'c dispatch \<Rightarrow>
   ('t \<times> 'c dispatch) result" where
  "portal_run I cb [] t s = Inr (t, s)"
| "portal_run I cb (Send_req r # steps) t s = rbind (MMURequest_send I t r) (\<lambda>t. portal_run I cb steps t s)"
| "portal_run I cb (Poll # steps) t s =
     rbind (it_event I (MMURequest_handleMessage I cb) t s) (\<lambda>(_, t, s). portal_run I cb steps t s)"

text \<open>The specification: a queue of requests, the oldest of which a poll hands to the callback.\<close>

fun queue_run :: "(int \<Rightarrow> int) \<Rightarrow> (mmu_req \<Rightarrow> 'c \<Rightarrow> 'c) \<Rightarrow> portal_step list \<Rightarrow> mmu_req list \<Rightarrow> 'c \<Rightarrow> mmu_req list \<times> 'c" where
  "queue_run f cb [] q c = (q, c)"
| "queue_run f cb (Send_req r # steps) q c = queue_run f cb steps (q @ [r]) c"
| "queue_run f cb (Poll # steps) [] c = queue_run f cb steps [] c"
| "queue_run f cb (Poll # steps) (r # q) c = queue_run f cb steps q (cb (arrive f r) c)"

text \<open>There is room at every send of a run that starts with \<open>n\<close> requests waiting.\<close>

fun roomy :: "(nat \<Rightarrow> bool) \<Rightarrow> portal_step list \<Rightarrow> nat \<Rightarrow> bool" where
  "roomy room [] n = True"
| "roomy room (Send_req r # steps) n = (room n \<and> roomy room steps (Suc n))"
| "roomy room (Poll # steps) n = roomy room steps (n - 1)"

lemma roomy_always [simp]: "roomy (\<lambda>_. True) steps n"
  by (induction "\<lambda>_ :: nat. True" steps n rule: roomy.induct) simp_all

lemma handleMessage_collected:
  assumes "mmu_msg fdmap r = (ch, ws, fd)" and "collect I t0 ch (length ws) = Inr (ws, t1)"
  shows "MMURequest_handleMessage I cb t0 s ch fd = Inr (t1, s\<lparr>app := cb (arrive fdmap r) (app s)\<rparr>)"
  using assms
  by (cases r) (auto simp: mmu_msg_def MMURequest_handleMessage_def arrive_def callback_def join64_hi_lo
      simp flip: numeral_2_eq_2)

locale mmu_transport = message_transport I rep room fits fdmap
  for I :: "('t, 'c dispatch) PortalItemFunctions" and rep room fits fdmap +
  assumes fits_args: "0 < n \<Longrightarrow> n \<le> 10 \<Longrightarrow> fits n"
begin

lemma send_step:
  assumes "rep t ms" and "room (length ms)"
  shows "\<exists>t'. MMURequest_send I t r = Inr t' \<and> rep t' (ms @ [mmu_msg fdmap r])"
proof -
  have *: "\<exists>t'. transmit I t ch ws fd = Inr t' \<and> rep t' (ms @ [(ch, ws, fdmap fd)])"
    if "ch < 0xffff" "0 < length ws" "length ws \<le> 10" for ch ws fd
    using put [OF assms fits_args [OF that(2,3)] that(1)] .
  show ?thesis
    using put_fd [OF assms fits_args, of 2] *
    by (cases r) (simp_all add: MMURequest_send_def mmu_msg_def MMURequest_sglist_def MMURequest_region_def
        MMURequest_idRequest_def MMURequest_idReturn_def MMURequest_setInterface_def)
qed

lemma poll_step:
  assumes "rep t (mmu_msg fdmap r # ms)"
  shows "\<exists>rc t'. it_event I (MMURequest_handleMessage I cb) t s = Inr (rc, t', s\<lparr>app := cb (arrive fdmap r) (app s)\<rparr>) \<and>
           rep t' ms"
proof -
  obtain ch ws fd where m: "mmu_msg fdmap r = (ch, ws, fd)" by (cases "mmu_msg fdmap r")
  from get assms m obtain t0 t1 where
    c: "collect I t0 ch (length ws) = Inr (ws, t1)" and
    e: "\<forall>H s s'. H t0 s ch fd = Inr (t1, s') \<longrightarrow> (\<exists>rc t2. it_event I H t s = Inr (rc, t2, s') \<and> rep t2 ms)"
    by metis
  from e handleMessage_collected [OF m c] show ?thesis by blast
qed

text \<open>Every run over the transport does what the queue does.\<close>

lemma run_is_queue:
  assumes "rep t (map (mmu_msg fdmap) q)" and "roomy room steps (length q)"
  shows "\<exists>t'. portal_run I cb steps t s = Inr (t', s\<lparr>app := snd (queue_run fdmap cb steps q (app s))\<rparr>) \<and>
           rep t' (map (mmu_msg fdmap) (fst (queue_run fdmap cb steps q (app s))))"
  using assms
proof (induction steps arbitrary: q t s)
  case (Cons st steps)
  show ?case
  proof (cases st)
    case (Send_req r)
    with Cons.prems have room: "room (length (map (mmu_msg fdmap) q))" "roomy room steps (length (q @ [r]))"
      by simp_all
    from send_step [OF Cons.prems(1) room(1)] obtain t' where
      "MMURequest_send I t r = Inr t'" "rep t' (map (mmu_msg fdmap) (q @ [r]))" by auto
    with Cons.IH [OF this(2) room(2), of s] Send_req show ?thesis by simp
  next
    case Poll
    show ?thesis
    proof (cases q)
      case Nil
      with Cons.prems(1) idle obtain rc t' where
        "it_event I (MMURequest_handleMessage I cb) t s = Inr (rc, t', s)" "rep t' (map (mmu_msg fdmap) [])"
        by fastforce
      with Cons.IH [OF this(2), of s] Cons.prems(2) Poll Nil show ?thesis by simp
    next
      case (Cons r q')
      let ?s = "s\<lparr>app := cb (arrive fdmap r) (app s)\<rparr>"
      from Cons poll_step [of t r "map (mmu_msg fdmap) q'" cb s] \<open>rep t (map (mmu_msg fdmap) q)\<close>
      obtain rc t' where "it_event I (MMURequest_handleMessage I cb) t s = Inr (rc, t', ?s)"
        "rep t' (map (mmu_msg fdmap) q')" by auto
      with Cons.IH [OF this(2), of ?s] \<open>roomy room (st # steps) (length q)\<close> Poll Cons show ?thesis by simp
    qed
  qed
qed simp

end

end
