(* ===== verification/Shared_Portal.thy ===== *)
theory Shared_Portal
  imports Portal_Interface
begin

text \<open>
  The shared-memory transport (\<open>cpp/portalShared.c\<close>): a ring of messages in a DMA buffer that
  two parties map.  Word 0 holds the size of the buffer, word 1 the write position, word 2 the
  read position; messages start at word 4.  The state is the mapped buffer (absent while
  \<open>map_base\<close> is null) and the request size of the portal.  \<open>env\<close> is what the other party does
  to the buffer between two polls of the busy-wait loop.
\<close>

section \<open>Model\<close>

record shared_portal =
  sh_reqsize :: u32
  map_mem :: "mem option"

definition SHARED_LIMIT :: ptr where "SHARED_LIMIT = 0"
definition SHARED_WRITE :: ptr where "SHARED_WRITE = 1"
definition SHARED_READ :: ptr where "SHARED_READ = 2"
definition SHARED_START :: u32 where "SHARED_START = 4"

definition rdm :: "shared_portal \<Rightarrow> ptr \<Rightarrow> u32 result" where
  "rdm t a = (case map_mem t of None \<Rightarrow> Inl NullDeref | Some m \<Rightarrow> rd m a)"

definition wrm :: "shared_portal \<Rightarrow> ptr \<Rightarrow> u32 \<Rightarrow> shared_portal result" where
  "wrm t a v =
     (case map_mem t of
        None \<Rightarrow> Inl NullDeref
      | Some m \<Rightarrow> rbind (wr m a v) (\<lambda>m. Inr (t\<lparr>map_mem := Some m\<rparr>)))"

definition read_portal_memory :: "shared_portal \<Rightarrow> ptr \<Rightarrow> (u32 \<times> ptr \<times> shared_portal) result" where
  "read_portal_memory t addr = rbind (rdm t addr) (\<lambda>v. Inr (v, addr + 1, t))"

definition write_portal_memory :: "shared_portal \<Rightarrow> ptr \<Rightarrow> u32 \<Rightarrow> (ptr \<times> shared_portal) result" where
  "write_portal_memory t addr v = rbind (wrm t addr v) (\<lambda>t. Inr (addr + 1, t))"

definition mapchannel_sharedInd :: "shared_portal \<Rightarrow> u32 \<Rightarrow> ptr result" where
  "mapchannel_sharedInd t v = rbind (rdm t SHARED_READ) (\<lambda>r. Inr (uint (r + 1)))"

definition mapchannel_sharedReq :: "shared_portal \<Rightarrow> u32 \<Rightarrow> ptr result" where
  "mapchannel_sharedReq t v = rbind (rdm t SHARED_WRITE) (\<lambda>w. Inr (uint (w + 1)))"

text \<open>Words a request may take: the arguments and the header, rounded up to an even number.\<close>

definition shared_reqwords :: "u32 \<Rightarrow> u32" where
  "shared_reqwords reqsize = (reqsize div 4 + 1 + 1) AND 0xfffe"

partial_function (option) busywait_loop ::
  "(shared_portal \<Rightarrow> shared_portal) \<Rightarrow> shared_portal \<Rightarrow> (int \<times> shared_portal) result option" where
  "busywait_loop env t =
     (case (rdm t SHARED_LIMIT, rdm t SHARED_WRITE, rdm t SHARED_READ) of
        (Inr limit, Inr write, Inr read) \<Rightarrow>
          (let reqwords = sint (shared_reqwords (sh_reqsize t));
               avail = (if sint write \<ge> sint read then sint limit - (sint write - sint read) - 4
                        else sint read - sint write)
           in if avail > 2 * reqwords then Some (Inr (0, t)) else busywait_loop env (env t))
      | (Inl e, _, _) \<Rightarrow> Some (Inl e)
      | (_, Inl e, _) \<Rightarrow> Some (Inl e)
      | (_, _, Inl e) \<Rightarrow> Some (Inl e))"

definition busywait_shared ::
  "(shared_portal \<Rightarrow> shared_portal) \<Rightarrow> shared_portal \<Rightarrow> ptr \<Rightarrow> (int \<times> shared_portal) result" where
  "busywait_shared env t addr = (case busywait_loop env t of None \<Rightarrow> Inl NoReturn | Some r \<Rightarrow> r)"

definition increment_shared :: "shared_portal \<Rightarrow> u32 \<Rightarrow> u32 result" where
  "increment_shared t newp =
     rbind (rdm t SHARED_LIMIT) (\<lambda>limit.
       Inr (if newp + shared_reqwords (sh_reqsize t) \<ge> limit then SHARED_START else newp))"

definition send_shared :: "shared_portal \<Rightarrow> ptr \<Rightarrow> u32 \<Rightarrow> int \<Rightarrow> shared_portal result" where
  "send_shared t buff hdr sendFd =
     (let reqwords = hdr AND 0xffff;
          needs_padding = (reqwords AND 1 \<noteq> 0) in
      rbind (rdm t SHARED_WRITE) (\<lambda>w.
      rbind (wrm t (uint w) hdr) (\<lambda>t.
      rbind (if needs_padding
             then rbind (rdm t SHARED_WRITE) (\<lambda>w. wrm t (uint (w + reqwords)) 0xffff0001)
             else Inr t) (\<lambda>t.
      let reqwords = (if needs_padding then (reqwords + 1) AND 0xfffe else reqwords) in
      rbind (rdm t SHARED_WRITE) (\<lambda>w.
      rbind (increment_shared t (w + reqwords)) (\<lambda>w'.
      rbind (wrm t SHARED_WRITE w') (\<lambda>t.
      rbind (rdm t SHARED_WRITE) (\<lambda>w.
      wrm t (uint w) 0))))))))"

definition event_shared ::
  "(shared_portal, 's) indfunc \<Rightarrow> shared_portal \<Rightarrow> 's \<Rightarrow> (int \<times> shared_portal \<times> 's) result" where
  "event_shared handler t s =
     (if map_mem t = None then Inr (- 1, t, s)
      else
        rbind (rdm t SHARED_READ) (\<lambda>r.
        rbind (rdm t SHARED_WRITE) (\<lambda>w.
          if r \<noteq> w then
            rbind (rdm t (uint r)) (\<lambda>hdr.
              let msg_num = drop_bit 16 hdr;
                  msg_words = ((hdr AND 0xffff) + 1) AND 0xfffe in
              rbind (if msg_num \<noteq> 0xffff then handler t s msg_num 0 else Inr (t, s)) (\<lambda>(t, s).
              rbind (rdm t SHARED_READ) (\<lambda>r.
              rbind (increment_shared t (r + msg_words)) (\<lambda>r'.
              rbind (wrm t SHARED_READ r') (\<lambda>t. Inr (- 1, t, s))))))
          else Inr (- 1, t, s))))"

definition sharedfunc :: "(shared_portal \<Rightarrow> shared_portal) \<Rightarrow> (shared_portal, 's) PortalItemFunctions" where
  "sharedfunc env =
     \<lparr>it_read = read_portal_memory, it_write = write_portal_memory, it_writefd = write_portal_memory,
      it_mapchannelInd = mapchannel_sharedInd, it_mapchannelReq = mapchannel_sharedReq,
      it_send = send_shared, it_recv = (\<lambda>t a n. Inr (0, t)), it_busywait = busywait_shared env,
      it_enableint = (\<lambda>t v. Inr t), it_event = event_shared\<rparr>"

text \<open>
  \<open>init_shared\<close>: with a parameter, allocate and map a buffer of \<open>bytes\<close> bytes, lay out the empty
  ring and register the buffer; the pair returned last is the argument of the \<open>setInterface\<close>
  request that follows.  \<open>mmap\<close> answers with the mapped words, or nothing when it fails.
\<close>

definition init_shared ::
  "(u32 \<Rightarrow> int) \<Rightarrow> (int \<Rightarrow> u32 \<Rightarrow> mem option) \<Rightarrow> (int \<Rightarrow> u32) \<Rightarrow> u32 \<Rightarrow> u32 option \<Rightarrow> shared_portal \<Rightarrow>
   (int \<times> shared_portal \<times> (u32 \<times> u32) option) result" where
  "init_shared alloc mmap reference fpga_number param t =
     (case param of
        None \<Rightarrow> Inr (0, t, None)
      | Some bytes \<Rightarrow>
          (let fd = alloc bytes;
               t = t\<lparr>map_mem := mmap fd bytes\<rparr> in
           rbind (wrm t SHARED_LIMIT (bytes div 4)) (\<lambda>t.
           rbind (wrm t SHARED_WRITE SHARED_START) (\<lambda>t.
           rbind (wrm t SHARED_READ SHARED_START) (\<lambda>t.
           rbind (wrm t (uint SHARED_START) 0) (\<lambda>t.
           Inr (0, t, Some (fpga_number, reference fd))))))))"

section \<open>Memory accesses\<close>

text \<open>The memory of a portal, as a state that only differs in it.\<close>

abbreviation on_mem :: "shared_portal \<Rightarrow> mem \<Rightarrow> shared_portal" where
  "on_mem t m \<equiv> t\<lparr>map_mem := Some m\<rparr>"

lemma rdm_word: "unat w < length m \<Longrightarrow> rdm (on_mem t m) (uint w) = Inr (m ! unat w)"
  by (simp add: rdm_def rd_word)

lemma wrm_word: "unat w < length m \<Longrightarrow> wrm (on_mem t m) (uint w) v = Inr (on_mem t (m[unat w := v]))"
  by (simp add: wrm_def wr_word)

lemma rdm_ctrl:
  "4 < length m \<Longrightarrow> rdm (on_mem t m) SHARED_LIMIT = Inr (m ! 0)"
  "4 < length m \<Longrightarrow> rdm (on_mem t m) SHARED_WRITE = Inr (m ! 1)"
  "4 < length m \<Longrightarrow> rdm (on_mem t m) SHARED_READ = Inr (m ! 2)"
  by (auto simp: rdm_def rd_def SHARED_LIMIT_def SHARED_WRITE_def SHARED_READ_def)

lemma wrm_ctrl:
  "4 < length m \<Longrightarrow> wrm (on_mem t m) SHARED_LIMIT v = Inr (on_mem t (m[0 := v]))"
  "4 < length m \<Longrightarrow> wrm (on_mem t m) SHARED_WRITE v = Inr (on_mem t (m[1 := v]))"
  "4 < length m \<Longrightarrow> wrm (on_mem t m) SHARED_READ v = Inr (on_mem t (m[2 := v]))"
  by (auto simp: wrm_def wr_def SHARED_LIMIT_def SHARED_WRITE_def SHARED_READ_def)

lemma write_words_shared:
  "a + length ws \<le> length m \<Longrightarrow>
   write_words (sharedfunc env) (on_mem t m) (int a) ws = Inr (int (a + length ws), on_mem t (splice m a ws))"
proof (induction ws arbitrary: a m)
  case (Cons w ws)
  then show ?case
    using Cons.IH [of "Suc a" "m[a := w]"]
    by (simp add: sharedfunc_def write_portal_memory_def wrm_def wr_int splice_Cons add.commute)
qed simp

lemma read_words_shared:
  "a + n \<le> length m \<Longrightarrow>
   read_words (sharedfunc env) (on_mem t m) (int a) n = Inr (slice m a n, on_mem t m)"
proof (induction n arbitrary: a)
  case (Suc n)
  then show ?case
    using Suc.IH [of "Suc a"]
    by (simp add: sharedfunc_def read_portal_memory_def rdm_def rd_int slice_Suc add.commute)
qed simp

section \<open>Positions in the ring\<close>

text \<open>Words a message of \<open>n\<close> arguments occupies, and the position after it.\<close>

definition elen :: "nat \<Rightarrow> nat" where
  "elen n = 2 * ((n + 2) div 2)"

definition ring_words :: "u32 \<Rightarrow> nat" where
  "ring_words rs = unat (shared_reqwords rs)"

definition nxt :: "nat \<Rightarrow> nat \<Rightarrow> nat \<Rightarrow> nat" where
  "nxt R L p = (if L \<le> p + R then 4 else p)"

lemma ring_words_even: "\<exists>h. ring_words rs = 2 * h \<and> h < 2 ^ 15"
proof -
  have "((unat (rs div 4 + 1 + 1) mod 2 ^ 16) div 2) < 2 ^ 15" by (simp add: less_mult_imp_div_less)
  then show ?thesis unfolding ring_words_def shared_reqwords_def and_65534 by blast
qed

lemma ring_words_bound: "ring_words rs < 2 ^ 16"
  using ring_words_even [of rs] by auto

lemma elen_le:
  assumes "n + 1 \<le> ring_words rs"
  shows "elen n \<le> ring_words rs"
proof -
  obtain h where h: "ring_words rs = 2 * h" using ring_words_even by blast
  then have "n + 2 < Suc h * 2" using assms by simp
  then have "(n + 2) div 2 < Suc h" by (rule less_mult_imp_div_less)
  then show ?thesis by (simp add: elen_def h)
qed

lemma elen_bounds: "n + 1 \<le> elen n" "elen n \<le> n + 2" "0 < elen n"
  by (simp_all add: elen_def)

text \<open>The control words are well formed.\<close>

definition ring_ctrl :: "u32 \<Rightarrow> nat \<Rightarrow> mem \<Rightarrow> bool" where
  "ring_ctrl rs L m \<longleftrightarrow>
     L \<le> length m \<and> L < 2 ^ 31 \<and> 3 * ring_words rs + 5 \<le> L \<and> unat (m ! 0) = L \<and>
     4 \<le> unat (m ! 1) \<and> unat (m ! 1) + ring_words rs < L \<and>
     4 \<le> unat (m ! 2) \<and> unat (m ! 2) + ring_words rs < L"

lemma increment_shared_nat:
  assumes "unat (m ! 0) = L" and "4 < length m" and "L < 2 ^ 31" and "unat p \<le> L"
  shows "increment_shared (on_mem t m) p = Inr (of_nat (nxt (ring_words (sh_reqsize t)) L (unat p)))"
proof -
  let ?R = "shared_reqwords (sh_reqsize t)"
  have "unat ?R < 2 ^ 16" using ring_words_bound [of "sh_reqsize t"] by (simp add: ring_words_def)
  then have "unat (p + ?R) = unat p + unat ?R" using assms(3,4) by (simp add: unat_word_ariths)
  then have "(m ! 0 \<le> p + ?R) = (L \<le> unat p + ring_words (sh_reqsize t))"
    by (simp add: word_le_nat_alt assms(1) ring_words_def)
  then show ?thesis
    using assms(2) by (simp add: increment_shared_def rdm_ctrl nxt_def SHARED_START_def)
qed

lemma padded_words:
  assumes "k < 2 ^ 16 - 1"
  shows "((of_nat k :: u32) + 1) AND 0xfffe = of_nat (2 * ((k + 1) div 2))"
    "(of_nat k :: u32) AND 1 = of_nat (k mod 2)"
proof -
  have k: "unat (of_nat k :: u32) = k" using assms by (intro unat_of_nat_small) simp
  then have "unat ((of_nat k :: u32) + 1) = k + 1" using assms by (simp add: unat_word_ariths)
  then have "unat (((of_nat k :: u32) + 1) AND 0xfffe) = 2 * ((k + 1) div 2)"
    unfolding and_65534 using assms by simp
  moreover have "2 * ((k + 1) div 2) \<le> k + 1" by (rule times_div_less_eq_dividend)
  then have "unat (of_nat (2 * ((k + 1) div 2)) :: u32) = 2 * ((k + 1) div 2)"
    using assms by (intro unat_of_nat_small) simp
  ultimately show "((of_nat k :: u32) + 1) AND 0xfffe = of_nat (2 * ((k + 1) div 2))"
    by (simp only: word_unat_eq_iff)
  have "unat (of_nat (k mod 2) :: u32) = k mod 2"
    by (intro unat_of_nat_small) (simp add: mod_less_divisor [THEN less_trans])
  moreover have "unat ((of_nat k :: u32) AND 1) = k mod 2"
    by (simp only: and_one_eq unat_mod k) simp
  ultimately show "(of_nat k :: u32) AND 1 = of_nat (k mod 2)"
    by (simp only: word_unat_eq_iff)
qed

section \<open>Sending\<close>

text \<open>The buffer after a message has been sent.\<close>

definition ring_block :: "u32 \<Rightarrow> u32 list \<Rightarrow> u32 list" where
  "ring_block ch ws =
     msg_header ch (length ws) # ws @ (if odd (length ws + 1) then [0xffff0001] else [])"

definition enq :: "u32 \<Rightarrow> nat \<Rightarrow> mem \<Rightarrow> u32 \<Rightarrow> u32 list \<Rightarrow> mem" where
  "enq rs L m ch ws =
     (let w = unat (m ! 1);
          nx = nxt (ring_words rs) L (w + elen (length ws))
      in (splice m w (ring_block ch ws))[1 := of_nat nx, nx := 0])"

lemma length_ring_block: "length (ring_block ch ws) = elen (length ws)"
  by (auto simp: ring_block_def elen_def elim!: oddE evenE)

lemma ring_ctrlD:
  assumes "ring_ctrl rs L m"
  shows "L \<le> length m" "L < 2 ^ 31" "3 * ring_words rs + 5 \<le> L" "unat (m ! 0) = L"
    "4 \<le> unat (m ! 1)" "unat (m ! 1) + ring_words rs < L" "4 \<le> unat (m ! 2)"
    "unat (m ! 2) + ring_words rs < L" "4 < length m"
  using assms by (auto simp: ring_ctrl_def)

lemma nxt_bounds: "3 * R + 5 \<le> L \<Longrightarrow> 4 \<le> p \<Longrightarrow> 4 \<le> nxt R L p \<and> nxt R L p + R < L"
  by (auto simp: nxt_def)

lemma send_shared_enq:
  assumes c: "ring_ctrl rs L m" and t: "sh_reqsize t = rs" and n: "length ws + 1 \<le> ring_words rs"
  shows "send_shared (on_mem t (splice m (unat (m ! 1) + 1) ws)) b (msg_header ch (length ws)) fd =
         Inr (on_mem t (enq rs L m ch ws))"
proof -
  note One_nat_def [simp del]
  let ?R = "ring_words rs" and ?w = "m ! 1"
  let ?e = "elen (length ws)" and ?h = "msg_header ch (length ws)"
  define k where "k = length ws + 1"
  note C = ring_ctrlD [OF c] and n = n [folded k_def]
  have kb: "k < 2 ^ 16 - 1" using n ring_words_even [of rs] by auto
  have e: "?e \<le> ?R" by (rule elen_le [OF n [unfolded k_def]])
  have words: "?h AND 0xffff = of_nat k" using kb unfolding k_def by (intro msg_header_words) simp
  have pad: "(of_nat k :: u32) + 1 AND 0xfffe = of_nat ?e" "(of_nat k :: u32) AND 1 = of_nat (k mod 2)"
    using padded_words [OF kb] by (simp_all only: elen_def k_def add.assoc one_add_one)
  have "((of_nat (j mod 2) :: u32) \<noteq> 0) = odd j" for j :: nat
    by (cases "odd j") (simp_all add: odd_iff_mod_2_eq_one)
  then have ne0: "((of_nat (k mod 2) :: u32) \<noteq> 0) = odd k" .
  have kw: "unat (?w + of_nat k) = unat ?w + k" "unat (?w + of_nat ?e) = unat ?w + ?e"
    using C e kb n unat_of_nat_small [of k, where 'a = 32] unat_of_nat_small [of ?e, where 'a = 32]
    by (simp_all add: unat_word_ariths)
  let ?m1 = "splice m (unat ?w + 1) ws" and ?nx = "nxt ?R L (unat ?w + ?e)"
  have l1: "length ?m1 = length m" using C n by (simp add: k_def)
  have pos: "0 < length m" "1 < length m" using C(9) by linarith+
  have at: "?m1 ! 0 = m ! 0" "?m1 ! 1 = ?w" using pos C n unfolding k_def by (subst nth_splice; force)+
  let ?m2 = "splice m (unat ?w) (?h # ws)" and ?m3 = "splice m (unat ?w) (ring_block ch ws)"
  have m2: "?m1[unat ?w := ?h] = ?m2" using C splice_update_before [of "unat ?w" m ws ?h]
    by (simp flip: Suc_eq_plus1)
  have lens: "length ?m2 = length m" "length ?m3 = length m"
    using C n e by (simp_all add: length_ring_block k_def)
  have ctl: "?m2 ! 1 = ?w" "?m3 ! 1 = ?w" "?m3 ! 0 = m ! 0"
    using pos C n e unfolding k_def by (subst nth_splice; force simp: length_ring_block)+
  have m3: "?m2[unat ?w + k := 0xffff0001] = ?m3" if "odd k"
    using that C n splice_update_after [of "unat ?w" "?h # ws" m "0xffff0001"]
    by (simp add: ring_block_def k_def Suc_eq_plus1)
  have m3': "?m2 = ?m3" if "even k" using that by (simp add: ring_block_def k_def)
  have nx: "?nx < L" "4 \<le> ?nx" using nxt_bounds [OF C(3), of "unat ?w + ?e"] C(5) by simp_all
  have unx: "unat (of_nat ?nx :: u32) = ?nx" using nx C(2) by (intro unat_of_nat_small) simp
  have inc: "increment_shared (on_mem t ?m3) (?w + of_nat ?e) = Inr (of_nat ?nx)"
    using increment_shared_nat [of ?m3 L "?w + of_nat ?e" t] C e lens ctl by (simp add: kw t)
  have fin: "rbind (rdm (on_mem t ?m3) SHARED_WRITE) (\<lambda>w.
      rbind (increment_shared (on_mem t ?m3) (w + of_nat ?e)) (\<lambda>w'.
      rbind (wrm (on_mem t ?m3) SHARED_WRITE w') (\<lambda>t.
      rbind (rdm t SHARED_WRITE) (\<lambda>w. wrm t (uint w) 0)))) = Inr (on_mem t (enq rs L m ch ws))"
    using C nx lens ctl by (simp add: rdm_ctrl wrm_ctrl inc wrm_word unx enq_def Let_def)
  have "send_shared (on_mem t ?m1) b ?h fd =
    rbind (if odd k then wrm (on_mem t ?m2) (uint (?w + of_nat k)) 0xffff0001 else Inr (on_mem t ?m2))
      (\<lambda>t. rbind (rdm t SHARED_WRITE) (\<lambda>w.
      rbind (increment_shared t (w + (if odd k then of_nat ?e else of_nat k))) (\<lambda>w'.
      rbind (wrm t SHARED_WRITE w') (\<lambda>t.
      rbind (rdm t SHARED_WRITE) (\<lambda>w. wrm t (uint w) 0)))))"
    using C l1 lens at ctl by (simp add: send_shared_def words pad ne0 Let_def rdm_ctrl wrm_word m2)
  also have "\<dots> = Inr (on_mem t (enq rs L m ch ws))"
  proof (cases "odd k")
    case True
    then show ?thesis using fin C n lens by (simp add: wrm_word kw m3)
  next
    case False
    then obtain h where h: "k = 2 * h" by (auto elim: evenE)
    then have "length ws + 2 = 2 * h + 1" by (simp add: k_def)
    then have "k = ?e" by (simp add: elen_def h)
    then show ?thesis using fin False m3' by simp
  qed
  finally show ?thesis .
qed

text \<open>The space test of the busy-wait loop.\<close>

definition ready :: "nat \<Rightarrow> nat \<Rightarrow> nat \<Rightarrow> nat \<Rightarrow> bool" where
  "ready R L r w = (if r \<le> w then w + 4 + 2 * R < L + r else w + 2 * R < r)"

lemma busywait_step:
  assumes c: "ring_ctrl rs L m" and t: "sh_reqsize t = rs"
  shows "busywait_loop env (on_mem t m) =
    (if ready (ring_words rs) L (unat (m ! 2)) (unat (m ! 1)) then Some (Inr (0, on_mem t m))
     else busywait_loop env (env (on_mem t m)))"
proof -
  note C = ring_ctrlD [OF c]
  have s: "sint (m ! 0) = int L" "sint (m ! 1) = int (unat (m ! 1))" "sint (m ! 2) = int (unat (m ! 2))"
    using C by (subst sint_int_unat; simp)+
  have r: "sint (shared_reqwords rs) = int (ring_words rs)"
    using ring_words_bound [of rs] unfolding ring_words_def by (intro sint_int_unat) simp
  have "(if sint (m ! 1) \<ge> sint (m ! 2) then sint (m ! 0) - (sint (m ! 1) - sint (m ! 2)) - 4
         else sint (m ! 2) - sint (m ! 1)) > 2 * sint (shared_reqwords rs) \<longleftrightarrow>
      ready (ring_words rs) L (unat (m ! 2)) (unat (m ! 1))"
    unfolding s r ready_def by (simp only: of_nat_le_iff split: if_split) linarith
  moreover have "sh_reqsize (on_mem t m) = rs" using t by simp
  ultimately show ?thesis
    using C by (subst busywait_loop.simps) (simp only: rdm_ctrl prod.case sum.case Let_def)
qed

lemma transmit_shared:
  assumes c: "ring_ctrl rs L m" and t: "sh_reqsize t = rs" and n: "length ws + 1 \<le> ring_words rs"
    and r: "ready (ring_words rs) L (unat (m ! 2)) (unat (m ! 1))"
  shows "transmit (sharedfunc env :: (shared_portal, 's) PortalItemFunctions) (on_mem t m) ch ws fd = Inr (on_mem t (enq rs L m ch ws))"
proof -
  note C = ring_ctrlD [OF c]
  let ?I = "sharedfunc env :: (shared_portal, 's) PortalItemFunctions"
  have w: "uint (m ! 1 + 1) = int (unat (m ! 1) + 1)"
  proof -
    have "unat (m ! 1 + 1) = unat (m ! 1) + 1" using C by (simp add: unat_word_ariths)
    then show ?thesis by (metis uint_nat)
  qed
  have "write_words ?I (on_mem t m) (int (unat (m ! 1) + 1)) ws =
      Inr (int (unat (m ! 1) + 1 + length ws), on_mem t (splice m (unat (m ! 1) + 1) ws))"
    using C n by (intro write_words_shared) simp
  moreover have "it_mapchannelReq ?I (on_mem t m) ch = Inr (int (unat (m ! 1) + 1))"
    using C by (simp only: sharedfunc_def PortalItemFunctions.simps mapchannel_sharedReq_def rdm_ctrl rbind_Inr w)
  moreover have "it_busywait ?I (on_mem t m) a = Inr (0, on_mem t m)" for a
    using r by (simp add: sharedfunc_def busywait_shared_def busywait_step [OF c t])
  moreover have "it_send ?I = send_shared" by (simp add: sharedfunc_def)
  ultimately show ?thesis
    unfolding transmit_def using send_shared_enq [OF c t n] by simp
qed

section \<open>The messages in the ring\<close>

definition msg_at :: "nat \<Rightarrow> mem \<Rightarrow> nat \<Rightarrow> message \<Rightarrow> bool" where
  "msg_at R m a x =
     (case x of (ch, ws, fd) \<Rightarrow>
        m ! a = msg_header ch (length ws) \<and> slice m (a + 1) (length ws) = ws \<and> fd = 0 \<and>
        ch < 0xffff \<and> length ws + 1 \<le> R)"

definition mlen :: "message \<Rightarrow> nat" where
  "mlen x = elen (length (fst (snd x)))"

text \<open>Messages one after the other from \<open>a\<close> to \<open>b\<close>, with no wrap.\<close>

fun lin :: "nat \<Rightarrow> nat \<Rightarrow> mem \<Rightarrow> nat \<Rightarrow> message list \<Rightarrow> nat \<Rightarrow> bool" where
  "lin R L m a [] b = (a = b)"
| "lin R L m a (x # xs) b = (msg_at R m a x \<and> a + mlen x + R < L \<and> lin R L m (a + mlen x) xs b)"

text \<open>
  The waiting messages between the read and the write position: either in one piece, or wrapped
  after a message near the end.
\<close>

definition ring_abs :: "nat \<Rightarrow> nat \<Rightarrow> mem \<Rightarrow> nat \<Rightarrow> nat \<Rightarrow> message list \<Rightarrow> bool" where
  "ring_abs R L m r w ms \<longleftrightarrow>
     lin R L m r ms w \<or>
     (\<exists>front l rear p. ms = front @ l # rear \<and> lin R L m r front p \<and> msg_at R m p l \<and>
        L \<le> p + mlen l + R \<and> p + R < L \<and> lin R L m 4 rear w \<and> w < r)"

definition shared_rep :: "u32 \<Rightarrow> nat \<Rightarrow> shared_portal \<Rightarrow> message list \<Rightarrow> bool" where
  "shared_rep rs L t ms \<longleftrightarrow>
     (\<exists>m. map_mem t = Some m \<and> sh_reqsize t = rs \<and> ring_ctrl rs L m \<and>
        ring_abs (ring_words rs) L m (unat (m ! 2)) (unat (m ! 1)) ms)"

lemma lin_append: "lin R L m a (xs @ ys) c \<longleftrightarrow> (\<exists>b. lin R L m a xs b \<and> lin R L m b ys c)"
  by (induction xs arbitrary: a) auto

lemma msg_at_len: "msg_at (ring_words rs) m a x \<Longrightarrow> 0 < mlen x \<and> mlen x \<le> ring_words rs"
  by (auto simp: msg_at_def mlen_def elen_le elen_bounds)

lemma lin_bounds:
  "lin (ring_words rs) L m a ms b \<Longrightarrow>
   a \<le> b \<and> b \<le> a + length ms * ring_words rs \<and> (ms \<noteq> [] \<longrightarrow> a < b \<and> b + ring_words rs < L)"
proof (induction ms arbitrary: a)
  case (Cons x xs)
  then show ?case using msg_at_len [of rs m a x] by (cases xs) fastforce+
qed simp

lemma msg_at_frame:
  assumes "msg_at R m a x" and "length m' = length m" and "a + mlen x \<le> length m"
    and "\<And>k. a \<le> k \<Longrightarrow> k < a + mlen x \<Longrightarrow> m' ! k = m ! k"
  shows "msg_at R m' a x"
proof -
  obtain ch ws fd where x: "x = (ch, ws, fd)" by (cases x)
  have l: "length ws + 1 \<le> mlen x" using elen_bounds(1) [of "length ws"] by (simp add: x mlen_def)
  have "slice m' (a + 1) (length ws) = slice m (a + 1) (length ws)"
    using l assms(2-4) by (intro slice_cong) auto
  moreover have "m' ! a = m ! a" using l assms(4) [of a] by simp
  ultimately show ?thesis using assms(1) by (simp add: msg_at_def x)
qed

lemma lin_frame:
  assumes "lin R L m a ms b" and "length m' = length m" and "b \<le> length m" and "L \<le> length m"
    and "\<And>k. a \<le> k \<Longrightarrow> k < b \<Longrightarrow> m' ! k = m ! k" and "R = ring_words rs"
  shows "lin R L m' a ms b"
  using assms
proof (induction ms arbitrary: a)
  case (Cons x xs)
  then have lin: "lin R L m (a + mlen x) xs b" and at: "msg_at R m a x" by simp_all
  from lin_bounds [of rs L m "a + mlen x" xs b] lin Cons.prems(6) have le: "a + mlen x \<le> b" by simp
  have "msg_at R m' a x"
    using at Cons.prems(2-5) le by (intro msg_at_frame [of R m a x m']) auto
  moreover have "lin R L m' (a + mlen x) xs b"
    using Cons.prems lin by (intro Cons.IH) auto
  ultimately show ?case using Cons.prems(1) by simp
qed simp

section \<open>Sending keeps the abstraction\<close>

lemma enq_facts:
  fixes m ws
  assumes c: "ring_ctrl rs L m" and n: "length ws + 1 \<le> ring_words rs" and ch: "ch < 0xffff"
  defines "w \<equiv> unat (m ! 1)" and "e \<equiv> elen (length ws)"
  defines "nx \<equiv> nxt (ring_words rs) L (w + e)" and "m' \<equiv> enq rs L m ch ws"
  shows "length m' = length m" "m' ! 0 = m ! 0" "m' ! 2 = m ! 2" "unat (m' ! 1) = nx"
    "ring_ctrl rs L m'" "msg_at (ring_words rs) m' w (ch, ws, 0)"
    "\<And>k. 4 \<le> k \<Longrightarrow> k < length m \<Longrightarrow> k < w \<or> w + e \<le> k \<Longrightarrow> k \<noteq> nx \<Longrightarrow> m' ! k = m ! k"
proof -
  note One_nat_def [simp del]
  note C = ring_ctrlD [OF c, folded w_def]
  let ?b = "ring_block ch ws"
  have e: "e \<le> ring_words rs" "length ?b = e" "0 < e"
    using elen_le [OF n] elen_bounds(3) by (simp_all add: e_def length_ring_block)
  have nx: "4 \<le> nx" "nx + ring_words rs < L" using nxt_bounds [OF C(3), of "w + e"] C(5) by (simp_all add: nx_def)
  have out: "nx < w \<or> w + e \<le> nx" using C e by (auto simp: nx_def nxt_def)
  have unx: "unat (of_nat nx :: u32) = nx" using nx C(2) by (intro unat_of_nat_small) simp
  have m': "m' = (splice m w ?b)[1 := of_nat nx, nx := 0]"
    by (simp add: m'_def enq_def Let_def w_def nx_def e_def)
  have l: "length (splice m w ?b) = length m" using C e by simp
  show len: "length m' = length m" using l by (simp add: m')
  have nth: "m' ! k = (if k = nx then 0 else if k = 1 then of_nat nx
      else if w \<le> k \<and> k < w + e then ?b ! (k - w) else m ! k)" if "k < length m" for k
    using that l C e nx by (simp add: m' nth_list_update nth_splice)
  have p: "0 < length m" "1 < length m" "2 < length m" using C(9) by linarith+
  show 0: "m' ! 0 = m ! 0" and 2: "m' ! 2 = m ! 2" and 1: "unat (m' ! 1) = nx"
    using nth [OF p(1)] nth [OF p(2)] nth [OF p(3)] nx C(5) unx by simp_all
  show "ring_ctrl rs L m'"
    using C nx unfolding ring_ctrl_def len 0 1 2 w_def [symmetric] by simp
  have wl: "w + e \<le> length m" using C e by simp
  have blk: "m' ! (w + k) = ?b ! k" if "k < e" for k
    using nth [of "w + k"] that wl out C(5) by auto
  have n1: "length ws + 1 \<le> e" using elen_bounds(1) by (simp add: e_def)
  have "slice m' (w + 1) (length ws) = ws"
  proof (rule slice_eqI)
    show "w + 1 + length ws \<le> length m'" using wl n1 len by simp
    show "m' ! (w + 1 + k) = ws ! k" if "k < length ws" for k
      using blk [of "k + 1"] that n1 by (simp add: ring_block_def nth_append ac_simps)
  qed simp
  moreover have "m' ! w = msg_header ch (length ws)" using blk [of 0] e(3) by (simp add: ring_block_def)
  ultimately show "msg_at (ring_words rs) m' w (ch, ws, 0)" using n ch by (simp add: msg_at_def)
  show "m' ! k = m ! k" if "4 \<le> k" "k < length m" "k < w \<or> w + e \<le> k" "k \<noteq> nx" for k
    using nth [OF that(2)] that by auto
qed

lemma shared_put:
  assumes rep: "ring_abs (ring_words rs) L m (unat (m ! 2)) (unat (m ! 1)) ms" and c: "ring_ctrl rs L m"
    and n: "length ws + 1 \<le> ring_words rs" and ch: "ch < 0xffff"
    and rdy: "ready (ring_words rs) L (unat (m ! 2)) (unat (m ! 1))"
  shows "ring_abs (ring_words rs) L (enq rs L m ch ws) (unat (enq rs L m ch ws ! 2)) (unat (enq rs L m ch ws ! 1))
           (ms @ [(ch, ws, 0)])"
proof -
  let ?R = "ring_words rs" and ?m' = "enq rs L m ch ws" and ?x = "(ch, ws, 0 :: int)"
  define w r e nx where d: "w = unat (m ! 1)" "r = unat (m ! 2)" "e = elen (length ws)" "nx = nxt ?R L (w + e)"
  note F = enq_facts [OF c n ch, folded d(1-3), folded d(4)] and C = ring_ctrlD(1,2,3,5-9) [OF c, folded d]
  note rep = rep [folded d] and rdy = rdy [folded d]
  have e: "e \<le> ?R" "0 < e" "mlen ?x = e" using elen_le [OF n] elen_bounds(3) by (simp_all add: d mlen_def)
  have r': "unat (?m' ! 2) = r" "unat (?m' ! 1) = nx" using F(3,4) by (simp_all add: d)
  show ?thesis unfolding r'
  proof (cases "lin ?R L m r ms w")
    case lin: True
    then have rw: "r \<le> w" using lin_bounds by blast
    have lin': "lin ?R L ?m' r ms w" if "nx < r \<or> w \<le> nx"
      using lin F(1) C that by (intro lin_frame [OF lin]) (auto intro!: F(7))
    show "ring_abs ?R L ?m' r nx (ms @ [?x])"
    proof (cases "L \<le> w + e + ?R")
      case False
      then have nx: "nx = w + e" by (simp add: d nxt_def)
      then have "lin ?R L ?m' r (ms @ [?x]) nx" using lin' F(6) e False by (auto simp: lin_append)
      then show ?thesis by (simp add: ring_abs_def)
    next
      case True
      then have nx: "nx = 4" by (simp add: d nxt_def)
      have "4 < r" using True rdy e rw by (simp add: ready_def)
      with nx lin' F(6) True e C show ?thesis
        unfolding ring_abs_def by (intro disjI2 exI [of _ ms] exI [of _ ?x] exI [of _ "[]"] exI [of _ w]) auto
    qed
  next
    case False
    with rep obtain front l rear p where f: "ms = front @ l # rear" "lin ?R L m r front p" "msg_at ?R m p l"
      "L \<le> p + mlen l + ?R" "p + ?R < L" "lin ?R L m 4 rear w" "w < r"
      by (auto simp: ring_abs_def)
    have nx: "nx = w + e" "nx < r" "nx + ?R < L" using rdy f(7) e C by (simp_all add: ready_def d nxt_def)
    have rp: "r \<le> p" using lin_bounds [OF f(2)] by simp
    have ml: "mlen l \<le> ?R" using msg_at_len [OF f(3)] by simp
    have "lin ?R L ?m' r front p"
      using F(1) C f nx by (intro lin_frame [OF f(2)]) (auto intro!: F(7))
    moreover have "msg_at ?R ?m' p l"
      using F(1) C f nx rp ml by (intro msg_at_frame [OF f(3)]) (auto intro!: F(7))
    moreover have "lin ?R L ?m' 4 rear w"
      using F(1) C f nx by (intro lin_frame [OF f(6)]) (auto intro!: F(7))
    then have "lin ?R L ?m' 4 (rear @ [?x]) nx" using F(6) e nx by (auto simp: lin_append)
    ultimately show "ring_abs ?R L ?m' r nx (ms @ [?x])"
      unfolding ring_abs_def using f nx
      by (intro disjI2 exI [of _ front] exI [of _ l] exI [of _ "rear @ [?x]"] exI [of _ p]) auto
  qed
qed

section \<open>Receiving\<close>

lemma ring_abs_head:
  assumes "ring_abs (ring_words rs) L m r w (x # ms)" and "r + ring_words rs < L" and "w + ring_words rs < L"
  shows "msg_at (ring_words rs) m r x" "r \<noteq> w"
proof -
  have "msg_at (ring_words rs) m r x \<and> r \<noteq> w"
  proof (cases "lin (ring_words rs) L m r (x # ms) w")
    case True
    then show ?thesis using lin_bounds [OF True] by auto
  next
    case False
    then obtain front l rear p where f: "x # ms = front @ l # rear" "lin (ring_words rs) L m r front p"
      "msg_at (ring_words rs) m p l" "w < r"
      using assms(1) by (auto simp: ring_abs_def)
    then show ?thesis by (cases front) auto
  qed
  then show "msg_at (ring_words rs) m r x" "r \<noteq> w" by simp_all
qed

lemma ring_abs_tail:
  assumes "ring_abs (ring_words rs) L m r w (x # ms)"
  shows "ring_abs (ring_words rs) L m (nxt (ring_words rs) L (r + mlen x)) w ms"
proof (cases "lin (ring_words rs) L m r (x # ms) w")
  case True
  then show ?thesis by (auto simp: ring_abs_def nxt_def)
next
  case False
  then obtain front l rear p where f: "x # ms = front @ l # rear" "lin (ring_words rs) L m r front p"
    "msg_at (ring_words rs) m p l" "L \<le> p + mlen l + ring_words rs" "p + ring_words rs < L"
    "lin (ring_words rs) L m 4 rear w" "w < r"
    using assms by (auto simp: ring_abs_def)
  show ?thesis
  proof (cases front)
    case Nil
    with f show ?thesis by (auto simp: ring_abs_def nxt_def)
  next
    case (Cons y front')
    with f have y: "x = y" "ms = front' @ l # rear" "r + mlen y + ring_words rs < L"
      "lin (ring_words rs) L m (r + mlen y) front' p" by auto
    then have nx: "nxt (ring_words rs) L (r + mlen x) = r + mlen y" by (simp add: nxt_def)
    show ?thesis unfolding nx ring_abs_def
      using f y by (intro disjI2 exI [of _ front'] exI [of _ l] exI [of _ rear] exI [of _ p]) auto
  qed
qed

lemma ring_abs_frame:
  assumes "ring_abs (ring_words rs) L m r w ms" and "length m' = length m" and "L \<le> length m"
    and "\<And>k. 4 \<le> k \<Longrightarrow> m' ! k = m ! k" and "4 \<le> r" and "w + ring_words rs < L"
  shows "ring_abs (ring_words rs) L m' r w ms"
proof (cases "lin (ring_words rs) L m r ms w")
  case True
  then show ?thesis unfolding ring_abs_def
    using assms by (intro disjI1 lin_frame [OF True]) auto
next
  case False
  then obtain front l rear p where f: "ms = front @ l # rear" "lin (ring_words rs) L m r front p"
    "msg_at (ring_words rs) m p l" "L \<le> p + mlen l + ring_words rs" "p + ring_words rs < L"
    "lin (ring_words rs) L m 4 rear w" "w < r"
    using assms(1) by (auto simp: ring_abs_def)
  have "r \<le> p" "mlen l \<le> ring_words rs" using lin_bounds [OF f(2)] msg_at_len [OF f(3)] by simp_all
  then have "lin (ring_words rs) L m' r front p" "msg_at (ring_words rs) m' p l" "lin (ring_words rs) L m' 4 rear w"
    using f assms lin_frame [OF f(2), of m' rs] msg_at_frame [OF f(3), of m'] lin_frame [OF f(6), of m' rs]
    by auto
  with f show ?thesis unfolding ring_abs_def by blast
qed

text \<open>The buffer after the oldest message has been handled.\<close>

definition deq :: "u32 \<Rightarrow> nat \<Rightarrow> mem \<Rightarrow> message \<Rightarrow> mem" where
  "deq rs L m x = m[2 := of_nat (nxt (ring_words rs) L (unat (m ! 2) + mlen x))]"

lemma collect_shared:
  assumes c: "ring_ctrl rs L m" and x: "msg_at (ring_words rs) m (unat (m ! 2)) (ch, ws, fd)"
  shows "collect (sharedfunc env) (on_mem t m) ch (length ws) = Inr (ws, on_mem t m)"
proof -
  note C = ring_ctrlD [OF c]
  have r: "uint (m ! 2 + 1) = int (unat (m ! 2) + 1)"
  proof -
    have "unat (m ! 2 + 1) = unat (m ! 2) + 1" using C by (simp add: unat_word_ariths)
    then show ?thesis by (metis uint_nat)
  qed
  have ws: "length ws + 1 \<le> ring_words rs" "slice m (unat (m ! 2) + 1) (length ws) = ws"
    using x by (simp_all add: msg_at_def)
  have "read_words (sharedfunc env) (on_mem t m) (int (unat (m ! 2) + 1)) (length ws) = Inr (ws, on_mem t m)"
    using read_words_shared [of "unat (m ! 2) + 1" "length ws" m env t] C ws by simp
  moreover have "mapchannel_sharedInd (on_mem t m) ch = Inr (int (unat (m ! 2) + 1))"
    using C by (simp only: mapchannel_sharedInd_def rdm_ctrl rbind_Inr r)
  ultimately show ?thesis
    by (simp add: collect_def sharedfunc_def)
qed

lemma event_shared_msg:
  assumes c: "ring_ctrl rs L m" and t: "sh_reqsize t = rs"
    and x: "msg_at (ring_words rs) m (unat (m ! 2)) (ch, ws, fd)" and ne: "m ! 2 \<noteq> m ! 1"
    and H: "H (on_mem t m) s ch 0 = Inr (on_mem t m, s')"
  shows "event_shared H (on_mem t m) s = Inr (- 1, on_mem t (deq rs L m (ch, ws, fd)), s')"
proof -
  note C = ring_ctrlD [OF c]
  define k where "k = length ws + 1"
  have h: "m ! unat (m ! 2) = msg_header ch (length ws)" "ch < 0xffff" "k \<le> ring_words rs"
    using x by (simp_all add: msg_at_def k_def)
  have kb: "k < 2 ^ 16 - 1" using h(3) ring_words_even [of rs] by auto
  let ?e = "elen (length ws)"
  have words: "(msg_header ch (length ws) AND 0xffff) + 1 AND 0xfffe = of_nat ?e"
    using msg_header_words [of "length ws" ch] padded_words(1) [OF kb] kb by (simp add: elen_def k_def)
  have chan: "drop_bit 16 (msg_header ch (length ws)) = ch" "ch \<noteq> 0xffff"
    using msg_header_channel [of "length ws" ch] kb h(2) by (auto simp: k_def)
  have e: "?e \<le> ring_words rs" using elen_le h(3) by (simp add: k_def)
  have re: "unat (m ! 2 + of_nat ?e) = unat (m ! 2) + ?e"
    using C e ring_words_bound [of rs] unat_of_nat_small [of ?e, where 'a = 32] by (simp add: unat_word_ariths)
  have inc: "increment_shared (on_mem t m) (m ! 2 + of_nat ?e) =
      Inr (of_nat (nxt (ring_words rs) L (unat (m ! 2) + ?e)))"
    using increment_shared_nat [of m L "m ! 2 + of_nat ?e" t] C e by (simp add: re t)
  have rr: "rdm (on_mem t m) (uint (m ! 2)) = Inr (msg_header ch (length ws))"
    using C h(1) by (simp add: rdm_word)
  show ?thesis
    using C ne H chan
    by (simp add: event_shared_def rdm_ctrl rr words Let_def inc wrm_ctrl deq_def mlen_def)
qed

section \<open>The ring is a transport\<close>

definition shared_room :: "u32 \<Rightarrow> nat \<Rightarrow> nat \<Rightarrow> bool" where
  "shared_room rs L n \<longleftrightarrow> n * ring_words rs + 3 * ring_words rs + 5 \<le> L"

definition shared_fits :: "u32 \<Rightarrow> nat \<Rightarrow> bool" where
  "shared_fits rs n \<longleftrightarrow> n + 1 \<le> ring_words rs"

lemma room_ready:
  assumes "ring_abs (ring_words rs) L m r w ms" and "shared_room rs L (length ms)"
  shows "ready (ring_words rs) L r w"
proof (cases "lin (ring_words rs) L m r ms w")
  case True
  then show ?thesis using lin_bounds [OF True] assms(2) by (auto simp: ready_def shared_room_def)
next
  case False
  then obtain front l rear p where f: "ms = front @ l # rear" "lin (ring_words rs) L m r front p"
    "msg_at (ring_words rs) m p l" "L \<le> p + mlen l + ring_words rs"
    "lin (ring_words rs) L m 4 rear w" "w < r"
    using assms(1) by (auto simp: ring_abs_def)
  have "p \<le> r + length front * ring_words rs" "w \<le> 4 + length rear * ring_words rs" "mlen l \<le> ring_words rs"
    using lin_bounds [OF f(2)] lin_bounds [OF f(5)] msg_at_len [OF f(3)] by simp_all
  with f assms(2) show ?thesis by (simp add: ready_def shared_room_def algebra_simps)
qed

lemma shared_rep_put:
  assumes "shared_rep rs L t ms" and "shared_room rs L (length ms)" and "shared_fits rs (length ws)" and "ch < 0xffff"
  shows "\<exists>t'. transmit (sharedfunc env) t ch ws fd = Inr t' \<and> shared_rep rs L t' (ms @ [(ch, ws, 0)])"
proof -
  from assms(1) obtain m where m: "map_mem t = Some m" "sh_reqsize t = rs" "ring_ctrl rs L m"
    "ring_abs (ring_words rs) L m (unat (m ! 2)) (unat (m ! 1)) ms"
    by (auto simp: shared_rep_def)
  have t: "t = on_mem t m" using m(1) by simp
  note rdy = room_ready [OF m(4) assms(2)] and n = assms(3) [unfolded shared_fits_def]
  have "transmit (sharedfunc env) t ch ws fd = Inr (on_mem t (enq rs L m ch ws))"
    using transmit_shared [OF m(3,2) n rdy, of env ch fd] t by simp
  moreover have "shared_rep rs L (on_mem t (enq rs L m ch ws)) (ms @ [(ch, ws, 0)])"
    using shared_put [OF m(4,3) n assms(4) rdy] enq_facts(5) [OF m(3) n assms(4)] m(2)
    by (simp add: shared_rep_def)
  ultimately show ?thesis by blast
qed

lemma shared_rep_event:
  assumes "shared_rep rs L t ((ch, ws, fd) # ms)"
  shows "collect (sharedfunc env :: (shared_portal, 's) PortalItemFunctions) t ch (length ws) = Inr (ws, t) \<and>
    (\<forall>(H :: (shared_portal, 's) indfunc) s s'. H t s ch fd = Inr (t, s') \<longrightarrow>
       (\<exists>rc t2. event_shared H t s = Inr (rc, t2, s') \<and> shared_rep rs L t2 ms))"
proof -
  from assms obtain m where m: "map_mem t = Some m" "sh_reqsize t = rs" "ring_ctrl rs L m"
    "ring_abs (ring_words rs) L m (unat (m ! 2)) (unat (m ! 1)) ((ch, ws, fd) # ms)"
    by (auto simp: shared_rep_def)
  have t: "on_mem t m = t" using m(1) by simp
  note C = ring_ctrlD [OF m(3)]
  note x = ring_abs_head [OF m(4) C(8,6)] and T = ring_abs_tail [OF m(4)]
  have fd: "fd = 0" and l: "mlen (ch, ws, fd) \<le> ring_words rs"
    using x(1) msg_at_len [OF x(1)] by (simp_all add: msg_at_def)
  let ?m = "deq rs L m (ch, ws, fd)" and ?nx = "nxt (ring_words rs) L (unat (m ! 2) + mlen (ch, ws, fd))"
  have nx: "4 \<le> ?nx" "?nx + ring_words rs < L"
    using nxt_bounds [OF C(3), of "unat (m ! 2) + mlen (ch, ws, fd)"] C(7) by simp_all
  then have "unat (of_nat ?nx :: u32) = ?nx" using C(2) by (intro unat_of_nat_small) simp
  then have at: "unat (?m ! 2) = ?nx" "?m ! 1 = m ! 1" "?m ! 0 = m ! 0" "length ?m = length m"
    using C(9) by (simp_all add: deq_def)
  have "ring_ctrl rs L ?m" using C nx by (simp only: ring_ctrl_def at)
  moreover have "ring_abs (ring_words rs) L ?m (unat (?m ! 2)) (unat (?m ! 1)) ms"
    unfolding at(1,2) using C nx at(4) by (intro ring_abs_frame [OF T]) (simp_all add: deq_def)
  moreover have ne: "m ! 2 \<noteq> m ! 1" using x(2) by metis
  ultimately have rep: "shared_rep rs L (on_mem t ?m) ms" using m(2) by (simp add: shared_rep_def)
  have "event_shared H t s = Inr (- 1, on_mem t ?m, s')" if "H t s ch fd = Inr (t, s')"
    for H :: "(shared_portal, 's) indfunc" and s s'
    using event_shared_msg [OF m(3,2) x(1) ne, of H s s'] that by (simp add: t fd)
  moreover have "collect (sharedfunc env :: (shared_portal, 's) PortalItemFunctions) t ch (length ws) = Inr (ws, t)"
    using collect_shared [OF m(3) x(1), of env t] by (simp add: t)
  ultimately show ?thesis using rep by blast
qed

lemma shared_rep_get:
  assumes "shared_rep rs L t ((ch, ws, fd) # ms)"
  shows "\<exists>t0 t1. collect (sharedfunc env :: (shared_portal, 's) PortalItemFunctions) t0 ch (length ws) = Inr (ws, t1) \<and>
    (\<forall>(H :: (shared_portal, 's) indfunc) s s'. H t0 s ch fd = Inr (t1, s') \<longrightarrow>
       (\<exists>rc t2. event_shared H t s = Inr (rc, t2, s') \<and> shared_rep rs L t2 ms))"
  using shared_rep_event [OF assms] by blast

lemma shared_rep_idle:
  assumes "shared_rep rs L t []"
  shows "\<exists>rc t'. event_shared H t s = Inr (rc, t', s) \<and> shared_rep rs L t' []"
proof -
  from assms obtain m where m: "map_mem t = Some m" "ring_ctrl rs L m" "unat (m ! 2) = unat (m ! 1)"
    by (auto simp: shared_rep_def ring_abs_def)
  have t: "t = on_mem t m" using m(1) by simp
  have "event_shared H (on_mem t m) s = Inr (- 1, on_mem t m, s)"
    using m(3) ring_ctrlD(9) [OF m(2)] by (simp add: event_shared_def rdm_ctrl word_unat_eq_iff)
  with t assms show ?thesis by simp
qed

interpretation shm: message_transport "sharedfunc env" "shared_rep rs L" "shared_room rs L" "shared_fits rs" "\<lambda>_. 0"
  for env rs L
  by unfold_locales
    (use shared_rep_put shared_rep_get shared_rep_idle in \<open>simp_all add: sharedfunc_def\<close>)

lemma ring_words_44: "ring_words 44 = 12"
  by (simp add: ring_words_def shared_reqwords_def)

interpretation shm_mmu: mmu_transport "sharedfunc env" "shared_rep 44 L" "shared_room 44 L" "shared_fits 44" "\<lambda>_. 0"
  for env L
  by unfold_locales (simp add: shared_fits_def ring_words_44)

text \<open>A fresh ring is empty.\<close>

lemma init_shared_rep:
  assumes "init_shared alloc mmap reference num (Some bytes) t = Inr (rc, t', ifc)"
    and "\<And>fd m. mmap fd bytes = Some m \<Longrightarrow> unat bytes div 4 \<le> length m"
    and "3 * ring_words (sh_reqsize t) + 5 \<le> unat bytes div 4"
  shows "shared_rep (sh_reqsize t) (unat bytes div 4) t' []"
proof -
  let ?L = "unat bytes div 4"
  obtain m where m: "mmap (alloc bytes) bytes = Some m"
    using assms(1) by (auto simp: init_shared_def wrm_def Let_def split: option.splits)
  have len: "?L \<le> length m" "4 < length m" using assms(2) [OF m] assms(3) by simp_all
  let ?m = "m[0 := bytes div 4, 1 := 4, 2 := 4, 4 := 0]"
  have "t' = on_mem t ?m"
    using assms(1) m len(2) wrm_word [of SHARED_START "m[0 := bytes div 4, 1 := 4, 2 := 4]" t 0]
    by (simp add: init_shared_def Let_def wrm_ctrl SHARED_START_def)
  moreover have "?m ! 0 = bytes div 4" "?m ! 1 = 4" "?m ! 2 = 4"
    using len(2) gr_implies_not0 by fastforce+
  moreover have "unat (bytes div 4) = ?L" by (simp add: unat_div)
  moreover have "?L < 2 ^ 31" using unat_less_size [of bytes] by simp
  ultimately show ?thesis using len assms(3) by (auto simp: shared_rep_def ring_ctrl_def ring_abs_def)
qed

section \<open>Properties\<close>

text \<open>
  C2: a shared-memory portal is a queue.  Starting from a freshly initialised ring, every
  interleaving of \<open>MMURequest\<close> calls and polls that has room at each call succeeds, and the
  callbacks the dispatcher makes are those of a queue of requests, in order, none lost, none
  duplicated and none altered, except that a passed descriptor arrives as 0.
\<close>

theorem shared_portal_is_queue:
  assumes "init_shared alloc mmap reference num (Some bytes) t = Inr (rc, t', ifc)" and "sh_reqsize t = 44"
    and "\<And>fd m. mmap fd bytes = Some m \<Longrightarrow> unat bytes div 4 \<le> length m"
    and "41 \<le> unat bytes div 4" and "roomy (shared_room 44 (unat bytes div 4)) steps 0"
  shows "\<exists>t''. portal_run (sharedfunc env) cb steps t' s =
           Inr (t'', s\<lparr>app := snd (queue_run (\<lambda>_. 0) cb steps [] (app s))\<rparr>) \<and>
         shared_rep 44 (unat bytes div 4) t''
           (map (mmu_msg (\<lambda>_. 0)) (fst (queue_run (\<lambda>_. 0) cb steps [] (app s))))"
proof -
  have "shared_rep 44 (unat bytes div 4) t' (map (mmu_msg (\<lambda>_. 0)) [])"
    using init_shared_rep [OF assms(1,3)] assms(2,4) by (simp add: ring_words_44)
  from shm_mmu.run_is_queue [OF this] assms(5) show ?thesis by simp
qed

text \<open>A ring of 256 words, and a run that sends three requests and handles two.\<close>

definition demo_mmap :: "int \<Rightarrow> u32 \<Rightarrow> mem option" where
  "demo_mmap fd n = Some (replicate (unat n div 4) 0)"

definition demo_steps :: "portal_step list" where
  "demo_steps = [Send_req (IdReturn 7), Send_req (Sglist 1 2 0x1234567890 4), Poll, Send_req (IdRequest 9), Poll]"

theorem shared_portal_is_queue_witness:
  "\<exists>t' t''. init_shared (\<lambda>_. 5) demo_mmap (\<lambda>_. 3) 0 (Some 1024) \<lparr>sh_reqsize = 44, map_mem = None\<rparr> =
       Inr (0, t', Some (0, 3)) \<and>
     portal_run (sharedfunc id) (\<lambda>r l. l @ [r]) demo_steps t' \<lparr>runaway = 0, app = []\<rparr> =
       Inr (t'', \<lparr>runaway = 0, app = [IdReturn 7, Sglist 1 2 0x1234567890 4]\<rparr>)"
proof -
  let ?t = "\<lparr>sh_reqsize = 44, map_mem = None\<rparr>"
  have init: "\<exists>t'. init_shared (\<lambda>_. 5) demo_mmap (\<lambda>_. 3) 0 (Some 1024) ?t = Inr (0, t', Some (0, 3))"
    by (simp add: init_shared_def Let_def demo_mmap_def wrm_def wr_def SHARED_LIMIT_def SHARED_WRITE_def
        SHARED_READ_def SHARED_START_def)
  then obtain t' where t': "init_shared (\<lambda>_. 5) demo_mmap (\<lambda>_. 3) 0 (Some 1024) ?t = Inr (0, t', Some (0, 3))"
    by blast
  have "roomy (shared_room 44 (unat (1024 :: u32) div 4)) demo_steps 0"
    by (simp add: demo_steps_def shared_room_def ring_words_44)
  then have "\<exists>t''. portal_run (sharedfunc id) (\<lambda>r l. l @ [r]) demo_steps t' \<lparr>runaway = 0, app = []\<rparr> =
      Inr (t'', \<lparr>runaway = 0, app = []\<rparr>\<lparr>app := snd (queue_run (\<lambda>_. 0) (\<lambda>r l. l @ [r]) demo_steps [] [])\<rparr>)"
    using shared_portal_is_queue [OF t', of demo_steps id "\<lambda>r l. l @ [r]" "\<lparr>runaway = 0, app = []\<rparr>"]
    by (auto simp: demo_mmap_def)
  then show ?thesis using t' by (auto simp: demo_steps_def arrive_def)
qed






end
