(* ===== verification/Socket_Portal.thy ===== *)
theory Socket_Portal
  imports Portal_Interface
begin

text \<open>
  The socket transport (\<open>cpp/sock_utils.c\<close> and the user-space part of \<open>cpp/portalSocket.c\<close>):
  connection set-up, sending and receiving with descriptor passing, the event function of a
  portal that serves several clients, with the list of its clients.
  The socket calls of the operating system are the fields of a record \<open>'k sockets\<close>; \<open>'k\<close> is
  the state of the system.  Transfers are in words, since every message is a number of words.
\<close>

section \<open>System calls\<close>

text \<open>
  The answer of \<open>recvmsg\<close>: words and the descriptor that came with them (-1 for none), end of
  file, nothing available (\<open>EAGAIN\<close>), or another error.
\<close>

datatype recv_reply = Data "u32 list" int | Eof | Again | Recv_error

record 'k sockets =
  sk_socket :: "'k \<Rightarrow> int \<times> 'k"
  sk_unlink :: "'k \<Rightarrow> 'k"
  sk_bind :: "'k \<Rightarrow> int \<Rightarrow> int \<times> 'k"
  sk_listen :: "'k \<Rightarrow> int \<Rightarrow> int \<times> 'k"
  sk_connect :: "'k \<Rightarrow> int \<Rightarrow> int \<times> 'k"
  sk_accept :: "'k \<Rightarrow> int \<Rightarrow> int option \<times> bool \<times> 'k"
  sk_sendmsg :: "'k \<Rightarrow> int \<Rightarrow> u32 list \<Rightarrow> int \<Rightarrow> int \<times> 'k"
  sk_recvmsg :: "'k \<Rightarrow> int \<Rightarrow> nat \<Rightarrow> recv_reply \<times> 'k"
  sk_close :: "'k \<Rightarrow> int \<Rightarrow> 'k"

section \<open>Set-up\<close>

definition init_listening :: "'k sockets \<Rightarrow> bool \<Rightarrow> 'k \<Rightarrow> (int \<times> 'k) result" where
  "init_listening S tcp k =
     (let k = (if tcp then k else sk_unlink S k) in
      case sk_socket S k of (fd, k) \<Rightarrow>
        if fd = - 1 then Inl (Exit 1)
        else case sk_bind S k fd of (rc, k) \<Rightarrow>
          if rc = - 1 then Inl (Exit 1)
          else case sk_listen S k fd of (rc, k) \<Rightarrow>
            if rc = - 1 then Inl (Exit 1) else Inr (fd, k))"

text \<open>
  \<open>accept_socket\<close>: a descriptor, or -1 when no client is waiting; any other failure ends the
  program.  \<open>sk_accept\<close> answers with the descriptor, or with none and whether the reason is
  \<open>EAGAIN\<close>.
\<close>

definition accept_socket :: "'k sockets \<Rightarrow> 'k \<Rightarrow> int \<Rightarrow> (int \<times> 'k) result" where
  "accept_socket S k listening =
     (case sk_accept S k listening of
        (Some fd, _, k) \<Rightarrow> Inr (fd, k)
      | (None, again, k) \<Rightarrow> if again then Inr (- 1, k) else Inl (Exit 1))"

function connect_loop :: "'k sockets \<Rightarrow> int \<Rightarrow> nat \<Rightarrow> 'k \<Rightarrow> (nat \<times> 'k) result" where
  "connect_loop S fd connect_attempts k =
     (case sk_connect S k fd of (rc, k) \<Rightarrow>
        if rc \<noteq> - 1 then Inr (connect_attempts, k)
        else if connect_attempts > 16 then Inl (Exit 1)
        else connect_loop S fd (connect_attempts + 1) k)"
  by pat_completeness auto
termination
  by (relation "measure (\<lambda>(S, fd, a, k). 18 - a)") auto

declare connect_loop.simps [simp del]

definition init_connecting :: "'k sockets \<Rightarrow> 'k \<Rightarrow> (int \<times> 'k) result" where
  "init_connecting S k =
     (case sk_socket S k of (fd, k) \<Rightarrow>
        if fd = - 1 then Inl (Exit 1)
        else rbind (connect_loop S fd 0 k) (\<lambda>(_, k). Inr (fd, k)))"

section \<open>Sending and receiving\<close>

definition sock_fd_write :: "'k sockets \<Rightarrow> 'k \<Rightarrow> int \<Rightarrow> u32 list \<Rightarrow> int \<Rightarrow> (int \<times> 'k) result" where
  "sock_fd_write S k sockfd ws sendfd =
     (case sk_sendmsg S k sockfd ws (if sendfd \<ge> 0 then sendfd else - 1) of (rc, k) \<Rightarrow>
        if rc \<noteq> int (4 * length ws) then Inl (Exit 1) else Inr (rc, k))"

definition portalSendFd :: "'k sockets \<Rightarrow> 'k \<Rightarrow> int \<Rightarrow> u32 list \<Rightarrow> int \<Rightarrow> 'k result" where
  "portalSendFd S k fd ws sendFd =
     rbind (sock_fd_write S k fd ws sendFd) (\<lambda>(rc, k).
       if rc \<noteq> int (4 * length ws) then Inl (Exit 1) else Inr k)"

text \<open>
  \<open>portalRecvFd\<close> (through \<open>sock_fd_read\<close>): the received words are stored at \<open>data\<close>; the
  result is the number of bytes, 0 at end of file, or -1; the descriptor is -1 unless one came.
  The boolean says whether \<open>errno\<close> is \<open>EAGAIN\<close>.
\<close>

fun wr_words :: "mem \<Rightarrow> ptr \<Rightarrow> u32 list \<Rightarrow> mem result" where
  "wr_words m p [] = Inr m"
| "wr_words m p (w # ws) = rbind (wr m p w) (\<lambda>m. wr_words m (p + 1) ws)"

fun rd_words :: "mem \<Rightarrow> ptr \<Rightarrow> nat \<Rightarrow> u32 list result" where
  "rd_words m p 0 = Inr []"
| "rd_words m p (Suc n) = rbind (rd m p) (\<lambda>w. rbind (rd_words m (p + 1) n) (\<lambda>ws. Inr (w # ws)))"

definition portalRecvFd ::
  "'k sockets \<Rightarrow> 'k \<Rightarrow> int \<Rightarrow> mem \<Rightarrow> ptr \<Rightarrow> nat \<Rightarrow> (int \<times> bool \<times> int \<times> mem \<times> 'k) result" where
  "portalRecvFd S k fd m data n =
     (case sk_recvmsg S k fd n of
        (Data ws recvfd, k) \<Rightarrow> rbind (wr_words m data ws) (\<lambda>m. Inr (int (4 * length ws), False, recvfd, m, k))
      | (Eof, k) \<Rightarrow> Inr (0, False, - 1, m, k)
      | (Again, k) \<Rightarrow> Inr (- 1, True, - 1, m, k)
      | (Recv_error, k) \<Rightarrow> Inr (- 1, False, - 1, m, k))"

section \<open>The socket portal\<close>

definition MAX_CLIENT_FD :: nat where
  "MAX_CLIENT_FD = 10"

text \<open>
  The fields of \<open>PortalInternal\<close> the socket functions use.  \<open>pmem\<close> is the block \<open>map_base\<close>
  points to, malloc'ed with \<open>reqsize\<close> bytes.
\<close>

record PortalInternal =
  fpga_fd :: int
  fpga_number :: u32
  pmem :: mem
  accept_finished :: bool
  indication_index :: nat
  request_index :: nat
  client_fd_number :: nat
  client_fd :: "int list"

text \<open>\<open>pint->client_fd[pint->client_fd_number++] = fd\<close> in an array of \<open>MAX_CLIENT_FD\<close>.\<close>

definition push_client :: "int \<Rightarrow> PortalInternal \<Rightarrow> PortalInternal result" where
  "push_client fd p =
     (if client_fd_number p < MAX_CLIENT_FD
      then Inr (p\<lparr>client_fd := (client_fd p)[client_fd_number p := fd],
                 client_fd_number := client_fd_number p + 1\<rparr>)
      else Inl OutOfBounds)"

text \<open>The start of both initialisers: a zeroed portal (\<open>init_portal_internal\<close>).\<close>

definition new_portal :: "u32 \<Rightarrow> PortalInternal" where
  "new_portal num =
     \<lparr>fpga_fd = - 1, fpga_number = num, pmem = [], accept_finished = False, indication_index = 0,
      request_index = 0, client_fd_number = 0, client_fd = replicate MAX_CLIENT_FD 0\<rparr>"

text \<open>\<open>junk\<close> is the content of the malloc'ed block.\<close>

definition init_socketResp ::
  "'k sockets \<Rightarrow> bool \<Rightarrow> mem \<Rightarrow> PortalInternal \<Rightarrow> 'k \<Rightarrow> (int \<times> PortalInternal \<times> 'k) result" where
  "init_socketResp S tcp junk p k =
     rbind (init_listening S tcp k) (\<lambda>(fd, k). Inr (0, p\<lparr>fpga_fd := fd, pmem := junk\<rparr>, k))"

definition init_socketInit ::
  "'k sockets \<Rightarrow> mem \<Rightarrow> PortalInternal \<Rightarrow> 'k \<Rightarrow> (int \<times> PortalInternal \<times> 'k) result" where
  "init_socketInit S junk p k =
     rbind (init_connecting S k) (\<lambda>(fd, k).
     rbind (push_client fd p) (\<lambda>p. Inr (0, p\<lparr>accept_finished := True, pmem := junk\<rparr>, k)))"

definition mapchannel_socket :: "PortalInternal \<Rightarrow> u32 \<Rightarrow> ptr" where
  "mapchannel_socket p v = 1"

text \<open>
  \<open>recv_socket\<close> stores into the block \<open>m\<close> that \<open>buffer\<close> points into: the portal's own block,
  or the block of a portal multiplexed over it.
\<close>

definition recv_socket ::
  "'k sockets \<Rightarrow> PortalInternal \<Rightarrow> 'k \<Rightarrow> mem \<Rightarrow> ptr \<Rightarrow> nat \<Rightarrow> (int \<times> mem \<times> 'k) result" where
  "recv_socket S p k m buffer len =
     (if indication_index p \<ge> MAX_CLIENT_FD then Inl OutOfBounds
      else rbind (portalRecvFd S k (client_fd p ! indication_index p) m buffer len)
             (\<lambda>(rc, again, recvfd, m, k). Inr (rc, m, k)))"

text \<open>
  The client loop of \<open>event_socket\<close>: from client \<open>i\<close> on, with \<open>n\<close> clients left, the first
  one that has a message or has hung up.  The header word goes to \<open>map_base[0]\<close>.  After end of
  file the client is removed, and the loop ends with the index it had.
\<close>

fun scan_clients ::
  "'k sockets \<Rightarrow> nat \<Rightarrow> nat \<Rightarrow> PortalInternal \<Rightarrow> 'k \<Rightarrow> ((nat \<times> int) option \<times> PortalInternal \<times> 'k) result" where
  "scan_clients S i 0 p k = Inr (None, p, k)"
| "scan_clients S i (Suc n) p k =
     rbind (portalRecvFd S k (client_fd p ! i) (pmem p) 0 1) (\<lambda>(len, again, recvfd, m, k).
       if len = 0 then
         (let number = client_fd_number p - 1;
              k = sk_close S k (client_fd p ! i);
              fds = take i (client_fd p) @ take (number - i) (drop (i + 1) (client_fd p)) @
                    drop number (client_fd p)
          in Inr (Some (i, recvfd), p\<lparr>client_fd_number := number, client_fd := fds, pmem := m\<rparr>, k))
       else if len = - 1 \<and> again then scan_clients S (i + 1) n p k
       else if len = - 1 then Inl (Exit 1)
       else Inr (Some (i, recvfd), p\<lparr>pmem := m\<rparr>, k))"

text \<open>The second half of \<open>event_socket\<close>: accept a waiting client on a listening portal.\<close>

definition accept_client :: "'k sockets \<Rightarrow> PortalInternal \<Rightarrow> 'k \<Rightarrow> (PortalInternal \<times> 'k) result" where
  "accept_client S p k =
     (if fpga_fd p \<noteq> - 1 then
        rbind (accept_socket S k (fpga_fd p)) (\<lambda>(sockfd, k).
          if sockfd \<noteq> - 1
          then rbind (push_client sockfd p) (\<lambda>p. Inr (p\<lparr>accept_finished := True\<rparr>, k))
          else Inr (p, k))
      else Inr (p, k))"

text \<open>
  \<open>event_socket\<close>, for a portal whose handler is set.  The handler works on a state \<open>'t\<close> that
  contains the portal and the system; \<open>get\<close> and \<open>put\<close> access them.
\<close>

definition event_socket ::
  "'k sockets \<Rightarrow> ('t \<Rightarrow> PortalInternal \<times> 'k) \<Rightarrow> (PortalInternal \<times> 'k \<Rightarrow> 't \<Rightarrow> 't) \<Rightarrow>
   ('t, 's) indfunc \<Rightarrow> 't \<Rightarrow> 's \<Rightarrow> (int \<times> 't \<times> 's) result" where
  "event_socket S get put handler t s =
     (case get t of (p, k) \<Rightarrow>
      rbind (scan_clients S 0 (client_fd_number p) p k) (\<lambda>(found, p, k).
      rbind (case found of
               None \<Rightarrow> Inr (put (p, k) t, s)
             | Some (i, fd) \<Rightarrow>
                 rbind (rd (pmem p) 0) (\<lambda>hdr.
                   handler (put (p\<lparr>indication_index := i\<rparr>, k) t) s (drop_bit 16 hdr) fd)) (\<lambda>(t, s).
      case get t of (p, k) \<Rightarrow>
      rbind (accept_client S p k) (\<lambda>(p, k). Inr (- 1, put (p, k) t, s)))))"

text \<open>
  \<open>send_socket\<close>: the header goes in front of the data; a portal without clients polls for one
  first (with no client the event function only accepts).  \<open>m\<close> is the block \<open>data\<close> points into.
\<close>

partial_function (option) wait_client ::
  "'k sockets \<Rightarrow> PortalInternal \<Rightarrow> 'k \<Rightarrow> (PortalInternal \<times> 'k) result option" where
  "wait_client S p k =
     (if client_fd_number p = 0 then
        (case accept_client S p k of Inl e \<Rightarrow> Some (Inl e) | Inr (p, k) \<Rightarrow> wait_client S p k)
      else Some (Inr (p, k)))"

definition send_socket ::
  "'k sockets \<Rightarrow> PortalInternal \<Rightarrow> 'k \<Rightarrow> mem \<Rightarrow> ptr \<Rightarrow> u32 \<Rightarrow> int \<Rightarrow> (PortalInternal \<times> 'k \<times> mem) result" where
  "send_socket S p k m data hdr sendFd =
     rbind (wr m (data - 1) hdr) (\<lambda>m.
     rbind (case wait_client S p k of None \<Rightarrow> Inl NoReturn | Some r \<Rightarrow> r) (\<lambda>(p, k).
     if request_index p \<ge> MAX_CLIENT_FD then Inl OutOfBounds
     else
       rbind (rd_words m (data - 1) (unat (hdr AND 0xffff))) (\<lambda>ws.
       rbind (portalSendFd S k (client_fd p ! request_index p) ws sendFd) (\<lambda>k. Inr (p, k, m)))))"

section \<open>Two ends of a connection\<close>

text \<open>
  The state of a connection: the sending portal, the receiving portal and the system.  The item
  functions of the sending side work on the first, those of the receiving side on the second.
\<close>

record 'k link =
  client :: PortalInternal
  server :: PortalInternal
  net :: 'k

definition get_server :: "'k link \<Rightarrow> PortalInternal \<times> 'k" where
  "get_server t = (server t, net t)"

definition put_server :: "PortalInternal \<times> 'k \<Rightarrow> 'k link \<Rightarrow> 'k link" where
  "put_server pk t = t\<lparr>server := fst pk, net := snd pk\<rparr>"

definition socketfunc :: "'k sockets \<Rightarrow> ('k link, 's) PortalItemFunctions" where
  "socketfunc S =
     \<lparr>it_read = (\<lambda>t a. rbind (rd (pmem (server t)) a) (\<lambda>v. Inr (v, a + 1, t))),
      it_write = (\<lambda>t a v. rbind (wr (pmem (client t)) a v) (\<lambda>m. Inr (a + 1, t\<lparr>client := (client t)\<lparr>pmem := m\<rparr>\<rparr>))),
      it_writefd = (\<lambda>t a v. rbind (wr (pmem (client t)) a v) (\<lambda>m. Inr (a + 1, t\<lparr>client := (client t)\<lparr>pmem := m\<rparr>\<rparr>))),
      it_mapchannelInd = (\<lambda>t v. Inr (mapchannel_socket (server t) v)),
      it_mapchannelReq = (\<lambda>t v. Inr (mapchannel_socket (client t) v)),
      it_send = (\<lambda>t data hdr fd.
        rbind (send_socket S (client t) (net t) (pmem (client t)) data hdr fd) (\<lambda>(p, k, m).
          Inr (t\<lparr>client := p\<lparr>pmem := m\<rparr>, net := k\<rparr>))),
      it_recv = (\<lambda>t buffer n.
        rbind (recv_socket S (server t) (net t) (pmem (server t)) buffer n) (\<lambda>(rc, m, k).
          Inr (rc, t\<lparr>server := (server t)\<lparr>pmem := m\<rparr>, net := k\<rparr>))),
      it_busywait = (\<lambda>t a. Inr (0, t)),
      it_enableint = (\<lambda>t v. Inr t),
      it_event = event_socket S get_server put_server\<rparr>"

section \<open>What the connection promises\<close>

text \<open>
  The words on their way, each with the descriptor that travels with it (-1 for none), already
  numbered as in the receiving process.  A descriptor is attached to the first word of a send.
\<close>

type_synonym flight = "(u32 \<times> int) list"

fun tagged :: "u32 list \<Rightarrow> int \<Rightarrow> flight" where
  "tagged [] fd = []"
| "tagged (w # ws) fd = (w, fd) # map (\<lambda>v. (v, - 1)) ws"

definition pass_fd :: "(int \<Rightarrow> int) \<Rightarrow> int \<Rightarrow> int" where
  "pass_fd f fd = (if fd \<ge> 0 then f fd else - 1)"

text \<open>
  A connected stream socket whose sending end is descriptor \<open>c\<close> and whose receiving end is
  descriptor \<open>d\<close>: sends on \<open>c\<close> are complete and ordered; receives on \<open>d\<close> that ask for words
  sent together return them, with the descriptor of the first; a receive with nothing on the way
  answers \<open>EAGAIN\<close>.  On the listening descriptor \<open>l\<close> no further client is waiting.
\<close>

definition stream_law :: "'k sockets \<Rightarrow> ('k \<Rightarrow> flight) \<Rightarrow> (int \<Rightarrow> int) \<Rightarrow> int \<Rightarrow> int \<Rightarrow> int \<Rightarrow> bool" where
  "stream_law S flight f c d l \<longleftrightarrow>
     (\<forall>k ws fd. \<exists>k'. sk_sendmsg S k c ws fd = (int (4 * length ws), k') \<and>
        flight k' = flight k @ tagged ws (pass_fd f fd)) \<and>
     (\<forall>k ws fd rest. ws \<noteq> [] \<longrightarrow> flight k = tagged ws fd @ rest \<longrightarrow>
        (\<exists>k'. sk_recvmsg S k d (length ws) = (Data ws fd, k') \<and> flight k' = rest)) \<and>
     (\<forall>k. flight k = [] \<longrightarrow> (\<exists>k'. sk_recvmsg S k d 1 = (Again, k') \<and> flight k' = [])) \<and>
     (\<forall>k. \<exists>k'. sk_accept S k l = (None, True, k') \<and> flight k' = flight k)"

text \<open>The words of a message on the wire.\<close>

definition wire :: "message \<Rightarrow> flight" where
  "wire x = (case x of (ch, ws, fd) \<Rightarrow> tagged (msg_header ch (length ws) # ws) fd)"

definition socket_fits :: "nat \<Rightarrow> nat \<Rightarrow> bool" where
  "socket_fits W n \<longleftrightarrow> 0 < n \<and> n + 1 \<le> W \<and> W < 2 ^ 16"

text \<open>
  A connected pair of portals with \<open>W\<close> words of buffer each, and the messages on the way.
\<close>

definition link_rep ::
  "'k sockets \<Rightarrow> ('k \<Rightarrow> flight) \<Rightarrow> (int \<Rightarrow> int) \<Rightarrow> int \<Rightarrow> int \<Rightarrow> int \<Rightarrow> nat \<Rightarrow> 'k link \<Rightarrow> message list \<Rightarrow> bool" where
  "link_rep S flight f c d l W t ms \<longleftrightarrow>
     stream_law S flight f c d l \<and>
     (let p = client t in 0 < client_fd_number p \<and> request_index p < MAX_CLIENT_FD \<and>
        client_fd p ! request_index p = c \<and> length (pmem p) = W) \<and>
     (let q = server t in client_fd_number q = 1 \<and> client_fd q ! 0 = d \<and> length (pmem q) = W \<and>
        (fpga_fd q = l \<or> fpga_fd q = - 1)) \<and>
     flight (net t) = concat (map wire ms) \<and>
     (\<forall>x \<in> set ms. case x of (ch, ws, fd) \<Rightarrow> ch < 0xffff \<and> socket_fits W (length ws))"

subsection \<open>Blocks of words\<close>

lemma wr_words_splice:
  "a + length ws \<le> length m \<Longrightarrow> wr_words m (int a) ws = Inr (splice m a ws)"
proof (induction ws arbitrary: a m)
  case (Cons w ws)
  then show ?case using Cons.IH [of "Suc a" "m[a := w]"] by (simp add: wr_int splice_Cons add.commute)
qed simp

lemma rd_words_slice: "a + n \<le> length m \<Longrightarrow> rd_words m (int a) n = Inr (slice m a n)"
proof (induction n arbitrary: a)
  case (Suc n)
  then show ?case using Suc.IH [of "Suc a"] by (simp add: rd_int slice_Suc add.commute)
qed simp

lemma write_words_socket:
  "a + length ws \<le> length (pmem (client t)) \<Longrightarrow>
   write_words (socketfunc S) t (int a) ws =
     Inr (int (a + length ws), t\<lparr>client := (client t)\<lparr>pmem := splice (pmem (client t)) a ws\<rparr>\<rparr>)"
proof (induction ws arbitrary: a t)
  case (Cons w ws)
  let ?t = "t\<lparr>client := (client t)\<lparr>pmem := (pmem (client t))[a := w]\<rparr>\<rparr>"
  show ?case
    using Cons.IH [of "Suc a" ?t] Cons.prems by (simp add: socketfunc_def wr_int splice_Cons add.commute)
qed simp

lemma read_words_socket:
  "a + n \<le> length (pmem (server t)) \<Longrightarrow>
   read_words (socketfunc S) t (int a) n = Inr (slice (pmem (server t)) a n, t)"
proof (induction n arbitrary: a)
  case (Suc n)
  then show ?case
    using Suc.IH [of "Suc a"] by (simp add: socketfunc_def rd_int slice_Suc add.commute)
qed simp

lemma tagged_none: "tagged ws (- 1) = map (\<lambda>v. (v, - 1)) ws"
  by (cases ws) simp_all

section \<open>A connection is a transport\<close>

lemma stream_lawD:
  assumes "stream_law S flight f c d l"
  shows "\<exists>k'. sk_sendmsg S k c ws fd = (int (4 * length ws), k') \<and> flight k' = flight k @ tagged ws (pass_fd f fd)"
    and "ws \<noteq> [] \<Longrightarrow> flight k = tagged ws fd @ rest \<Longrightarrow>
      \<exists>k'. sk_recvmsg S k d (length ws) = (Data ws fd, k') \<and> flight k' = rest"
    and "flight k = [] \<Longrightarrow> \<exists>k'. sk_recvmsg S k d 1 = (Again, k') \<and> flight k' = []"
    and "\<exists>k'. sk_accept S k l = (None, True, k') \<and> flight k' = flight k"
  using assms unfolding stream_law_def by blast+

lemma pass_fd_idem: "pass_fd f (if fd \<ge> 0 then fd else - 1) = pass_fd f fd"
  by (simp add: pass_fd_def)

lemma send_socket_ok:
  assumes law: "stream_law S flight f c d l" and p: "0 < client_fd_number p" "request_index p < MAX_CLIENT_FD"
    "client_fd p ! request_index p = c" and m: "a + length ws + 1 \<le> length m" "length ws + 1 < 2 ^ 16"
    and ws: "slice m (a + 1) (length ws) = ws"
  shows "\<exists>k'. send_socket S p k m (int a + 1) (msg_header ch (length ws)) fd =
           Inr (p, k', m[a := msg_header ch (length ws)]) \<and> flight k' = flight k @ wire (ch, ws, pass_fd f fd)"
proof -
  let ?h = "msg_header ch (length ws)"
  have n: "unat (?h AND 0xffff) = length ws + 1"
    unfolding msg_header_words [OF m(2)] using m(2) by (intro unat_of_nat_small) simp
  have "wait_client S p k = Some (Inr (p, k))" using p(1) by (subst wait_client.simps) simp
  moreover have "rd_words (m[a := ?h]) (int a) (length ws + 1) = Inr (?h # ws)"
  proof -
    have "slice (m[a := ?h]) a (length ws + 1) = ?h # slice (m[a := ?h]) (a + 1) (length ws)"
      using m(1) slice_Suc [of a "m[a := ?h]" "length ws"] by simp
    also have "slice (m[a := ?h]) (a + 1) (length ws) = ws" using ws by (simp add: slice_update_other)
    finally show ?thesis using rd_words_slice [of a "length ws + 1" "m[a := ?h]"] m(1) by simp
  qed
  moreover have "wr m (int a) ?h = Inr (m[a := ?h])" using m(1) by (intro wr_int) simp
  moreover from stream_lawD(1) [OF law, of k "?h # ws" "if fd \<ge> 0 then fd else - 1"] obtain k' where
    "sk_sendmsg S k c (?h # ws) (if fd \<ge> 0 then fd else - 1) = (int (4 * length (?h # ws)), k')"
    "flight k' = flight k @ tagged (?h # ws) (pass_fd f fd)"
    unfolding pass_fd_idem by blast
  ultimately show ?thesis
    using p n by (auto simp: send_socket_def portalSendFd_def sock_fd_write_def wire_def)
qed

lemma link_put:
  assumes rep: "link_rep S flight f c d l W t ms" and n: "socket_fits W (length ws)" and ch: "ch < 0xffff"
  shows "\<exists>t'. transmit (socketfunc S :: ('k link, 's) PortalItemFunctions) t ch ws fd = Inr t' \<and>
           link_rep S flight f c d l W t' (ms @ [(ch, ws, pass_fd f fd)])"
proof -
  let ?p = "client t" and ?m = "splice (pmem (client t)) 1 ws"
  have law: "stream_law S flight f c d l" and p: "0 < client_fd_number ?p" "request_index ?p < MAX_CLIENT_FD"
    "client_fd ?p ! request_index ?p = c" "length (pmem ?p) = W"
    using rep by (simp_all add: link_rep_def Let_def)
  have W: "length ws + 1 \<le> W" "W < 2 ^ 16" using n by (simp_all add: socket_fits_def)
  let ?p' = "?p\<lparr>pmem := ?m\<rparr>" and ?h = "msg_header ch (length ws)"
  have "length ?m = W" "slice ?m 1 (length ws) = ws" using p(4) W by (simp_all add: slice_splice)
  then obtain k' where send: "send_socket S ?p' (net t) ?m 1 ?h fd = Inr (?p', k', ?m[0 := ?h])"
    and fl: "flight k' = flight (net t) @ wire (ch, ws, pass_fd f fd)"
    using send_socket_ok [OF law, of ?p' 0 ws ?m "net t" ch fd] p W by auto
  have "write_words (socketfunc S :: ('k link, 's) PortalItemFunctions) t 1 ws =
      Inr (int (1 + length ws), t\<lparr>client := ?p'\<rparr>)"
    using write_words_socket [of 1 ws t S] p(4) W by simp
  then have "transmit (socketfunc S :: ('k link, 's) PortalItemFunctions) t ch ws fd = Inr (t\<lparr>client := ?p'\<lparr>pmem := ?m[0 := ?h]\<rparr>, net := k'\<rparr>)"
    using send by (simp add: transmit_def socketfunc_def mapchannel_socket_def)
  moreover have "link_rep S flight f c d l W (t\<lparr>client := ?p'\<lparr>pmem := ?m[0 := ?h]\<rparr>, net := k'\<rparr>)
      (ms @ [(ch, ws, pass_fd f fd)])"
    using rep fl n ch W p(4) by (simp add: link_rep_def Let_def)
  ultimately show ?thesis by blast
qed

lemma accept_quiet:
  assumes "stream_law S flight f c d l" and "fpga_fd p = l \<or> fpga_fd p = - 1"
  shows "\<exists>k'. accept_client S p k = Inr (p, k') \<and> flight k' = flight k"
  using stream_lawD(4) [OF assms(1), of k] assms(2)
  by (auto simp: accept_client_def accept_socket_def)

lemma link_get:
  assumes rep: "link_rep S flight f c d l W t ((ch, ws, fd) # ms)"
  shows "\<exists>t0 t1. collect (socketfunc S :: ('k link, 's) PortalItemFunctions) t0 ch (length ws) = Inr (ws, t1) \<and>
    (\<forall>(H :: ('k link, 's) indfunc) s s'. H t0 s ch fd = Inr (t1, s') \<longrightarrow>
       (\<exists>rc t2. it_event (socketfunc S) H t s = Inr (rc, t2, s') \<and> link_rep S flight f c d l W t2 ms))"
proof -
  let ?q = "server t" and ?h = "msg_header ch (length ws)"
  have law: "stream_law S flight f c d l" and q: "client_fd_number ?q = 1" "client_fd ?q ! 0 = d"
    "length (pmem ?q) = W" "fpga_fd ?q = l \<or> fpga_fd ?q = - 1" and ch: "ch < 0xffff"
    and W: "0 < length ws" "length ws + 1 \<le> W" "W < 2 ^ 16"
    using rep by (simp_all add: link_rep_def Let_def socket_fits_def)
  have fl: "flight (net t) = tagged [?h] fd @ tagged ws (- 1) @ concat (map wire ms)"
    using rep by (simp add: link_rep_def wire_def tagged_none)
  from stream_lawD(2) [OF law _ fl] obtain k1 where
    k1: "sk_recvmsg S (net t) d 1 = (Data [?h] fd, k1)" "flight k1 = tagged ws (- 1) @ concat (map wire ms)"
    by auto
  from stream_lawD(2) [OF law _ k1(2)] W(1) obtain k2 where
    k2: "sk_recvmsg S k1 d (length ws) = (Data ws (- 1), k2)" "flight k2 = concat (map wire ms)"
    by auto
  let ?m0 = "(pmem ?q)[0 := ?h]" and ?m1 = "splice ((pmem ?q)[0 := ?h]) 1 ws"
  let ?t0 = "t\<lparr>server := ?q\<lparr>pmem := ?m0, indication_index := 0\<rparr>, net := k1\<rparr>"
  let ?t1 = "t\<lparr>server := ?q\<lparr>pmem := ?m1, indication_index := 0\<rparr>, net := k2\<rparr>"
  have wr: "wr_words ?m0 1 ws = Inr ?m1" using wr_words_splice [of 1 ws ?m0] q(3) W by simp
  have sl: "slice ?m1 1 (length ws) = ws" using slice_splice [of 1 ws ?m0] q(3) W by simp
  have "read_words (socketfunc S :: ('k link, 's) PortalItemFunctions) ?t1 1 (length ws) = Inr (ws, ?t1)"
    using read_words_socket [of 1 "length ws" ?t1 S] q(3) W sl by simp
  moreover have "it_recv (socketfunc S :: ('k link, 's) PortalItemFunctions) ?t0 1 (length ws) =
      Inr (int (4 * length ws), ?t1)"
    using q k2(1) wr by (simp add: socketfunc_def recv_socket_def MAX_CLIENT_FD_def portalRecvFd_def)
  moreover have "it_mapchannelInd (socketfunc S :: ('k link, 's) PortalItemFunctions) ?t0 ch = Inr 1"
    by (simp add: socketfunc_def mapchannel_socket_def)
  ultimately have col: "collect (socketfunc S :: ('k link, 's) PortalItemFunctions) ?t0 ch (length ws) = Inr (ws, ?t1)"
    by (simp add: collect_def)
  have scan: "scan_clients S 0 (client_fd_number ?q) ?q (net t) = Inr (Some (0, fd), ?q\<lparr>pmem := ?m0\<rparr>, k1)"
    using q k1(1) W wr_int [of 0 "pmem ?q" ?h] by (simp add: portalRecvFd_def)
  have hd: "rd ?m0 0 = Inr ?h" using rd_int [of 0 ?m0] q(3) W by simp
  have chan: "drop_bit 16 ?h = ch" using W ch by (intro msg_header_channel) simp_all
  from accept_quiet [OF law, of "server ?t1" k2] q(4) obtain k3 where
    k3: "accept_client S (server ?t1) k2 = Inr (server ?t1, k3)" "flight k3 = flight k2" by auto
  have "it_event (socketfunc S) H t s = Inr (- 1, ?t1\<lparr>net := k3\<rparr>, s')" if "H ?t0 s ch fd = Inr (?t1, s')"
    for H :: "('k link, 's) indfunc" and s s'
    using scan hd chan k3(1) that
    by (simp add: socketfunc_def event_socket_def get_server_def put_server_def)
  moreover have "link_rep S flight f c d l W (?t1\<lparr>net := k3\<rparr>) ms"
    using rep k2(2) k3(2) q W by (simp add: link_rep_def Let_def)
  ultimately show ?thesis using col by blast
qed

lemma link_idle:
  assumes rep: "link_rep S flight f c d l W t []"
  shows "\<exists>rc t'. it_event (socketfunc S) H t s = Inr (rc, t', s) \<and> link_rep S flight f c d l W t' []"
proof -
  let ?q = "server t"
  have law: "stream_law S flight f c d l" and q: "client_fd_number ?q = 1" "client_fd ?q ! 0 = d"
    "fpga_fd ?q = l \<or> fpga_fd ?q = - 1" "flight (net t) = []"
    using rep by (simp_all add: link_rep_def Let_def)
  from stream_lawD(3) [OF law q(4)] obtain k1 where
    k1: "sk_recvmsg S (net t) d 1 = (Again, k1)" "flight k1 = []" by auto
  from accept_quiet [OF law q(3), of k1] obtain k3 where
    k3: "accept_client S ?q k1 = Inr (?q, k3)" "flight k3 = []" using k1 by auto
  have "scan_clients S 0 (client_fd_number ?q) ?q (net t) = Inr (None, ?q, k1)"
    using q k1(1) by (simp add: portalRecvFd_def)
  then have "it_event (socketfunc S) H t s = Inr (- 1, t\<lparr>net := k3\<rparr>, s)"
    using k3(1) by (simp add: socketfunc_def event_socket_def get_server_def put_server_def)
  moreover have "link_rep S flight f c d l W (t\<lparr>net := k3\<rparr>) []"
    using rep k3(2) by (simp add: link_rep_def Let_def)
  ultimately show ?thesis by blast
qed

interpretation sock: message_transport "socketfunc S" "link_rep S flight f c d l W" "\<lambda>_. True" "socket_fits W" "pass_fd f"
  for S :: "'k sockets" and flight f c d l W
  by unfold_locales (use link_put link_get link_idle in \<open>simp_all add: socketfunc_def\<close>)

interpretation sock_mmu: mmu_transport "socketfunc S" "link_rep S flight f c d l 11" "\<lambda>_. True" "socket_fits 11" "pass_fd f"
  for S :: "'k sockets" and flight f c d l
  by unfold_locales (simp add: socket_fits_def)

section \<open>Properties\<close>

text \<open>
  C4: a connected pair of socket portals is a queue.  Over a stream socket every interleaving of
  \<open>MMURequest\<close> calls and polls succeeds and the dispatcher makes the callbacks of a queue of
  requests; a passed descriptor arrives as the number the system gives it in the receiver.
\<close>

theorem socket_portal_is_queue:
  assumes "link_rep S flight f c d l 11 t []"
  shows "\<exists>t'. portal_run (socketfunc S) cb steps t s =
           Inr (t', s\<lparr>app := snd (queue_run (pass_fd f) cb steps [] (app s))\<rparr>) \<and>
         link_rep S flight f c d l 11 t'
           (map (mmu_msg (pass_fd f)) (fst (queue_run (pass_fd f) cb steps [] (app s))))"
  using sock_mmu.run_is_queue [of S flight f c d l t "[]" steps cb s] assms by simp

text \<open>A socket for concrete runs: its state is what is on the way.\<close>

definition demo_sockets :: "flight sockets" where
  "demo_sockets =
     \<lparr>sk_socket = (\<lambda>k. (4, k)), sk_unlink = id, sk_bind = (\<lambda>k fd. (0, k)), sk_listen = (\<lambda>k fd. (0, k)),
      sk_connect = (\<lambda>k fd. (0, k)), sk_accept = (\<lambda>k fd. (None, True, k)),
      sk_sendmsg = (\<lambda>k fd ws sfd. (int (4 * length ws), k @ tagged ws (pass_fd (\<lambda>n. n + 100) sfd))),
      sk_recvmsg = (\<lambda>k fd n. if k = [] then (Again, k) else (Data (map fst (take n k)) (snd (hd k)), drop n k)),
      sk_close = (\<lambda>k fd. k)\<rparr>"

lemma demo_stream: "stream_law demo_sockets id (\<lambda>n. n + 100) c d l"
proof -
  have 1: "map fst (tagged ws fd) = ws" and 2: "length (tagged ws fd) = length ws" for ws fd
    by (cases ws; simp add: comp_def)+
  have 3: "ws \<noteq> [] \<Longrightarrow> snd (hd (tagged ws fd)) = fd \<and> tagged ws fd \<noteq> []" for ws fd by (cases ws) simp_all
  show ?thesis by (auto simp: stream_law_def demo_sockets_def 1 2 3)
qed

definition demo_portal :: PortalInternal where
  "demo_portal = (new_portal 0)\<lparr>pmem := replicate 11 0, client_fd_number := 1, client_fd := 4 # replicate 9 0\<rparr>"

lemma demo_link:
  "link_rep demo_sockets id (\<lambda>n. n + 100) 4 4 (- 1) 11 \<lparr>client = demo_portal, server = demo_portal, net = []\<rparr> []"
  using demo_stream by (simp add: link_rep_def demo_portal_def new_portal_def MAX_CLIENT_FD_def)

theorem socket_portal_is_queue_witness:
  "\<exists>t'. portal_run (socketfunc demo_sockets) (\<lambda>r l. l @ [r])
          [Send_req (IdRequest 9), Send_req (IdReturn 7), Poll, Poll]
          \<lparr>client = demo_portal, server = demo_portal, net = []\<rparr> \<lparr>runaway = 0, app = []\<rparr> =
        Inr (t', \<lparr>runaway = 0, app = [IdRequest 109, IdReturn 7]\<rparr>)"
  using socket_portal_is_queue [OF demo_link, of "\<lambda>r l. l @ [r]"
      "[Send_req (IdRequest 9), Send_req (IdReturn 7), Poll, Poll]" "\<lparr>runaway = 0, app = []\<rparr>"]
  by (auto simp: arrive_def pass_fd_def)

text \<open>The state of the system after \<open>n\<close> calls of \<open>connect\<close>.\<close>

primrec after_connects :: "'k sockets \<Rightarrow> int \<Rightarrow> nat \<Rightarrow> 'k \<Rightarrow> 'k" where
  "after_connects S fd 0 k = k"
| "after_connects S fd (Suc n) k = after_connects S fd n (snd (sk_connect S k fd))"

definition connect_ok :: "'k sockets \<Rightarrow> int \<Rightarrow> nat \<Rightarrow> 'k \<Rightarrow> bool" where
  "connect_ok S fd n k \<longleftrightarrow> fst (sk_connect S (after_connects S fd n k) fd) \<noteq> - 1"

lemma connect_loop_first:
  assumes "connect_ok S fd n k" and "\<forall>i < n. \<not> connect_ok S fd i k" and "a + n \<le> 17"
  shows "connect_loop S fd a k = Inr (a + n, after_connects S fd (Suc n) k)"
  using assms
proof (induction n arbitrary: a k)
  case 0
  then show ?case by (subst connect_loop.simps) (auto simp: connect_ok_def split: prod.splits)
next
  case (Suc n)
  let ?k = "snd (sk_connect S k fd)"
  have "connect_ok S fd n ?k" "\<forall>i < n. \<not> connect_ok S fd i ?k"
    using Suc.prems(1,2) by (auto simp: connect_ok_def)
  moreover have "fst (sk_connect S k fd) = - 1" using Suc.prems(2) by (auto simp: connect_ok_def)
  ultimately show ?case
    using Suc.IH [of ?k "a + 1"] Suc.prems(3) by (subst connect_loop.simps) (auto split: prod.splits)
qed

lemma connect_loop_never:
  assumes "\<forall>i < 18 - a. \<not> connect_ok S fd i k" and "a \<le> 17"
  shows "connect_loop S fd a k = Inl (Exit 1)"
  using assms
proof (induction "17 - a" arbitrary: a k)
  case 0
  then show ?case by (subst connect_loop.simps) (auto simp: connect_ok_def split: prod.splits)
next
  case (Suc n)
  let ?k = "snd (sk_connect S k fd)"
  have "\<not> connect_ok S fd i ?k" if "i < 18 - (a + 1)" for i
    using Suc.prems(1) [rule_format, of "Suc i"] that by (auto simp: connect_ok_def)
  moreover have "fst (sk_connect S k fd) = - 1"
    using Suc.prems(1) [rule_format, of 0] Suc.prems(2) by (simp add: connect_ok_def)
  moreover have "n = 17 - (a + 1)" "a + 1 \<le> 17" "\<not> 16 < a" using Suc.hyps(2) by linarith+
  ultimately show ?case
    using Suc.hyps(1) [of "a + 1" ?k] by (subst connect_loop.simps) (simp add: case_prod_unfold)
qed

text \<open>
  \<open>init_connecting\<close> tries to connect at most 18 times.  It returns the socket after the first
  success among the first 18 attempts, and ends the program when all of them fail.
\<close>

theorem init_connecting_attempts:
  assumes "sk_socket S k = (fd, k0)" and "fd \<noteq> - 1"
  shows "init_connecting S k =
    (if \<exists>n < 18. connect_ok S fd n k0
     then Inr (fd, after_connects S fd (Suc (LEAST n. connect_ok S fd n k0)) k0)
     else Inl (Exit 1))"
proof (cases "\<exists>n < 18. connect_ok S fd n k0")
  case True
  let ?n = "LEAST n. connect_ok S fd n k0"
  from True obtain i where i: "i < 18" "connect_ok S fd i k0" by blast
  have 1: "connect_ok S fd ?n k0" using i(2) by (rule LeastI)
  have 2: "0 + ?n \<le> 17" using i(1) Least_le [of "\<lambda>n. connect_ok S fd n k0", OF i(2)] by linarith
  have 3: "\<forall>i < ?n. \<not> connect_ok S fd i k0" by (intro allI impI) (rule not_less_Least)
  note connect_loop_first [OF 1 3 2]
  with True assms show ?thesis by (simp add: init_connecting_def)
next
  case False
  then have "connect_loop S fd 0 k0 = Inl (Exit 1)" by (intro connect_loop_never) simp_all
  with False assms show ?thesis by (simp add: init_connecting_def)
qed

text \<open>A system in which the first two attempts fail.\<close>

definition slow_sockets :: "nat sockets" where
  "slow_sockets =
     \<lparr>sk_socket = (\<lambda>k. (4, k)), sk_unlink = id, sk_bind = (\<lambda>k fd. (0, k)), sk_listen = (\<lambda>k fd. (0, k)),
      sk_connect = (\<lambda>k fd. (if k < 2 then - 1 else 0, k + 1)), sk_accept = (\<lambda>k fd. (None, True, k)),
      sk_sendmsg = (\<lambda>k fd ws sfd. (int (4 * length ws), k)), sk_recvmsg = (\<lambda>k fd n. (Again, k)),
      sk_close = (\<lambda>k fd. k)\<rparr>"

theorem init_connecting_attempts_witness: "\<exists>k'. init_connecting slow_sockets 0 = Inr (4, k')"
proof -
  have "connect_ok slow_sockets 4 2 0" by (simp add: connect_ok_def slow_sockets_def numeral_2_eq_2)
  then have "\<exists>n < 18. connect_ok slow_sockets 4 n 0" by (intro exI [of _ 2]) simp
  with init_connecting_attempts [of slow_sockets 0 4 0] show ?thesis by (simp add: slow_sockets_def)
qed

text \<open>
  a peer that hangs up is taken for a message.  When the only client has closed its end,
  \<open>event_socket\<close> closes and forgets it, and still calls the handler, with the channel number
  of the header that the last message left in \<open>map_base[0]\<close>.
\<close>

theorem hangup_repeats_header:
  assumes "sk_recvmsg S (net t) (client_fd (server t) ! 0) 1 = (Eof, k1)"
    and "client_fd_number (server t) = 1" and "pmem (server t) = hdr # m" and "fpga_fd (server t) = - 1"
    and "H = (\<lambda>t (s :: (u32 \<times> int) list) ch fd. Inr (t, s @ [(ch, fd)]))"
  shows "\<exists>t'. event_socket S get_server put_server H t s = Inr (- 1, t', s @ [(drop_bit 16 hdr, - 1)]) \<and>
           client_fd_number (server t') = 0"
  using assms rd_int [of 0 "hdr # m"]
  by (simp add: event_socket_def get_server_def put_server_def accept_client_def portalRecvFd_def Let_def)

text \<open>A connection whose peer has gone.\<close>

definition closed_sockets :: "unit sockets" where
  "closed_sockets =
     \<lparr>sk_socket = (\<lambda>k. (4, k)), sk_unlink = id, sk_bind = (\<lambda>k fd. (0, k)), sk_listen = (\<lambda>k fd. (0, k)),
      sk_connect = (\<lambda>k fd. (0, k)), sk_accept = (\<lambda>k fd. (Some 9, False, k)),
      sk_sendmsg = (\<lambda>k fd ws sfd. (- 1, k)), sk_recvmsg = (\<lambda>k fd n. (Eof, k)),
      sk_close = (\<lambda>k fd. k)\<rparr>"

theorem hangup_repeats_header_witness:
  "\<exists>t'. event_socket closed_sockets get_server put_server (\<lambda>t s ch fd. Inr (t, s @ [(ch, fd)]))
      \<lparr>client = demo_portal, server = demo_portal\<lparr>pmem := [0x30002]\<rparr>, net = ()\<rparr> [] = Inr (- 1, t', [(3, - 1)])"
proof -
  have "drop_bit 16 (0x30002 :: u32) = 3" by simp
  then show ?thesis
    using hangup_repeats_header [of closed_sockets
        "\<lparr>client = demo_portal, server = demo_portal\<lparr>pmem := [0x30002]\<rparr>, net = ()\<rparr>" "()" "0x30002" "[]" _ "[]", OF _ _ _ _ refl]
    by (auto simp: closed_sockets_def demo_portal_def new_portal_def)
qed

text \<open>
  The array of clients has no guard.  A listening portal with \<open>MAX_CLIENT_FD\<close> clients that
  accepts one more stores past the end of \<open>client_fd\<close>.
\<close>

theorem eleventh_client_overflows:
  assumes "fpga_fd p \<noteq> - 1" and "sk_accept S k (fpga_fd p) = (Some sockfd, again, k1)" and "sockfd \<noteq> - 1"
  shows "accept_client S p k = Inl OutOfBounds \<longleftrightarrow> MAX_CLIENT_FD \<le> client_fd_number p"
  using assms by (simp add: accept_client_def accept_socket_def push_client_def)

theorem eleventh_client_overflows_witness:
  "accept_client closed_sockets (demo_portal\<lparr>fpga_fd := 5, client_fd_number := 10\<rparr>) () = Inl OutOfBounds"
  using eleventh_client_overflows [of "demo_portal\<lparr>fpga_fd := 5, client_fd_number := 10\<rparr>" closed_sockets "()" 9 False "()"]
  by (simp add: closed_sockets_def MAX_CLIENT_FD_def)

end
