(* ===== verification/Mux_Portal.thy ===== *)
theory Mux_Portal
  imports Socket_Portal
begin

text \<open>
  The multiplexer of \<open>cpp/portalSocket.c\<close> (\<open>init_mux\<close>, \<open>send_mux\<close>, \<open>recv_mux\<close>,
  \<open>portal_mux_handler\<close>, \<open>muxfunc\<close>): several portals share one socket portal; a message of a
  multiplexed portal is wrapped in a message of the shared one, whose channel is the number of
  the portal.

  The buffer of a multiplexed portal is a malloc'ed block inside the heap.  Its memory is modelled
  with the words of the heap around it: the block starts at word \<open>b\<close>, so with \<open>b = 0\<close> nothing
  below it may be touched.
\<close>

section \<open>Model\<close>

record mux_port =
  port_number :: u32
  port_mem :: mem

text \<open>
  Both ends: the shared socket portals, the sending portal multiplexed over one of them, the
  portals registered with the other, the system.
\<close>

record 'k mux_world =
  mux_client :: PortalInternal
  port_client :: mux_port
  port_request_index :: nat
  mux_server :: PortalInternal
  mux_ports :: "mux_port list"
  mux_net :: 'k

text \<open>
  \<open>init_mux\<close>: the new portal is appended to the ports of the shared one, whose first buffer word
  is set to -1.
\<close>

definition init_mux :: "mux_port \<Rightarrow> mem \<Rightarrow> 'k mux_world \<Rightarrow> (int \<times> 'k mux_world) result" where
  "init_mux p junk t =
     rbind (wr (pmem (mux_server t)) 0 (- 1)) (\<lambda>m.
       Inr (0, t\<lparr>mux_server := (mux_server t)\<lparr>pmem := m\<rparr>,
                 mux_ports := mux_ports t @ [p\<lparr>port_mem := junk\<rparr>]\<rparr>))"

definition send_mux :: "'k sockets \<Rightarrow> 'k mux_world \<Rightarrow> ptr \<Rightarrow> u32 \<Rightarrow> int \<Rightarrow> 'k mux_world result" where
  "send_mux S t data hdr sendFd =
     (let p = port_client t; buffer = data - 1 in
      rbind (wr (port_mem p) buffer hdr) (\<lambda>m.
      let mux = (mux_client t)\<lparr>request_index := port_request_index t\<rparr>;
          hdr' = push_bit 16 (port_number p) OR ((hdr + 1) AND 0xffff) in
      rbind (send_socket S mux (mux_net t) m buffer hdr' sendFd) (\<lambda>(mux, k, m).
        Inr (t\<lparr>mux_client := mux, mux_net := k, port_client := p\<lparr>port_mem := m\<rparr>\<rparr>))))"

text \<open>\<open>recv_mux\<close> for port \<open>i\<close>: the shared portal receives into the block of the port.\<close>

definition recv_mux :: "'k sockets \<Rightarrow> nat \<Rightarrow> 'k mux_world \<Rightarrow> ptr \<Rightarrow> nat \<Rightarrow> (int \<times> 'k mux_world) result" where
  "recv_mux S i t buffer len =
     (let p = mux_ports t ! i in
      rbind (recv_socket S (mux_server t) (mux_net t) (port_mem p) buffer len) (\<lambda>(rc, m, k).
        Inr (rc, t\<lparr>mux_ports := (mux_ports t)[i := p\<lparr>port_mem := m\<rparr>], mux_net := k\<rparr>)))"

text \<open>
  \<open>portal_mux_handler\<close>, the handler of the shared portal: every port with the number of the
  channel receives the inner header and handles the inner message.  \<open>hs i\<close> is the handler of
  port \<open>i\<close>; \<open>n\<close> ports are left from \<open>i\<close> on.
\<close>

fun mux_loop ::
  "'k sockets \<Rightarrow> nat \<Rightarrow> (nat \<Rightarrow> ('k mux_world, 's) indfunc) \<Rightarrow> nat \<Rightarrow> nat \<Rightarrow> ('k mux_world, 's) indfunc" where
  "mux_loop S b hs i 0 t s channel messageFd = Inr (t, s)"
| "mux_loop S b hs i (Suc n) t s channel messageFd =
     rbind (if channel = port_number (mux_ports t ! i)
            then rbind (recv_mux S i t (int b) 1) (\<lambda>(rc, t).
                 rbind (rd (port_mem (mux_ports t ! i)) (int b)) (\<lambda>hdr.
                 hs i t s (drop_bit 16 hdr) messageFd))
            else Inr (t, s))
       (\<lambda>(t, s). mux_loop S b hs (i + 1) n t s channel messageFd)"

definition portal_mux_handler ::
  "'k sockets \<Rightarrow> nat \<Rightarrow> (nat \<Rightarrow> ('k mux_world, 's) indfunc) \<Rightarrow> ('k mux_world, 's) indfunc" where
  "portal_mux_handler S b hs t s channel messageFd =
     mux_loop S b hs 0 (length (mux_ports t)) t s channel messageFd"

definition get_mux_server :: "'k mux_world \<Rightarrow> PortalInternal \<times> 'k" where
  "get_mux_server t = (mux_server t, mux_net t)"

definition put_mux_server :: "PortalInternal \<times> 'k \<Rightarrow> 'k mux_world \<Rightarrow> 'k mux_world" where
  "put_mux_server pk t = t\<lparr>mux_server := fst pk, mux_net := snd pk\<rparr>"

text \<open>
  The item functions of the sending portal and of port \<open>j\<close> of the receiving side.  The event
  function of a multiplexed portal does nothing (\<open>event_mux\<close>); its messages arrive through the
  event function of the shared portal, which is what a poll runs.
\<close>

definition event_mux :: "'k mux_world \<Rightarrow> int" where
  "event_mux t = - 1"

definition muxfunc :: "'k sockets \<Rightarrow> nat \<Rightarrow> nat \<Rightarrow> ('k mux_world, 's) PortalItemFunctions" where
  "muxfunc S b j =
     \<lparr>it_read = (\<lambda>t a. rbind (rd (port_mem (mux_ports t ! j)) a) (\<lambda>v. Inr (v, a + 1, t))),
      it_write = (\<lambda>t a v. rbind (wr (port_mem (port_client t)) a v) (\<lambda>m.
        Inr (a + 1, t\<lparr>port_client := (port_client t)\<lparr>port_mem := m\<rparr>\<rparr>))),
      it_writefd = (\<lambda>t a v. rbind (wr (port_mem (port_client t)) a v) (\<lambda>m.
        Inr (a + 1, t\<lparr>port_client := (port_client t)\<lparr>port_mem := m\<rparr>\<rparr>))),
      it_mapchannelInd = (\<lambda>t v. Inr (int b + 1)),
      it_mapchannelReq = (\<lambda>t v. Inr (int b + 1)),
      it_send = send_mux S,
      it_recv = recv_mux S j,
      it_busywait = (\<lambda>t a. Inr (0, t)),
      it_enableint = (\<lambda>t v. Inr t),
      it_event = (\<lambda>handler. event_socket S get_mux_server put_mux_server
        (portal_mux_handler S b (\<lambda>i. if i = j then handler else (\<lambda>t s ch fd. Inr (t, s)))))\<rparr>"

section \<open>The multiplexer is a transport\<close>

text \<open>The wrapped message on the wire.\<close>

definition mux_wire :: "u32 \<Rightarrow> message \<Rightarrow> flight" where
  "mux_wire num x = (case x of (ch, ws, fd) \<Rightarrow> wire (num, msg_header ch (length ws) # ws, fd))"

definition mux_fits :: "nat \<Rightarrow> nat \<Rightarrow> bool" where
  "mux_fits W n \<longleftrightarrow> 0 < n \<and> n + 1 \<le> W \<and> W < 2 ^ 16 - 1"

definition mux_rep ::
  "'k sockets \<Rightarrow> ('k \<Rightarrow> flight) \<Rightarrow> (int \<Rightarrow> int) \<Rightarrow> int \<Rightarrow> int \<Rightarrow> int \<Rightarrow> nat \<Rightarrow> nat \<Rightarrow> nat \<Rightarrow>
   'k mux_world \<Rightarrow> message list \<Rightarrow> bool" where
  "mux_rep S flight f c d l W b j t ms \<longleftrightarrow>
     stream_law S flight f c d l \<and>
     (let p = mux_client t in 0 < client_fd_number p \<and> client_fd p ! port_request_index t = c) \<and>
     port_request_index t < MAX_CLIENT_FD \<and> 0 < b \<and> length (port_mem (port_client t)) = b + W \<and>
     port_number (port_client t) < 0xffff \<and>
     (let q = mux_server t in client_fd_number q = 1 \<and> client_fd q ! 0 = d \<and> pmem q \<noteq> [] \<and>
        (fpga_fd q = l \<or> fpga_fd q = - 1)) \<and>
     j < length (mux_ports t) \<and> length (port_mem (mux_ports t ! j)) = b + W \<and>
     (\<forall>i < length (mux_ports t). (port_number (mux_ports t ! i) = port_number (port_client t)) = (i = j)) \<and>
     flight (mux_net t) = concat (map (mux_wire (port_number (port_client t))) ms) \<and>
     (\<forall>x \<in> set ms. case x of (ch, ws, fd) \<Rightarrow> ch < 0xffff \<and> mux_fits W (length ws))"

lemma outer_header:
  assumes "n + 2 < 2 ^ 16"
  shows "push_bit 16 num OR ((msg_header ch n + 1) AND 0xffff) = msg_header num (n + 1)"
proof -
  let ?h = "msg_header ch n"
  have n1: "n + 1 < 2 ^ 16" using assms by simp
  have "unat (?h AND 0xffff) = n + 1"
    unfolding msg_header_words [OF n1] using assms by (intro unat_of_nat_small) simp
  then have h: "unat ?h mod 2 ^ 16 = n + 1" by (simp add: word_and_16 unat_take_bit)
  have "unat ((?h + 1) AND 0xffff) = (unat ?h + 1) mod 2 ^ 16"
    by (simp add: word_and_16 unat_take_bit unat_word_ariths mod_mod_cancel)
  also have "\<dots> = (unat ?h mod 2 ^ 16 + 1) mod 2 ^ 16" by (simp add: mod_simps)
  also have "\<dots> = n + 2" unfolding h using assms by simp
  finally have "unat ((?h + 1) AND 0xffff) = unat (of_nat (n + 2) :: u32)"
    using assms unat_of_nat_small [of "n + 2", where 'a = 32] by simp
  then have "(?h + 1) AND 0xffff = of_nat (n + 2)" by (simp only: word_unat_eq_iff)
  then show ?thesis by (simp add: msg_header_def)
qed

lemma write_words_mux:
  "a + length ws \<le> length (port_mem (port_client t)) \<Longrightarrow>
   write_words (muxfunc S b j) t (int a) ws =
     Inr (int (a + length ws), t\<lparr>port_client := (port_client t)\<lparr>port_mem := splice (port_mem (port_client t)) a ws\<rparr>\<rparr>)"
proof (induction ws arbitrary: a t)
  case (Cons w ws)
  let ?t = "t\<lparr>port_client := (port_client t)\<lparr>port_mem := (port_mem (port_client t))[a := w]\<rparr>\<rparr>"
  show ?case
    using Cons.IH [of "Suc a" ?t] Cons.prems by (simp add: muxfunc_def wr_int splice_Cons add.commute)
qed simp

lemma read_words_mux:
  "a + n \<le> length (port_mem (mux_ports t ! j)) \<Longrightarrow>
   read_words (muxfunc S b j) t (int a) n = Inr (slice (port_mem (mux_ports t ! j)) a n, t)"
proof (induction n arbitrary: a)
  case (Suc n)
  then show ?case
    using Suc.IH [of "Suc a"] by (simp add: muxfunc_def rd_int slice_Suc add.commute)
qed simp

lemma mux_put:
  assumes rep: "mux_rep S flight f c d l W b j t ms" and n: "mux_fits W (length ws)" and ch: "ch < 0xffff"
  shows "\<exists>t'. transmit (muxfunc S b j :: ('k mux_world, 's) PortalItemFunctions) t ch ws fd = Inr t' \<and>
           mux_rep S flight f c d l W b j t' (ms @ [(ch, ws, pass_fd f fd)])"
proof -
  let ?I = "muxfunc S b j :: ('k mux_world, 's) PortalItemFunctions"
  let ?p = "port_client t" and ?h = "msg_header ch (length ws)"
  let ?num = "port_number ?p"
  have law: "stream_law S flight f c d l" and p: "0 < client_fd_number (mux_client t)"
    "client_fd (mux_client t) ! port_request_index t = c" "port_request_index t < MAX_CLIENT_FD"
    "0 < b" "length (port_mem ?p) = b + W"
    using rep by (simp_all add: mux_rep_def Let_def)
  have W: "length ws + 1 \<le> W" "W < 2 ^ 16 - 1" using n by (simp_all add: mux_fits_def)
  obtain a where a: "b = Suc a" using p(4) by (cases b) auto
  let ?m0 = "splice (port_mem ?p) (b + 1) ws"
  let ?m1 = "?m0[b := ?h]" and ?mux = "(mux_client t)\<lparr>request_index := port_request_index t\<rparr>"
  have len: "length ?m0 = b + W" using p(5) W by simp
  have m1: "?m1 = splice (port_mem ?p) b (?h # ws)" using p(5) W splice_update_before [of b "port_mem ?p" ws ?h] by simp
  have "slice ?m1 b (length (?h # ws)) = ?h # ws"
    unfolding m1 using p(5) W by (intro slice_splice) simp
  with a have sl: "slice ?m1 (a + 1) (length (?h # ws)) = ?h # ws" by simp
  have "a + length (?h # ws) + 1 \<le> length ?m1" "length (?h # ws) + 1 < 2 ^ 16"
    using len W a by simp_all
  from send_socket_ok [OF law _ _ _ this sl, of ?mux "mux_net t" ?num fd] p obtain k' where
    send: "send_socket S ?mux (mux_net t) ?m1 (int b) (msg_header ?num (length ws + 1)) fd =
      Inr (?mux, k', ?m1[a := msg_header ?num (length ws + 1)])"
    and fl: "flight k' = flight (mux_net t) @ wire (?num, ?h # ws, pass_fd f fd)"
    by (auto simp: a add.commute)
  have out: "push_bit 16 ?num OR ((?h + 1) AND 0xffff) = msg_header ?num (length ws + 1)"
    using W by (intro outer_header) simp
  let ?t1 = "t\<lparr>port_client := ?p\<lparr>port_mem := ?m0\<rparr>\<rparr>"
  let ?t' = "?t1\<lparr>mux_client := ?mux, mux_net := k', port_client := ?p\<lparr>port_mem := ?m1[a := msg_header ?num (length ws + 1)]\<rparr>\<rparr>"
  have "wr ?m0 (int b) ?h = Inr ?m1" using len W by (intro wr_int) simp
  then have "send_mux S ?t1 (int b + 1) ?h fd = Inr ?t'"
    using send out by (simp add: send_mux_def Let_def)
  moreover have "write_words ?I t (int b + 1) ws = Inr (int (b + 1 + length ws), ?t1)"
    using write_words_mux [of "b + 1" ws t S b j] p(5) W by (simp add: add.commute)
  moreover have "it_mapchannelReq ?I t ch = Inr (int b + 1)" "it_busywait ?I t x = Inr (0, t)"
    "it_send ?I = send_mux S" for x
    by (simp_all add: muxfunc_def)
  ultimately have "transmit ?I t ch ws fd = Inr ?t'" by (simp add: transmit_def)
  moreover have "mux_rep S flight f c d l W b j ?t' (ms @ [(ch, ws, pass_fd f fd)])"
    using rep fl n ch len by (simp add: mux_rep_def mux_wire_def Let_def)
  ultimately show ?thesis by blast
qed

text \<open>Only port \<open>j\<close> answers to the number of the sender.\<close>

lemma mux_loop_skip:
  "\<forall>k < n. channel \<noteq> port_number (mux_ports t ! (i + k)) \<Longrightarrow> mux_loop S b hs i n t s channel fd = Inr (t, s)"
proof (induction n arbitrary: i)
  case (Suc n)
  from Suc.prems have "channel \<noteq> port_number (mux_ports t ! i)" by (metis add_0_right zero_less_Suc)
  moreover have "\<forall>k < n. channel \<noteq> port_number (mux_ports t ! (i + 1 + k))"
    using Suc.prems by (metis Suc_less_eq add.assoc add.commute plus_1_eq_Suc)
  ultimately show ?case using Suc.IH [of "i + 1"] by simp
qed simp

lemma mux_loop_split:
  "mux_loop S b hs i (n + m) t s channel fd =
   rbind (mux_loop S b hs i n t s channel fd) (\<lambda>(t, s). mux_loop S b hs (i + n) m t s channel fd)"
proof (induction n arbitrary: i t s)
  case (Suc n)
  then show ?case by (simp add: rbind_assoc case_prod_unfold)
qed simp

lemma mux_loop_only:
  assumes j: "j < length (mux_ports t)"
    and only: "\<forall>i < length (mux_ports t). (channel = port_number (mux_ports t ! i)) = (i = j)"
    and step: "recv_mux S j t (int b) 1 = Inr (rc, t1)" "rd (port_mem (mux_ports t1 ! j)) (int b) = Inr hdr"
      "hs j t1 s (drop_bit 16 hdr) fd = Inr (t2, s')"
    and same: "map port_number (mux_ports t2) = map port_number (mux_ports t)"
  shows "portal_mux_handler S b hs t s channel fd = Inr (t2, s')"
proof -
  obtain n where n: "length (mux_ports t) = j + Suc n" using j less_imp_Suc_add by fastforce
  have num: "port_number (mux_ports t2 ! i) = port_number (mux_ports t ! i)" if "i < length (mux_ports t)" for i
    using arg_cong [OF same, of "\<lambda>l. l ! i"] arg_cong [OF same, of length] that by simp
  have "mux_loop S b hs 0 j t s channel fd = Inr (t, s)"
    using only j by (intro mux_loop_skip) auto
  moreover have "mux_loop S b hs (j + 1) n t2 s' channel fd = Inr (t2, s')"
    using only num n by (intro mux_loop_skip) auto
  moreover have "channel = port_number (mux_ports t ! j)" using only j by simp
  ultimately show ?thesis
    unfolding portal_mux_handler_def n mux_loop_split using step by simp
qed

lemma mux_get:
  assumes rep: "mux_rep S flight f c d l W b j t ((ch, ws, fd) # ms)"
  shows "\<exists>t0 t1. collect (muxfunc S b j :: ('k mux_world, 's) PortalItemFunctions) t0 ch (length ws) = Inr (ws, t1) \<and>
    (\<forall>(H :: ('k mux_world, 's) indfunc) s s'. H t0 s ch fd = Inr (t1, s') \<longrightarrow>
       (\<exists>rc t2. it_event (muxfunc S b j) H t s = Inr (rc, t2, s') \<and> mux_rep S flight f c d l W b j t2 ms))"
proof -
  let ?I = "muxfunc S b j :: ('k mux_world, 's) PortalItemFunctions"
  let ?q = "mux_server t" and ?h = "msg_header ch (length ws)" and ?num = "port_number (port_client t)"
  let ?o = "msg_header ?num (length ws + 1)" and ?r = "mux_ports t ! j"
  have law: "stream_law S flight f c d l" and q: "client_fd_number ?q = 1" "client_fd ?q ! 0 = d" "pmem ?q \<noteq> []"
    "fpga_fd ?q = l \<or> fpga_fd ?q = - 1" and j: "j < length (mux_ports t)" "length (port_mem ?r) = b + W"
    and only: "\<forall>i < length (mux_ports t). (port_number (mux_ports t ! i) = ?num) = (i = j)" and num: "?num < 0xffff"
    and W: "0 < length ws" "length ws + 1 \<le> W" "W < 2 ^ 16 - 1" and ch: "ch < 0xffff"
    using rep by (simp_all add: mux_rep_def Let_def mux_fits_def)
  let ?rest = "concat (map (mux_wire ?num) ms)"
  have fl: "flight (mux_net t) = tagged [?o] fd @ tagged [?h] (- 1) @ tagged ws (- 1) @ ?rest"
    using rep by (simp add: mux_rep_def mux_wire_def wire_def tagged_none)
  from stream_lawD(2) [OF law _ fl] obtain k1 where
    k1: "sk_recvmsg S (mux_net t) d 1 = (Data [?o] fd, k1)" "flight k1 = tagged [?h] (- 1) @ tagged ws (- 1) @ ?rest"
    by auto
  from stream_lawD(2) [OF law _ k1(2)] obtain k2 where
    k2: "sk_recvmsg S k1 d 1 = (Data [?h] (- 1), k2)" "flight k2 = tagged ws (- 1) @ ?rest" by auto
  from stream_lawD(2) [OF law _ k2(2)] W(1) obtain k3 where
    k3: "sk_recvmsg S k2 d (length ws) = (Data ws (- 1), k3)" "flight k3 = ?rest" by auto
  let ?q' = "?q\<lparr>pmem := (pmem ?q)[0 := ?o], indication_index := 0\<rparr>"
  let ?m0 = "(port_mem ?r)[b := ?h]" and ?m1 = "splice ((port_mem ?r)[b := ?h]) (b + 1) ws"
  let ?ta = "t\<lparr>mux_server := ?q', mux_net := k1\<rparr>"
  let ?t0 = "?ta\<lparr>mux_ports := (mux_ports t)[j := ?r\<lparr>port_mem := ?m0\<rparr>], mux_net := k2\<rparr>"
  let ?t1 = "?ta\<lparr>mux_ports := (mux_ports t)[j := ?r\<lparr>port_mem := ?m1\<rparr>], mux_net := k3\<rparr>"
  have b: "wr_words (port_mem ?r) (int b) [?h] = Inr ?m0" "rd ?m0 (int b) = Inr ?h"
    "wr_words ?m0 (int b + 1) ws = Inr ?m1" "slice ?m1 (b + 1) (length ws) = ws" "length ?m1 = b + W"
    using j W wr_words_splice [of "b + 1" ws ?m0] slice_splice [of "b + 1" ws ?m0]
    by (simp_all add: wr_int rd_int add.commute)
  have rc0: "recv_mux S j ?ta (int b) 1 = Inr (4, ?t0)"
    using q k2(1) b(1) by (simp add: recv_mux_def Let_def recv_socket_def MAX_CLIENT_FD_def portalRecvFd_def)
  have "it_recv ?I ?t0 (int b + 1) (length ws) = Inr (int (4 * length ws), ?t1)"
    using q j k3(1) b(3) by (simp add: muxfunc_def recv_mux_def Let_def recv_socket_def MAX_CLIENT_FD_def portalRecvFd_def)
  moreover have "read_words ?I ?t1 (int b + 1) (length ws) = Inr (ws, ?t1)"
    using read_words_mux [of "b + 1" "length ws" ?t1 j S b] j b(4,5) W by (simp add: add.commute)
  moreover have "it_mapchannelInd ?I ?t0 ch = Inr (int b + 1)" by (simp add: muxfunc_def)
  ultimately have col: "collect ?I ?t0 ch (length ws) = Inr (ws, ?t1)" by (simp add: collect_def)
  have scan: "scan_clients S 0 (client_fd_number ?q) ?q (mux_net t) =
      Inr (Some (0, fd), ?q\<lparr>pmem := (pmem ?q)[0 := ?o]\<rparr>, k1)"
    using q k1(1) wr_int [of 0 "pmem ?q" ?o] by (simp add: portalRecvFd_def)
  have hd: "rd ((pmem ?q)[0 := ?o]) 0 = Inr ?o" using rd_int [of 0 "(pmem ?q)[0 := ?o]"] q(3) by simp
  have chan: "drop_bit 16 ?o = ?num" "drop_bit 16 ?h = ch"
    using W num ch by (intro msg_header_channel; simp)+
  from accept_quiet [OF law, of ?q' k3] q(4) obtain k4 where
    k4: "accept_client S ?q' k3 = Inr (?q', k4)" "flight k4 = flight k3" by auto
  have ev: "it_event ?I H t s = Inr (- 1, ?t1\<lparr>mux_net := k4\<rparr>, s')" if H: "H ?t0 s ch fd = Inr (?t1, s')"
    for H :: "('k mux_world, 's) indfunc" and s s'
  proof -
    let ?hs = "\<lambda>i. if i = j then H else (\<lambda>t s ch fd. Inr (t, s))"
    have "portal_mux_handler S b ?hs ?ta s ?num fd = Inr (?t1, s')"
    proof (rule mux_loop_only [OF _ _ rc0])
      show "\<forall>i < length (mux_ports ?ta). (?num = port_number (mux_ports ?ta ! i)) = (i = j)"
        using only by auto
      show "?hs j ?t0 s (drop_bit 16 ?h) fd = Inr (?t1, s')" unfolding chan(2) using H by simp
      show "map port_number (mux_ports ?t1) = map port_number (mux_ports ?ta)"
        using j(1) by (simp add: map_update list_update_same_conv)
    qed (use j b(2) in simp_all)
    then show ?thesis
      using scan hd chan(1) k4(1) by (simp add: muxfunc_def event_socket_def get_mux_server_def put_mux_server_def)
  qed
  have "mux_rep S flight f c d l W b j (?t1\<lparr>mux_net := k4\<rparr>) ms"
    using rep k3(2) k4(2) q j b(5) by (auto simp: mux_rep_def Let_def nth_list_update)
  with col ev show ?thesis by blast
qed

lemma mux_idle:
  assumes rep: "mux_rep S flight f c d l W b j t []"
  shows "\<exists>rc t'. it_event (muxfunc S b j) H t s = Inr (rc, t', s) \<and> mux_rep S flight f c d l W b j t' []"
proof -
  let ?q = "mux_server t"
  have law: "stream_law S flight f c d l" and q: "client_fd_number ?q = 1" "client_fd ?q ! 0 = d"
    "fpga_fd ?q = l \<or> fpga_fd ?q = - 1" "flight (mux_net t) = []"
    using rep by (simp_all add: mux_rep_def Let_def)
  from stream_lawD(3) [OF law q(4)] obtain k1 where
    k1: "sk_recvmsg S (mux_net t) d 1 = (Again, k1)" "flight k1 = []" by auto
  then have scan: "scan_clients S 0 (client_fd_number ?q) ?q (mux_net t) = Inr (None, ?q, k1)"
    using q by (simp add: portalRecvFd_def)
  from accept_quiet [OF law q(3), of k1] obtain k3 where
    k3: "accept_client S ?q k1 = Inr (?q, k3)" "flight k3 = []" using k1(2) by auto
  have "it_event (muxfunc S b j) H t s = Inr (- 1, t\<lparr>mux_net := k3\<rparr>, s)"
    using scan k3(1) by (simp add: muxfunc_def event_socket_def get_mux_server_def put_mux_server_def)
  moreover have "mux_rep S flight f c d l W b j (t\<lparr>mux_net := k3\<rparr>) []"
    using rep k3(2) by (simp add: mux_rep_def Let_def)
  ultimately show ?thesis by blast
qed

interpretation mux: message_transport "muxfunc S b j" "mux_rep S flight f c d l W b j" "\<lambda>_. True" "mux_fits W" "pass_fd f"
  for S :: "'k sockets" and flight f c d l W b j
  by unfold_locales (use mux_put mux_get mux_idle in \<open>simp_all add: muxfunc_def\<close>)


section \<open>Properties\<close>


text \<open>Two ports over one connection, with \<open>b\<close> words before \<open>map_base\<close>.\<close>

definition demo_mux :: "nat \<Rightarrow> flight mux_world" where
  "demo_mux b =
     \<lparr>mux_client = demo_portal, port_client = \<lparr>port_number = 8, port_mem = replicate (b + 11) 0\<rparr>,
      port_request_index = 0, mux_server = demo_portal,
      mux_ports = [\<lparr>port_number = 7, port_mem = replicate (b + 11) 0\<rparr>,
                   \<lparr>port_number = 8, port_mem = replicate (b + 11) 0\<rparr>],
      mux_net = []\<rparr>"



text \<open>
  With the block that the code allocates, which starts at \<open>map_base\<close>, no request goes out:
  \<open>send_mux\<close> hands \<open>send_socket\<close> the address of the inner header, and \<open>send_socket\<close> stores
  its own header one word before that, outside the block.
\<close>

theorem mux_send_underflows:
  assumes "map_base = 0" and "data = map_base + 1" and "0 < client_fd_number (mux_client t)"
  shows "send_mux S t data hdr fd = Inl OutOfBounds"
  using assms by (simp add: send_mux_def send_socket_def Let_def wr_def rbind_def split: sum.splits if_splits)

theorem mux_send_underflows_witness:
  "send_mux demo_sockets (demo_mux 0) 1 0x30002 (- 1) = Inl OutOfBounds"
  using mux_send_underflows [of 0 1 "demo_mux 0" demo_sockets "0x30002" "- 1"]
  by (simp add: demo_mux_def demo_portal_def)

end
