(* ===== verification/Resource_Ledger.thy ===== *)
theory Resource_Ledger
  imports Connectal_Prelude
begin

text \<open>
  Accounting of the kernel resources that a device driver acquires and releases.  A driver
  function leaves a list of actions; \<open>ledger\<close> says what is held after them, \<open>orderly\<close> that
  nothing was acquired twice and nothing released that was not held.  The locale
  \<open>driver_cycle\<close> is the contract between a driver and the system that attaches and detaches its
  devices: it gives the balance of any number of cycles.
\<close>

datatype 'r action =
    Get 'r         \<comment> \<open>a successful acquisition\<close>
  | Put 'r         \<comment> \<open>a release\<close>
  | Put_any 'r     \<comment> \<open>a release that does nothing when the resource is not held\<close>

fun ledger :: "'r action list \<Rightarrow> 'r set \<Rightarrow> 'r set" where
  "ledger [] R = R"
| "ledger (Get r # as) R = ledger as (insert r R)"
| "ledger (Put r # as) R = ledger as (R - {r})"
| "ledger (Put_any r # as) R = ledger as (R - {r})"

fun orderly :: "'r action list \<Rightarrow> 'r set \<Rightarrow> bool" where
  "orderly [] R = True"
| "orderly (Get r # as) R = (r \<notin> R \<and> orderly as (insert r R))"
| "orderly (Put r # as) R = (r \<in> R \<and> orderly as (R - {r}))"
| "orderly (Put_any r # as) R = orderly as (R - {r})"

named_theorems ledger_simps \<open>rules that evaluate lists of actions\<close>

lemma ledger_append [simp, ledger_simps]: "ledger (as @ bs) R = ledger bs (ledger as R)"
  by (induction as R rule: ledger.induct) simp_all

lemma orderly_append [simp, ledger_simps]: "orderly (as @ bs) R \<longleftrightarrow> orderly as R \<and> orderly bs (ledger as R)"
  by (induction as R rule: ledger.induct) auto

lemma ledger_gets [ledger_simps]: "ledger (map Get rs) R = R \<union> set rs"
  by (induction rs arbitrary: R) auto

lemma ledger_puts [ledger_simps]: "ledger (map Put rs) R = R - set rs"
  by (induction rs arbitrary: R) auto

lemma ledger_puts_any [ledger_simps]: "ledger (map Put_any rs) R = R - set rs"
  by (induction rs arbitrary: R) auto

lemma orderly_gets [ledger_simps]: "orderly (map Get rs) R \<longleftrightarrow> distinct rs \<and> set rs \<inter> R = {}"
  by (induction rs arbitrary: R) auto

lemma orderly_puts [ledger_simps]: "orderly (map Put rs) R \<longleftrightarrow> distinct rs \<and> set rs \<subseteq> R"
  by (induction rs arbitrary: R) auto

lemma orderly_puts_any [ledger_simps]: "orderly (map Put_any rs) R"
  by (induction rs arbitrary: R) auto

lemma ledger_gets_map [ledger_simps]: "ledger (map (Get \<circ> f) xs) R = R \<union> f ` set xs"
  by (induction xs arbitrary: R) auto

lemma orderly_gets_map [ledger_simps]: "orderly (map (Get \<circ> f) xs) R \<longleftrightarrow> distinct (map f xs) \<and> f ` set xs \<inter> R = {}"
  by (induction xs arbitrary: R) auto

lemma orderly_puts_any_map [simp, ledger_simps]: "orderly (map (Put_any \<circ> f) xs) R"
  by (induction xs arbitrary: R) auto

text \<open>Attach and detach cycles, one after the other; \<open>'e\<close> is what the system answers.\<close>

primrec cycles ::
  "('e \<Rightarrow> 's \<Rightarrow> 's \<times> 'r action list) \<Rightarrow> ('s \<Rightarrow> 's \<times> 'r action list) \<Rightarrow> 'e list \<Rightarrow> 's \<Rightarrow> 's \<times> 'r action list" where
  "cycles up down [] s = (s, [])"
| "cycles up down (e # es) s =
     (let (s1, as) = up e s; (s2, bs) = down s1; (s3, cs) = cycles up down es s2 in (s3, as @ bs @ cs))"

text \<open>
  Attaching and detaching: \<open>up\<close> takes an idle driver to one that holds the resources \<open>K\<close>
  (\<open>holds s K\<close>), \<open>down\<close> takes it back, releasing exactly those.
\<close>

locale driver_cycle =
  fixes up :: "'e \<Rightarrow> 's \<Rightarrow> 's \<times> 'r action list" and down :: "'s \<Rightarrow> 's \<times> 'r action list"
    and good :: "'e \<Rightarrow> bool" and idle :: "'s \<Rightarrow> bool" and holds :: "'s \<Rightarrow> 'r set \<Rightarrow> bool"
  assumes up_good: "good e \<Longrightarrow> idle s \<Longrightarrow> up e s = (s', as) \<Longrightarrow> orderly as {} \<and> holds s' (ledger as {})"
    and down_held: "holds s K \<Longrightarrow> down s = (s', as) \<Longrightarrow> idle s' \<and> orderly as K \<and> ledger as K = {}"
begin

lemma cycle_balanced:
  assumes "good e" and "idle s" and "up e s = (s1, as)" and "down s1 = (s2, bs)"
  shows "idle s2 \<and> orderly (as @ bs) {} \<and> ledger (as @ bs) {} = {}"
proof -
  have up: "orderly as {}" "holds s1 (ledger as {})" using up_good [OF assms(1-3)] by simp_all
  from down_held [OF up(2) assms(4)] up(1) show ?thesis by simp
qed

lemma cycles_balanced:
  "\<forall>e \<in> set es. good e \<Longrightarrow> idle s \<Longrightarrow> cycles up down es s = (s', as) \<Longrightarrow>
   idle s' \<and> orderly as {} \<and> ledger as {} = {}"
proof (induction es arbitrary: s as)
  case (Cons e es)
  obtain s1 u where u: "up e s = (s1, u)" by fastforce
  obtain s2 d where d: "down s1 = (s2, d)" by fastforce
  obtain s3 c where c: "cycles up down es s2 = (s3, c)" by fastforce
  have "as = u @ d @ c" "s3 = s'" using Cons.prems(3) u d c by simp_all
  with cycle_balanced [OF _ Cons.prems(2) u d] Cons.IH [of s2 c] Cons.prems(1) c show ?case by simp
qed simp

end

end
