(* ===== verification/Pcie_Driver.thy ===== *)
theory Pcie_Driver
  imports Send_Fd Resource_Ledger
begin

text \<open>
  The PCIe driver (\<open>drivers/pcieportal/pcieportal.c\<close>): the life of a board (probe, remove, and
  \<open>board_activate\<close> with its chain of error labels), the device files of its portals (open,
  release, poll, ioctl, mmap) and the module's own set-up.  What the kernel and the PCI device
  answer is a record \<open>pci_env\<close>; each answer is asked for at most once in an activation, so it
  is a function of the arguments of the call.
\<close>

section \<open>State\<close>

definition NUM_BOARDS :: nat where "NUM_BOARDS = 1"
definition MAX_NUM_PORTALS :: nat where "MAX_NUM_PORTALS = 16"
definition PORTAL_BASE_OFFSET :: nat where "PORTAL_BASE_OFFSET = 2 ^ 16"

definition CSR_ID :: nat where "CSR_ID = 0"
definition CSR_TLPDATAFIFO_DEQ :: nat where "CSR_TLPDATAFIFO_DEQ = 768 * 4"
definition CSR_TLPTRACELENGTHREG :: nat where "CSR_TLPTRACELENGTHREG = 774 * 4"
definition CSR_TLPTRACINGREG :: nat where "CSR_TLPTRACINGREG = 775 * 4"
definition CSR_TLPDATABRAMRESPONSESLICE :: "nat \<Rightarrow> nat" where "CSR_TLPDATABRAMRESPONSESLICE i = (776 + i) * 4"
definition CSR_TLPPCIEWRADDRREG :: nat where "CSR_TLPPCIEWRADDRREG = 792 * 4"
definition CSR_MSIX_MSG_DATA :: nat where "CSR_MSIX_MSG_DATA = 1026 * 4"
definition CSR_MSIX_MASKED :: nat where "CSR_MSIX_MASKED = 1027 * 4"
definition PCR_IID_OFFSET :: nat where "PCR_IID_OFFSET = 0x010"
definition PCR_TOP_OFFSET :: nat where "PCR_TOP_OFFSET = 0x014"
definition reg_offset :: nat where "reg_offset = 0xc000"

lemmas pcie_consts = NUM_BOARDS_def MAX_NUM_PORTALS_def PORTAL_BASE_OFFSET_def CSR_ID_def
  CSR_TLPDATAFIFO_DEQ_def CSR_TLPTRACELENGTHREG_def CSR_TLPTRACINGREG_def CSR_TLPDATABRAMRESPONSESLICE_def
  CSR_TLPPCIEWRADDRREG_def CSR_MSIX_MSG_DATA_def CSR_MSIX_MASKED_def PCR_IID_OFFSET_def PCR_TOP_OFFSET_def
  reg_offset_def

text \<open>\<open>'B' | 'l' << 8 | 'u' << 16 | ...\<close>: the letters of \<open>Bluespec\<close>.\<close>

definition expected_magic :: u64 where
  "expected_magic = foldr (\<lambda>c m. push_bit 8 m OR c) [0x42, 0x6c, 0x75, 0x65, 0x73, 0x70, 0x65, 0x63] 0"

text \<open>
  The static data of a portal: who waits on its queue, and the bus address of its coherent
  memory.  A portal points into the static array by an index.
\<close>

record extra_info =
  wait_queue :: "nat list"
  dma_handle :: u64

record tPortal =
  portal_number :: nat
  device_name :: u32
  portal_board :: "nat option"
  virt :: "u64 option"
  regs :: "nat option"
  extra :: "nat option"

record tBoard =
  bar0io :: bool
  bar1io :: bool
  bar2io :: bool
  pci_dev :: "nat option"
  portals :: "tPortal list"
  board_number :: nat
  num_portals :: nat
  irq_num :: u32
  open_count :: u32

record tTraceInfo =
  trace_base :: u64
  trace :: u32
  traceLength :: u32
  trace_intval :: "u32 list"
  trace_name :: "u32 list"

record pcie =
  board_map :: "tBoard list"
  extra_portal_info :: "extra_info list"
  traceInfo :: tTraceInfo
  trace_index :: u32
  drvdata :: "nat \<Rightarrow> nat option"

definition zero_portal :: tPortal where
  "zero_portal = \<lparr>portal_number = 0, device_name = 0, portal_board = None, virt = None, regs = None, extra = None\<rparr>"

definition zero_board :: tBoard where
  "zero_board =
     \<lparr>bar0io = False, bar1io = False, bar2io = False, pci_dev = None, portals = replicate MAX_NUM_PORTALS zero_portal,
      board_number = 0, num_portals = 0, irq_num = 0, open_count = 0\<rparr>"

section \<open>Kernel calls\<close>

text \<open>
  The calls of an activation, with their outcome where they have one (\<open>True\<close> is success).
\<close>

datatype pci_call =
    Enable_device bool | Disable_device
  | Request_region nat bool | Release_regions
  | Iomap nat nat bool | Iounmap nat
  | Iowrite32 u32 nat
  | Set_dma_mask bool
  | Enable_msix bool | Disable_msix
  | Request_irq u32 nat bool | Disable_irq u32 | Free_irq u32 nat
  | Set_master | Clear_master
  | Cdev_add nat nat bool | Cdev_del nat
  | Device_create nat u32 | Device_destroy nat

record pci_env =
  e_vendor :: u32
  e_device :: u32
  e_resource2 :: u64
  e_enable :: bool
  e_region :: "nat \<Rightarrow> bool"
  e_iomap :: "nat \<Rightarrow> nat \<Rightarrow> bool"
  e_bar0 :: "nat \<Rightarrow> u32"
  e_bar2 :: "nat \<Rightarrow> u32"
  e_dma_mask :: bool
  e_msix :: bool
  e_vector :: u32
  e_irq :: "nat \<Rightarrow> bool"
  e_cdev :: "nat \<Rightarrow> bool"
  e_minor :: nat

definition upd_board :: "nat \<Rightarrow> (tBoard \<Rightarrow> tBoard) \<Rightarrow> pcie \<Rightarrow> pcie" where
  "upd_board n f s = s\<lparr>board_map := (board_map s)[n := f (board_map s ! n)]\<rparr>"

definition upd_portal :: "nat \<Rightarrow> (tPortal \<Rightarrow> tPortal) \<Rightarrow> tBoard \<Rightarrow> tBoard" where
  "upd_portal i f b = b\<lparr>portals := (portals b)[i := f (portals b ! i)]\<rparr>"

definition init_waitqueue_head :: "nat \<Rightarrow> pcie \<Rightarrow> pcie" where
  "init_waitqueue_head x s =
     s\<lparr>extra_portal_info := (extra_portal_info s)[x := (extra_portal_info s ! x)\<lparr>wait_queue := []\<rparr>]\<rparr>"

section \<open>Activation of a board\<close>

text \<open>
  The error labels of \<open>board_activate\<close>, last one first: each does its part and falls into the
  next.  The result is the return value, the state and the calls made.
\<close>

type_synonym outcome = "int \<times> pcie \<times> pci_call list"

definition after_calls :: "pci_call list \<Rightarrow> outcome \<Rightarrow> outcome" where
  "after_calls cs r = (case r of (err, s, cs') \<Rightarrow> (err, s, cs @ cs'))"

definition err_exit :: "nat \<Rightarrow> nat \<Rightarrow> int \<Rightarrow> pcie \<Rightarrow> outcome" where
  "err_exit n dev err s = (err, (upd_board n (pci_dev_update Map.empty) s)\<lparr>drvdata := (drvdata s)(dev := None)\<rparr>, [])"

definition PCI_DEV_ENABLED_label :: "nat \<Rightarrow> nat \<Rightarrow> int \<Rightarrow> pcie \<Rightarrow> outcome" where
  "PCI_DEV_ENABLED_label n dev err s = after_calls [Disable_device] (err_exit n dev err s)"

definition BARS_ALLOCATED_label :: "nat \<Rightarrow> nat \<Rightarrow> int \<Rightarrow> pcie \<Rightarrow> outcome" where
  "BARS_ALLOCATED_label n dev err s = after_calls [Release_regions] (PCI_DEV_ENABLED_label n dev err s)"

definition BARS_MAPPED_label :: "nat \<Rightarrow> nat \<Rightarrow> int \<Rightarrow> pcie \<Rightarrow> outcome" where
  "BARS_MAPPED_label n dev err s =
     (let b = board_map s ! n in
      after_calls ((if bar0io b then [Iounmap 0] else []) @ (if bar1io b then [Iounmap 1] else []) @
                   (if bar2io b then [Iounmap 2] else [])) (BARS_ALLOCATED_label n dev err s))"

definition MSI_ENABLED_label :: "nat \<Rightarrow> nat \<Rightarrow> int \<Rightarrow> pcie \<Rightarrow> outcome" where
  "MSI_ENABLED_label n dev err s = after_calls [Disable_msix] (BARS_MAPPED_label n dev err s)"

text \<open>The part that takes a running board down.  \<open>minor\<close> is the first minor number of the driver.\<close>

definition portal_minor :: "nat \<Rightarrow> tBoard \<Rightarrow> nat \<Rightarrow> nat" where
  "portal_minor minor b fpn = minor + (board_number b * MAX_NUM_PORTALS + fpn)"

definition deactivate :: "nat \<Rightarrow> nat \<Rightarrow> nat \<Rightarrow> int \<Rightarrow> pcie \<Rightarrow> outcome" where
  "deactivate minor n dev err s =
     (let b = board_map s ! n in
      after_calls (concat (map (\<lambda>fpn. [Device_destroy (portal_minor minor b fpn), Cdev_del fpn]) [0..<num_portals b]) @
        [Clear_master, Iowrite32 1 CSR_MSIX_MASKED, Disable_irq (irq_num b)] @
        map (\<lambda>i. Free_irq (irq_num b + of_nat i) i) [0..<MAX_NUM_PORTALS])
      (MSI_ENABLED_label n dev err s))"

text \<open>\<open>for (...) request_irq(...)\<close>: whether all succeeded.\<close>

fun request_irqs :: "pci_env \<Rightarrow> u32 \<Rightarrow> nat list \<Rightarrow> bool \<times> pci_call list" where
  "request_irqs E irq [] = (True, [])"
| "request_irqs E irq (i # is) =
     (if e_irq E i
      then (case request_irqs E irq is of (ok, cs) \<Rightarrow> (ok, Request_irq (irq + of_nat i) i True # cs))
      else (False, [Request_irq (irq + of_nat i) i False]))"

text \<open>
  The loop over the portals of the board: the identification registers of each are read until
  one says it is the last.  The device is created only if \<open>cdev_add\<close> succeeds.
\<close>

definition found_portal :: "pci_env \<Rightarrow> nat \<Rightarrow> nat \<Rightarrow> pcie \<Rightarrow> pcie" where
  "found_portal E n fpn s =
     (let iid = e_bar2 E (fpn * PORTAL_BASE_OFFSET + PCR_IID_OFFSET);
          ti = traceInfo s;
          s = s\<lparr>traceInfo := ti\<lparr>trace_intval := (trace_intval ti)[fpn := e_bar0 E (CSR_MSIX_MSG_DATA + 16 * fpn)],
                               trace_name := (trace_name ti)[fpn := iid]\<rparr>\<rparr>
      in upd_board n (\<lambda>b. upd_portal fpn (\<lambda>p. p\<lparr>portal_number := fpn, device_name := iid, portal_board := Some n,
             regs := (if bar2io b then Some (0x10000 * fpn + reg_offset) else regs p)\<rparr>) b) s)"

function portal_loop :: "pci_env \<Rightarrow> nat \<Rightarrow> nat \<Rightarrow> u32 \<Rightarrow> int \<Rightarrow> pcie \<Rightarrow> nat \<times> outcome" where
  "portal_loop E n fpn is_top err s =
     (if is_top = 0 \<and> err \<ge> 0 \<and> fpn < MAX_NUM_PORTALS then
        (let iid = e_bar2 E (fpn * PORTAL_BASE_OFFSET + PCR_IID_OFFSET);
             is_top = e_bar2 E (fpn * PORTAL_BASE_OFFSET + PCR_TOP_OFFSET);
             s = found_portal E n fpn s;
             minor = portal_minor (e_minor E) (board_map s ! n) fpn;
             ok = e_cdev E fpn;
             cs = (if ok then [Cdev_add fpn minor True, Device_create minor iid] else [Cdev_add fpn minor False]);
             err = (if ok then err else - EFAULT)
         in if fpn + 1 \<ge> MAX_NUM_PORTALS then (fpn + 1, - EFAULT, s, cs)
            else (case portal_loop E n (fpn + 1) is_top err s of (fpn, r) \<Rightarrow> (fpn, after_calls cs r)))
      else (fpn, err, s, []))"
  by pat_completeness auto
termination
  by (relation "measure (\<lambda>(E, n, fpn, is_top, err, s). MAX_NUM_PORTALS - fpn)") auto

declare portal_loop.simps [simp del]

definition board_magic :: "pci_env \<Rightarrow> u64" where
  "board_magic E = push_bit 32 (ucast (e_bar0 E (CSR_ID + 4))) OR ucast (e_bar0 E CSR_ID)"

text \<open>From the interrupts on: bus mastering, the portals, and the result.\<close>

definition activate_portals :: "pci_env \<Rightarrow> nat \<Rightarrow> nat \<Rightarrow> pcie \<Rightarrow> outcome" where
  "activate_portals E n dev s =
     (case portal_loop E n 0 0 0 s of
        (fpn, err, s, cs) \<Rightarrow>
          (let s = (upd_board n (num_portals_update (\<lambda>_. fpn)) s)\<lparr>drvdata := (drvdata s)(dev := Some n)\<rparr> in
           after_calls ([Iowrite32 0 CSR_MSIX_MASKED, Set_master] @ cs)
             (if err = 0 then (err, s, []) else deactivate (e_minor E) n dev err s)))"

text \<open>From the check of the magic number on: DMA mask and interrupt vectors.\<close>

definition activate_irqs :: "pci_env \<Rightarrow> nat \<Rightarrow> nat \<Rightarrow> pcie \<Rightarrow> outcome" where
  "activate_irqs E n dev s =
     (if board_magic E \<noteq> expected_magic then BARS_MAPPED_label n dev (- EINVAL) s
      else if \<not> e_dma_mask E then after_calls [Set_dma_mask False] (BARS_MAPPED_label n dev (- EIO) s)
      else if \<not> e_msix E then after_calls [Set_dma_mask True, Enable_msix False] (BARS_MAPPED_label n dev (- EFAULT) s)
      else
        (let s = upd_board n (irq_num_update (\<lambda>_. e_vector E)) s in
         case request_irqs E (e_vector E) [0..<MAX_NUM_PORTALS] of
           (ok, cs) \<Rightarrow>
             after_calls ([Set_dma_mask True, Enable_msix True] @ cs)
               (if ok then activate_portals E n dev s else MSI_ENABLED_label n dev (- EBUSY) s)))"

text \<open>From the memory regions on.\<close>

definition activate_bars :: "pci_env \<Rightarrow> nat \<Rightarrow> nat \<Rightarrow> pcie \<Rightarrow> outcome" where
  "activate_bars E n dev s =
     (let s = s\<lparr>traceInfo := (traceInfo s)\<lparr>trace_base := e_resource2 E\<rparr>\<rparr> in
      if \<not> e_region E 0 then after_calls [Request_region 0 False] (PCI_DEV_ENABLED_label n dev (- EBUSY) s)
      else
        (let m0 = e_iomap E 0 0; m1 = e_iomap E 1 0; m2 = e_iomap E 2 0; m1' = m1 \<or> e_iomap E 1 8192;
             s = upd_board n (\<lambda>b. b\<lparr>bar0io := m0, bar1io := m1', bar2io := m2\<rparr>) s
         in after_calls
              ([Request_region 0 True, Request_region 1 (e_region E 1), Request_region 2 (e_region E 2),
                Iomap 0 0 m0, Iomap 1 0 m1, Iomap 2 0 m2] @ (if m1 then [] else [Iomap 1 8192 (e_iomap E 1 8192)]))
              (if \<not> m0 then BARS_ALLOCATED_label n dev (- EFAULT) s
               else if \<not> m2 then BARS_ALLOCATED_label n dev (- EFAULT) s
               else after_calls [Iowrite32 0 CSR_TLPPCIEWRADDRREG, Iowrite32 1 CSR_TLPTRACINGREG]
                      (activate_irqs E n dev s))))"

text \<open>The two entry checks and the start; \<open>board_activate(0, ...)\<close> goes straight to the end.\<close>

definition extras_set :: "tBoard \<Rightarrow> bool" where
  "extras_set b \<longleftrightarrow> list_all (\<lambda>p. extra p \<noteq> None) (portals b)"

definition fresh_portals :: "nat \<Rightarrow> pcie \<Rightarrow> pcie" where
  "fresh_portals n s =
     (let b = board_map s ! n;
          s = fold (\<lambda>p s. init_waitqueue_head (the (extra p)) s) (portals b) s
      in upd_board n (portals_update (map (device_name_update (\<lambda>_. - 1)))) s)"

definition board_activate :: "pci_env \<Rightarrow> bool \<Rightarrow> nat \<Rightarrow> nat \<Rightarrow> pcie \<Rightarrow> outcome" where
  "board_activate E activate n dev s =
     (if \<not> extras_set (board_map s ! n) then err_exit n dev (- EFAULT) s
      else if activate then
        (let s = upd_board n (pci_dev_update (\<lambda>_. Some dev)) (fresh_portals n s) in
         after_calls [Enable_device (e_enable E)]
           (if \<not> e_enable E then err_exit n dev (- EFAULT) s else activate_bars E n dev s))
      else deactivate (e_minor E) n dev 0 s)"

text \<open>Probe: the first free board of the table.  \<open>board_map\<close> has one entry more than boards.\<close>

function free_board :: "pcie \<Rightarrow> nat \<Rightarrow> nat result" where
  "free_board s i =
     (if i \<ge> length (board_map s) then Inl OutOfBounds
      else if pci_dev (board_map s ! i) \<noteq> None \<and> i < NUM_BOARDS then free_board s (i + 1)
      else Inr i)"
  by pat_completeness auto
termination
  by (relation "measure (\<lambda>(s, i). NUM_BOARDS - i)") auto

declare free_board.simps [simp del]

definition BLUESPEC_VENDOR_ID :: u32 where "BLUESPEC_VENDOR_ID = 0x1be7"
definition CONNECTAL_DEVICE_ID :: u32 where "CONNECTAL_DEVICE_ID = 0xc100"

definition new_board :: "nat \<Rightarrow> tBoard" where
  "new_board n =
     zero_board\<lparr>portals := map (\<lambda>i. zero_portal\<lparr>extra := Some (n * MAX_NUM_PORTALS + i)\<rparr>) [0..<MAX_NUM_PORTALS],
                board_number := n\<rparr>"

definition pcieportal_probe :: "pci_env \<Rightarrow> nat \<Rightarrow> pcie \<Rightarrow> outcome result" where
  "pcieportal_probe E dev s =
     (if e_vendor E \<noteq> BLUESPEC_VENDOR_ID \<or> e_device E \<noteq> CONNECTAL_DEVICE_ID then Inr (- EINVAL, s, [])
      else rbind (free_board s 0) (\<lambda>n.
        if n \<ge> NUM_BOARDS then Inr (- EBUSY, s, [])
        else Inr (board_activate E True n dev (upd_board n (\<lambda>_. new_board n) s))))"

definition pcieportal_remove :: "pci_env \<Rightarrow> nat \<Rightarrow> pcie \<Rightarrow> pcie \<times> pci_call list" where
  "pcieportal_remove E dev s =
     (case drvdata s dev of
        None \<Rightarrow> (s, [])
      | Some n \<Rightarrow> (case board_activate E False n dev s of (_, s, cs) \<Rightarrow> (s, cs)))"

section \<open>What an activation holds\<close>

datatype pci_resource =
  Device_on | Region_of nat | Bar_map nat | Msix_on | Master_on | Irq_line u32 | Cdev_of nat | Node_of nat

fun call_effect :: "pci_call \<Rightarrow> pci_resource action list" where
  "call_effect (Enable_device True) = [Get Device_on]"
| "call_effect Disable_device = [Put Device_on]"
| "call_effect (Request_region b True) = [Get (Region_of b)]"
| "call_effect Release_regions = map (Put_any \<circ> Region_of) [0..<6]"
| "call_effect (Iomap b m True) = [Get (Bar_map b)]"
| "call_effect (Iounmap b) = [Put (Bar_map b)]"
| "call_effect (Enable_msix True) = [Get Msix_on]"
| "call_effect Disable_msix = [Put Msix_on]"
| "call_effect (Request_irq q i True) = [Get (Irq_line q)]"
| "call_effect (Free_irq q i) = [Put (Irq_line q)]"
| "call_effect Set_master = [Get Master_on]"
| "call_effect Clear_master = [Put Master_on]"
| "call_effect (Cdev_add i m True) = [Get (Cdev_of i)]"
| "call_effect (Cdev_del i) = [Put (Cdev_of i)]"
| "call_effect (Device_create m iid) = [Get (Node_of m)]"
| "call_effect (Device_destroy m) = [Put (Node_of m)]"
| "call_effect _ = []"

definition effects :: "pci_call list \<Rightarrow> pci_resource action list" where
  "effects cs = concat (map call_effect cs)"

lemma effects_simps [simp]:
  "effects [] = []" "effects (c # cs) = call_effect c @ effects cs" "effects (cs @ ds) = effects cs @ effects ds"
  by (simp_all add: effects_def)

lemma region_effect [simp]:
  "call_effect (Request_region b ok) = (if ok then [Get (Region_of b)] else [])"
  "call_effect (Iomap b m ok) = (if ok then [Get (Bar_map b)] else [])"
  "call_effect (Enable_device ok) = (if ok then [Get Device_on] else [])"
  by (cases ok; simp)+

lemma after_calls_Nil [simp]: "after_calls [] r = r"
  by (simp add: after_calls_def case_prod_unfold)

lemma after_calls_simps [simp]:
  "after_calls cs (err, s, ds) = (err, s, cs @ ds)" "after_calls cs (after_calls ds r) = after_calls (cs @ ds) r"
  "fst (after_calls cs r) = fst r" "fst (snd (after_calls cs r)) = fst (snd r)"
  "snd (snd (after_calls cs r)) = cs @ snd (snd r)"
  by (cases r; simp add: after_calls_def)+

lemma after_calls_eq: "(err, s, cs) = after_calls ds q \<longleftrightarrow> err = fst q \<and> s = fst (snd q) \<and> cs = ds @ snd (snd q)"
  by (auto simp: after_calls_def case_prod_unfold)

lemma upd_board_simps [simp]:
  "length (board_map (upd_board n f s)) = length (board_map s)" "drvdata (upd_board n f s) = drvdata s"
  "n < length (board_map s) \<Longrightarrow> board_map (upd_board n f s) ! n = f (board_map s ! n)"
  "extra_portal_info (upd_board n f s) = extra_portal_info s"
  by (simp_all add: upd_board_def)

subsection \<open>The portals\<close>

text \<open>What the activation leaves alone of a board while it looks for portals.\<close>

definition core :: "tBoard \<Rightarrow> bool \<times> bool \<times> bool \<times> nat \<times> u32 \<times> nat option list \<times> nat option" where
  "core b = (bar0io b, bar1io b, bar2io b, board_number b, irq_num b, map extra (portals b), pci_dev b)"

lemma core_upd_portal [simp]:
  "(\<And>p. extra (f p) = extra p) \<Longrightarrow> core (upd_portal i f b) = core b"
  by (cases "i < length (portals b)") (simp_all add: core_def upd_portal_def map_update list_update_same_conv list_update_beyond)

definition same_rest :: "nat \<Rightarrow> pcie \<Rightarrow> pcie \<Rightarrow> bool" where
  "same_rest n s s' \<longleftrightarrow> length (board_map s') = length (board_map s) \<and> drvdata s' = drvdata s \<and>
     core (board_map s' ! n) = core (board_map s ! n)"

lemma same_rest_trans: "same_rest n s s' \<Longrightarrow> same_rest n s' s'' \<Longrightarrow> same_rest n s s''"
  by (simp add: same_rest_def)

lemma found_portal_same: "n < length (board_map s) \<Longrightarrow> same_rest n s (found_portal E n fpn s)"
  by (simp add: same_rest_def found_portal_def Let_def upd_board_def)

definition top_reg :: "pci_env \<Rightarrow> nat \<Rightarrow> u32" where
  "top_reg E fpn = e_bar2 E (fpn * PORTAL_BASE_OFFSET + PCR_TOP_OFFSET)"

definition portal_gets :: "pci_env \<Rightarrow> (nat \<Rightarrow> nat) \<Rightarrow> nat \<Rightarrow> nat \<Rightarrow> pci_resource action list" where
  "portal_gets E minor i j =
     concat (map (\<lambda>k. if e_cdev E k then [Get (Cdev_of k), Get (Node_of (minor k))] else []) [i..<j])"

lemma portal_gets_step:
  "i < j \<Longrightarrow> portal_gets E minor i j =
     (if e_cdev E i then [Get (Cdev_of i), Get (Node_of (minor i))] else []) @ portal_gets E minor (Suc i) j"
  by (simp add: portal_gets_def upt_conv_Cons)

lemma portal_gets_empty [simp]: "portal_gets E minor i i = []"
  by (simp add: portal_gets_def)

lemma core_minor: "core b = core b' \<Longrightarrow> portal_minor m b = portal_minor m b'"
  by (simp add: core_def portal_minor_def fun_eq_iff)

text \<open>
  A run of the loop from portal \<open>i\<close> to portal \<open>j\<close>: all but the last were added and had a
  successor; it succeeds when the last one was added, ends the list, and is not the sixteenth.
\<close>

lemma portal_loop_spec:
  assumes "portal_loop E n i 0 0 s = (j, err, s', cs)" and "i < MAX_NUM_PORTALS" and "n < length (board_map s)"
  shows "i < j \<and> j \<le> MAX_NUM_PORTALS \<and> (\<forall>k. i \<le> k \<and> k + 1 < j \<longrightarrow> e_cdev E k \<and> top_reg E k = 0) \<and>
     effects cs = portal_gets E (portal_minor (e_minor E) (board_map s ! n)) i j \<and>
     (err = 0 \<longleftrightarrow> e_cdev E (j - 1) \<and> top_reg E (j - 1) \<noteq> 0 \<and> j < MAX_NUM_PORTALS) \<and>
     (j < MAX_NUM_PORTALS \<longrightarrow> e_cdev E (j - 1) \<longrightarrow> top_reg E (j - 1) \<noteq> 0) \<and> same_rest n s s'"
  using assms
proof (induction "MAX_NUM_PORTALS - i" arbitrary: i s cs rule: less_induct)
  case less
  let ?s = "found_portal E n i s"
  note same = found_portal_same [OF less.prems(3), of E i]
  have minor: "portal_minor (e_minor E) (board_map ?s ! n) = portal_minor (e_minor E) (board_map s ! n)"
    using same by (intro core_minor) (simp add: same_rest_def)
  have stop: "portal_loop E n k tp e r = (k, e, r, [])" if "tp \<noteq> 0 \<or> e < 0" for k tp e r
    using that by (subst portal_loop.simps) auto
  show ?case
  proof (cases "i + 1 < MAX_NUM_PORTALS \<and> e_cdev E i \<and> top_reg E i = 0")
    case True
    obtain k e t ds where rec: "portal_loop E n (i + 1) 0 0 ?s = (k, e, t, ds)" by (metis prod.exhaust)
    have eq: "(j, err, s') = (k, e, t)"
      "cs = Cdev_add i (portal_minor (e_minor E) (board_map s ! n) i) True #
            Device_create (portal_minor (e_minor E) (board_map s ! n) i) (e_bar2 E (i * PORTAL_BASE_OFFSET + PCR_IID_OFFSET)) # ds"
      using less.prems(1,2) True rec
      by (simp_all add: portal_loop.simps [of E n i 0 0 s] Let_def top_reg_def minor)
    have "n < length (board_map ?s)" using same less.prems(3) by (simp add: same_rest_def)
    moreover have "portal_loop E n (i + 1) 0 0 ?s = (j, err, s', ds)" using rec eq(1) by simp
    ultimately have "i + 1 < j \<and> j \<le> MAX_NUM_PORTALS \<and> (\<forall>k. i + 1 \<le> k \<and> k + 1 < j \<longrightarrow> e_cdev E k \<and> top_reg E k = 0) \<and>
        effects ds = portal_gets E (portal_minor (e_minor E) (board_map ?s ! n)) (i + 1) j \<and>
        (err = 0 \<longleftrightarrow> e_cdev E (j - 1) \<and> top_reg E (j - 1) \<noteq> 0 \<and> j < MAX_NUM_PORTALS) \<and>
        (j < MAX_NUM_PORTALS \<longrightarrow> e_cdev E (j - 1) \<longrightarrow> top_reg E (j - 1) \<noteq> 0) \<and> same_rest n ?s s'"
      using True less.prems(2) by (intro less.hyps) (simp_all add: diff_less_mono2)
    with True same_rest_trans [OF same] show ?thesis
      by (auto simp: eq(2) minor portal_gets_step Suc_le_eq dest: le_neq_implies_less)
  next
    case False
    have "j = i + 1 \<and> s' = ?s \<and>
      effects cs = (if e_cdev E i then [Get (Cdev_of i), Get (Node_of (portal_minor (e_minor E) (board_map s ! n) i))] else []) \<and>
      err = (if e_cdev E i \<and> i + 1 < MAX_NUM_PORTALS then 0 else - EFAULT)"
      using less.prems(1,2) False
      by (auto simp: portal_loop.simps [of E n i 0 0 s] Let_def top_reg_def minor stop errno_defs split: if_splits)
    with False less.prems(2) same show ?thesis
      by (auto simp: portal_gets_step errno_defs)
  qed
qed

subsection \<open>When an activation succeeds\<close>

text \<open>The number of portals before the one that is marked as the last.\<close>

definition portal_count :: "pci_env \<Rightarrow> nat" where
  "portal_count E = length (takeWhile (\<lambda>i. top_reg E i = 0) [0..<MAX_NUM_PORTALS])"

definition board_good :: "pci_env \<Rightarrow> bool" where
  "board_good E \<longleftrightarrow>
     e_enable E \<and> e_region E 0 \<and> e_iomap E 0 0 \<and> e_iomap E 2 0 \<and> board_magic E = expected_magic \<and>
     e_dma_mask E \<and> e_msix E \<and> list_all (e_irq E) [0..<MAX_NUM_PORTALS] \<and>
     portal_count E + 1 < MAX_NUM_PORTALS \<and> list_all (e_cdev E) [0..<portal_count E + 1]"

lemma portal_loop_count:
  assumes "portal_loop E n 0 0 0 s = (j, err, s', cs)" and "n < length (board_map s)"
  shows "err = 0 \<longleftrightarrow> portal_count E + 1 < MAX_NUM_PORTALS \<and> list_all (e_cdev E) [0..<portal_count E + 1]"
    and "err = 0 \<Longrightarrow> j = portal_count E + 1"
proof -
  have "0 < MAX_NUM_PORTALS" by (simp add: MAX_NUM_PORTALS_def)
  note sp = portal_loop_spec [OF assms(1) this assms(2)]
  have ok: "portal_count E = j - 1" if "err = 0"
    unfolding portal_count_def using sp that by (intro takeWhile_upt_eq) auto
  show "err = 0 \<Longrightarrow> j = portal_count E + 1" using ok sp by simp
  have "err = 0" if c: "portal_count E + 1 < MAX_NUM_PORTALS" "list_all (e_cdev E) [0..<portal_count E + 1]"
  proof -
    let ?c = "portal_count E"
    have top: "top_reg E ?c \<noteq> 0" "\<forall>k < ?c. top_reg E k = 0"
      using takeWhile_upt [of "\<lambda>i. top_reg E i = 0" MAX_NUM_PORTALS] c(1) by (simp_all add: portal_count_def)
    have "j \<le> ?c + 1" using sp top(1) by (metis Suc_eq_plus1 le_add1 less_eq_nat.simps(1) not_less_eq_eq zero_less_Suc Suc_le_eq add.commute)
    moreover have "0 < j" using sp by simp
    ultimately have "j - 1 \<in> set [0..<?c + 1]" "j < MAX_NUM_PORTALS" using c(1) by auto
    then have "e_cdev E (j - 1)" "j < MAX_NUM_PORTALS" using c(2) unfolding list_all_iff by blast+
    with sp show ?thesis by auto
  qed
  note good = this
  show "err = 0 \<longleftrightarrow> portal_count E + 1 < MAX_NUM_PORTALS \<and> list_all (e_cdev E) [0..<portal_count E + 1]"
  proof (rule iffI)
    assume e: "err = 0"
    have "e_cdev E k" if "k < j" for k
      using that sp e by (cases "k + 1 < j") (auto dest!: less_antisym simp: not_less_eq)
    then show "portal_count E + 1 < MAX_NUM_PORTALS \<and> list_all (e_cdev E) [0..<portal_count E + 1]"
      using ok [OF e] sp e by (simp add: list_all_iff)
  qed (use good in blast)
qed

subsection \<open>The way down\<close>

definition mapped_bars :: "tBoard \<Rightarrow> nat list" where
  "mapped_bars b = (if bar0io b then [0] else []) @ (if bar1io b then [1] else []) @ (if bar2io b then [2] else [])"

definition pci_regions :: "pci_resource set" where
  "pci_regions = Region_of ` {0..<6}"

text \<open>After every error label the board is free again.\<close>

definition board_free :: "nat \<Rightarrow> nat \<Rightarrow> pcie \<Rightarrow> bool" where
  "board_free n dev s \<longleftrightarrow> pci_dev (board_map s ! n) = None \<and> drvdata s dev = None"

definition irq_lines :: "u32 \<Rightarrow> pci_resource list" where
  "irq_lines q = map (\<lambda>i. Irq_line (q + of_nat i)) [0..<MAX_NUM_PORTALS]"

lemma distinct_irq_lines: "distinct (irq_lines q)"
proof -
  have "inj_on (\<lambda>i. Irq_line (q + of_nat i)) (set [0..<MAX_NUM_PORTALS])"
    by (auto simp: inj_on_def MAX_NUM_PORTALS_def word_of_nat_eq_iff take_bit_nat_eq_self)
  then show ?thesis by (simp add: irq_lines_def distinct_map)
qed

definition label_effects :: "tBoard \<Rightarrow> pci_resource action list" where
  "label_effects b = map Put (map Bar_map (mapped_bars b)) @ map Put_any (map Region_of [0..<6]) @ [Put Device_on]"

lemma label_effects_ledger:
  "ledger (label_effects b) R = R - Bar_map ` set (mapped_bars b) - pci_regions - {Device_on}"
  "orderly (label_effects b) R \<longleftrightarrow> Bar_map ` set (mapped_bars b) \<subseteq> R \<and> Device_on \<in> R"
  unfolding label_effects_def ledger_append orderly_append ledger_puts ledger_puts_any orderly_puts orderly_puts_any pci_regions_def
  by (auto simp: distinct_map inj_on_def mapped_bars_def simp del: upt_rec_numeral)

lemma err_exit_result [simp]:
  "fst (err_exit n dev err s) = err" "snd (snd (err_exit n dev err s)) = []"
  "n < length (board_map s) \<Longrightarrow> board_free n dev (fst (snd (err_exit n dev err s)))"
  "length (board_map (fst (snd (err_exit n dev err s)))) = length (board_map s)"
  by (simp_all add: err_exit_def board_free_def)

lemma labels_result [simp]:
  "fst (PCI_DEV_ENABLED_label n dev err s) = err" "snd (snd (PCI_DEV_ENABLED_label n dev err s)) = [Disable_device]"
  "fst (snd (PCI_DEV_ENABLED_label n dev err s)) = fst (snd (err_exit n dev err s))"
  "fst (BARS_ALLOCATED_label n dev err s) = err"
  "snd (snd (BARS_ALLOCATED_label n dev err s)) = [Release_regions, Disable_device]"
  "fst (snd (BARS_ALLOCATED_label n dev err s)) = fst (snd (err_exit n dev err s))"
  "fst (BARS_MAPPED_label n dev err s) = err"
  "effects (snd (snd (BARS_MAPPED_label n dev err s))) = label_effects (board_map s ! n)"
  "fst (snd (BARS_MAPPED_label n dev err s)) = fst (snd (err_exit n dev err s))"
  "fst (MSI_ENABLED_label n dev err s) = err"
  "effects (snd (snd (MSI_ENABLED_label n dev err s))) = Put Msix_on # label_effects (board_map s ! n)"
  "fst (snd (MSI_ENABLED_label n dev err s)) = fst (snd (err_exit n dev err s))"
  by (simp_all add: PCI_DEV_ENABLED_label_def BARS_ALLOCATED_label_def BARS_MAPPED_label_def MSI_ENABLED_label_def
      Let_def label_effects_def mapped_bars_def)

definition portal_puts :: "(nat \<Rightarrow> nat) \<Rightarrow> nat \<Rightarrow> pci_resource action list" where
  "portal_puts minor k = concat (map (\<lambda>i. [Put (Node_of (minor i)), Put (Cdev_of i)]) [0..<k])"

lemma deactivate_result:
  "fst (deactivate minor n dev err s) = err"
  "fst (snd (deactivate minor n dev err s)) = fst (snd (err_exit n dev err s))"
  "effects (snd (snd (deactivate minor n dev err s))) =
     (let b = board_map s ! n in
      portal_puts (portal_minor minor b) (num_portals b) @ [Put Master_on] @ map Put (irq_lines (irq_num b)) @
      [Put Msix_on] @ label_effects b)"
proof -
  have "effects (concat (map (\<lambda>fpn. [Device_destroy (m fpn), Cdev_del fpn]) xs)) =
      concat (map (\<lambda>i. [Put (Node_of (m i)), Put (Cdev_of i)]) xs)" for m xs
    by (induction xs) simp_all
  moreover have "effects (map (\<lambda>i. Free_irq (q + of_nat i) i) xs) = map (\<lambda>i. Put (Irq_line (q + of_nat i))) xs" for q xs
    by (induction xs) simp_all
  ultimately show "effects (snd (snd (deactivate minor n dev err s))) =
     (let b = board_map s ! n in
      portal_puts (portal_minor minor b) (num_portals b) @ [Put Master_on] @ map Put (irq_lines (irq_num b)) @
      [Put Msix_on] @ label_effects b)"
    by (simp add: deactivate_def Let_def portal_puts_def irq_lines_def)
qed (simp_all add: deactivate_def Let_def)

definition portal_set :: "(nat \<Rightarrow> nat) \<Rightarrow> nat \<Rightarrow> pci_resource set" where
  "portal_set minor k = Cdev_of ` {0..<k} \<union> (Node_of \<circ> minor) ` {0..<k}"

lemma portal_puts_ledger: "ledger (portal_puts minor k) R = R - portal_set minor k"
  by (induction k arbitrary: R) (auto simp: portal_puts_def portal_set_def atLeast0_lessThan_Suc)

lemma portal_puts_orderly:
  "inj_on minor {0..<k} \<Longrightarrow> portal_set minor k \<subseteq> R \<Longrightarrow> orderly (portal_puts minor k) R"
proof (induction k arbitrary: R)
  case (Suc k)
  have "inj_on minor {0..<k}" "minor k \<notin> minor ` {0..<k}"
    using Suc.prems(1) by (simp_all add: atLeast0_lessThan_Suc inj_on_insert)
  with Suc show ?case
    using portal_puts_ledger [of minor k R] by (auto simp: portal_puts_def portal_set_def atLeast0_lessThan_Suc)
qed (simp add: portal_puts_def)

lemma portal_gets_ledger:
  assumes "list_all (e_cdev E) [0..<k]"
  shows "ledger (portal_gets E minor 0 k) R = R \<union> portal_set minor k"
  using assms by (induction k arbitrary: R) (auto simp: portal_gets_def portal_set_def list_all_iff atLeast0_lessThan_Suc)

lemma portal_gets_orderly:
  assumes "list_all (e_cdev E) [0..<k]" and "inj_on minor {0..<k}" and "portal_set minor k \<inter> R = {}"
  shows "orderly (portal_gets E minor 0 k) R"
  using assms
proof (induction k arbitrary: R)
  case (Suc k)
  have "inj_on minor {0..<k}" "minor k \<notin> minor ` {0..<k}"
    using Suc.prems(2) by (simp_all add: atLeast0_lessThan_Suc inj_on_insert)
  moreover have "list_all (e_cdev E) [0..<k]" using Suc.prems(1) by simp
  ultimately show ?case
    using Suc portal_gets_ledger [of E k minor R] by (auto simp: portal_gets_def portal_set_def atLeast0_lessThan_Suc)
qed (simp add: portal_gets_def)

lemma portal_minor_inj: "inj_on (portal_minor m b) A"
  by (simp add: inj_on_def portal_minor_def)

subsection \<open>The way up\<close>

text \<open>All that a running board holds, the memory regions apart.\<close>

definition wired :: "tBoard \<Rightarrow> pci_resource set" where
  "wired b = {Device_on, Msix_on} \<union> Bar_map ` set (mapped_bars b) \<union> set (irq_lines (irq_num b))"

definition pcie_kept :: "nat \<Rightarrow> tBoard \<Rightarrow> pci_resource set" where
  "pcie_kept minor b = wired b \<union> {Master_on} \<union> portal_set (portal_minor minor b) (num_portals b)"

lemma portal_gets_exact:
  "ledger (portal_gets E minor i k) R =
   R \<union> Cdev_of ` Set.filter (e_cdev E) {i..<k} \<union> (Node_of \<circ> minor) ` Set.filter (e_cdev E) {i..<k}"
proof -
  have "ledger (concat (map (\<lambda>k. if e_cdev E k then [Get (Cdev_of k), Get (Node_of (minor k))] else []) xs)) R =
    R \<union> Cdev_of ` Set.filter (e_cdev E) (set xs) \<union> (Node_of \<circ> minor) ` Set.filter (e_cdev E) (set xs)" for xs
    by (induction xs arbitrary: R) auto
  from this [of "[i..<k]"] show ?thesis by (simp add: portal_gets_def)
qed

lemma portal_gets_between:
  "R \<subseteq> ledger (portal_gets E minor 0 k) R \<and> ledger (portal_gets E minor 0 k) R \<subseteq> R \<union> portal_set minor k"
  unfolding portal_gets_exact portal_set_def by auto

lemma wired_disjoint [simp]: "portal_set m k \<inter> wired b = {}" "portal_set m k \<inter> pci_regions = {}"
  "Master_on \<notin> wired b" "Master_on \<notin> pci_regions" "Master_on \<notin> portal_set m k" "pci_regions \<inter> wired b = {}"
  by (auto simp: portal_set_def wired_def irq_lines_def pci_regions_def)

lemma deactivate_ledger:
  assumes "R \<subseteq> pcie_kept minor (board_map s ! n) \<union> pci_regions"
  shows "ledger (effects (snd (snd (deactivate minor n dev err s)))) R = {}"
  using assms
  by (auto simp: deactivate_result Let_def portal_puts_ledger ledger_puts label_effects_ledger pcie_kept_def wired_def)

lemma deactivate_orderly:
  assumes "pcie_kept minor (board_map s ! n) \<subseteq> R"
  shows "orderly (effects (snd (snd (deactivate minor n dev err s)))) R"
proof -
  let ?b = "board_map s ! n"
  have "orderly (portal_puts (portal_minor minor ?b) (num_portals ?b)) R"
    using assms by (intro portal_puts_orderly portal_minor_inj) (auto simp: pcie_kept_def)
  moreover have "set (irq_lines q) \<inter> portal_set m k = {}" "Master_on \<notin> set (irq_lines q)"
    "Msix_on \<notin> set (irq_lines q)" "Msix_on \<notin> portal_set m k" "Device_on \<notin> set (irq_lines q)"
    "Device_on \<notin> portal_set m k" "Bar_map i \<notin> set (irq_lines q)" "Bar_map i \<notin> portal_set m k" for q m k i
    by (auto simp: irq_lines_def portal_set_def)
  ultimately show ?thesis
    using assms distinct_irq_lines [of "irq_num ?b"]
    by (auto simp: deactivate_result Let_def portal_puts_ledger ledger_puts orderly_puts label_effects_ledger pcie_kept_def wired_def)
qed

definition portals_good :: "pci_env \<Rightarrow> bool" where
  "portals_good E \<longleftrightarrow> portal_count E + 1 < MAX_NUM_PORTALS \<and> list_all (e_cdev E) [0..<portal_count E + 1]"

lemma activate_portals_good:
  assumes "n < length (board_map s)" and "portals_good E" and "R - pci_regions = wired (board_map s ! n)"
    and "activate_portals E n dev s = (err, s', cs)"
  shows "err = 0 \<and> orderly (effects cs) R \<and>
    ledger (effects cs) R - pci_regions = pcie_kept (e_minor E) (board_map s' ! n) \<and> drvdata s' dev = Some n \<and>
    map extra (portals (board_map s' ! n)) = map extra (portals (board_map s ! n)) \<and>
    length (board_map s') = length (board_map s)"
proof -
  obtain j e t ds where loop: "portal_loop E n 0 0 0 s = (j, e, t, ds)" by (metis prod.exhaust)
  have "0 < MAX_NUM_PORTALS" by (simp add: MAX_NUM_PORTALS_def)
  note sp = portal_loop_spec [OF loop this assms(1)] and ct = portal_loop_count [OF loop assms(1)]
  have e: "e = 0" "j = portal_count E + 1" using ct assms(2) by (auto simp: portals_good_def)
  let ?m = "portal_minor (e_minor E) (board_map s ! n)"
  have all: "list_all (e_cdev E) [0..<j]" using assms(2) e(2) by (simp add: portals_good_def)
  have s': "s' = (upd_board n (num_portals_update (\<lambda>_. j)) t)\<lparr>drvdata := (drvdata t)(dev := Some n)\<rparr>"
    and cs: "effects cs = Get Master_on # portal_gets E ?m 0 j" and "err = 0"
    using assms(4) loop e(1) sp by (auto simp: activate_portals_def Let_def)
  have same: "length (board_map t) = length (board_map s)" "core (board_map t ! n) = core (board_map s ! n)"
    using sp by (simp_all add: same_rest_def)
  have b: "board_map s' ! n = (board_map t ! n)\<lparr>num_portals := j\<rparr>" using s' same assms(1) by simp
  have dis: "portal_set ?m j \<inter> insert Master_on R = {}"
    using assms(3) wired_disjoint(1,2,5) [of ?m j] by blast
  have "wired (board_map s' ! n) = wired (board_map s ! n)"
    using same(2) unfolding b by (simp add: core_def wired_def mapped_bars_def irq_lines_def)
  moreover have "portal_minor (e_minor E) (board_map s' ! n) = ?m"
    using same(2) unfolding b by (simp add: core_def portal_minor_def fun_eq_iff)
  moreover have "Master_on \<notin> R" using assms(3) wired_disjoint(3,4) by (metis Diff_iff)
  moreover have "portal_set ?m j - pci_regions = portal_set ?m j" using wired_disjoint(2) [of ?m j] by blast
  ultimately show ?thesis
    using portal_gets_orderly [OF all portal_minor_inj dis] portal_gets_ledger [OF all] \<open>err = 0\<close> s' same
      assms(3) b wired_disjoint(4)
    by (auto simp: cs pcie_kept_def Un_Diff insert_Diff_if core_def)
qed

lemma activate_portals_bad:
  assumes "n < length (board_map s)" and "\<not> portals_good E" and "R - pci_regions = wired (board_map s ! n)"
    and "activate_portals E n dev s = (err, s', cs)"
  shows "err \<noteq> 0 \<and> ledger (effects cs) R = {} \<and> board_free n dev s'"
proof -
  obtain j e t ds where loop: "portal_loop E n 0 0 0 s = (j, e, t, ds)" by (metis prod.exhaust)
  have "0 < MAX_NUM_PORTALS" by (simp add: MAX_NUM_PORTALS_def)
  note sp = portal_loop_spec [OF loop this assms(1)] and ct = portal_loop_count [OF loop assms(1)]
  have e: "e \<noteq> 0" using ct assms(2) by (auto simp: portals_good_def)
  let ?m = "portal_minor (e_minor E) (board_map s ! n)"
  let ?t = "(upd_board n (num_portals_update (\<lambda>_. j)) t)\<lparr>drvdata := (drvdata t)(dev := Some n)\<rparr>"
  let ?r = "deactivate (e_minor E) n dev e ?t"
  have r: "err = fst ?r" "s' = fst (snd ?r)" "effects cs = Get Master_on # portal_gets E ?m 0 j @ effects (snd (snd ?r))"
    using assms(4) loop e sp by (auto simp: activate_portals_def Let_def after_calls_def split: prod.splits)
  have same: "length (board_map t) = length (board_map s)" "core (board_map t ! n) = core (board_map s ! n)"
    using sp by (simp_all add: same_rest_def)
  have b: "board_map ?t ! n = (board_map t ! n)\<lparr>num_portals := j\<rparr>" using same assms(1) by simp
  have "wired (board_map ?t ! n) = wired (board_map s ! n)"
    using same(2) unfolding b by (simp add: core_def wired_def mapped_bars_def irq_lines_def)
  moreover have "portal_minor (e_minor E) (board_map ?t ! n) = ?m"
    using same(2) unfolding b by (simp add: core_def portal_minor_def fun_eq_iff)
  ultimately have "ledger (portal_gets E ?m 0 j) (insert Master_on R) \<subseteq> pcie_kept (e_minor E) (board_map ?t ! n) \<union> pci_regions"
    using portal_gets_between [of "insert Master_on R" E ?m j] assms(3) same(1) assms(1)
    unfolding pcie_kept_def b by auto
  from deactivate_ledger [OF this] show ?thesis
    using e r same assms(1) by (simp add: deactivate_result)
qed

lemma request_irqs_spec:
  "request_irqs E q is = (ok, cs) \<Longrightarrow>
   ok = list_all (e_irq E) is \<and>
   effects cs = map Get (map (\<lambda>i. Irq_line (q + of_nat i)) (takeWhile (e_irq E) is))"
proof (induction "is" arbitrary: ok cs)
  case (Cons i "is")
  then show ?case by (cases "request_irqs E q is") (auto split: if_splits)
qed simp

definition irqs_good :: "pci_env \<Rightarrow> bool" where
  "irqs_good E \<longleftrightarrow> board_magic E = expected_magic \<and> e_dma_mask E \<and> e_msix E"

definition irq_leak :: "pci_env \<Rightarrow> pci_resource set" where
  "irq_leak E =
     (if irqs_good E \<and> \<not> list_all (e_irq E) [0..<MAX_NUM_PORTALS]
      then (\<lambda>i. Irq_line (e_vector E + of_nat i)) ` set (takeWhile (e_irq E) [0..<MAX_NUM_PORTALS]) else {})"

lemma takeWhile_all: "list_all P xs \<Longrightarrow> takeWhile P xs = xs"
  by (induction xs) auto

lemma activate_irqs_result:
  assumes n: "n < length (board_map s)" and R: "R - pci_regions = {Device_on} \<union> Bar_map ` set (mapped_bars (board_map s ! n))"
    and r: "activate_irqs E n dev s = (err, s', cs)"
  shows "if irqs_good E \<and> list_all (e_irq E) [0..<MAX_NUM_PORTALS] \<and> portals_good E
    then err = 0 \<and> orderly (effects cs) R \<and>
      ledger (effects cs) R - pci_regions = pcie_kept (e_minor E) (board_map s' ! n) \<and> drvdata s' dev = Some n \<and>
      map extra (portals (board_map s' ! n)) = map extra (portals (board_map s ! n)) \<and>
      length (board_map s') = length (board_map s)
    else err \<noteq> 0 \<and> ledger (effects cs) R = irq_leak E \<and> board_free n dev s'"
proof (cases "irqs_good E")
  case False
  let ?b = "board_map s ! n"
  have "R - Bar_map ` set (mapped_bars ?b) - pci_regions - {Device_on} = {}" using R by blast
  moreover have "\<exists>e ds. (err, s', cs) = after_calls ds (BARS_MAPPED_label n dev e s) \<and> e \<noteq> 0 \<and> effects ds = []"
  proof -
    consider "board_magic E \<noteq> expected_magic" | "board_magic E = expected_magic" "\<not> e_dma_mask E"
      | "board_magic E = expected_magic" "e_dma_mask E" "\<not> e_msix E" using False by (auto simp: irqs_good_def)
    then show ?thesis
    proof cases
      case 1
      then show ?thesis using r by (intro exI [of _ "- EINVAL"] exI [of _ "[]"]) (simp add: activate_irqs_def errno_defs)
    next
      case 2
      then show ?thesis using r
        by (intro exI [of _ "- EIO"] exI [of _ "[Set_dma_mask False]"]) (simp add: activate_irqs_def errno_defs)
    next
      case 3
      then show ?thesis using r
        by (intro exI [of _ "- EFAULT"] exI [of _ "[Set_dma_mask True, Enable_msix False]"])
           (simp add: activate_irqs_def errno_defs)
    qed
  qed
  ultimately show ?thesis using False n by (auto simp: after_calls_eq label_effects_ledger irq_leak_def)
next
  case True
  let ?s = "upd_board n (irq_num_update (\<lambda>_. e_vector E)) s"
  obtain ok ds where irqs: "request_irqs E (e_vector E) [0..<MAX_NUM_PORTALS] = (ok, ds)" by fastforce
  note sp = request_irqs_spec [OF irqs]
  let ?q = "if ok then activate_portals E n dev ?s else MSI_ENABLED_label n dev (- EBUSY) ?s"
  have q: "(err, s', cs) = after_calls ([Set_dma_mask True, Enable_msix True] @ ds) ?q"
    using r True irqs by (simp add: activate_irqs_def irqs_good_def Let_def)
  have b: "board_map ?s ! n = (board_map s ! n)\<lparr>irq_num := e_vector E\<rparr>" using n by simp
  let ?G = "(\<lambda>i. Irq_line (e_vector E + of_nat i)) ` set (takeWhile (e_irq E) [0..<MAX_NUM_PORTALS])"
  let ?R = "insert Msix_on R \<union> ?G"
  have eff: "ledger (effects ([Set_dma_mask True, Enable_msix True] @ ds)) R = ?R"
    using sp by (simp add: ledger_simps)
  show ?thesis
  proof (cases ok)
    case False
    have "?R - {Msix_on} - Bar_map ` set (mapped_bars (board_map s ! n)) - pci_regions - {Device_on} = ?G"
      using R by (auto simp: pci_regions_def)
    then show ?thesis
      using False True q n sp eff by (auto simp: after_calls_eq label_effects_ledger irq_leak_def errno_defs mapped_bars_def)
  next
    case all: True
    obtain e t es where p: "activate_portals E n dev ?s = (e, t, es)" by (metis prod.exhaust)
    have tw: "takeWhile (e_irq E) [0..<MAX_NUM_PORTALS] = [0..<MAX_NUM_PORTALS]" using sp all by (simp add: takeWhile_all)
    have G: "?G = set (irq_lines (e_vector E))" by (simp add: tw irq_lines_def)
    have "?R - pci_regions = wired (board_map ?s ! n)"
      using R unfolding b G by (auto simp: wired_def mapped_bars_def irq_lines_def pci_regions_def)
    note good = activate_portals_good [OF _ _ this p] and bad = activate_portals_bad [OF _ _ this p]
    have rs: "err = e" "s' = t" "cs = [Set_dma_mask True, Enable_msix True] @ ds @ es" using q p all by simp_all
    have "orderly (effects ([Set_dma_mask True, Enable_msix True] @ ds)) R"
      using sp R distinct_irq_lines [of "e_vector E"]
      by (auto simp: orderly_gets ledger_simps tw irq_lines_def pci_regions_def)
    then show ?thesis
      using good bad n eff sp all True by (cases "portals_good E") (auto simp: rs irq_leak_def)
  qed
qed

definition env_bars :: "pci_env \<Rightarrow> nat list" where
  "env_bars E = (if e_iomap E 0 0 then [0] else []) @ (if e_iomap E 1 0 \<or> e_iomap E 1 8192 then [1] else []) @
     (if e_iomap E 2 0 then [2] else [])"

text \<open>
  What a failed activation leaves behind: mappings when one of the two needed ones failed, and
  interrupt lines when a later one was refused.
\<close>

definition pcie_leak :: "pci_env \<Rightarrow> pci_resource set" where
  "pcie_leak E =
     (if \<not> e_enable E \<or> \<not> e_region E 0 then {}
      else if \<not> e_iomap E 0 0 \<or> \<not> e_iomap E 2 0 then Bar_map ` set (env_bars E)
      else irq_leak E)"

lemma board_good_parts:
  "board_good E \<longleftrightarrow> e_enable E \<and> e_region E 0 \<and> e_iomap E 0 0 \<and> e_iomap E 2 0 \<and>
     irqs_good E \<and> list_all (e_irq E) [0..<MAX_NUM_PORTALS] \<and> portals_good E"
  by (auto simp: board_good_def irqs_good_def portals_good_def)

lemma two_checks:
  "\<not> (a \<and> b) \<Longrightarrow> (if \<not> a then x else if \<not> b then x else y) = x"
  "a \<and> b \<Longrightarrow> (if \<not> a then x else if \<not> b then x else y) = y"
  by auto

lemma activate_bars_result:
  assumes n: "n < length (board_map s)" and e: "e_enable E" and r: "activate_bars E n dev s = (err, s', cs)"
  shows "if board_good E
    then err = 0 \<and> orderly (effects cs) {Device_on} \<and>
      ledger (effects cs) {Device_on} - pci_regions = pcie_kept (e_minor E) (board_map s' ! n) \<and> drvdata s' dev = Some n \<and>
      map extra (portals (board_map s' ! n)) = map extra (portals (board_map s ! n)) \<and>
      length (board_map s') = length (board_map s)
    else err \<noteq> 0 \<and> ledger (effects cs) {Device_on} = pcie_leak E \<and> board_free n dev s'"
proof (cases "e_region E 0")
  case False
  then show ?thesis
    using r [symmetric] n by (simp add: activate_bars_def board_good_parts pcie_leak_def after_calls_eq errno_defs)
next
  case True
  let ?m1 = "e_iomap E 1 0 \<or> e_iomap E 1 8192"
  let ?s = "upd_board n (\<lambda>b. b\<lparr>bar0io := e_iomap E 0 0, bar1io := ?m1, bar2io := e_iomap E 2 0\<rparr>)
              (s\<lparr>traceInfo := (traceInfo s)\<lparr>trace_base := e_resource2 E\<rparr>\<rparr>)"
  let ?c = "[Request_region 0 True, Request_region 1 (e_region E 1), Request_region 2 (e_region E 2),
     Iomap 0 0 (e_iomap E 0 0), Iomap 1 0 (e_iomap E 1 0), Iomap 2 0 (e_iomap E 2 0)] @
     (if e_iomap E 1 0 then [] else [Iomap 1 8192 (e_iomap E 1 8192)])"
  let ?R = "ledger (effects ?c) {Device_on}"
  have b: "board_map ?s ! n = (board_map s ! n)\<lparr>bar0io := e_iomap E 0 0, bar1io := ?m1, bar2io := e_iomap E 2 0\<rparr>"
    using n by simp
  have bars: "mapped_bars (board_map ?s ! n) = env_bars E" unfolding b by (simp add: mapped_bars_def env_bars_def)
  have R: "?R - pci_regions = {Device_on} \<union> Bar_map ` set (env_bars E)" and ord: "orderly (effects ?c) {Device_on}"
    by (auto simp: pci_regions_def env_bars_def)
  have eq: "(err, s', cs) = after_calls ?c
      (if \<not> e_iomap E 0 0 then BARS_ALLOCATED_label n dev (- EFAULT) ?s
       else if \<not> e_iomap E 2 0 then BARS_ALLOCATED_label n dev (- EFAULT) ?s
       else after_calls [Iowrite32 0 CSR_TLPPCIEWRADDRREG, Iowrite32 1 CSR_TLPTRACINGREG] (activate_irqs E n dev ?s))"
    using r [symmetric] True unfolding activate_bars_def Let_def by (simp only: if_False simp_thms)
  show ?thesis
  proof (cases "e_iomap E 0 0 \<and> e_iomap E 2 0")
    case False
    have "(err, s', cs) = after_calls ?c (BARS_ALLOCATED_label n dev (- EFAULT) ?s)"
      using eq unfolding two_checks(1) [OF False] .
    moreover have "?R - pci_regions - {Device_on} = Bar_map ` set (env_bars E)" using R by auto
    moreover have "ledger (map (Put_any \<circ> Region_of) [0..<6]) X = X - pci_regions" for X
      using ledger_puts_any [of "map Region_of [0..<6]" X] by (simp add: pci_regions_def del: upt_rec_numeral)
    ultimately show ?thesis
      using False True e n by (auto simp: after_calls_eq board_good_parts pcie_leak_def errno_defs simp del: upt_rec_numeral)
  next
    case ok: True
    obtain e' t ds where i: "activate_irqs E n dev ?s = (e', t, ds)" by (metis prod.exhaust)
    define R0 where "R0 = ?R"
    have "R0 - pci_regions = {Device_on} \<union> Bar_map ` set (mapped_bars (board_map ?s ! n))"
      using R unfolding bars R0_def by simp
    note irqs = activate_irqs_result [OF _ this i]
    have rs: "err = e'" "s' = t" "cs = ?c @ [Iowrite32 0 CSR_TLPPCIEWRADDRREG, Iowrite32 1 CSR_TLPTRACINGREG] @ ds"
      using eq unfolding two_checks(2) [OF ok] i by (simp_all only: after_calls_simps prod.inject append_assoc)
    have "effects cs = effects ?c @ effects ds" unfolding rs(3) by simp
    then have "orderly (effects cs) {Device_on} \<longleftrightarrow> orderly (effects ds) R0"
      "ledger (effects cs) {Device_on} = ledger (effects ds) R0"
      using ord unfolding R0_def by (simp_all only: orderly_append ledger_append simp_thms)
    then show ?thesis using irqs n ok True e by (simp add: rs(1,2) board_good_parts pcie_leak_def)
  qed
qed

subsection \<open>Probe and remove\<close>

definition pcie_idle :: "pcie \<Rightarrow> bool" where
  "pcie_idle s \<longleftrightarrow> length (board_map s) = NUM_BOARDS + 1 \<and> pci_dev (board_map s ! 0) = None"

definition pcie_holds :: "nat \<Rightarrow> nat \<Rightarrow> pcie \<Rightarrow> pci_resource set \<Rightarrow> bool" where
  "pcie_holds minor dev s K \<longleftrightarrow> length (board_map s) = NUM_BOARDS + 1 \<and> drvdata s dev = Some 0 \<and>
     extras_set (board_map s ! 0) \<and> K - pci_regions = pcie_kept minor (board_map s ! 0)"

definition our_board :: "pci_env \<Rightarrow> bool" where
  "our_board E \<longleftrightarrow> e_vendor E = BLUESPEC_VENDOR_ID \<and> e_device E = CONNECTAL_DEVICE_ID"

lemma fresh_portals_board:
  "board_map (fresh_portals n s) =
   board_map (upd_board n (portals_update (map (device_name_update (\<lambda>_. - 1)))) s)"
proof -
  have "board_map (fold (\<lambda>p s. init_waitqueue_head (the (extra p)) s) ps s) = board_map s" for ps :: "tPortal list" and s :: pcie
    by (induction ps arbitrary: s) (simp_all add: init_waitqueue_head_def)
  then show ?thesis by (simp add: fresh_portals_def Let_def upd_board_def)
qed

lemma extras_set_map: "map extra (portals b) = map extra (portals b') \<Longrightarrow> extras_set b = extras_set b'"
proof -
  have "extras_set b \<longleftrightarrow> list_all (\<lambda>x. x \<noteq> None) (map extra (portals b))" for b
    by (simp add: extras_set_def list_all_iff)
  then show "map extra (portals b) = map extra (portals b') \<Longrightarrow> extras_set b = extras_set b'" by simp
qed

lemma new_board_extras: "extras_set (new_board n)"
  by (simp add: extras_set_def new_board_def list_all_iff)

lemma probe_result:
  assumes idle: "pcie_idle s" and ours: "our_board E"
  shows "\<exists>err s' cs. pcieportal_probe E dev s = Inr (err, s', cs) \<and>
    (if board_good E then err = 0 \<and> orderly (effects cs) {} \<and> pcie_holds (e_minor E) dev s' (ledger (effects cs) {})
     else err \<noteq> 0 \<and> ledger (effects cs) {} = pcie_leak E \<and> board_free 0 dev s')"
proof -
  have free: "free_board s 0 = Inr 0" using idle by (subst free_board.simps) (simp add: pcie_idle_def)
  have len: "0 < length (board_map s)" using idle by (simp add: pcie_idle_def)
  let ?s0 = "upd_board 0 (\<lambda>_. new_board 0) s"
  let ?s1 = "upd_board 0 (pci_dev_update (\<lambda>_. Some dev)) (fresh_portals 0 ?s0)"
  obtain err s' cs where r: "board_activate E True 0 dev ?s0 = (err, s', cs)" by (metis prod.exhaust)
  have probe: "pcieportal_probe E dev s = Inr (err, s', cs)"
    using ours free r by (simp add: pcieportal_probe_def our_board_def NUM_BOARDS_def)
  have l1: "0 < length (board_map ?s1)" "length (board_map ?s1) = NUM_BOARDS + 1"
    using len idle by (simp_all add: fresh_portals_board pcie_idle_def)
  have x1: "extras_set (board_map ?s1 ! 0)" using len l1(1) new_board_extras [of 0]
    by (simp add: fresh_portals_board extras_set_def list_all_iff)
  have ex: "extras_set (board_map ?s0 ! 0)" using len new_board_extras by simp
  show ?thesis
  proof (cases "e_enable E")
    case False
    then have "(err, s', cs) = after_calls [Enable_device False] (err_exit 0 dev (- EFAULT) ?s1)"
      using r ex by (simp add: board_activate_def Let_def)
    then show ?thesis
      using False probe l1(1) by (simp add: after_calls_eq board_good_parts pcie_leak_def errno_defs)
  next
    case True
    obtain e t ds where b: "activate_bars E 0 dev ?s1 = (e, t, ds)" by (metis prod.exhaust)
    have rs: "err = e" "s' = t" "cs = Enable_device True # ds" using r ex True b by (simp_all add: board_activate_def Let_def)
    note res = activate_bars_result [OF l1(1) True b]
    have "extras_set (board_map t ! 0)" if "board_good E"
      using res that x1 extras_set_map [of "board_map t ! 0" "board_map ?s1 ! 0"] by simp
    then show ?thesis using probe res l1(2) unfolding rs by (auto simp: pcie_holds_def)
  qed
qed

definition pcie_up :: "nat \<Rightarrow> pci_env \<Rightarrow> pcie \<Rightarrow> pcie \<times> pci_resource action list" where
  "pcie_up dev E s = (case pcieportal_probe E dev s of Inl _ \<Rightarrow> (s, []) | Inr (err, s', cs) \<Rightarrow> (s', effects cs))"

definition pcie_down :: "pci_env \<Rightarrow> nat \<Rightarrow> pcie \<Rightarrow> pcie \<times> pci_resource action list" where
  "pcie_down E dev s = (case pcieportal_remove E dev s of (s', cs) \<Rightarrow> (s', effects cs))"

interpretation pcie_life: driver_cycle "pcie_up dev" "pcie_down E0 dev"
    "\<lambda>E. our_board E \<and> board_good E \<and> e_minor E = e_minor E0" pcie_idle "pcie_holds (e_minor E0) dev"
  for E0 :: pci_env and dev :: nat
proof
  fix E s s' as
  assume "our_board E \<and> board_good E \<and> e_minor E = e_minor E0" and "pcie_idle s" and "pcie_up dev E s = (s', as)"
  then show "orderly as {} \<and> pcie_holds (e_minor E0) dev s' (ledger as {})"
    using probe_result [of s E dev] by (auto simp: pcie_up_def)
next
  fix s K s' as
  assume K: "pcie_holds (e_minor E0) dev s K" and down: "pcie_down E0 dev s = (s', as)"
  let ?r = "deactivate (e_minor E0) 0 dev 0 s"
  have "board_activate E0 False 0 dev s = ?r" using K by (simp add: board_activate_def pcie_holds_def)
  then have r: "s' = fst (snd ?r)" "as = effects (snd (snd ?r))"
    using K down by (auto simp: pcie_down_def pcieportal_remove_def pcie_holds_def split: prod.splits)
  have "0 < length (board_map s)" using K by (simp add: pcie_holds_def)
  then have "pcie_idle s'"
    using K by (simp add: r deactivate_result pcie_idle_def pcie_holds_def err_exit_def)
  moreover have "K \<subseteq> pcie_kept (e_minor E0) (board_map s ! 0) \<union> pci_regions"
    "pcie_kept (e_minor E0) (board_map s ! 0) \<subseteq> K" using K by (auto simp: pcie_holds_def)
  ultimately show "pcie_idle s' \<and> orderly as K \<and> ledger as K = {}"
    unfolding r(2) using deactivate_ledger [of K] deactivate_orderly [of _ s 0 K] by simp
qed

section \<open>Properties\<close>

text \<open>
  C5: when a probe succeeds and what a failed one leaves behind.  With a free slot the probe of
  a Connectal board returns 0 exactly when the device can be enabled, its first region reserved,
  BAR 0 and BAR 2 mapped, the magic number read, the DMA mask set, all sixteen interrupts
  installed, and the list of portals ends before the sixteenth with all devices added.  A failed
  probe frees the slot; it still holds the BARs that were mapped when BAR 0 or BAR 2 could not be,
  and the interrupts installed before one that was refused, and nothing else.
\<close>

theorem pcie_probe_outcome:
  assumes "pcie_idle s" and "our_board E"
  shows "\<exists>err s' cs. pcieportal_probe E dev s = Inr (err, s', cs) \<and> (err = 0 \<longleftrightarrow> board_good E) \<and>
    (err \<noteq> 0 \<longrightarrow> ledger (effects cs) {} = pcie_leak E \<and> pci_dev (board_map s' ! 0) = None \<and> drvdata s' dev = None)"
  using probe_result [OF assms, of dev] by (auto simp: board_free_def split: if_splits)

text \<open>A board with three portals, and one that refuses its third interrupt.\<close>

definition demo_board :: pci_env where
  "demo_board =
     \<lparr>e_vendor = 0x1be7, e_device = 0xc100, e_resource2 = 0xd0000000, e_enable = True, e_region = (\<lambda>_. True),
      e_iomap = (\<lambda>bar m. bar \<noteq> 1), e_bar0 = (\<lambda>a. if a = 0 then 0x65756c42 else if a = 4 then 0x63657073 else 0),
      e_bar2 = (\<lambda>a. if a = 0x20014 then 1 else 0), e_dma_mask = True, e_msix = True, e_vector = 40,
      e_irq = (\<lambda>_. True), e_cdev = (\<lambda>_. True), e_minor = 1\<rparr>"

definition idle_pcie :: pcie where
  "idle_pcie =
     \<lparr>board_map = [zero_board, zero_board], extra_portal_info = replicate MAX_NUM_PORTALS \<lparr>wait_queue = [], dma_handle = 0\<rparr>,
      traceInfo = \<lparr>trace_base = 0, trace = 0, traceLength = 0, trace_intval = replicate MAX_NUM_PORTALS 0,
                   trace_name = replicate MAX_NUM_PORTALS 0\<rparr>,
      trace_index = 0, drvdata = Map.empty\<rparr>"

lemma idle_pcie_idle: "pcie_idle idle_pcie"
  by (simp add: pcie_idle_def idle_pcie_def NUM_BOARDS_def zero_board_def)

lemma demo_board_magic: "board_magic demo_board = expected_magic"
  by (simp add: board_magic_def expected_magic_def demo_board_def CSR_ID_def)

theorem pcie_probe_outcome_witness:
  "\<exists>err s' cs. pcieportal_probe (demo_board\<lparr>e_irq := \<lambda>i. i \<noteq> 2\<rparr>) 7 idle_pcie = Inr (err, s', cs) \<and> err \<noteq> 0 \<and>
     ledger (effects cs) {} = {Irq_line 40, Irq_line 41}"
proof -
  let ?E = "demo_board\<lparr>e_irq := \<lambda>i. i \<noteq> 2\<rparr>"
  have ours: "our_board ?E"
    by (simp add: our_board_def demo_board_def BLUESPEC_VENDOR_ID_def CONNECTAL_DEVICE_ID_def)
  have "board_magic ?E = expected_magic"
    using demo_board_magic by (simp add: board_magic_def)
  then have "irqs_good ?E" by (simp add: irqs_good_def demo_board_def)
  moreover have "\<not> list_all (e_irq ?E) [0..<MAX_NUM_PORTALS]" by (auto simp: list_all_iff MAX_NUM_PORTALS_def)
  moreover have "takeWhile (e_irq ?E) [0..<MAX_NUM_PORTALS] = [0, 1]" by (simp add: MAX_NUM_PORTALS_def upt_rec)
  ultimately have "pcie_leak ?E = {Irq_line 40, Irq_line 41}" "\<not> board_good ?E"
    by (auto simp: pcie_leak_def irq_leak_def board_good_parts demo_board_def)
  then show ?thesis using pcie_probe_outcome [OF idle_pcie_idle ours, of 7] by fastforce
qed

text \<open>
  C6: probing and removing balance.  Over any number of successful probes, each followed by a
  remove, every resource is acquired once and released once, in an order in which nothing is
  released that is not held; at the end nothing is held and the slot of the board is free.
\<close>

theorem pcie_cycles_balanced:
  assumes "\<forall>E \<in> set Es. our_board E \<and> board_good E \<and> e_minor E = e_minor E0" and "pcie_idle s"
    and "cycles (pcie_up dev) (pcie_down E0 dev) Es s = (s', as)"
  shows "pcie_idle s' \<and> orderly as {} \<and> ledger as {} = {}"
  using pcie_life.cycles_balanced [OF assms] .

theorem pcie_cycles_balanced_witness:
  "\<exists>s' as. cycles (pcie_up 7) (pcie_down demo_board 7) [demo_board, demo_board] idle_pcie = (s', as) \<and>
     pcie_idle s' \<and> orderly as {} \<and> ledger as {} = {}"
proof -
  have "portal_count demo_board = 2" unfolding portal_count_def
    by (intro takeWhile_upt_eq) (auto simp: top_reg_def demo_board_def pcie_consts less_2_cases_iff)
  then have "board_good demo_board" using demo_board_magic
    by (simp add: board_good_def demo_board_def MAX_NUM_PORTALS_def list_all_iff)
  moreover have "our_board demo_board"
    by (simp add: our_board_def demo_board_def BLUESPEC_VENDOR_ID_def CONNECTAL_DEVICE_ID_def)
  moreover obtain s' as where "cycles (pcie_up 7) (pcie_down demo_board 7) [demo_board, demo_board] idle_pcie = (s', as)"
    by fastforce
  ultimately show ?thesis
    using pcie_cycles_balanced [of "[demo_board, demo_board]" demo_board idle_pcie 7] idle_pcie_idle by simp
qed

end
