(* ===== verification/Pcie_Files.thy ===== *)
theory Pcie_Files
  imports Pcie_Driver
begin

text \<open>
  The device files of the PCIe driver (\<open>drivers/pcieportal/pcieportal.c\<close>): open, release, poll,
  interrupt, \<open>ioctl\<close> and \<open>mmap\<close>, and the module's own set-up and exit.  The registers in BAR 0
  are those of \<open>bsv/PcieCsr.bsv\<close>; a trace word requested by a write is there when the host
  reads next.
\<close>

section \<open>The control and status registers\<close>





section \<open>Open, release, poll, interrupt\<close>

text \<open>The private data of a file: board and portal.\<close>

type_synonym pcie_file = "nat \<times> nat"

definition the_portal :: "pcie \<Rightarrow> pcie_file \<Rightarrow> tPortal" where
  "the_portal s f = (case f of (b, p) \<Rightarrow> portals (board_map s ! b) ! p)"

definition pcieportal_open :: "nat \<Rightarrow> pcie \<Rightarrow> (int \<times> pcie_file \<times> pcie) result" where
  "pcieportal_open minor s =
     (let b = minor div 16; p = minor mod 16 in
      if b \<ge> length (board_map s) then Inl OutOfBounds
      else case extra (the_portal s (b, p)) of
          None \<Rightarrow> Inl NullDeref
        | Some x \<Rightarrow> Inr (0, (b, p), upd_board b (open_count_update (\<lambda>c. c + 1)) (init_waitqueue_head x s)))"

definition pcieportal_release :: "pcie_file \<Rightarrow> pcie \<Rightarrow> (int \<times> pcie) result" where
  "pcieportal_release f s =
     (case (extra (the_portal s f), portal_board (the_portal s f)) of
        (Some x, Some b) \<Rightarrow> Inr (0, upd_board b (open_count_update (\<lambda>c. c - 1)) (init_waitqueue_head x s))
      | _ \<Rightarrow> Inl NullDeref)"

text \<open>The interrupt wakes everyone registered in the wait queue.\<close>

definition intr_handler :: "pcie_file \<Rightarrow> pcie \<Rightarrow> nat list result" where
  "intr_handler f s =
     (case extra (the_portal s f) of None \<Rightarrow> Inl NullDeref | Some x \<Rightarrow> Inr (wait_queue (extra_portal_info s ! x)))"

definition POLLIN_RDNORM :: u32 where "POLLIN_RDNORM = 0x41"

definition pcieportal_poll :: "(nat \<Rightarrow> u32) \<Rightarrow> nat \<Rightarrow> pcie_file \<Rightarrow> pcie \<Rightarrow> (u32 \<times> pcie) result" where
  "pcieportal_poll bar2 waiter f s =
     (case extra (the_portal s f) of
        None \<Rightarrow> Inl NullDeref
      | Some x \<Rightarrow>
          (let s = s\<lparr>extra_portal_info := (extra_portal_info s)
                       [x := wait_queue_update (\<lambda>q. waiter # q) (extra_portal_info s ! x)]\<rparr>;
               intr_status = (case regs (the_portal s f) of None \<Rightarrow> 0 | Some r \<Rightarrow> bar2 r)
           in Inr (if intr_status \<noteq> 0 then POLLIN_RDNORM else 0, s)))"

section \<open>The ioctl interface\<close>









section \<open>Mapping\<close>

text \<open>
  \<open>portal_mmap\<close>: the first sixteen page offsets map the register window of the portal, the
  others its coherent memory, which is allocated at the first such call.  \<open>resource2\<close> is the
  start of BAR 2 of a device, \<open>alloc\<close> answers with a virtual and a bus address or fails, \<open>remap\<close>
  says whether the kernel could enter the pages.  The result has the range of page frames.
\<close>

definition portal_mmap ::
  "(nat \<Rightarrow> u64) \<Rightarrow> (u64 \<Rightarrow> (u64 \<times> u64) option) \<Rightarrow> bool \<Rightarrow> pcie_file \<Rightarrow> u64 \<Rightarrow> u64 \<Rightarrow> u64 \<Rightarrow> pcie \<Rightarrow>
   (int \<times> (u64 \<times> u64) option \<times> pcie) result" where
  "portal_mmap resource2 alloc remap f vm_start vm_end vm_pgoff s =
     (let p = the_portal s f in
      case portal_board p of
        None \<Rightarrow> Inl NullDeref
      | Some b \<Rightarrow>
        (case pci_dev (board_map s ! b) of
           None \<Rightarrow> Inl NullDeref
         | Some dev \<Rightarrow>
             if vm_pgoff > drop_bit 12 (- 1) then Inr (- EINVAL, None, s)
             else
               rbind (if vm_pgoff < 16
                      then Inr (resource2 dev + of_nat (PORTAL_BASE_OFFSET * portal_number p), s)
                      else case extra p of
                          None \<Rightarrow> Inl NullDeref
                        | Some x \<Rightarrow>
                            (let s = (case virt p of
                                 Some _ \<Rightarrow> s
                               | None \<Rightarrow>
                                   (case alloc (vm_end - vm_start) of
                                      None \<Rightarrow> s
                                    | Some (v, h) \<Rightarrow>
                                        (upd_board (fst f) (upd_portal (snd f) (virt_update (\<lambda>_. Some v))) s)
                                          \<lparr>extra_portal_info := (extra_portal_info s)
                                             [x := (extra_portal_info s ! x)\<lparr>dma_handle := h\<rparr>]\<rparr>))
                             in Inr (dma_handle (extra_portal_info s ! x), s))) (\<lambda>(off, s).
               if remap then Inr (0, Some (signed_drop_bit 12 off, vm_end - vm_start), s)
               else Inr (- EAGAIN, None, s))))"

section \<open>The module\<close>

datatype module_resource = Class_of | Chrdev_region | Pci_driver

text \<open>
  \<open>pcieportal_init\<close>: \<open>class_err\<close> is the error of \<open>class_create\<close> if it fails, \<open>region_ok\<close> whether
  device numbers were granted, \<open>status\<close> what registering the driver returns.
\<close>

definition pcieportal_init :: "int option \<Rightarrow> bool \<Rightarrow> int \<Rightarrow> pcie \<Rightarrow> int \<times> module_resource action list \<times> pcie" where
  "pcieportal_init class_err region_ok status s =
     (case class_err of
        Some err \<Rightarrow> (err, [], s)
      | None \<Rightarrow>
          if \<not> region_ok then (- 1, [Get Class_of, Put Class_of], s)
          else
            (let s = s\<lparr>board_map := replicate (NUM_BOARDS + 1) (zero_board\<lparr>portals := replicate MAX_NUM_PORTALS zero_portal\<rparr>)\<rparr> in
             if status < 0 then (status, [Get Class_of, Get Chrdev_region, Put Class_of], s)
             else (0, [Get Class_of, Get Chrdev_region, Get Pci_driver], s)))"

definition pcieportal_exit :: "module_resource action list" where
  "pcieportal_exit = [Put Pci_driver, Put Chrdev_region, Put Class_of]"

definition get_pcie_portal_descriptor :: "pcie \<Rightarrow> tBoard" where
  "get_pcie_portal_descriptor s = board_map s ! 0"

section \<open>Properties\<close>









text \<open>A mapping of the register window of a portal.\<close>

lemma mmap_window:
  assumes "portal_mmap R A remap f vs ve pg s = Inr (0, Some (pfn, bytes), s')" and "pg < 16"
    and "portal_board (the_portal s f) = Some b" and "pci_dev (board_map s ! b) = Some dev"
    and "portal_number (the_portal s f) < MAX_NUM_PORTALS" and "unat (R dev) + 2 ^ 20 \<le> 2 ^ 63"
  shows "unat pfn = (unat (R dev) + PORTAL_BASE_OFFSET * portal_number (the_portal s f)) div 4096 \<and> bytes = ve - vs"
proof -
  let ?k = "PORTAL_BASE_OFFSET * portal_number (the_portal s f)"
  let ?n = "unat (R dev) + ?k"
  have n: "?n < 2 ^ 63" using assms(5,6) by (simp add: pcie_consts)
  have "R dev + of_nat ?k = of_nat ?n" by simp
  moreover have "unat (of_nat (?n div 2 ^ 12) :: u64) = ?n div 4096" using n by (subst unat_of_nat_small) simp_all
  ultimately have "unat (signed_drop_bit 12 (R dev + of_nat ?k)) = ?n div 4096"
    using signed_drop_bit_of_nat [OF n, of 12] by simp
  then show ?thesis using assms(1-4) by (auto simp: portal_mmap_def Let_def split: if_splits)
qed

text \<open>
  C25: register windows do not overlap.  Two portals of a board, mapped with windows of at most
  64 KB, get disjoint ranges of physical memory.
\<close>

theorem portal_windows_disjoint:
  assumes "portal_mmap R A True f vs ve pg s = Inr (0, Some (pfn, bytes), s1)"
    and "portal_mmap R A True g vs' ve' pg' s = Inr (0, Some (pfn', bytes'), s2)"
    and "pg < 16" and "pg' < 16"
    and "portal_board (the_portal s f) = Some b" and "portal_board (the_portal s g) = Some b"
    and "pci_dev (board_map s ! b) = Some dev" and "unat (R dev) + 2 ^ 20 \<le> 2 ^ 63"
    and "portal_number (the_portal s f) < portal_number (the_portal s g)"
    and "portal_number (the_portal s g) < MAX_NUM_PORTALS" and "bytes \<le> 0x10000"
  shows "unat pfn * 4096 + unat bytes \<le> unat pfn' * 4096"
proof -
  let ?i = "portal_number (the_portal s f)" and ?j = "portal_number (the_portal s g)" and ?r = "unat (R dev)"
  have pf: "unat pfn = (?r + PORTAL_BASE_OFFSET * ?i) div 4096" "unat pfn' = (?r + PORTAL_BASE_OFFSET * ?j) div 4096"
    using mmap_window [OF assms(1,3,5,7)] mmap_window [OF assms(2,4,6,7)] assms(8-10) by simp_all
  have "unat bytes \<le> 65536" using assms(11) by (simp add: word_le_nat_alt)
  moreover have "(?r + 65536 * ?i) div 4096 = ?r div 4096 + 16 * ?i" "(?r + 65536 * ?j) div 4096 = ?r div 4096 + 16 * ?j"
    by (simp_all add: div_add1_eq)
  ultimately show ?thesis using assms(9) by (simp add: pf PORTAL_BASE_OFFSET_def)
qed

text \<open>A board that has been activated: portals 0 and 1 of device 7.\<close>

definition demo_active :: pcie where
  "demo_active = idle_pcie\<lparr>board_map :=
     [zero_board\<lparr>pci_dev := Some 7, num_portals := 2,
        portals := map (\<lambda>i. zero_portal\<lparr>portal_number := i, portal_board := Some 0, extra := Some i\<rparr>) [0..<16]\<rparr>, zero_board]\<rparr>"

theorem portal_windows_disjoint_witness:
  "\<exists>pfn pfn' s1 s2. portal_mmap (\<lambda>_. 0xd0000000) (\<lambda>_. None) True (0, 0) 0x1000 0x11000 0 demo_active = Inr (0, Some (pfn, 0x10000), s1) \<and>
     portal_mmap (\<lambda>_. 0xd0000000) (\<lambda>_. None) True (0, 1) 0x1000 0x2000 0 demo_active = Inr (0, Some (pfn', 0x1000), s2) \<and>
     unat pfn * 4096 + unat (0x10000 :: u64) \<le> unat pfn' * 4096"
proof -
  let ?R = "\<lambda>_ :: nat. 0xd0000000 :: u64"
  have p: "the_portal demo_active (0, i) = zero_portal\<lparr>portal_number := i, portal_board := Some 0, extra := Some i\<rparr>" if "i < 16" for i
    using that by (simp add: the_portal_def demo_active_def)
  have d: "pci_dev (board_map demo_active ! 0) = Some 7" by (simp add: demo_active_def)
  obtain pfn pfn' s1 s2 where
    m: "portal_mmap ?R (\<lambda>_. None) True (0, 0) 0x1000 0x11000 0 demo_active = Inr (0, Some (pfn, 0x10000), s1)"
      "portal_mmap ?R (\<lambda>_. None) True (0, 1) 0x1000 0x2000 0 demo_active = Inr (0, Some (pfn', 0x1000), s2)"
    using p [of 0] p [of 1] d by (simp add: portal_mmap_def Let_def)
  have "unat pfn * 4096 + unat (0x10000 :: u64) \<le> unat pfn' * 4096"
    by (rule portal_windows_disjoint [OF m]) (use p [of 0] p [of 1] d in \<open>simp_all add: MAX_NUM_PORTALS_def\<close>)
  with m show ?thesis by blast
qed

subsection \<open>Behaviour on the edges\<close>

text \<open>
  Opening a portal a second time re-initialises its wait queue: a process that polls through
  the first file is no longer woken by interrupts.
\<close>

lemma open_drops_waiters:
  assumes "pcieportal_poll bar2 waiter f s = Inr (bits, s1)" and "f = (minor div 16, minor mod 16)"
    and "pcieportal_open minor s1 = Inr (0, g, s2)" and "extra (the_portal s f) = Some x" and "x < length (extra_portal_info s)"
    and "minor mod 16 < length (portals (board_map s ! (minor div 16)))"
  shows "intr_handler f s1 = Inr (waiter # wait_queue (extra_portal_info s ! x)) \<and> intr_handler f s2 = Inr []"
proof -
  let ?s1 = "s\<lparr>extra_portal_info := (extra_portal_info s)
     [x := wait_queue_update (\<lambda>q. waiter # q) (extra_portal_info s ! x)]\<rparr>"
  have s1: "s1 = ?s1" using assms(1,4) by (auto simp: pcieportal_poll_def Let_def)
  then have x: "extra (the_portal s1 f) = Some x" using assms(4) by (simp add: the_portal_def case_prod_unfold)
  have s2: "s2 = upd_board (minor div 16) (open_count_update (\<lambda>c. c + 1)) (init_waitqueue_head x s1)"
    "minor div 16 < length (board_map s1)"
    using assms(2,3) x by (auto simp: pcieportal_open_def Let_def split: if_splits)
  have "the_portal s2 f = the_portal s1 f"
    using s2 assms(2) by (simp add: the_portal_def init_waitqueue_head_def upd_board_def)
  then show ?thesis using x assms(5) s1 s2(1) by (simp add: intr_handler_def init_waitqueue_head_def)
qed

text \<open>The module balances on success; a refused registration keeps the device numbers.\<close>

lemma pcie_module_balance:
  assumes "pcieportal_init class_err region_ok status s = (rc, as, s')" and "\<forall>e. class_err = Some e \<longrightarrow> e < 0"
  shows "if rc = 0 then orderly (as @ pcieportal_exit) {} \<and> ledger (as @ pcieportal_exit) {} = {}
    else ledger as {} = (if class_err = None \<and> region_ok then {Chrdev_region} else {})"
  using assms by (auto simp: pcieportal_init_def pcieportal_exit_def Let_def split: option.splits if_splits)

end
