(* ===== verification/Zynq_Driver.thy ===== *)
theory Zynq_Driver
  imports Send_Fd Resource_Ledger
begin

text \<open>
  The Zynq driver (\<open>drivers/zynqportal/zynqportal.c\<close>): the platform device that, when opened,
  looks for the portals of the loaded design and creates a device for each, and the file
  operations of those devices.  The kernel's allocations of portal arrays are kept in an
  explicit heap, so that an access to an array that was freed is an error of the model.
  Addresses of registers are physical addresses; \<open>ioremap\<close> makes a pointer that stands for one.
\<close>

section \<open>State\<close>

definition Z_MAX_NUM_PORTALS :: nat where "Z_MAX_NUM_PORTALS = 16"
definition Z_PORTAL_BASE_OFFSET :: u32 where "Z_PORTAL_BASE_OFFSET = 0x10000"
definition IID_OFFSET :: u32 where "IID_OFFSET = 0x010"
definition TOP_OFFSET :: u32 where "TOP_OFFSET = 0x014"

record portal_data =
  z_wait_queue :: "nat list"
  dev_base_phys :: u32
  interrupt_virt :: "u32 option"
  mask_virt :: "u32 option"
  z_map_base :: "u32 option"
  portal_irq :: u32
  irq_is_registered :: bool
  z_top :: u32
  z_name :: string

definition zero_data :: portal_data where
  "zero_data = \<lparr>z_wait_queue = [], dev_base_phys = 0, interrupt_virt = None, mask_virt = None, z_map_base = None,
     portal_irq = 0, irq_is_registered = False, z_top = 0, z_name = []\<rparr>"

text \<open>
  The arrays of portals by number (\<open>z_heap\<close>; \<open>None\<close> for one that was freed or never allocated),
  the array of the platform device (\<open>z_portal_data\<close>), the arguments of the queued work, and the
  other statics.
\<close>

record zynq =
  z_heap :: "nat \<Rightarrow> portal_data list option"
  z_next :: nat
  z_portal_data :: "nat option"
  ws_reg_start :: u32
  ws_irq_start :: u32
  ws_drvdata :: "nat option"
  wq_made :: bool
  work_queued :: bool
  directory_virt :: "nat option"
  inttime :: "u32 \<times> u32"

text \<open>
  What the driver asks of hardware and kernel: a register, a word of kernel memory (array and
  byte offset), and whether an allocation, a mapping or an interrupt is granted.
\<close>

record z_env =
  z_hw :: "u32 \<Rightarrow> u32"
  z_kmem :: "nat \<Rightarrow> nat \<Rightarrow> u32"
  z_kzalloc :: bool
  z_ioremap :: "u32 \<Rightarrow> bool"
  z_request_irq :: "u32 \<Rightarrow> bool"
  z_resources :: "(u32 \<times> u32) option"
  z_workqueue :: bool
  z_copy_from :: bool
  z_copy_to :: bool
  z_clk :: "string \<Rightarrow> ((u32 \<Rightarrow> u32) \<times> (u32 \<Rightarrow> int)) option"

text \<open>A portal of an array, and its mappings.\<close>

type_synonym zfile = "nat \<times> nat"

datatype z_map_kind = Probe_page | Status_reg | Mask_reg | Window

datatype z_resource =
  Array_of nat | Misc_of zfile | Irq_of zfile | Map_of zfile z_map_kind | Work_queue | Bridge_misc | Bridge_alloc

definition z_get :: "zynq \<Rightarrow> zfile \<Rightarrow> portal_data result" where
  "z_get s f =
     (case z_heap s (fst f) of
        None \<Rightarrow> Inl UseAfterFree
      | Some ps \<Rightarrow> if snd f < length ps then Inr (ps ! snd f) else Inl OutOfBounds)"

definition z_put :: "zfile \<Rightarrow> portal_data \<Rightarrow> zynq \<Rightarrow> zynq" where
  "z_put f p s =
     s\<lparr>z_heap := (z_heap s)(fst f := map_option (\<lambda>ps. ps[snd f := p]) (z_heap s (fst f)))\<rparr>"



section \<open>File operations of a portal\<close>


definition portal_open :: "zfile \<Rightarrow> zynq \<Rightarrow> (int \<times> zynq) result" where
  "portal_open f s = rbind (z_get s f) (\<lambda>p. Inr (0, z_put f (p\<lparr>z_wait_queue := []\<rparr>) s))"

definition z_portal_mmap :: "bool \<Rightarrow> zfile \<Rightarrow> u32 \<Rightarrow> u32 \<Rightarrow> u32 \<Rightarrow> zynq \<Rightarrow> (int \<times> (u32 \<times> u32) option) result" where
  "z_portal_mmap remap f vm_start vm_end vm_pgoff s =
     rbind (z_get s f) (\<lambda>p.
       if vm_pgoff > drop_bit 12 (- 1) then Inr (- EINVAL, None)
       else if remap then Inr (0, Some (drop_bit 12 (dev_base_phys p), vm_end - vm_start))
       else Inr (- EAGAIN, None))"


definition portal_release :: "zfile \<Rightarrow> zynq \<Rightarrow> (int \<times> (u32 \<times> u32) list \<times> zynq \<times> z_resource action list) result" where
  "portal_release f s =
     rbind (z_get s f) (\<lambda>p.
     rbind (if irq_is_registered p
            then (case interrupt_virt p of None \<Rightarrow> Inl NullDeref | Some a \<Rightarrow> Inr ([(a, 0)], [Put (Irq_of f)]))
            else Inr ([], [])) (\<lambda>(ws, as).
       Inr (0, ws, z_put f (p\<lparr>irq_is_registered := False, z_wait_queue := []\<rparr>) s, as)))"

section \<open>The ioctl interface of a portal\<close>







definition flush_ranges :: "sg_entry list \<Rightarrow> (nat \<times> nat) list" where
  "flush_ranges ss = map (\<lambda>g. (sg_phys g, sg_phys g + sg_length g)) ss"


section \<open>The platform device\<close>

text \<open>
  \<open>remove_portal_devices\<close>: the loop stops behind the portal marked as the last, or after
  sixteen.  \<open>n\<close> is the number of rounds left.
\<close>

fun remove_loop :: "nat \<Rightarrow> portal_data list \<Rightarrow> nat \<Rightarrow> nat \<Rightarrow> z_resource action list" where
  "remove_loop a ps fpn 0 = []"
| "remove_loop a ps fpn (Suc n) =
     (let p = ps ! fpn in
      (if irq_is_registered p then [Put (Irq_of (a, fpn))] else []) @ [Put (Misc_of (a, fpn))] @
      (if z_top p \<noteq> 0 then [] else remove_loop a ps (fpn + 1) n))"

definition remove_portal_devices :: "nat \<Rightarrow> zynq \<Rightarrow> (zynq \<times> z_resource action list) result" where
  "remove_portal_devices a s =
     (case z_heap s a of
        None \<Rightarrow> Inl UseAfterFree
      | Some ps \<Rightarrow> Inr (s\<lparr>z_heap := (z_heap s)(a := None)\<rparr>,
                        remove_loop a ps 0 Z_MAX_NUM_PORTALS @ [Put (Array_of a)]))"

text \<open>\<open>connectal_work_handler\<close>: one device per portal, until one says it is the last.\<close>

definition new_data :: "u32 \<Rightarrow> u32 \<Rightarrow> u32 \<Rightarrow> u32 \<Rightarrow> portal_data \<Rightarrow> portal_data" where
  "new_data bar irq iid is_top p =
     p\<lparr>z_name := ''portal'' @ show_int (sint iid), dev_base_phys := bar, portal_irq := irq, z_top := is_top\<rparr>"

fun work_loop :: "z_env \<Rightarrow> u32 \<Rightarrow> u32 \<Rightarrow> nat \<Rightarrow> nat \<Rightarrow> nat \<Rightarrow> portal_data list \<Rightarrow>
    (portal_data list \<times> z_resource action list) result" where
  "work_loop E reg irq a fpn 0 ps = Inr (ps, [])"
| "work_loop E reg irq a fpn (Suc n) ps =
     (let bar = reg + of_nat fpn * Z_PORTAL_BASE_OFFSET in
      if \<not> z_ioremap E bar then Inl NullDeref
      else
        (let iid = z_hw E (bar + IID_OFFSET); is_top = z_hw E (bar + TOP_OFFSET);
             ps = ps[fpn := new_data bar irq iid is_top (ps ! fpn)];
             as = [Get (Map_of (a, fpn) Probe_page), Get (Misc_of (a, fpn))]
         in if is_top \<noteq> 0 then Inr (ps, as)
            else rbind (work_loop E reg irq a (fpn + 1) n ps) (\<lambda>(ps, bs). Inr (ps, as @ bs))))"

definition connectal_work_handler :: "z_env \<Rightarrow> zynq \<Rightarrow> (zynq \<times> z_resource action list) result" where
  "connectal_work_handler E s =
     (case ws_drvdata s of
        None \<Rightarrow> Inl NullDeref
      | Some a \<Rightarrow>
          (case z_heap s a of
             None \<Rightarrow> Inl UseAfterFree
           | Some ps \<Rightarrow>
               rbind (work_loop E (ws_reg_start s) (ws_irq_start s) a 0 Z_MAX_NUM_PORTALS ps) (\<lambda>(ps, as).
                 Inr (s\<lparr>z_heap := (z_heap s)(a := Some ps), work_queued := False\<rparr>, as))))"

text \<open>
  \<open>connectal_open\<close>: throw away the portals of the last design, allocate a new array and queue
  the work that fills it.
\<close>

definition connectal_open :: "z_env \<Rightarrow> zynq \<Rightarrow> (int \<times> zynq \<times> z_resource action list) result" where
  "connectal_open E s =
     rbind (case z_portal_data s of None \<Rightarrow> Inr (s, []) | Some a \<Rightarrow> remove_portal_devices a s) (\<lambda>(s, as).
     let drvdata = (if z_kzalloc E then Some (z_next s) else None);
         s = (case drvdata of
                None \<Rightarrow> s
              | Some a \<Rightarrow> s\<lparr>z_heap := (z_heap s)(a \<mapsto> replicate Z_MAX_NUM_PORTALS zero_data), z_next := a + 1\<rparr>);
         as = as @ (case drvdata of None \<Rightarrow> [] | Some a \<Rightarrow> [Get (Array_of a)])
     in case z_resources E of
          None \<Rightarrow> Inr (- ENODEV, s, as)
        | Some (reg, irq) \<Rightarrow>
            (let made = wq_made s \<or> z_workqueue E in
             Inr (0, s\<lparr>ws_reg_start := reg, ws_irq_start := irq, ws_drvdata := drvdata, wq_made := made,
                      work_queued := (work_queued s \<or> made), z_portal_data := drvdata, directory_virt := drvdata\<rparr>,
                  as @ (if made \<and> \<not> wq_made s then [Get Work_queue] else []))))"

definition connectal_of_probe :: "bool \<Rightarrow> zynq \<Rightarrow> int \<times> zynq \<times> z_resource action list" where
  "connectal_of_probe has_name s =
     (if \<not> has_name then (- EINVAL, s, [])
      else (0, s\<lparr>z_portal_data := None\<rparr>, [Get Bridge_alloc, Get Bridge_misc]))"

definition connectal_of_remove :: "zynq \<Rightarrow> (int \<times> zynq \<times> z_resource action list) result" where
  "connectal_of_remove s =
     rbind (case z_portal_data s of None \<Rightarrow> Inr (s, []) | Some a \<Rightarrow> remove_portal_devices a s) (\<lambda>(s, as).
       Inr (0, if wq_made s then s\<lparr>work_queued := False\<rparr> else s,
            as @ [Put Bridge_misc, Put Bridge_alloc] @ (if wq_made s then [Put Work_queue] else [])))"

definition connectal_of_init :: "bool \<Rightarrow> int" where
  "connectal_of_init registered = (if registered then 0 else - ENODEV)"

section \<open>Finding the portals\<close>

definition bar_of :: "u32 \<Rightarrow> nat \<Rightarrow> u32" where
  "bar_of reg fpn = reg + of_nat fpn * Z_PORTAL_BASE_OFFSET"

definition last_portal :: "z_env \<Rightarrow> u32 \<Rightarrow> nat \<Rightarrow> bool" where
  "last_portal E reg fpn \<longleftrightarrow> z_hw E (bar_of reg fpn + TOP_OFFSET) \<noteq> 0"

text \<open>The portals from \<open>fpn\<close> on: up to the last one, at most \<open>n\<close>.\<close>

definition found :: "z_env \<Rightarrow> u32 \<Rightarrow> nat \<Rightarrow> nat \<Rightarrow> nat" where
  "found E reg fpn n = min n (Suc (length (takeWhile (\<lambda>i. \<not> last_portal E reg i) [fpn..<fpn + n])))"

definition filled :: "z_env \<Rightarrow> u32 \<Rightarrow> u32 \<Rightarrow> nat \<Rightarrow> portal_data \<Rightarrow> portal_data" where
  "filled E reg irq i p =
     new_data (bar_of reg i) irq (z_hw E (bar_of reg i + IID_OFFSET)) (z_hw E (bar_of reg i + TOP_OFFSET)) p"

lemma found_simps [simp]:
  "found E reg fpn 0 = 0"
  "found E reg fpn (Suc n) = (if last_portal E reg fpn then 1 else Suc (found E reg (fpn + 1) n))"
  by (simp_all add: found_def upt_conv_Cons)

lemma work_loop_spec:
  assumes "\<forall>a. z_ioremap E a" and "fpn + n \<le> length ps"
  shows "\<exists>ps'. work_loop E reg irq a fpn n ps =
      Inr (ps', concat (map (\<lambda>i. [Get (Map_of (a, i) Probe_page), Get (Misc_of (a, i))]) [fpn..<fpn + found E reg fpn n])) \<and>
    length ps' = length ps \<and>
    (\<forall>i < length ps. ps' ! i = (if fpn \<le> i \<and> i < fpn + found E reg fpn n then filled E reg irq i (ps ! i) else ps ! i))"
  using assms(2)
proof (induction n arbitrary: fpn ps)
  case (Suc n)
  let ?p = "filled E reg irq fpn (ps ! fpn)"
  let ?ps = "ps[fpn := ?p]"
  have len: "fpn < length ps" "fpn + 1 + n \<le> length ?ps" using Suc.prems by simp_all
  note step = work_loop.simps(2) [of E reg irq a fpn n ps, folded bar_of_def, unfolded Let_def]
  show ?case
  proof (cases "last_portal E reg fpn")
    case True
    then show ?thesis using step assms(1) len(1)
      by (auto simp: last_portal_def filled_def upt_conv_Cons nth_list_update intro!: exI [of _ ?ps])
  next
    case False
    from Suc.IH [OF len(2)] obtain ps' where ps':
      "work_loop E reg irq a (fpn + 1) n ?ps = Inr (ps',
        concat (map (\<lambda>i. [Get (Map_of (a, i) Probe_page), Get (Misc_of (a, i))]) [fpn + 1..<fpn + 1 + found E reg (fpn + 1) n]))"
      "length ps' = length ?ps"
      "\<forall>i < length ?ps. ps' ! i = (if fpn + 1 \<le> i \<and> i < fpn + 1 + found E reg (fpn + 1) n then filled E reg irq i (?ps ! i) else ?ps ! i)"
      by blast
    have "work_loop E reg irq a fpn (Suc n) ps = Inr (ps',
        concat (map (\<lambda>i. [Get (Map_of (a, i) Probe_page), Get (Misc_of (a, i))]) [fpn..<fpn + found E reg fpn (Suc n)]))"
      using step assms(1) False ps'(1) by (simp add: last_portal_def filled_def upt_conv_Cons)
    moreover have "ps' ! i = (if fpn \<le> i \<and> i < fpn + found E reg fpn (Suc n) then filled E reg irq i (ps ! i) else ps ! i)"
      if "i < length ps" for i
      using ps'(3) that False len(1) by (auto simp: nth_list_update)
    ultimately show ?thesis using ps'(2) by auto
  qed
qed auto

lemma remove_loop_spec:
  assumes "\<forall>i. fpn \<le> i \<and> i < fpn + n \<longrightarrow> \<not> irq_is_registered (ps ! i) \<and> (i < fpn + found E reg fpn n \<longrightarrow> (z_top (ps ! i) \<noteq> 0) = last_portal E reg i)"
  shows "remove_loop a ps fpn n = map Put (map (\<lambda>i. Misc_of (a, i)) [fpn..<fpn + found E reg fpn n])"
  using assms
proof (induction n arbitrary: fpn)
  case (Suc n)
  have p: "\<not> irq_is_registered (ps ! fpn)" "(z_top (ps ! fpn) \<noteq> 0) = last_portal E reg fpn"
    using Suc.prems [rule_format, of fpn] by (simp_all split: if_splits)
  show ?case
  proof (cases "last_portal E reg fpn")
    case False
    have "remove_loop a ps (fpn + 1) n = map Put (map (\<lambda>i. Misc_of (a, i)) [fpn + 1..<fpn + 1 + found E reg (fpn + 1) n])"
      using Suc.prems False by (intro Suc.IH) auto
    with p False show ?thesis by (simp add: upt_conv_Cons)
  qed (use p in \<open>simp add: upt_conv_Cons\<close>)
qed simp

lemma found_ledger:
  "ledger (concat (map (\<lambda>i. [Get (Map_of (a, i) k), Get (Misc_of (a, i))]) xs)) R =
   R \<union> (\<lambda>i. Map_of (a, i) k) ` set xs \<union> (\<lambda>i. Misc_of (a, i)) ` set xs"
  by (induction xs arbitrary: R) auto

lemma found_orderly:
  "distinct xs \<Longrightarrow> (\<forall>i \<in> set xs. Map_of (a, i) k \<notin> R \<and> Misc_of (a, i) \<notin> R) \<Longrightarrow>
   orderly (concat (map (\<lambda>i. [Get (Map_of (a, i) k), Get (Misc_of (a, i))]) xs)) R"
proof (induction xs arbitrary: R)
  case (Cons x xs)
  from Cons.IH [of "insert (Misc_of (a, x)) (insert (Map_of (a, x) k) R)"] Cons.prems show ?case by auto
qed simp

section \<open>Properties\<close>

text \<open>
  C7: opening the bridge finds the portals of the design, and removing it takes them away.  The
  work that an open queues creates one device for each portal up to the one marked as the last
  (at most sixteen), named after its interface number and placed 64 KB behind its predecessor.
  Removing the bridge afterwards releases the devices, the array and the work queue, each
  exactly once; what stays behind is the page of registers mapped for each portal.
\<close>

theorem zynq_open_remove:
  assumes E: "z_kzalloc E" "z_resources E = Some (reg, irq)" "z_workqueue E" "\<forall>a. z_ioremap E a"
    and s: "z_portal_data s = None" "\<not> wq_made s"
  shows "\<exists>s1 s2 s3 as bs cs. connectal_open E s = Inr (0, s1, as) \<and>
    connectal_work_handler E s1 = Inr (s2, bs) \<and>
    (\<forall>i < found E reg 0 16. \<exists>p. z_get s2 (z_next s, i) = Inr p \<and> dev_base_phys p = reg + of_nat i * 0x10000 \<and>
       portal_irq p = irq \<and> z_name p = ''portal'' @ show_int (sint (z_hw E (dev_base_phys p + 0x10)))) \<and>
    connectal_of_remove s2 = Inr (0, s3, cs) \<and> z_heap s3 (z_next s) = None \<and>
    orderly (as @ bs @ cs) {Bridge_alloc, Bridge_misc} \<and>
    ledger (as @ bs @ cs) {Bridge_alloc, Bridge_misc} = (\<lambda>i. Map_of (z_next s, i) Probe_page) ` {0..<found E reg 0 16}"
proof -
  let ?a = "z_next s" and ?N = "found E reg 0 16"
  let ?ps = "replicate Z_MAX_NUM_PORTALS zero_data"
  let ?s1 = "s\<lparr>z_heap := (z_heap s)(?a \<mapsto> ?ps), z_next := ?a + 1, ws_reg_start := reg, ws_irq_start := irq,
     ws_drvdata := Some ?a, wq_made := True, work_queued := True, z_portal_data := Some ?a, directory_virt := Some ?a\<rparr>"
  have op: "connectal_open E s = Inr (0, ?s1, [Get (Array_of ?a), Get Work_queue])"
    using E s by (simp add: connectal_open_def Let_def)
  have N: "?N \<le> 16" by (simp add: found_def)
  obtain ps' where ps': "work_loop E reg irq ?a 0 16 ?ps =
      Inr (ps', concat (map (\<lambda>i. [Get (Map_of (?a, i) Probe_page), Get (Misc_of (?a, i))]) [0..<?N]))"
      "length ps' = 16" "\<forall>i < 16. ps' ! i = (if i < ?N then filled E reg irq i zero_data else zero_data)"
    using work_loop_spec [OF E(4), of 0 16 ?ps reg irq ?a] by (auto simp: Z_MAX_NUM_PORTALS_def)
  let ?s2 = "?s1\<lparr>z_heap := (z_heap s)(?a \<mapsto> ps'), work_queued := False\<rparr>"
  let ?bs = "concat (map (\<lambda>i. [Get (Map_of (?a, i) Probe_page), Get (Misc_of (?a, i))]) [0..<?N])"
  have work: "connectal_work_handler E ?s1 = Inr (?s2, ?bs)"
    using ps'(1) by (simp add: connectal_work_handler_def Z_MAX_NUM_PORTALS_def)
  have get: "z_get ?s2 (?a, i) = Inr (filled E reg irq i zero_data)" if "i < ?N" for i
    using that N ps'(2,3) by (simp add: z_get_def)
  have data: "dev_base_phys (filled E reg irq i zero_data) = reg + of_nat i * 0x10000"
    "portal_irq (filled E reg irq i zero_data) = irq"
    "z_name (filled E reg irq i zero_data) = ''portal'' @ show_int (sint (z_hw E (reg + of_nat i * 0x10000 + 0x10)))" for i
    by (simp_all add: filled_def new_data_def bar_of_def Z_PORTAL_BASE_OFFSET_def IID_OFFSET_def)
  have rem: "remove_loop ?a ps' 0 16 = map Put (map (\<lambda>i. Misc_of (?a, i)) [0..<?N])"
    using remove_loop_spec [of 0 16 ps' E reg ?a] ps'(3)
    by (auto simp: filled_def new_data_def zero_data_def last_portal_def)
  let ?cs = "map Put (map (\<lambda>i. Misc_of (?a, i)) [0..<?N]) @ [Put (Array_of ?a), Put Bridge_misc, Put Bridge_alloc, Put Work_queue]"
  obtain s3 where remove: "connectal_of_remove ?s2 = Inr (0, s3, ?cs)" "z_heap s3 ?a = None"
    using rem by (simp add: connectal_of_remove_def remove_portal_devices_def Z_MAX_NUM_PORTALS_def)
  have all: "orderly ([Get (Array_of ?a), Get Work_queue] @ ?bs @ ?cs) {Bridge_alloc, Bridge_misc}"
    "ledger ([Get (Array_of ?a), Get Work_queue] @ ?bs @ ?cs) {Bridge_alloc, Bridge_misc} =
     (\<lambda>i. Map_of (?a, i) Probe_page) ` {0..<?N}"
    using found_orderly [of "[0..<?N]" ?a Probe_page "{Work_queue, Array_of ?a, Bridge_alloc, Bridge_misc}"]
    unfolding ledger_append orderly_append ledger_puts orderly_puts
    by (auto simp: found_ledger distinct_map inj_on_def)
  have "\<forall>i < ?N. \<exists>p. z_get ?s2 (?a, i) = Inr p \<and> dev_base_phys p = reg + of_nat i * 0x10000 \<and>
       portal_irq p = irq \<and> z_name p = ''portal'' @ show_int (sint (z_hw E (dev_base_phys p + 0x10)))"
    using get data by auto
  with op work remove all show ?thesis by blast
qed

text \<open>A design with two portals, the second one the last; interface numbers 5 and 6.\<close>

definition demo_zynq_env :: z_env where
  "demo_zynq_env =
     \<lparr>z_hw = (\<lambda>a. if a = 0x43c10014 then 1 else if a = 0x43c00010 then 5 else if a = 0x43c10010 then 6
                   else if a = 0x43c00000 then 1 else 0),
      z_kmem = (\<lambda>a n. of_nat n), z_kzalloc = True, z_ioremap = (\<lambda>_. True), z_request_irq = (\<lambda>_. True),
      z_resources = Some (0x43c00000, 61), z_workqueue = True, z_copy_from = True, z_copy_to = True, z_clk = (\<lambda>_. None)\<rparr>"

definition fresh_zynq :: zynq where
  "fresh_zynq =
     \<lparr>z_heap = Map.empty, z_next = 0, z_portal_data = None, ws_reg_start = 0, ws_irq_start = 0, ws_drvdata = None,
      wq_made = False, work_queued = False, directory_virt = None, inttime = (0, 0)\<rparr>"

lemma demo_found: "found demo_zynq_env 0x43c00000 0 16 = 2"
proof -
  have "length (takeWhile (\<lambda>i. \<not> last_portal demo_zynq_env 0x43c00000 i) [0..<16]) = 1"
    by (rule takeWhile_upt_eq)
       (simp_all add: last_portal_def bar_of_def demo_zynq_env_def Z_PORTAL_BASE_OFFSET_def TOP_OFFSET_def)
  then show ?thesis by (simp add: found_def)
qed

theorem zynq_open_remove_witness:
  "\<exists>s1 s2 s3 as bs cs p. connectal_open demo_zynq_env fresh_zynq = Inr (0, s1, as) \<and>
     connectal_work_handler demo_zynq_env s1 = Inr (s2, bs) \<and>
     z_get s2 (0, 1) = Inr p \<and> dev_base_phys p = 0x43c10000 \<and> z_name p = ''portal6'' \<and>
     connectal_of_remove s2 = Inr (0, s3, cs) \<and>
     ledger (as @ bs @ cs) {Bridge_alloc, Bridge_misc} = {Map_of (0, 0) Probe_page, Map_of (0, 1) Probe_page}"
proof -
  let ?E = demo_zynq_env
  obtain s1 s2 s3 as bs cs where
    r: "connectal_open ?E fresh_zynq = Inr (0, s1, as)" "connectal_work_handler ?E s1 = Inr (s2, bs)"
      "\<forall>i < found ?E 0x43c00000 0 16. \<exists>p. z_get s2 (0, i) = Inr p \<and> dev_base_phys p = 0x43c00000 + of_nat i * 0x10000 \<and>
         portal_irq p = 61 \<and> z_name p = ''portal'' @ show_int (sint (z_hw ?E (dev_base_phys p + 0x10)))"
      "connectal_of_remove s2 = Inr (0, s3, cs)"
      "ledger (as @ bs @ cs) {Bridge_alloc, Bridge_misc} = (\<lambda>i. Map_of (0, i) Probe_page) ` {0..<found ?E 0x43c00000 0 16}"
    using zynq_open_remove [of ?E "0x43c00000" 61 fresh_zynq] by (auto simp: demo_zynq_env_def fresh_zynq_def)
  from r(3) [rule_format, of 1] obtain p where p: "z_get s2 (0, 1) = Inr p" "dev_base_phys p = 0x43c10000"
    "z_name p = ''portal'' @ show_int (sint (z_hw ?E (dev_base_phys p + 0x10)))"
    by (auto simp: demo_found)
  have "z_hw ?E 0x43c10010 = 6" by (simp add: demo_zynq_env_def)
  then have "z_name p = ''portal6''" using p(2,3) by (simp add: show_int_def digits.simps char_of_def bit_0)
  moreover have "{0..<2 :: nat} = {0, 1}" by auto
  ultimately show ?thesis using r p demo_found by auto
qed



definition demo_zynq :: zynq where
  "demo_zynq = fresh_zynq\<lparr>z_heap := [0 \<mapsto> replicate 16 (zero_data\<lparr>dev_base_phys := 0x43c00000\<rparr>)], z_next := 1,
     z_portal_data := Some 0, directory_virt := Some 0\<rparr>"


text \<open>
  C39: a failed open of the bridge poisons it.  When portals exist and an open cannot get its
  resources, the array of portals has been freed but is still recorded; the next open (or the
  removal of the bridge) uses it again.
\<close>

theorem zynq_failed_open_dangles:
  assumes "connectal_open E s = Inr (rc, s1, as)" and "rc \<noteq> 0" and "z_portal_data s = Some a" and "a < z_next s"
  shows "connectal_open E' s1 = Inl UseAfterFree \<and> connectal_of_remove s1 = Inl UseAfterFree"
proof -
  obtain s0 bs where rm: "remove_portal_devices a s = Inr (s0, bs)"
    using assms(1,3) by (cases "remove_portal_devices a s") (auto simp: connectal_open_def)
  then have s0: "z_heap s0 a = None" "z_next s0 = z_next s" "z_portal_data s0 = Some a"
    using assms(3) by (auto simp: remove_portal_devices_def split: option.splits)
  have "z_heap s1 a = None \<and> z_portal_data s1 = Some a"
    using assms rm s0 by (auto simp: connectal_open_def Let_def split: option.splits if_splits)
  then show ?thesis by (simp add: connectal_open_def connectal_of_remove_def remove_portal_devices_def)
qed

theorem zynq_failed_open_dangles_witness:
  "\<exists>s1 as. connectal_open (demo_zynq_env\<lparr>z_resources := None\<rparr>) demo_zynq = Inr (- ENODEV, s1, as) \<and>
     connectal_open demo_zynq_env s1 = Inl UseAfterFree"
proof -
  obtain s1 as where o: "connectal_open (demo_zynq_env\<lparr>z_resources := None\<rparr>) demo_zynq = Inr (- ENODEV, s1, as)"
    by (simp add: connectal_open_def Let_def remove_portal_devices_def demo_zynq_def demo_zynq_env_def fresh_zynq_def)
  with zynq_failed_open_dangles [OF o, of 0 demo_zynq_env] show ?thesis by (simp add: demo_zynq_def errno_defs)
qed

subsection \<open>Cache maintenance\<close>

text \<open>The ranges flushed for a buffer contain the physical address of every byte of it.\<close>

lemma flush_covers_buffer:
  "phys_at ss x = Some p \<Longrightarrow> \<exists>(a, b) \<in> set (flush_ranges ss). a \<le> p \<and> p < b"
  by (induction ss x rule: phys_at.induct) (auto simp: flush_ranges_def split: if_splits)

end
