(* ===== verification/Mem_Portal.thy ===== *)
theory Mem_Portal
  imports Portal_Interface
begin

text \<open>
  Portals in hardware.  The device is the memory-mapped portal of \<open>bsv/MemPortal.bsv\<close> behind
  the address decoder of \<open>bsv/CtrlMux.bsv\<close>: control registers, a pipe per request and a pipe per
  indication.  The software side is the hardware transport of \<open>cpp/portal.c\<close> and its copy for
  drivers in \<open>cpp/portalKernel.h\<close>.  The locale \<open>register_transport\<close> is what they rely on:
  reads and writes of the transport are reads and writes of the device.
\<close>

section \<open>The device\<close>

record mem_portal =
  mp_requests :: "u32 list list"
  mp_depth :: nat
  mp_indications :: "u32 list list"
  mp_enable :: bool
  mp_count :: u64
  mp_snapshot :: u32
  mp_id :: u32
  mp_top :: bool

definition clog2 :: "nat \<Rightarrow> nat" where
  "clog2 n = length (takeWhile (\<lambda>k. 2 ^ k < n) [0..<n])"

text \<open>The slave an address selects: the upper bits, cut to the width of a slave number.\<close>

definition mp_select :: "mem_portal \<Rightarrow> nat \<Rightarrow> nat" where
  "mp_select d addr = (addr div 256) mod 2 ^ clog2 (1 + length (mp_requests d) + length (mp_indications d))"

text \<open>The indication channels that have something, and the one the status register shows.\<close>

definition ready_channels :: "mem_portal \<Rightarrow> nat list" where
  "ready_channels d = filter (\<lambda>i. mp_indications d ! i \<noteq> []) [0..<length (mp_indications d)]"

definition queue_status :: "mem_portal \<Rightarrow> u32" where
  "queue_status d = (if ready_channels d = [] then 0 else of_nat (last (ready_channels d) + 1))"

definition ctrl_read :: "nat \<Rightarrow> mem_portal \<Rightarrow> u32 \<times> mem_portal" where
  "ctrl_read addr d =
     (if addr = 0x00 then (if ready_channels d \<noteq> [] then 1 else 0, d)
      else if addr = 0x04 then (if mp_enable d then 1 else 0, d)
      else if addr = 0x08 then (7, d)
      else if addr = 0x0C then (queue_status d, d)
      else if addr = 0x10 then (mp_id d, d)
      else if addr = 0x14 then (if mp_top d then 1 else 0, d)
      else if addr = 0x18 then (ucast (drop_bit 32 (mp_count d)), d\<lparr>mp_snapshot := ucast (mp_count d)\<rparr>)
      else if addr = 0x1C then (mp_snapshot d, d)
      else (0x05a05a0, d))"

text \<open>A read of an empty pipe and a write to a full one stall the bus.\<close>

definition mp_read :: "mem_portal \<Rightarrow> nat \<Rightarrow> (u32 \<times> mem_portal) result" where
  "mp_read d addr =
     (let sel = mp_select d addr; sub = addr mod 256; nreq = length (mp_requests d) in
      if addr \<ge> 2 ^ 16 then Inl OutOfBounds
      else if sel = 0 then Inr (ctrl_read sub d)
      else if sel \<le> nreq then
        Inr (if sub = 4 then (if length (mp_requests d ! (sel - 1)) < mp_depth d then 1 else 0) else 0, d)
      else if sel \<le> nreq + length (mp_indications d) then
        (let i = sel - nreq - 1; q = mp_indications d ! i in
         if sub = 0 then
           (case q of [] \<Rightarrow> Inl NoReturn | w # ws \<Rightarrow> Inr (w, d\<lparr>mp_indications := (mp_indications d)[i := ws]\<rparr>))
         else Inr (if sub = 4 \<and> q \<noteq> [] then 1 else 0, d))
      else Inl OutOfBounds)"

definition mp_write :: "mem_portal \<Rightarrow> nat \<Rightarrow> u32 \<Rightarrow> mem_portal result" where
  "mp_write d addr v =
     (let sel = mp_select d addr; sub = addr mod 256; nreq = length (mp_requests d) in
      if addr \<ge> 2 ^ 16 then Inl OutOfBounds
      else if sel = 0 then Inr (if sub = 4 then d\<lparr>mp_enable := bit v 0\<rparr> else d)
      else if sel \<le> nreq then
        (let q = mp_requests d ! (sel - 1) in
         if length q < mp_depth d then Inr (d\<lparr>mp_requests := (mp_requests d)[sel - 1 := q @ [v]]\<rparr>)
         else Inl NoReturn)
      else if sel \<le> nreq + length (mp_indications d) then Inr d
      else Inl OutOfBounds)"

definition mp_interrupt :: "mem_portal \<Rightarrow> bool" where
  "mp_interrupt d \<longleftrightarrow> ready_channels d \<noteq> [] \<and> mp_enable d"

section \<open>The hardware transport\<close>

text \<open>
  \<open>read_hardware\<close> and \<open>write_hardware\<close>: the pointer stays where it is.  Pointers are word
  offsets in the window of the portal.
\<close>

definition read_hardware :: "mem_portal \<Rightarrow> ptr \<Rightarrow> (u32 \<times> ptr \<times> mem_portal) result" where
  "read_hardware t addr =
     (if addr < 0 then Inl OutOfBounds else rbind (mp_read t (4 * nat addr)) (\<lambda>(v, t). Inr (v, addr, t)))"

definition write_hardware :: "mem_portal \<Rightarrow> ptr \<Rightarrow> u32 \<Rightarrow> (ptr \<times> mem_portal) result" where
  "write_hardware t addr v =
     (if addr < 0 then Inl OutOfBounds else rbind (mp_write t (4 * nat addr) v) (\<lambda>t. Inr (addr, t)))"

definition PORTAL_IND_FIFO :: "u32 \<Rightarrow> ptr" where
  "PORTAL_IND_FIFO A = uint (A * 256 + 256) div 4"

definition mapchannel_hardware :: "'t \<Rightarrow> u32 \<Rightarrow> ptr result" where
  "mapchannel_hardware t v = Inr (PORTAL_IND_FIFO v)"

text \<open>
  \<open>while (!read(addr + 1) && count-- > 0)\<close>: the value of \<open>count\<close> behind the loop.  \<open>rdf\<close> is
  the read function of the portal, \<open>env\<close> what happens on the device between two reads.
\<close>

fun busy_loop ::
  "('t \<Rightarrow> ptr \<Rightarrow> (u32 \<times> ptr \<times> 't) result) \<Rightarrow> ('t \<Rightarrow> 't) \<Rightarrow> ptr \<Rightarrow> nat \<Rightarrow> 't \<Rightarrow> (int \<times> 't) result" where
  "busy_loop rdf env addr 0 t = rbind (rdf t (addr + 1)) (\<lambda>(v, _, t). Inr (if v \<noteq> 0 then 0 else - 1, t))"
| "busy_loop rdf env addr (Suc count) t =
     rbind (rdf t (addr + 1)) (\<lambda>(v, _, t).
       if v \<noteq> 0 then Inr (int (Suc count), t) else busy_loop rdf env addr count (env t))"

definition busy_hardware ::
  "('t \<Rightarrow> ptr \<Rightarrow> (u32 \<times> ptr \<times> 't) result) \<Rightarrow> ('t \<Rightarrow> 't) \<Rightarrow> 't \<Rightarrow> ptr \<Rightarrow> (int \<times> 't) result" where
  "busy_hardware rdf env t addr =
     rbind (busy_loop rdf env addr 50 t) (\<lambda>(count, t). Inr (if count \<le> 0 then 1 else 0, t))"

definition enableint_hardware :: "('t \<Rightarrow> ptr \<Rightarrow> u32 \<Rightarrow> (ptr \<times> 't) result) \<Rightarrow> 't \<Rightarrow> int \<Rightarrow> 't result" where
  "enableint_hardware wrf t v = rbind (wrf t 1 (of_int v)) (\<lambda>(_, t). Inr t)"

text \<open>
  \<open>portalCheckIndication\<close>, for a portal with a handler: call it for the channel the status
  register shows, until it shows none.
\<close>

partial_function (option) check_loop ::
  "('t \<Rightarrow> ptr \<Rightarrow> (u32 \<times> ptr \<times> 't) result) \<Rightarrow> ('t, 's) indfunc \<Rightarrow> 't \<Rightarrow> 's \<Rightarrow> ('t \<times> 's) result option" where
  "check_loop rdf H t s =
     (case rdf t 3 of
        Inl e \<Rightarrow> Some (Inl e)
      | Inr (status, _, t) \<Rightarrow>
          if status = 0 then Some (Inr (t, s))
          else (case H t s (status - 1) 0 of
                  Inl e \<Rightarrow> Some (Inl e)
                | Inr (t, s) \<Rightarrow> check_loop rdf H t s))"

definition portalCheckIndication ::
  "('t \<Rightarrow> ptr \<Rightarrow> (u32 \<times> ptr \<times> 't) result) \<Rightarrow> ('t, 's) indfunc \<Rightarrow> 't \<Rightarrow> 's \<Rightarrow> ('t \<times> 's) result" where
  "portalCheckIndication rdf H t s = (case check_loop rdf H t s of None \<Rightarrow> Inl NoReturn | Some r \<Rightarrow> r)"

definition event_hardware ::
  "('t \<Rightarrow> ptr \<Rightarrow> (u32 \<times> ptr \<times> 't) result) \<Rightarrow> ('t, 's) indfunc \<Rightarrow> 't \<Rightarrow> 's \<Rightarrow> (int \<times> 't \<times> 's) result" where
  "event_hardware rdf H t s = rbind (portalCheckIndication rdf H t s) (\<lambda>(t, s). Inr (- 1, t, s))"

text \<open>\<open>send_portal_null\<close> and \<open>recv_portal_null\<close>: the pipes carry no headers.\<close>

definition send_portal_null :: "'t \<Rightarrow> ptr \<Rightarrow> u32 \<Rightarrow> int \<Rightarrow> 't result" where
  "send_portal_null t buffer hdr sendFd = Inr t"

definition recv_portal_null :: "'t \<Rightarrow> ptr \<Rightarrow> nat \<Rightarrow> (int \<times> 't) result" where
  "recv_portal_null t buffer len = Inr (0, t)"

definition hardwarefunc :: "(mem_portal \<Rightarrow> mem_portal) \<Rightarrow> (mem_portal, 's) PortalItemFunctions" where
  "hardwarefunc env =
     \<lparr>it_read = read_hardware, it_write = write_hardware, it_writefd = write_hardware,
      it_mapchannelInd = mapchannel_hardware, it_mapchannelReq = mapchannel_hardware,
      it_send = send_portal_null, it_recv = recv_portal_null, it_busywait = busy_hardware read_hardware env,
      it_enableint = enableint_hardware write_hardware, it_event = event_hardware read_hardware\<rparr>"

text \<open>The copy for drivers; its event function does nothing.\<close>

definition read_portal_kernel :: "mem_portal \<Rightarrow> ptr \<Rightarrow> (u32 \<times> ptr \<times> mem_portal) result" where
  "read_portal_kernel t addr =
     (if addr < 0 then Inl OutOfBounds else rbind (mp_read t (4 * nat addr)) (\<lambda>(v, t). Inr (v, addr, t)))"

definition write_portal_kernel :: "mem_portal \<Rightarrow> ptr \<Rightarrow> u32 \<Rightarrow> (ptr \<times> mem_portal) result" where
  "write_portal_kernel t addr v =
     (if addr < 0 then Inl OutOfBounds else rbind (mp_write t (4 * nat addr) v) (\<lambda>t. Inr (addr, t)))"

definition busy_portal_kernel ::
  "('t \<Rightarrow> ptr \<Rightarrow> (u32 \<times> ptr \<times> 't) result) \<Rightarrow> ('t \<Rightarrow> 't) \<Rightarrow> 't \<Rightarrow> ptr \<Rightarrow> (int \<times> 't) result" where
  "busy_portal_kernel rdf env t addr =
     rbind (busy_loop rdf env addr 50 t) (\<lambda>(count, t). if count \<le> 0 then Inr (1, t) else Inr (0, t))"

definition event_portal_kernel :: "('t, 's) indfunc \<Rightarrow> 't \<Rightarrow> 's \<Rightarrow> (int \<times> 't \<times> 's) result" where
  "event_portal_kernel H t s = Inr (- 1, t, s)"

definition kernelfunc :: "(mem_portal \<Rightarrow> mem_portal) \<Rightarrow> (mem_portal, 's) PortalItemFunctions" where
  "kernelfunc env =
     \<lparr>it_read = read_portal_kernel, it_write = write_portal_kernel, it_writefd = write_portal_kernel,
      it_mapchannelInd = mapchannel_hardware, it_mapchannelReq = mapchannel_hardware,
      it_send = send_portal_null, it_recv = recv_portal_null, it_busywait = busy_portal_kernel read_portal_kernel env,
      it_enableint = enableint_hardware write_portal_kernel, it_event = event_portal_kernel\<rparr>"

lemma kernel_copies:
  "read_portal_kernel = read_hardware" "write_portal_kernel = write_hardware"
  "busy_portal_kernel rdf env = busy_hardware rdf env"
  by (auto intro!: ext arg_cong [where f = "rbind _"]
      simp: read_portal_kernel_def read_hardware_def write_portal_kernel_def write_hardware_def
        busy_portal_kernel_def busy_hardware_def)

section \<open>Registers behind a transport\<close>

lemma busy_hardware_first:
  assumes "rdf t (addr + 1) = Inr (v, p, t')" and "v \<noteq> 0"
  shows "busy_hardware rdf env t addr = Inr (0, t')"
proof -
  have "busy_loop rdf env addr (Suc n) t = Inr (int (Suc n), t')" for n using assms by simp
  from this [of 49] have "busy_loop rdf env addr 50 t = Inr (50, t')" by simp
  then show ?thesis by (simp add: busy_hardware_def)
qed

lemma clog2_bound: "n \<le> 2 ^ clog2 n"
proof (cases "clog2 n < n")
  case True
  then show ?thesis using takeWhile_upt [of "\<lambda>k. 2 ^ k < n" n] by (auto simp: clog2_def)
next
  case False
  then have "clog2 n = n" using takeWhile_upt [of "\<lambda>k. 2 ^ k < n" n] by (auto simp: clog2_def)
  then show ?thesis using less_exp [of n] by simp
qed

definition fifo_addr :: "nat \<Rightarrow> nat" where
  "fifo_addr ch = 64 * ch + 64"

lemma PORTAL_IND_FIFO_addr: "ch < 255 \<Longrightarrow> PORTAL_IND_FIFO (of_nat ch) = int (fifo_addr ch)"
proof -
  assume ch: "ch < 255"
  have "of_nat ch * 256 + 256 = (of_nat (ch * 256 + 256) :: u32)" by simp
  moreover have "unat (of_nat (ch * 256 + 256) :: u32) = ch * 256 + 256" using ch by (intro unat_of_nat_small) simp
  ultimately have "uint (of_nat ch * 256 + 256 :: u32) = int (ch * 256 + 256)" by (metis uint_nat)
  then show ?thesis by (simp add: PORTAL_IND_FIFO_def fifo_addr_def)
qed

lemma mp_select_fifo:
  assumes "ch < length (mp_requests d) + length (mp_indications d)" and "r < 256"
  shows "mp_select d (4 * fifo_addr ch + r) = ch + 1"
proof -
  have "4 * fifo_addr ch + r = 256 * (ch + 1) + r" by (simp add: fifo_addr_def)
  then have "(4 * fifo_addr ch + r) div 256 = ch + 1" using assms(2) by simp
  moreover have "ch + 1 < 2 ^ clog2 (1 + length (mp_requests d) + length (mp_indications d))"
    using clog2_bound [of "1 + length (mp_requests d) + length (mp_indications d)"] assms by linarith
  ultimately show ?thesis by (simp add: mp_select_def)
qed

lemma fifo_addr_mod: "r < 256 \<Longrightarrow> (4 * fifo_addr ch + r) mod 256 = r"
proof -
  have "4 * fifo_addr ch + r = 256 * (ch + 1) + r" by (simp add: fifo_addr_def)
  then show "r < 256 \<Longrightarrow> ?thesis" by (metis mod_less mod_mult_self4)
qed

lemma mp_read_pop:
  assumes "mp_requests d = []" and "ch < length (mp_indications d)" and "ch < 255" and "mp_indications d ! ch = w # ws"
  shows "mp_read d (4 * fifo_addr ch) = Inr (w, d\<lparr>mp_indications := (mp_indications d)[ch := ws]\<rparr>)"
  using assms mp_select_fifo [of ch d 0] fifo_addr_mod [of 0 ch]
  by (simp add: mp_read_def Let_def) (simp add: fifo_addr_def)

lemma mp_write_push:
  assumes "ch < length (mp_requests d)" and "ch < 255" and "length (mp_requests d ! ch) < mp_depth d"
  shows "mp_write d (4 * fifo_addr ch) w = Inr (d\<lparr>mp_requests := (mp_requests d)[ch := mp_requests d ! ch @ [w]]\<rparr>)"
  using assms mp_select_fifo [of ch d 0] fifo_addr_mod [of 0 ch]
  by (simp add: mp_write_def Let_def) (simp add: fifo_addr_def)

lemma mp_read_notfull:
  assumes "ch < length (mp_requests d)" and "ch < 255"
  shows "mp_read d (4 * (fifo_addr ch + 1)) = Inr (if length (mp_requests d ! ch) < mp_depth d then 1 else 0, d)"
proof -
  define a where "a = 4 * fifo_addr ch + 4"
  have "a < 65536" using assms(2) by (simp add: fifo_addr_def a_def)
  moreover have "mp_select d a = ch + 1" using assms mp_select_fifo [of ch d 4] by (simp add: a_def)
  moreover have "a mod 256 = 4" unfolding a_def by (rule fifo_addr_mod) simp
  ultimately have "mp_read d a = Inr (if length (mp_requests d ! ch) < mp_depth d then 1 else 0, d)"
    using assms by (simp add: mp_read_def)
  then show ?thesis by (simp add: a_def add.commute)
qed

lemma mp_read_status: "mp_read d 12 = Inr (queue_status d, d)"
  by (simp add: mp_read_def mp_select_def ctrl_read_def)

text \<open>\<open>rep t d\<close>: seen through the transport in state \<open>t\<close>, the device is in state \<open>d\<close>.\<close>

locale register_transport =
  fixes I :: "('t, 's) PortalItemFunctions" and rep :: "'t \<Rightarrow> mem_portal \<Rightarrow> bool" and env :: "'t \<Rightarrow> 't"
  assumes reg_read: "rep t d \<Longrightarrow> mp_read d (4 * a) = Inr (v, d') \<Longrightarrow>
      \<exists>t'. it_read I t (int a) = Inr (v, int a, t') \<and> rep t' d'"
    and reg_write: "rep t d \<Longrightarrow> mp_write d (4 * a) v = Inr d' \<Longrightarrow>
      \<exists>t'. it_write I t (int a) v = Inr (int a, t') \<and> rep t' d'"
    and reg_map: "it_mapchannelReq I = mapchannel_hardware" "it_mapchannelInd I = mapchannel_hardware"
    and reg_null: "it_send I = send_portal_null" "it_recv I = recv_portal_null"
    and reg_busy: "it_busywait I = busy_hardware (it_read I) env"
begin

lemma read_words_pop:
  "rep t d \<Longrightarrow> mp_requests d = [] \<Longrightarrow> ch < length (mp_indications d) \<Longrightarrow> ch < 255 \<Longrightarrow>
   mp_indications d ! ch = ws @ rest \<Longrightarrow>
   \<exists>t'. read_words I t (int (fifo_addr ch)) (length ws) = Inr (ws, t') \<and>
     rep t' (d\<lparr>mp_indications := (mp_indications d)[ch := rest]\<rparr>)"
proof (induction ws arbitrary: t d)
  case Nil
  then have "(mp_indications d)[ch := rest] = mp_indications d" by (metis append_Nil list_update_id)
  with Nil show ?case by simp
next
  case (Cons w ws)
  let ?d = "d\<lparr>mp_indications := (mp_indications d)[ch := ws @ rest]\<rparr>"
  have "mp_read d (4 * fifo_addr ch) = Inr (w, ?d)" using Cons.prems by (intro mp_read_pop) simp_all
  from reg_read [OF Cons.prems(1) this] obtain t1 where
    t1: "it_read I t (int (fifo_addr ch)) = Inr (w, int (fifo_addr ch), t1)" "rep t1 ?d" by blast
  from Cons.IH [OF t1(2)] Cons.prems obtain t' where
    "read_words I t1 (int (fifo_addr ch)) (length ws) = Inr (ws, t')"
    "rep t' (?d\<lparr>mp_indications := (mp_indications ?d)[ch := rest]\<rparr>)" by auto
  with t1(1) show ?case by simp
qed

lemma collect_pop:
  assumes "rep t d" and "mp_requests d = []" and "ch < length (mp_indications d)" and "ch < 255"
    and "mp_indications d ! ch = ws @ rest"
  shows "\<exists>t'. collect I t (of_nat ch) (length ws) = Inr (ws, t') \<and>
     rep t' (d\<lparr>mp_indications := (mp_indications d)[ch := rest]\<rparr>)"
  using read_words_pop [OF assms]
  by (simp add: collect_def reg_map reg_null mapchannel_hardware_def recv_portal_null_def PORTAL_IND_FIFO_addr [OF assms(4)])

lemma write_words_push:
  "rep t d \<Longrightarrow> ch < length (mp_requests d) \<Longrightarrow> ch < 255 \<Longrightarrow>
   length (mp_requests d ! ch) + length ws \<le> mp_depth d \<Longrightarrow>
   \<exists>t'. write_words I t (int (fifo_addr ch)) ws = Inr (int (fifo_addr ch), t') \<and>
     rep t' (d\<lparr>mp_requests := (mp_requests d)[ch := mp_requests d ! ch @ ws]\<rparr>)"
proof (induction ws arbitrary: t d)
  case Nil
  then show ?case by simp
next
  case (Cons w ws)
  let ?d = "d\<lparr>mp_requests := (mp_requests d)[ch := mp_requests d ! ch @ [w]]\<rparr>"
  have "mp_write d (4 * fifo_addr ch) w = Inr ?d" using Cons.prems by (intro mp_write_push) simp_all
  from reg_write [OF Cons.prems(1) this] obtain t1 where
    t1: "it_write I t (int (fifo_addr ch)) w = Inr (int (fifo_addr ch), t1)" "rep t1 ?d" by blast
  from Cons.IH [OF t1(2)] Cons.prems obtain t' where
    "write_words I t1 (int (fifo_addr ch)) ws = Inr (int (fifo_addr ch), t')"
    "rep t' (?d\<lparr>mp_requests := (mp_requests ?d)[ch := mp_requests ?d ! ch @ ws]\<rparr>)" by auto
  with t1(1) Cons.prems show ?case by simp
qed

lemma busy_free:
  assumes "rep t d" and "ch < length (mp_requests d)" and "ch < 255" and "length (mp_requests d ! ch) < mp_depth d"
  shows "\<exists>t'. it_busywait I t (int (fifo_addr ch)) = Inr (0, t') \<and> rep t' d"
proof -
  have "mp_read d (4 * (fifo_addr ch + 1)) = Inr (1, d)" using assms mp_read_notfull [of ch d] by simp
  from reg_read [OF assms(1) this] obtain t' where
    "it_read I t (int (fifo_addr ch) + 1) = Inr (1, int (fifo_addr ch) + 1, t')" "rep t' d"
    by (auto simp: add.commute)
  then show ?thesis by (auto simp: reg_busy busy_hardware_first)
qed

lemma transmit_push:
  assumes "rep t d" and "ch < length (mp_requests d)" and "ch < 255" and "ws \<noteq> []"
    and "length (mp_requests d ! ch) + length ws \<le> mp_depth d"
  shows "\<exists>t'. transmit I t (of_nat ch) ws fd = Inr t' \<and>
     rep t' (d\<lparr>mp_requests := (mp_requests d)[ch := mp_requests d ! ch @ ws]\<rparr>)"
proof -
  have "length (mp_requests d ! ch) < mp_depth d" using assms(4,5) by (cases ws) auto
  from busy_free [OF assms(1-3) this] obtain t1 where
    t1: "it_busywait I t (int (fifo_addr ch)) = Inr (0, t1)" "rep t1 d" by blast
  from write_words_push [OF t1(2) assms(2,3,5)] obtain t2 where
    "write_words I t1 (int (fifo_addr ch)) ws = Inr (int (fifo_addr ch), t2)"
    "rep t2 (d\<lparr>mp_requests := (mp_requests d)[ch := mp_requests d ! ch @ ws]\<rparr>)" by blast
  with t1 show ?thesis
    by (simp add: transmit_def reg_map reg_null mapchannel_hardware_def send_portal_null_def PORTAL_IND_FIFO_addr [OF assms(3)])
qed

end

section \<open>Draining the indications of an interface\<close>

text \<open>The words the hardware has queued for requests \<open>Q\<close>, a list of them per channel.\<close>

definition req_words :: "mmu_req \<Rightarrow> u32 list" where
  "req_words r = fst (snd (mmu_msg (\<lambda>_. 0) r))"

definition queued_words :: "mmu_req list list \<Rightarrow> u32 list list" where
  "queued_words Q = map (\<lambda>rs. concat (map req_words rs)) Q"

definition by_channel :: "mmu_req list list \<Rightarrow> bool" where
  "by_channel Q \<longleftrightarrow> length Q < 255 \<and>
     list_all (\<lambda>ch. list_all (\<lambda>r. fst (mmu_msg (\<lambda>_. 0) r) = of_nat ch) (Q ! ch)) [0..<length Q]"

lemma req_words_nonempty: "req_words r \<noteq> []"
  by (cases r) (simp_all add: req_words_def mmu_msg_def)

lemma mmu_msg_words: "mmu_msg (\<lambda>_. 0) r = (fst (mmu_msg (\<lambda>_. 0) r), req_words r, 0)"
  by (cases r) (simp_all add: req_words_def mmu_msg_def)

lemma queued_words_nil: "ch < length Q \<Longrightarrow> queued_words Q ! ch = [] \<longleftrightarrow> Q ! ch = []"
  by (cases "Q ! ch") (auto simp: queued_words_def req_words_nonempty)

lemma by_channel_tail:
  assumes "by_channel Q" and "Q ! ch = r # rs"
  shows "by_channel (Q[ch := rs])"
proof -
  have "set (Q[ch := rs] ! i) \<subseteq> set (Q ! i)" if "i < length Q" for i
    using assms(2) that by (cases "i = ch") auto
  then show ?thesis using assms(1) by (fastforce simp: by_channel_def list_all_iff)
qed

lemma queued_words_update: "queued_words (Q[ch := rs]) = (queued_words Q)[ch := concat (map req_words rs)]"
  by (simp add: queued_words_def map_update)

text \<open>The status register shows the last channel that has something.\<close>

lemma queue_status_none:
  assumes "mp_indications d = queued_words Q" and "\<forall>ch < length Q. Q ! ch = []"
  shows "queue_status d = 0"
  using assms queued_words_nil
  by (auto simp: queue_status_def ready_channels_def filter_empty_conv) (auto simp: queued_words_def)

lemma last_filter_upt:
  assumes "k < n" and "P k" and "\<forall>j. k < j \<and> j < n \<longrightarrow> \<not> P j"
  shows "last (filter P [0..<n]) = k" and "filter P [0..<n] \<noteq> []"
proof -
  have "[0..<n] = [0..<k] @ k # [Suc k..<n]" 
    using assms(1) upt_add_eq_append [of 0 k "n - k"] upt_conv_Cons [of k n] by simp
  moreover have "filter P [Suc k..<n] = []" using assms(3) by (auto simp: filter_empty_conv)
  ultimately show "last (filter P [0..<n]) = k" "filter P [0..<n] \<noteq> []" using assms(2) by simp_all
qed

lemma queue_status_last:
  assumes "mp_indications d = queued_words Q" and "ch < length Q" and "Q ! ch \<noteq> []"
    and "\<forall>j. ch < j \<and> j < length Q \<longrightarrow> Q ! j = []"
  shows "queue_status d = of_nat (ch + 1)"
proof -
  have len: "length (mp_indications d) = length Q" by (simp add: assms(1) queued_words_def)
  let ?P = "\<lambda>i. mp_indications d ! i \<noteq> []"
  have P: "?P ch" "\<forall>j. ch < j \<and> j < length Q \<longrightarrow> \<not> ?P j" using assms(2-4) by (simp_all add: assms(1) queued_words_nil)
  have "last (ready_channels d) = ch" "ready_channels d \<noteq> []"
    unfolding ready_channels_def len by (rule last_filter_upt [of ch "length Q" ?P, OF assms(2) P])+
  then show ?thesis by (simp add: queue_status_def)
qed

lemma concat_rev_take:
  assumes "ch < length Q" and "Q ! ch = r # rs" and "\<forall>j. ch < j \<and> j < length Q \<longrightarrow> Q ! j = []"
  shows "concat (rev Q) = r # concat (rev (Q[ch := rs]))"
proof -
  have Q: "Q = take ch Q @ (r # rs) # drop (Suc ch) Q" using assms(1,2) by (metis id_take_nth_drop)
  have e: "\<forall>x \<in> set (drop (Suc ch) Q). x = []"
    using assms(3) by (auto simp: in_set_conv_nth)
  then have n: "concat (rev (drop (Suc ch) Q)) = []" by auto
  have "concat (rev Q) = concat (rev (take ch Q @ (r # rs) # drop (Suc ch) Q))" using Q by (rule arg_cong)
  then have *: "concat (rev Q) = r # rs @ concat (rev (take ch Q))" using n by (simp only: rev_append rev.simps concat_append concat.simps append_Nil append_Nil2 append_Cons)
  have "Q[ch := rs] = take ch Q @ rs # drop (Suc ch) Q" using assms(1) by (simp add: upd_conv_take_nth_drop)
  then have "concat (rev (Q[ch := rs])) = rs @ concat (rev (take ch Q))"
    using n by (simp only: rev_append rev.simps concat_append concat.simps append_Nil append_Nil2)
  with * show ?thesis by (simp only:)
qed

lemma last_nonempty:
  assumes "ch < length Q" and "Q ! ch \<noteq> []"
  obtains k r rs where "k < length Q" "Q ! k = r # rs" "\<forall>j. k < j \<and> j < length Q \<longrightarrow> Q ! j = []"
proof -
  define S where "S = {j. j < length Q \<and> Q ! j \<noteq> []}"
  have fin: "finite S" "S \<noteq> {}" using assms by (auto simp: S_def)
  then have m: "Max S \<in> S" by (rule Max_in)
  then obtain r rs where "Max S < length Q" "Q ! Max S = r # rs" by (auto simp: S_def neq_Nil_conv)
  moreover have "Q ! j = []" if "Max S < j" "j < length Q" for j
  proof (rule ccontr)
    assume "Q ! j \<noteq> []"
    then have "j \<in> S" using that(2) by (simp add: S_def)
    from Max_ge [OF fin(1) this] that(1) show False by simp
  qed
  ultimately show thesis using that by blast
qed

text \<open>
  What a device finds in its pipe for a request, when a descriptor \<open>fd\<close> reaches it as \<open>f fd\<close>.
\<close>

definition device_words :: "(int \<Rightarrow> int) \<Rightarrow> mmu_req \<Rightarrow> u32 list" where
  "device_words f r = (case r of IdRequest fd \<Rightarrow> [of_int (f (sint (of_int fd :: u32)))] | _ \<Rightarrow> req_words r)"

lemma device_words_id: "device_words id r = req_words r"
  by (cases r) (simp_all add: device_words_def req_words_def mmu_msg_def)

lemma device_words_length: "length (device_words f r) = length (req_words r)"
  by (cases r) (simp_all add: device_words_def req_words_def mmu_msg_def)

locale register_dispatch = register_transport I rep env
  for I :: "('t, 'c dispatch) PortalItemFunctions" and rep env +
  fixes fdmap :: "int \<Rightarrow> int"
  assumes reg_writefd: "rep t d \<Longrightarrow> mp_write d (4 * a) (of_int (fdmap (sint v))) = Inr d' \<Longrightarrow>
      \<exists>t'. it_writefd I t (int a) v = Inr (int a, t') \<and> rep t' d'"
begin

lemma transmit_fd_push:
  assumes "rep t d" and "ch < length (mp_requests d)" and "ch < 255" and "length (mp_requests d ! ch) < mp_depth d"
  shows "\<exists>t'. transmit_fd I t (of_nat ch) fd = Inr t' \<and>
     rep t' (d\<lparr>mp_requests := (mp_requests d)[ch := mp_requests d ! ch @ [of_int (fdmap (sint (of_int fd :: u32)))]]\<rparr>)"
proof -
  from busy_free [OF assms] obtain t1 where
    t1: "it_busywait I t (int (fifo_addr ch)) = Inr (0, t1)" "rep t1 d" by blast
  from reg_writefd [OF t1(2) mp_write_push [OF assms(2-4)], of "of_int fd"] obtain t2 where
    "it_writefd I t1 (int (fifo_addr ch)) (of_int fd) = Inr (int (fifo_addr ch), t2)"
    "rep t2 (d\<lparr>mp_requests := (mp_requests d)[ch := mp_requests d ! ch @ [of_int (fdmap (sint (of_int fd :: u32)))]]\<rparr>)"
    by blast
  with t1(1) show ?thesis
    by (simp add: transmit_fd_def reg_map reg_null mapchannel_hardware_def send_portal_null_def PORTAL_IND_FIFO_addr [OF assms(3)])
qed

text \<open>A request through the transport puts its words into the pipe of its channel.\<close>

lemma send_push:
  assumes "rep t d" and "fst (mmu_msg (\<lambda>_. 0) r) = of_nat ch" and "ch < 255" and "ch < length (mp_requests d)"
    and "length (mp_requests d ! ch) + length (req_words r) \<le> mp_depth d"
  shows "\<exists>t'. MMURequest_send I t r = Inr t' \<and>
     rep t' (d\<lparr>mp_requests := (mp_requests d)[ch := mp_requests d ! ch @ device_words fdmap r]\<rparr>)"
proof (cases "\<exists>fd. r = IdRequest fd")
  case True
  then obtain fd where r: "r = IdRequest fd" by blast
  then have "(2 :: u32) = of_nat ch" "length (mp_requests d ! ch) < mp_depth d"
    using assms(2,5) by (simp_all add: mmu_msg_def req_words_def)
  with transmit_fd_push [OF assms(1,4,3)] show ?thesis
    by (simp add: r MMURequest_send_def MMURequest_idRequest_def device_words_def)
next
  case False
  then have "MMURequest_send I t r = transmit I t (of_nat ch) (req_words r) (- 1)" "device_words fdmap r = req_words r"
    using assms(2) by (cases r; auto simp: MMURequest_send_def mmu_msg_def req_words_def MMURequest_sglist_def
        MMURequest_region_def MMURequest_idReturn_def MMURequest_setInterface_def device_words_def)+
  with transmit_push [OF assms(1,4,3) req_words_nonempty assms(5)] show ?thesis by simp
qed

lemma status_read:
  assumes "rep t d"
  shows "\<exists>t'. it_read I t 3 = Inr (queue_status d, 3, t') \<and> rep t' d"
  using reg_read [OF assms, of 3] mp_read_status [of d] by simp

lemma drain:
  assumes "rep t d" and "mp_requests d = []" and "mp_indications d = queued_words Q" and "by_channel Q"
  shows "\<exists>t'. check_loop (it_read I) (MMURequest_handleMessage I cb) t s =
           Some (Inr (t', s\<lparr>app := fold (\<lambda>r. cb (arrive (\<lambda>_. 0) r)) (concat (rev Q)) (app s)\<rparr>)) \<and>
         rep t' (d\<lparr>mp_indications := replicate (length Q) []\<rparr>)"
  using assms
proof (induction "length (concat (rev Q))" arbitrary: Q t d s)
  case 0
  have c: "concat (rev Q) = []" using 0(1) by (metis length_0_conv)
  then have e: "\<forall>x \<in> set Q. x = []" by (simp add: concat_eq_Nil_conv)
  then have nil: "\<forall>ch < length Q. Q ! ch = []" by (simp add: nth_mem)
  have "queued_words Q = map (\<lambda>_. []) Q" unfolding queued_words_def using e by auto
  then have "queued_words Q = replicate (length Q) []" by (simp add: map_replicate_const)
  then have "d\<lparr>mp_indications := replicate (length Q) []\<rparr> = d" using 0(4) by simp
  moreover have "queue_status d = 0" using queue_status_none [OF 0(4) nil] .
  moreover obtain t' where "it_read I t 3 = Inr (queue_status d, 3, t')" "rep t' d"
    using status_read [OF 0(2)] by blast
  ultimately show ?case unfolding c by (subst check_loop.simps) simp
next
  case (Suc n)
  then obtain ch0 where "ch0 < length Q" "Q ! ch0 \<noteq> []" by (metis concat_eq_Nil_conv in_set_conv_nth length_0_conv nat.distinct(1) set_rev)
  then obtain k r rs where k: "k < length Q" "Q ! k = r # rs" "\<forall>j. k < j \<and> j < length Q \<longrightarrow> Q ! j = []"
    by (rule last_nonempty)
  have b: "k < 255" and ch: "fst (mmu_msg (\<lambda>_. 0) r) = of_nat k"
    using Suc.prems(4) k(1,2) by (auto simp: by_channel_def list_all_iff)
  have msg: "mmu_msg (\<lambda>_. 0) r = (of_nat k, req_words r, 0)" using mmu_msg_words [of r] ch by simp
  define w :: u32 where "w = of_nat (k + 1)"
  obtain t1 where t1: "it_read I t 3 = Inr (w, 3, t1)" "rep t1 d"
    using status_read [OF Suc.prems(1)] queue_status_last [OF Suc.prems(3) k(1) _ k(3)] k(2) by (auto simp: w_def)
  have "unat w = k + 1" unfolding w_def using b by (intro unat_of_nat_small) simp
  then have w: "w \<noteq> 0" "w - 1 = of_nat k" by (auto simp: w_def)
  let ?Q = "Q[k := rs]"
  have kq: "mp_indications d ! k = req_words r @ concat (map req_words rs)" "k < length (mp_indications d)"
    using k(1,2) by (simp_all add: Suc.prems(3) queued_words_def)
  from collect_pop [OF t1(2) Suc.prems(2) kq(2) b kq(1)] obtain t2 where
    t2: "collect I t1 (of_nat k) (length (req_words r)) = Inr (req_words r, t2)"
      "rep t2 (d\<lparr>mp_indications := queued_words ?Q\<rparr>)"
    by (auto simp: Suc.prems(3) queued_words_update)
  let ?s = "s\<lparr>app := cb (arrive (\<lambda>_. 0) r) (app s)\<rparr>"
  have h: "MMURequest_handleMessage I cb t1 s (of_nat k) 0 = Inr (t2, ?s)"
    by (rule handleMessage_collected [OF msg t2(1)])
  have c: "concat (rev Q) = r # concat (rev ?Q)" by (rule concat_rev_take [OF k])
  then have "n = length (concat (rev ?Q))" using Suc.hyps(2) by simp
  from Suc.hyps(1) [OF this t2(2), of ?s] by_channel_tail [OF Suc.prems(4) k(2)] Suc.prems(2)
  show ?case using c by (subst check_loop.simps) (simp add: t1(1) w h)
qed

lemma checkIndication_drains:
  assumes "rep t d" and "mp_requests d = []" and "mp_indications d = queued_words Q" and "by_channel Q"
  shows "\<exists>t'. portalCheckIndication (it_read I) (MMURequest_handleMessage I cb) t s =
           Inr (t', s\<lparr>app := fold (\<lambda>r. cb (arrive (\<lambda>_. 0) r)) (concat (rev Q)) (app s)\<rparr>) \<and>
         rep t' (d\<lparr>mp_indications := replicate (length Q) []\<rparr>)"
  using drain [OF assms, of cb s] by (auto simp: portalCheckIndication_def)

end

section \<open>The hardware transport keeps the contract\<close>

interpretation hw: register_dispatch "hardwarefunc env" "\<lambda>t d. t = d" env id
  for env
  by unfold_locales (simp_all add: hardwarefunc_def read_hardware_def write_hardware_def)

interpretation kern: register_dispatch "kernelfunc env" "\<lambda>t d. t = d" env id
  for env
  by unfold_locales (simp_all add: kernelfunc_def kernel_copies read_hardware_def write_hardware_def)

text \<open>
  C14: A request sent through the hardware transport by a process whose pipe has room for its
  words arrives in the hardware as exactly these words, in order, behind what the pipe holds, and
  nothing else of the device changes; the transport of the drivers does the same.
\<close>

theorem hardware_send_pushes:
  fixes t :: mem_portal
  assumes "fst (mmu_msg (\<lambda>_. 0) r) = of_nat ch" and "ch < 255" and "ch < length (mp_requests t)"
    and "length (mp_requests t ! ch) + length (req_words r) \<le> mp_depth t"
  shows "MMURequest_send (hardwarefunc env :: (mem_portal, 'c dispatch) PortalItemFunctions) t r =
           Inr (t\<lparr>mp_requests := (mp_requests t)[ch := mp_requests t ! ch @ req_words r]\<rparr>) \<and>
         MMURequest_send (kernelfunc env :: (mem_portal, 'c dispatch) PortalItemFunctions) t r =
           Inr (t\<lparr>mp_requests := (mp_requests t)[ch := mp_requests t ! ch @ req_words r]\<rparr>)"
  using hw.send_push [OF refl assms] kern.send_push [OF refl assms] by (auto simp: device_words_id)

text \<open>
  C12: One hardware event hands over every indication that waits in the device, each once, the
  highest channel first and in order within a channel, and leaves the pipes empty.
\<close>

theorem hardware_event_drains:
  fixes t :: mem_portal and s :: "'c dispatch"
  assumes "mp_requests t = []" and "mp_indications t = queued_words Q" and "by_channel Q"
  shows "it_event (hardwarefunc env) (MMURequest_handleMessage (hardwarefunc env) cb) t s =
     Inr (- 1, t\<lparr>mp_indications := replicate (length Q) []\<rparr>,
          s\<lparr>app := fold (\<lambda>r. cb (arrive (\<lambda>_. 0) r)) (concat (rev Q)) (app s)\<rparr>)"
proof -
  let ?I = "hardwarefunc env :: (mem_portal, 'c dispatch) PortalItemFunctions"
  have "it_event ?I H t s = rbind (portalCheckIndication (it_read ?I) H t s) (\<lambda>(t, s). Inr (- 1, t, s))" for H
    by (simp add: hardwarefunc_def event_hardware_def)
  then show ?thesis using hw.checkIndication_drains [of t t Q env cb s] assms by auto
qed

definition demo_mem_portal :: mem_portal where
  "demo_mem_portal = \<lparr>mp_requests = [], mp_depth = 16,
     mp_indications = queued_words [[], [], [], [IdReturn 7, IdReturn 8], [SetInterface 1 2]],
     mp_enable = True, mp_count = 0, mp_snapshot = 0, mp_id = 5, mp_top = True\<rparr>"

theorem hardware_send_pushes_witness:
  "MMURequest_send (hardwarefunc id :: (mem_portal, unit dispatch) PortalItemFunctions)
     (demo_mem_portal\<lparr>mp_requests := [[], [], [], [9], []]\<rparr>) (IdReturn 7) =
   Inr (demo_mem_portal\<lparr>mp_requests := [[], [], [], [9, 7], []]\<rparr>)"
proof -
  have "mp_depth demo_mem_portal = 16" by (simp add: demo_mem_portal_def)
  then show ?thesis
    using hardware_send_pushes [where 'c = unit and r = "IdReturn 7" and ch = 3 and env = id and
        t = "demo_mem_portal\<lparr>mp_requests := [[], [], [], [9], []]\<rparr>"]
    by (simp add: mmu_msg_def req_words_def)
qed

theorem hardware_event_drains_witness:
  "it_event (hardwarefunc id) (MMURequest_handleMessage (hardwarefunc id) (\<lambda>r c. c @ [r])) demo_mem_portal
     \<lparr>runaway = 0, app = []\<rparr> =
   Inr (- 1, demo_mem_portal\<lparr>mp_indications := [[], [], [], [], []]\<rparr>,
        \<lparr>runaway = 0, app = [SetInterface 1 2, IdReturn 7, IdReturn 8]\<rparr>)"
  using hardware_event_drains [of demo_mem_portal "[[], [], [], [IdReturn 7, IdReturn 8], [SetInterface 1 2]]" id
      "\<lambda>r c. c @ [r]" "\<lparr>runaway = 0, app = []\<rparr>"]
  by (simp add: demo_mem_portal_def by_channel_def mmu_msg_def arrive_def numeral_eq_Suc)

section \<open>Waiting for room\<close>

lemma busy_loop_result:
  assumes "\<And>i. i \<le> count \<Longrightarrow> rdf ((env ^^ i) t) (addr + 1) = Inr (if free ((env ^^ i) t) then 1 else 0, addr + 1, (env ^^ i) t)"
  shows "\<exists>c t'. busy_loop rdf env addr count t = Inr (c, t') \<and>
     (0 < c \<longleftrightarrow> (\<exists>i < count. free ((env ^^ i) t)))"
  using assms
proof (induction count arbitrary: t)
  case 0
  from 0 [of 0] show ?case by simp
next
  case (Suc count)
  have first: "rdf t (addr + 1) = Inr (if free t then 1 else 0, addr + 1, t)" using Suc.prems [of 0] by simp
  have shift: "rdf ((env ^^ i) (env t)) (addr + 1) =
      Inr (if free ((env ^^ i) (env t)) then 1 else 0, addr + 1, (env ^^ i) (env t))" if "i \<le> count" for i
    using Suc.prems [of "Suc i"] that by (simp add: funpow_swap1)
  from Suc.IH [OF shift] obtain c t' where IH: "busy_loop rdf env addr count (env t) = Inr (c, t')"
    "0 < c \<longleftrightarrow> (\<exists>i < count. free ((env ^^ i) (env t)))" by blast
  have ex: "(\<exists>i < Suc count. free ((env ^^ i) t)) \<longleftrightarrow> free t \<or> (\<exists>i < count. free ((env ^^ i) (env t)))"
    by (auto simp: less_Suc_eq_0_disj funpow_swap1)
  show ?case unfolding ex using first IH by (cases "free t") auto
qed

text \<open>
  Waiting for room in a request pipe succeeds exactly if the pipe has room at one of the first
  fifty polls, whatever the hardware does between two polls; it always ends.
\<close>

theorem busywait_fifty_polls:
  fixes t :: mem_portal
  assumes "ch < 255" and "\<forall>i. ch < length (mp_requests ((env ^^ i) t))"
  shows "\<exists>rc t'. busy_hardware read_hardware env t (int (fifo_addr ch)) = Inr (rc, t') \<and>
     rc = (if \<exists>i < 50. length (mp_requests ((env ^^ i) t) ! ch) < mp_depth ((env ^^ i) t) then 0 else 1)"
proof -
  let ?free = "\<lambda>d. length (mp_requests d ! ch) < mp_depth d"
  have "read_hardware ((env ^^ i) t) (int (fifo_addr ch) + 1) =
      Inr (if ?free ((env ^^ i) t) then 1 else 0, int (fifo_addr ch) + 1, (env ^^ i) t)" for i
    using mp_read_notfull [of ch "(env ^^ i) t"] assms by (simp add: read_hardware_def nat_add_distrib)
  from busy_loop_result [where rdf = read_hardware and free = ?free, OF this, of 50] obtain c t' where
    c: "busy_loop read_hardware env (int (fifo_addr ch)) 50 t = Inr (c, t')"
      "0 < c \<longleftrightarrow> (\<exists>i < 50. ?free ((env ^^ i) t))" by blast
  show ?thesis unfolding c(2) [symmetric] by (simp add: busy_hardware_def c(1) not_less)
qed

definition drain_one :: "mem_portal \<Rightarrow> mem_portal" where
  "drain_one d = d\<lparr>mp_requests := map tl (mp_requests d)\<rparr>"

theorem busywait_fifty_polls_witness:
  "\<exists>rc t'. busy_hardware read_hardware drain_one (demo_mem_portal\<lparr>mp_requests := [replicate 16 0]\<rparr>)
       (int (fifo_addr 0)) = Inr (rc, t') \<and> rc = 0"
proof -
  let ?t = "demo_mem_portal\<lparr>mp_requests := [replicate 16 0]\<rparr>"
  have len: "length (mp_requests ((drain_one ^^ i) ?t)) = 1" for i
    by (induction i) (simp_all add: drain_one_def)
  have "length (mp_requests ((drain_one ^^ 1) ?t) ! 0) < mp_depth ((drain_one ^^ 1) ?t)"
    by (simp add: drain_one_def demo_mem_portal_def)
  then have "\<exists>i < 50. length (mp_requests ((drain_one ^^ i) ?t) ! 0) < mp_depth ((drain_one ^^ i) ?t)"
    by (intro exI [of _ 1]) simp
  then show ?thesis using busywait_fifty_polls [of 0 drain_one ?t] len by auto
qed

end
