(* ===== verification/Portal_Core.thy ===== *)
theory Portal_Core
  imports Mem_Portal
begin

text \<open>
  The rest of \<open>cpp/portal.c\<close> for user programs: creating a portal, opening the portal device,
  clock requests, tracing, the cycle counter, memory allocation and cache flushing.  The global
  variables of the file and the portals are one record; the calls of the operating system are the
  fields of \<open>'w os\<close>, where \<open>'w\<close> is the state of the system.  \<open>zynq\<close> selects between the two
  configurations of the sources.
\<close>

section \<open>State\<close>

datatype os_request =
    Portal_enable_interrupt u32 u32
  | Portal_set_fclk_rate int int
  | Portal_dcache_flush_inval int
  | Pa_malloc nat

text \<open>An \<open>ioctl\<close> answers with its result and what it stores in its argument.\<close>

record 'w os =
  os_open :: "'w \<Rightarrow> string \<Rightarrow> int \<times> 'w"
  os_read :: "'w \<Rightarrow> int \<Rightarrow> int \<times> char \<times> 'w"
  os_close :: "'w \<Rightarrow> int \<Rightarrow> 'w"
  os_ioctl :: "'w \<Rightarrow> int \<Rightarrow> os_request \<Rightarrow> int \<times> int \<times> 'w"
  os_mmap :: "'w \<Rightarrow> int \<Rightarrow> nat \<Rightarrow> int \<times> 'w"
  os_errno :: "'w \<Rightarrow> int"

datatype item_table = Bsim_item | Hardware_item | Given_item nat

record portal_obj =
  po_number :: int
  po_fd :: int
  po_base :: int
  po_handler :: "nat option"
  po_cb :: "nat option"
  po_item :: item_table
  po_muxid :: int
  po_reqsize :: u32

definition zero_portal :: portal_obj where
  "zero_portal = \<lparr>po_number = 0, po_fd = 0, po_base = 0, po_handler = None, po_cb = None,
     po_item = Given_item 0, po_muxid = 0, po_reqsize = 0\<rparr>"

record 'w pcore =
  pc_once :: bool
  pc_pa_fd :: int
  pc_utility :: "nat option"
  pc_portals :: "nat \<rightharpoonup> portal_obj"
  pc_os :: 'w

definition init_portal_hw :: "'w pcore \<Rightarrow> 'w pcore" where
  "init_portal_hw g = (if pc_once g then g else g\<lparr>pc_once := True\<rparr>)"

section \<open>Opening the device\<close>

definition P_PORTAL_BASE_OFFSET :: nat where "P_PORTAL_BASE_OFFSET = 2 ^ 16"

definition MAP_FAILED :: int where "MAP_FAILED = - 1"

definition portalMmap :: "'w os \<Rightarrow> 'w \<Rightarrow> int \<Rightarrow> nat \<Rightarrow> int \<times> 'w" where
  "portalMmap K w fd sz = os_mmap K w fd sz"

text \<open>The file that says whether the FPGA is programmed has three names.\<close>

definition open_prog_done :: "'w os \<Rightarrow> 'w \<Rightarrow> int \<times> 'w" where
  "open_prog_done K w =
     (case os_open K w ''/sys/devices/amba.0/f8007000.devcfg/prog_done'' of (pgfile, w) \<Rightarrow>
      if pgfile \<noteq> - 1 then (pgfile, w)
      else case os_open K w ''/sys/devices/amba.2/f8007000.devcfg/prog_done'' of (pgfile, w) \<Rightarrow>
        if pgfile \<noteq> - 1 then (pgfile, w)
        else os_open K w ''/sys/devices/amba.0/f8007000.ps7-dev-cfg/prog_done'')"

definition map_portal :: "'w os \<Rightarrow> portal_obj \<Rightarrow> 'w \<Rightarrow> int \<times> portal_obj \<times> 'w" where
  "map_portal K p w =
     (if po_fd p < 0 then (- os_errno K w, p, w)
      else case portalMmap K w (po_fd p) P_PORTAL_BASE_OFFSET of (base, w) \<Rightarrow>
        (if base = MAP_FAILED then - os_errno K w else 0, p\<lparr>po_base := base\<rparr>, w))"

definition init_hardware :: "'w os \<Rightarrow> bool \<Rightarrow> portal_obj \<Rightarrow> 'w \<Rightarrow> int \<times> portal_obj \<times> 'w" where
  "init_hardware K zynq p w =
     (let buff = ''/dev/portal'' @ show_int (po_number p) in
      if zynq then
        (case open_prog_done K w of (pgfile, w) \<Rightarrow>
         if pgfile = - 1 then (- 1, p, w)
         else case os_read K w pgfile of (n, read_status, w) \<Rightarrow>
           if n \<noteq> 1 \<or> read_status \<noteq> CHR ''1'' then (- ENODEV, p, w)
           else
             (let w = os_close K w pgfile in
              case os_open K w buff of (fd, w) \<Rightarrow>
              case os_ioctl K w fd (Portal_enable_interrupt (3 * 2 ^ 14) (3 * 2 ^ 14 + 4)) of (_, _, w) \<Rightarrow>
                map_portal K (p\<lparr>po_fd := fd\<rparr>) w))
      else case os_open K w buff of (fd, w) \<Rightarrow> map_portal K (p\<lparr>po_fd := fd\<rparr>) w)"

text \<open>
  \<open>init_portal_internal\<close> calls the initialisation of the transport the caller names, or of the
  default one.  \<open>other\<close> is the initialisation of the transports other than the hardware one.
\<close>

type_synonym 'w item_init = "item_table \<Rightarrow> portal_obj \<Rightarrow> 'w \<Rightarrow> int \<times> portal_obj \<times> 'w"

definition call_init :: "'w os \<Rightarrow> bool \<Rightarrow> 'w item_init \<Rightarrow> 'w item_init" where
  "call_init K zynq other i p w = (if i = Hardware_item then init_hardware K zynq p w else other i p w)"

definition init_portal_internal ::
  "'w os \<Rightarrow> bool \<Rightarrow> bool \<Rightarrow> 'w item_init \<Rightarrow> nat \<Rightarrow> int \<Rightarrow> nat option \<Rightarrow> nat option \<Rightarrow> nat option \<Rightarrow> u32 \<Rightarrow>
   'w pcore \<Rightarrow> 'w pcore result" where
  "init_portal_internal K zynq bsim other pint ident handler cb item reqsize g =
     (let g = init_portal_hw g;
          g = (if pc_utility g = None then g\<lparr>pc_utility := Some pint\<rparr> else g);
          i = (case item of Some n \<Rightarrow> Given_item n | None \<Rightarrow> if bsim then Bsim_item else Hardware_item);
          p = zero_portal\<lparr>po_number := ident, po_fd := - 1, po_handler := handler, po_cb := cb, po_item := i,
                po_muxid := - 1, po_reqsize := reqsize\<rparr> in
      case call_init K zynq other i p (pc_os g) of (rc, p, w) \<Rightarrow>
        if rc \<noteq> 0 then Inl (Exit 1)
        else Inr (g\<lparr>pc_portals := (pc_portals g)(pint \<mapsto> p), pc_os := w\<rparr>))"

section \<open>Services\<close>

definition utility_fd :: "'w pcore \<Rightarrow> int option" where
  "utility_fd g = (case pc_utility g of None \<Rightarrow> None | Some u \<Rightarrow> map_option po_fd (pc_portals g u))"

text \<open>\<open>setClockFrequency\<close>: status, and the actual frequency if it was stored.\<close>

definition setClockFrequency ::
  "'w os \<Rightarrow> bool \<Rightarrow> int \<Rightarrow> int \<Rightarrow> 'w pcore \<Rightarrow> int \<times> int option \<times> 'w pcore" where
  "setClockFrequency K zynq clkNum requestedFrequency g =
     (let g = init_portal_hw g in
      if \<not> zynq then (0, None, g)
      else case utility_fd g of
          None \<Rightarrow> (- 1, None, g)
        | Some fd \<Rightarrow>
            (case os_ioctl K (pc_os g) fd (Portal_set_fclk_rate clkNum requestedFrequency) of (status, actual, w) \<Rightarrow>
               (if status < 0 then os_errno K w else status, if status = 0 then Some actual else None,
                g\<lparr>pc_os := w\<rparr>)))"

definition portalTrace_start :: "bool \<Rightarrow> 'w pcore \<Rightarrow> 'w pcore result" where
  "portalTrace_start zynq g = (let g = init_portal_hw g in if zynq then Inr g else Inl AssertFailed)"

definition portalTrace_stop :: "bool \<Rightarrow> 'w pcore \<Rightarrow> 'w pcore result" where
  "portalTrace_stop zynq g = (let g = init_portal_hw g in if zynq then Inr g else Inl AssertFailed)"

text \<open>
  \<open>portalCycleCount\<close>: \<open>rdf\<close> reads through the utility portal, whose device is \<open>t\<close>; \<open>env\<close> is
  what happens on the device between the two reads.
\<close>

definition portalCycleCount ::
  "('t \<Rightarrow> ptr \<Rightarrow> (u32 \<times> ptr \<times> 't) result) \<Rightarrow> ('t \<Rightarrow> 't) \<Rightarrow> 't \<Rightarrow> 'w pcore \<Rightarrow> (u64 \<times> 't \<times> 'w pcore) result" where
  "portalCycleCount rdf env t g =
     (if pc_utility g = None then Inr (0, t, g)
      else
        (let g = init_portal_hw g in
         rbind (rdf t 6) (\<lambda>(high_bits, _, t).
         rbind (rdf (env t) 7) (\<lambda>(low_bits, _, t).
           Inr (push_bit 32 (ucast high_bits) OR ucast low_bits, t, g)))))"

text \<open>\<open>portalDCacheFlushInval\<close> on ARM asks the driver, on x86 it flushes every byte.\<close>

definition portalDCacheFlushInval_arm :: "'w os \<Rightarrow> int \<Rightarrow> 'w pcore \<Rightarrow> int \<times> 'w pcore" where
  "portalDCacheFlushInval_arm K fd g =
     (case utility_fd g of
        None \<Rightarrow> (- 1, g)
      | Some ufd \<Rightarrow> (case os_ioctl K (pc_os g) ufd (Portal_dcache_flush_inval fd) of (rc, _, w) \<Rightarrow> (rc, g\<lparr>pc_os := w\<rparr>)))"

fun clflush_loop :: "nat \<Rightarrow> nat \<Rightarrow> nat \<Rightarrow> nat list" where
  "clflush_loop p i 0 = []"
| "clflush_loop p i (Suc n) = (p + i) # clflush_loop p (Suc i) n"

definition portalDCacheFlushInval_x86 :: "nat \<Rightarrow> nat \<Rightarrow> int \<times> nat list" where
  "portalDCacheFlushInval_x86 sz p = (0, clflush_loop p 0 sz)"

definition init_portal_memory :: "'w os \<Rightarrow> 'w pcore \<Rightarrow> 'w pcore result" where
  "init_portal_memory K g =
     (let g = (if pc_pa_fd g = - 1
               then (case os_open K (pc_os g) ''/dev/portalmem'' of (fd, w) \<Rightarrow> g\<lparr>pc_pa_fd := fd, pc_os := w\<rparr>)
               else g) in
      if pc_pa_fd g < 0 then Inl (Exit ENODEV) else Inr g)"

definition portalAlloc :: "'w os \<Rightarrow> nat \<Rightarrow> 'w pcore \<Rightarrow> (int \<times> 'w pcore) result" where
  "portalAlloc K sz g =
     rbind (init_portal_memory K g) (\<lambda>g.
       case os_ioctl K (pc_os g) (pc_pa_fd g) (Pa_malloc sz) of (fd, _, w) \<Rightarrow> Inr (fd, g\<lparr>pc_os := w\<rparr>))"

section \<open>Descriptors\<close>

text \<open>
  What the sources rely on of the system: \<open>fds\<close> is the set of open descriptors; \<open>open\<close> gives a
  fresh one or -1, \<open>close\<close> gives it back, the other calls keep the set.
\<close>

definition tracks_fds :: "'w os \<Rightarrow> ('w \<Rightarrow> int set) \<Rightarrow> bool" where
  "tracks_fds K fds \<longleftrightarrow>
     (\<forall>w f fd w'. os_open K w f = (fd, w') \<longrightarrow>
        (if fd < 0 then fd = - 1 \<and> fds w' = fds w else fd \<notin> fds w \<and> fds w' = insert fd (fds w))) \<and>
     (\<forall>w fd. fds (os_close K w fd) = fds w - {fd}) \<and>
     (\<forall>w fd n c w'. os_read K w fd = (n, c, w') \<longrightarrow> fds w' = fds w) \<and>
     (\<forall>w fd r n a w'. os_ioctl K w fd r = (n, a, w') \<longrightarrow> fds w' = fds w) \<and>
     (\<forall>w fd sz b w'. os_mmap K w fd sz = (b, w') \<longrightarrow> fds w' = fds w)"

lemma tracks_open: "tracks_fds K fds \<Longrightarrow> os_open K w f = (fd, w') \<Longrightarrow>
    if fd < 0 then fd = - 1 \<and> fds w' = fds w else fd \<notin> fds w \<and> fds w' = insert fd (fds w)"
  by (drule tracks_fds_def [THEN iffD1, THEN conjunct1, rule_format, of K fds w f fd w']) simp_all

lemma tracks_close: "tracks_fds K fds \<Longrightarrow> fds (os_close K w fd) = fds w - {fd}"
  by (simp add: tracks_fds_def)

lemma tracks_keep:
  assumes "tracks_fds K fds"
  shows "os_read K w fd = (n, c, w') \<Longrightarrow> fds w' = fds w"
    and "os_ioctl K w fd r = (m, a, w') \<Longrightarrow> fds w' = fds w"
    and "os_mmap K w fd sz = (b, w') \<Longrightarrow> fds w' = fds w"
  using assms by (simp_all add: tracks_fds_def)

lemma map_portal_keep:
  assumes "tracks_fds K fds" and "map_portal K p w = (rc, p', w')"
  shows "fds w' = fds w" and "po_fd p' = po_fd p" and "rc = 0 \<Longrightarrow> os_errno K w \<noteq> 0 \<Longrightarrow> 0 \<le> po_fd p"
proof -
  obtain b w1 where m: "os_mmap K w (po_fd p) P_PORTAL_BASE_OFFSET = (b, w1)" by (metis surj_pair)
  note eq = assms(2) [unfolded map_portal_def portalMmap_def m prod.case]
  show "fds w' = fds w" using eq tracks_keep(3) [OF assms(1) m] by (simp split: if_splits)
  show "po_fd p' = po_fd p" using eq by (auto split: if_splits)
  show "rc = 0 \<Longrightarrow> os_errno K w \<noteq> 0 \<Longrightarrow> 0 \<le> po_fd p" using eq by (auto split: if_splits)
qed

lemma open_map_portal:
  assumes "tracks_fds K fds" and "\<And>w. os_errno K w \<noteq> 0" and "os_open K w f = (fd, w1)"
    and "fds w2 = fds w1" and "map_portal K (p\<lparr>po_fd := fd\<rparr>) w2 = (0, p', w')"
  shows "0 \<le> po_fd p' \<and> po_fd p' \<notin> fds w \<and> fds w' = insert (po_fd p') (fds w)"
proof -
  note k = map_portal_keep [OF assms(1,5)]
  have "po_fd p' = fd" "0 \<le> fd" "fds w' = fds w1" using k(1,2) k(3) [OF refl assms(2)] assms(4) by simp_all
  with tracks_open [OF assms(1,3)] show ?thesis by simp
qed

lemma open_prog_done_fds:
  assumes "tracks_fds K fds" and "open_prog_done K w = (fd, w')"
  shows "fd = - 1 \<and> fds w' = fds w \<or> fd \<noteq> - 1 \<and> fd \<notin> fds w \<and> fds w' = insert fd (fds w)"
proof -
  have op: "fd = - 1 \<and> fds w' = fds w \<or> fd \<noteq> - 1 \<and> fd \<notin> fds w \<and> fds w' = insert fd (fds w)"
    if "os_open K w f = (fd, w')" for w f fd w'
    using tracks_open [OF assms(1) that] by (auto split: if_splits)
  obtain fd1 w1 where 1: "os_open K w ''/sys/devices/amba.0/f8007000.devcfg/prog_done'' = (fd1, w1)" by (metis surj_pair)
  obtain fd2 w2 where 2: "os_open K w1 ''/sys/devices/amba.2/f8007000.devcfg/prog_done'' = (fd2, w2)" by (metis surj_pair)
  note eq = assms(2) [unfolded open_prog_done_def 1 prod.case 2]
  show ?thesis
  proof (cases "fd1 = - 1")
    case False
    then show ?thesis using eq op [OF 1] by simp
  next
    case f1: True
    show ?thesis
    proof (cases "fd2 = - 1")
      case False
      then show ?thesis using eq f1 op [OF 1] op [OF 2] by simp
    next
      case True
      then have "os_open K w2 ''/sys/devices/amba.0/f8007000.ps7-dev-cfg/prog_done'' = (fd, w')" using eq f1 by simp
      from op [OF this] show ?thesis using f1 True op [OF 1] op [OF 2] by simp
    qed
  qed
qed

text \<open>
  On both platforms, opening a portal device that succeeds leaves exactly one more descriptor
  open, the one stored in the portal: the file that tells whether the FPGA is programmed is closed.
\<close>

theorem init_hardware_one_descriptor:
  assumes "tracks_fds K fds" and "\<And>w. os_errno K w \<noteq> 0" and "init_hardware K zynq p w = (0, p', w')"
  shows "0 \<le> po_fd p' \<and> po_fd p' \<notin> fds w \<and> fds w' = insert (po_fd p') (fds w)"
proof (cases zynq)
  case False
  obtain fd w1 where op: "os_open K w (''/dev/portal'' @ show_int (po_number p)) = (fd, w1)" by fastforce
  with assms(3) False have "map_portal K (p\<lparr>po_fd := fd\<rparr>) w1 = (0, p', w')" by (simp add: init_hardware_def)
  with open_map_portal [OF assms(1,2) op refl] show ?thesis by blast
next
  case True
  obtain pg w0 n c w1 where pg: "open_prog_done K w = (pg, w0)" and rd: "os_read K w0 pg = (n, c, w1)"
    by (metis prod_cases3 surj_pair)
  obtain fd w2 r a w3 where op: "os_open K (os_close K w1 pg) (''/dev/portal'' @ show_int (po_number p)) = (fd, w2)"
    and io: "os_ioctl K w2 fd (Portal_enable_interrupt (3 * 2 ^ 14) (3 * 2 ^ 14 + 4)) = (r, a, w3)"
    by (metis prod_cases3 surj_pair)
  from assms(3) True have ok: "pg \<noteq> - 1" "map_portal K (p\<lparr>po_fd := fd\<rparr>) w3 = (0, p', w')"
    using pg rd op io by (auto simp: init_hardware_def ENODEV_def split: if_splits)
  have "fds (os_close K w1 pg) = fds w"
    using open_prog_done_fds [OF assms(1) pg] ok(1) tracks_keep(1) [OF assms(1) rd] tracks_close [OF assms(1), of w1 pg]
    by auto
  with open_map_portal [OF assms(1,2) op tracks_keep(2) [OF assms(1) io] ok(2)] show ?thesis by simp
qed

text \<open>A system whose descriptors are counted, for evaluation.\<close>

definition demo_os :: "(int list) os" where
  "demo_os = \<lparr>os_open = (\<lambda>w f. let fd = fold max w (- 1) + 1 in (fd, fd # w)), os_read = (\<lambda>w fd. (1, CHR ''1'', w)),
     os_close = (\<lambda>w fd. filter (\<lambda>x. x \<noteq> fd) w), os_ioctl = (\<lambda>w fd r. (0, 0, w)), os_mmap = (\<lambda>w fd sz. (4096, w)),
     os_errno = (\<lambda>w. 5)\<rparr>"

lemma fold_max_ge: "a \<le> fold max w (a :: int)"
proof (induction w arbitrary: a)
  case (Cons x w)
  show ?case using Cons.IH [of "max x a"] by simp
qed simp

lemma fold_max_bound: "x \<in> set w \<Longrightarrow> x \<le> fold max w (a :: int)"
proof (induction w arbitrary: a)
  case (Cons y w)
  then show ?case using fold_max_ge [of "max y a" w] by auto
qed simp

lemma demo_os_tracks: "tracks_fds demo_os set"
proof -
  define fresh :: "int list \<Rightarrow> int" where "fresh w = fold max w (- 1) + 1" for w
  have 1: "fresh w \<notin> set w" for w using fold_max_bound [of "fresh w" w "- 1"] by (auto simp: fresh_def)
  have 2: "\<not> fresh w < 0" for w using fold_max_ge [of "- 1" w] by (simp add: fresh_def)
  have 3: "os_open demo_os w f = (fresh w, fresh w # w)" for w f by (simp add: demo_os_def fresh_def Let_def)
  have 4: "set (os_close demo_os w fd) = set w - {fd}" for w fd by (auto simp: demo_os_def)
  have 5: "os_read demo_os w fd = (1, CHR ''1'', w)" "os_ioctl demo_os w fd r = (0, 0, w)" "os_mmap demo_os w fd sz = (4096, w)"
    for w fd r sz by (simp_all add: demo_os_def)
  show ?thesis unfolding tracks_fds_def 3 4 5 using 1 2 by auto
qed

theorem init_hardware_one_descriptor_witness:
  "0 \<le> po_fd (fst (snd (init_hardware demo_os True (zero_portal\<lparr>po_number := 3\<rparr>) [7]))) \<and>
   po_fd (fst (snd (init_hardware demo_os True (zero_portal\<lparr>po_number := 3\<rparr>) [7]))) \<notin> {7} \<and>
   set (snd (snd (init_hardware demo_os True (zero_portal\<lparr>po_number := 3\<rparr>) [7]))) =
   insert (po_fd (fst (snd (init_hardware demo_os True (zero_portal\<lparr>po_number := 3\<rparr>) [7])))) {7}"
proof -
  have eq: "init_hardware demo_os True (zero_portal\<lparr>po_number := 3\<rparr>) [7] =
     (0, zero_portal\<lparr>po_number := 3, po_fd := 8, po_base := 4096\<rparr>, [8, 7])"
    by (simp add: init_hardware_def open_prog_done_def map_portal_def portalMmap_def demo_os_def MAP_FAILED_def Let_def)
  have err: "os_errno demo_os w \<noteq> 0" for w by (simp add: demo_os_def)
  from init_hardware_one_descriptor [OF demo_os_tracks err eq] show ?thesis unfolding eq by simp
qed

section \<open>Portals and the utility portal\<close>

text \<open>The first portal created is the utility portal from then on, also when it is created again.\<close>

lemma utility_stays:
  assumes "init_portal_internal K zynq bsim other pint ident h cb item reqsize g = Inr g'"
  shows "pc_utility g' = (case pc_utility g of None \<Rightarrow> Some pint | Some u \<Rightarrow> Some u)"
  using assms by (auto simp: init_portal_internal_def init_portal_hw_def Let_def split: prod.splits if_splits option.splits)

lemma clflush_all: "clflush_loop p i n = [p + i..<p + i + n]"
  by (induction n arbitrary: i) (simp_all add: upt_conv_Cons)

text \<open>
  C28: The cycle count is the value the 64-bit counter had when its upper half was read, however far
  the counter goes before the lower half is read: the hardware keeps the lower half.
\<close>

theorem cycle_count_is_consistent:
  assumes "pc_utility g = Some u" and "\<forall>d. mp_snapshot (env d) = mp_snapshot d"
  shows "\<exists>t'. portalCycleCount read_hardware env t g = Inr (mp_count t, t', init_portal_hw g)"
proof -
  have sel: "mp_select d 24 = 0" "mp_select d 28 = 0" for d by (simp_all add: mp_select_def)
  have "push_bit 32 (ucast (ucast (drop_bit 32 x) :: u32)) OR ucast (ucast x :: u32) = (x :: u64)" for x
    using join64_hi_lo [of x] by (simp add: join64_def hi32_def lo32_def)
  with assms show ?thesis
    by (simp add: portalCycleCount_def read_hardware_def mp_read_def sel ctrl_read_def Let_def)
qed

theorem cycle_count_is_consistent_witness:
  "\<exists>t'. portalCycleCount read_hardware (\<lambda>d. d\<lparr>mp_count := mp_count d + 1\<rparr>)
     (demo_mem_portal\<lparr>mp_count := 0x1FFFFFFFF\<rparr>) \<lparr>pc_once = False, pc_pa_fd = - 1, pc_utility = Some 0, pc_portals = Map.empty, pc_os = ()\<rparr> =
   Inr (0x1FFFFFFFF, t', \<lparr>pc_once = True, pc_pa_fd = - 1, pc_utility = Some 0, pc_portals = Map.empty, pc_os = ()\<rparr>)"
  using cycle_count_is_consistent [where u = 0 and env = "\<lambda>d. d\<lparr>mp_count := mp_count d + 1\<rparr>" and
      t = "demo_mem_portal\<lparr>mp_count := 0x1FFFFFFFF\<rparr>" and
      g = "\<lparr>pc_once = False, pc_pa_fd = - 1, pc_utility = Some 0, pc_portals = Map.empty, pc_os = ()\<rparr>"]
  by (simp add: init_portal_hw_def)

end
