(* ===== verification/Bsim.thy ===== *)
theory Bsim
  imports Mem_Portal Socket_Portal
begin

text \<open>
  Portals of a simulated design.  The program (\<open>cpp/portalSocket.c\<close>) sends reads and writes of
  registers as structures over a socket to the simulator (\<open>cpp/BsimCtrl.cxx\<close>), whose top level
  (\<open>bsv/BsimTop.bsv\<close>) performs them on the portals.  The state is the program's side, the
  simulator's side and the system between them.
\<close>

section \<open>The structures on the socket\<close>

record memrequest =
  mr_portal :: u32
  mr_write_flag :: u32
  mr_addr :: u64
  mr_data :: u32

record memresponse =
  ms_portal :: u32
  ms_data :: u32
  ms_tag :: u32

definition MAX_BSIM_PORTAL_ID :: nat where "MAX_BSIM_PORTAL_ID = 128"

definition MAGIC_PORTAL_FOR_SENDING_INTERRUPT :: u32 where "MAGIC_PORTAL_FOR_SENDING_INTERRUPT = 999"

text \<open>Their words in memory; the last word of a request is padding.\<close>

definition request_words :: "memrequest \<Rightarrow> u32 list" where
  "request_words q = [mr_portal q, mr_write_flag q, lo32 (mr_addr q), hi32 (mr_addr q), mr_data q, 0]"

definition words_request :: "u32 list \<Rightarrow> memrequest" where
  "words_request m = \<lparr>mr_portal = m ! 0, mr_write_flag = m ! 1, mr_addr = join64 (m ! 3) (m ! 2), mr_data = m ! 4\<rparr>"

definition response_words :: "memresponse \<Rightarrow> u32 list" where
  "response_words r = [ms_portal r, ms_data r, ms_tag r]"

definition words_response :: "u32 list \<Rightarrow> memresponse" where
  "words_response m = \<lparr>ms_portal = m ! 0, ms_data = m ! 1, ms_tag = m ! 2\<rparr>"

lemma request_roundtrip [simp]: "words_request (request_words q) = q"
  by (simp add: words_request_def request_words_def join64_hi_lo numeral_eq_Suc)

lemma response_roundtrip [simp]: "words_response (response_words r) = r"
  by (simp add: words_response_def response_words_def numeral_eq_Suc)

lemma length_struct_words [simp]: "length (request_words q) = 6" "length (response_words r) = 3"
  by (simp_all add: request_words_def response_words_def)

lemma memresponse_update: "(r :: memresponse)\<lparr>ms_portal := a, ms_data := b, ms_tag := c\<rparr> = \<lparr>ms_portal = a, ms_data = b, ms_tag = c\<rparr>"
  by (cases r) simp

lemma struct_words_nonempty [simp]: "request_words q \<noteq> []" "response_words r \<noteq> []"
  by (simp_all add: request_words_def response_words_def)

section \<open>State\<close>

record bsim_client =
  bc_sockfd :: int
  bc_response :: memresponse
  bc_response_valid :: bool
  bc_interrupt :: u32
  bc_tag :: u32
  bc_map :: "(u32 \<times> u32) list"

record bsim_sim =
  bs_fds :: "int list"
  bs_req :: memrequest
  bs_sockfd :: int
  bs_valid :: bool
  bs_inflight :: bool
  bs_resp :: memresponse
  bs_level :: u32
  bs_portals :: "mem_portal list"

record 'k bsim =
  bw_client :: bsim_client
  bw_sim :: bsim_sim
  bw_net :: 'k

section \<open>The simulator\<close>

text \<open>The portals of a design share one address space (\<open>bsv/CtrlMux.bsv\<close>), 64 KB each.\<close>

definition top_select :: "mem_portal list \<Rightarrow> nat \<Rightarrow> nat" where
  "top_select ps addr = ((addr div 2 ^ 16) mod 16) mod 2 ^ clog2 (length ps)"

definition top_read :: "mem_portal list \<Rightarrow> nat \<Rightarrow> (u32 \<times> mem_portal list) result" where
  "top_read ps addr =
     (let i = top_select ps addr in
      if i < length ps then rbind (mp_read (ps ! i) (addr mod 2 ^ 16)) (\<lambda>(v, d). Inr (v, ps[i := d]))
      else Inl OutOfBounds)"

definition top_write :: "mem_portal list \<Rightarrow> nat \<Rightarrow> u32 \<Rightarrow> mem_portal list result" where
  "top_write ps addr v =
     (let i = top_select ps addr in
      if i < length ps then rbind (mp_write (ps ! i) (addr mod 2 ^ 16) v) (\<lambda>d. Inr (ps[i := d]))
      else Inl OutOfBounds)"

definition intr_mux :: "mem_portal list \<Rightarrow> u32" where
  "intr_mux ps = (if list_ex mp_interrupt ps then 1 else 0)"

text \<open>
  \<open>pthread_worker\<close>: one round of the thread that takes connections; \<open>accept\<close> gives the
  descriptor, -1 for an error.
\<close>

definition MAX_FD_ARRAY :: nat where "MAX_FD_ARRAY = 10"

definition accept_connection :: "int \<Rightarrow> bsim_sim \<Rightarrow> bsim_sim result" where
  "accept_connection sockfd s =
     (if sockfd = - 1 then Inl (Exit 1)
      else if length (bs_fds s) < MAX_FD_ARRAY then Inr (s\<lparr>bs_fds := bs_fds s @ [sockfd]\<rparr>)
      else Inl OutOfBounds)"

text \<open>\<open>checkForRequest\<close>: take a request from the first connection that has one.\<close>

fun check_fds :: "'k sockets \<Rightarrow> int list \<Rightarrow> bsim_sim \<Rightarrow> 'k \<Rightarrow> (bsim_sim \<times> 'k) result" where
  "check_fds S [] s k = Inr (s, k)"
| "check_fds S (fd # fds) s k =
     rbind (portalRecvFd S k fd (request_words (bs_req s)) 0 6) (\<lambda>(rv, _, recvfd, m, k).
       let s = s\<lparr>bs_sockfd := fd, bs_req := words_request m\<rparr> in
       if rv > 0 then
         rbind (rassert (rv = 24) AssertFailed) (\<lambda>_.
           Inr (s\<lparr>bs_resp := (bs_resp s)\<lparr>ms_portal := mr_portal (bs_req s)\<rparr>, bs_valid := True, bs_inflight := True,
                  bs_req := (if recvfd \<noteq> - 1 then (bs_req s)\<lparr>mr_data := of_int recvfd\<rparr> else bs_req s)\<rparr>, k))
       else check_fds S fds s k)"

definition checkForRequest :: "'k sockets \<Rightarrow> u32 \<Rightarrow> bsim_sim \<Rightarrow> 'k \<Rightarrow> (bool \<times> bsim_sim \<times> 'k) result" where
  "checkForRequest S rr s k =
     rbind (if bs_valid s then Inr (s, k) else check_fds S (bs_fds s) s k) (\<lambda>(s, k).
       Inr (bs_valid s \<and> bs_inflight s \<and> mr_write_flag (bs_req s) = rr, s, k))"

definition getRequest32 :: "u32 \<Rightarrow> bsim_sim \<Rightarrow> u64 \<times> bsim_sim" where
  "getRequest32 rr s =
     (push_bit 32 (ucast (mr_data (bs_req s))) OR mr_addr (bs_req s),
      s\<lparr>bs_valid := (if rr \<noteq> 0 then False else bs_valid s), bs_inflight := False\<rparr>)"

definition readResponse32 :: "'k sockets \<Rightarrow> u32 \<Rightarrow> u32 \<Rightarrow> bsim_sim \<Rightarrow> 'k \<Rightarrow> (bsim_sim \<times> 'k) result" where
  "readResponse32 S data tag s k =
     (let s = s\<lparr>bs_valid := False, bs_resp := (bs_resp s)\<lparr>ms_data := data, ms_tag := tag\<rparr>\<rparr> in
      rbind (portalSendFd S k (bs_sockfd s) (response_words (bs_resp s)) (- 1)) (\<lambda>k. Inr (s, k)))"

text \<open>\<open>interruptLevel\<close>: every connection is told when the level changes.  \<open>tag\<close> is the unused tag.\<close>

fun send_all :: "'k sockets \<Rightarrow> int list \<Rightarrow> u32 list \<Rightarrow> 'k \<Rightarrow> 'k result" where
  "send_all S [] ws k = Inr k"
| "send_all S (fd # fds) ws k = rbind (portalSendFd S k fd ws (- 1)) (\<lambda>k. send_all S fds ws k)"

definition interrupt_message :: "u32 \<Rightarrow> memresponse" where
  "interrupt_message v = \<lparr>ms_portal = MAGIC_PORTAL_FOR_SENDING_INTERRUPT, ms_data = v, ms_tag = 0\<rparr>"

definition interruptLevel :: "'k sockets \<Rightarrow> u32 \<Rightarrow> bsim_sim \<Rightarrow> 'k \<Rightarrow> (bsim_sim \<times> 'k) result" where
  "interruptLevel S ivalue s k =
     (if ivalue \<noteq> bs_level s
      then rbind (send_all S (bs_fds s) (response_words (interrupt_message ivalue)) k) (\<lambda>k.
             Inr (s\<lparr>bs_level := ivalue\<rparr>, k))
      else Inr (s, k))"

text \<open>
  The top level takes a read or a write request, performs it and answers a read; the interrupt
  level is reported all the time.  A request and its answer are one step.
\<close>

definition sim_request :: "'k sockets \<Rightarrow> bsim_sim \<Rightarrow> 'k \<Rightarrow> (bsim_sim \<times> 'k) result" where
  "sim_request S s k =
     rbind (checkForRequest S 0 s k) (\<lambda>(readable, s, k).
     if readable then
       (case getRequest32 0 s of (ra, s) \<Rightarrow>
          rbind (top_read (bs_portals s) (unat (lo32 ra))) (\<lambda>(v, ps).
            readResponse32 S v (hi32 ra AND 63) (s\<lparr>bs_portals := ps\<rparr>) k))
     else
       rbind (checkForRequest S 1 s k) (\<lambda>(writable, s, k).
       if writable then
         (case getRequest32 1 s of (wd, s) \<Rightarrow>
            rbind (top_write (bs_portals s) (unat (lo32 wd)) (hi32 wd)) (\<lambda>ps. Inr (s\<lparr>bs_portals := ps\<rparr>, k)))
       else Inr (s, k)))"

definition sim_step :: "'k sockets \<Rightarrow> 'k bsim \<Rightarrow> 'k bsim result" where
  "sim_step S w =
     rbind (sim_request S (bw_sim w) (bw_net w)) (\<lambda>(s, k).
     rbind (interruptLevel S (intr_mux (bs_portals s)) s k) (\<lambda>(s, k). Inr (w\<lparr>bw_sim := s, bw_net := k\<rparr>)))"

section \<open>The program\<close>

definition poll_response :: "'k sockets \<Rightarrow> u32 \<Rightarrow> 'k bsim \<Rightarrow> (bool \<times> 'k bsim) result" where
  "poll_response S ident w =
     (let c = bw_client w in
      rbind
        (if bc_response_valid c then Inr w
         else
           rbind (portalRecvFd S (bw_net w) (bc_sockfd c) (response_words (bc_response c)) 0 3) (\<lambda>(rc, _, _, m, k).
             let r = words_response m; c = c\<lparr>bc_response := r\<rparr> in
             Inr (w\<lparr>bw_client :=
                    (if rc = 12
                     then (if ms_portal r = MAGIC_PORTAL_FOR_SENDING_INTERRUPT then c\<lparr>bc_interrupt := ms_data r\<rparr>
                           else c\<lparr>bc_response_valid := True\<rparr>)
                     else c), bw_net := k\<rparr>)))
        (\<lambda>w. let c = bw_client w in Inr (bc_response_valid c \<and> ms_portal (bc_response c) = ident, w)))"

definition bsim_poll_interrupt :: "'k sockets \<Rightarrow> 'k bsim \<Rightarrow> (u32 \<times> 'k bsim) result" where
  "bsim_poll_interrupt S w =
     (if bc_sockfd (bw_client w) = - 1 then Inr (0, w)
      else rbind (poll_response S (- 1) w) (\<lambda>(_, w). Inr (bc_interrupt (bw_client w), w)))"

text \<open>\<open>env\<close> is what the rest of the world does while the program sleeps.\<close>

partial_function (option) response_loop ::
  "'k sockets \<Rightarrow> ('k bsim \<Rightarrow> 'k bsim result) \<Rightarrow> u32 \<Rightarrow> 'k bsim \<Rightarrow> 'k bsim result option" where
  "response_loop S env ident w =
     (case poll_response S ident w of
        Inl e \<Rightarrow> Some (Inl e)
      | Inr (b, w) \<Rightarrow>
          if b then Some (Inr w)
          else (case env w of Inl e \<Rightarrow> Some (Inl e) | Inr w \<Rightarrow> response_loop S env ident w))"

text \<open>
  A portal of the program: its number in the design and its base address, of which the pointers of
  the model are word offsets.
\<close>

definition bsim_addr :: "nat \<Rightarrow> ptr \<Rightarrow> u64" where
  "bsim_addr n p = of_int (int n * 2 ^ 16 + 4 * p)"

definition send_request :: "'k sockets \<Rightarrow> memrequest \<Rightarrow> int \<Rightarrow> 'k bsim \<Rightarrow> 'k bsim result" where
  "send_request S q fd w =
     rbind (portalSendFd S (bw_net w) (bc_sockfd (bw_client w)) (request_words q) fd) (\<lambda>k. Inr (w\<lparr>bw_net := k\<rparr>))"

definition read_portal_bsim ::
  "'k sockets \<Rightarrow> ('k bsim \<Rightarrow> 'k bsim result) \<Rightarrow> nat \<Rightarrow> 'k bsim \<Rightarrow> ptr \<Rightarrow> (u32 \<times> ptr \<times> 'k bsim) result" where
  "read_portal_bsim S env n w addr =
     (let c = bw_client w;
          foo = \<lparr>mr_portal = of_nat n, mr_write_flag = 0, mr_addr = bsim_addr n addr, mr_data = bc_tag c\<rparr> in
      rbind (send_request S foo (- 1) (w\<lparr>bw_client := c\<lparr>bc_tag := bc_tag c + 1\<rparr>\<rparr>)) (\<lambda>w.
      rbind (case response_loop S env (of_nat n) w of None \<Rightarrow> Inl NoReturn | Some r \<Rightarrow> r) (\<lambda>w.
        Inr (ms_data (bc_response (bw_client w)), addr, w\<lparr>bw_client := (bw_client w)\<lparr>bc_response_valid := False\<rparr>\<rparr>))))"

definition write_portal_bsim :: "'k sockets \<Rightarrow> nat \<Rightarrow> 'k bsim \<Rightarrow> ptr \<Rightarrow> u32 \<Rightarrow> (ptr \<times> 'k bsim) result" where
  "write_portal_bsim S n w addr v =
     rbind (send_request S \<lparr>mr_portal = of_nat n, mr_write_flag = 1, mr_addr = bsim_addr n addr, mr_data = v\<rparr> (- 1) w)
       (\<lambda>w. Inr (addr, w))"

definition write_portal_fd_bsim :: "'k sockets \<Rightarrow> nat \<Rightarrow> 'k bsim \<Rightarrow> ptr \<Rightarrow> u32 \<Rightarrow> (ptr \<times> 'k bsim) result" where
  "write_portal_fd_bsim S n w addr v =
     rbind (send_request S \<lparr>mr_portal = of_nat n, mr_write_flag = 1, mr_addr = bsim_addr n addr, mr_data = v\<rparr> (sint v) w)
       (\<lambda>w. Inr (addr, w))"

text \<open>\<open>event_portal_bsim\<close>; a simulated portal has no file descriptor of its own.\<close>

definition event_portal_bsim ::
  "'k sockets \<Rightarrow> ('k bsim \<Rightarrow> 'k bsim result) \<Rightarrow> nat \<Rightarrow> ('k bsim, 's) indfunc \<Rightarrow> 'k bsim \<Rightarrow> 's \<Rightarrow> (int \<times> 'k bsim \<times> 's) result" where
  "event_portal_bsim S env n H w s =
     rbind (bsim_poll_interrupt S w) (\<lambda>(v, w).
       if v = 0 then Inr (- 1, w, s) else event_hardware (read_portal_bsim S env n) H w s)"

definition bsimfunc :: "'k sockets \<Rightarrow> ('k bsim \<Rightarrow> 'k bsim result) \<Rightarrow> nat \<Rightarrow> ('k bsim, 's) PortalItemFunctions" where
  "bsimfunc S env n =
     \<lparr>it_read = read_portal_bsim S env n, it_write = write_portal_bsim S n, it_writefd = write_portal_fd_bsim S n,
      it_mapchannelInd = mapchannel_hardware, it_mapchannelReq = mapchannel_hardware,
      it_send = send_portal_null, it_recv = recv_portal_null,
      it_busywait = busy_hardware (read_portal_bsim S env n) id,
      it_enableint = enableint_hardware (write_portal_bsim S n), it_event = event_portal_bsim S env n\<rparr>"

text \<open>\<open>connect_to_bsim\<close>: read the identity of every portal up to the last one.\<close>

fun scan_portals ::
  "'k sockets \<Rightarrow> ('k bsim \<Rightarrow> 'k bsim result) \<Rightarrow> nat \<Rightarrow> nat \<Rightarrow> 'k bsim \<Rightarrow> 'k bsim result" where
  "scan_portals S env idx 0 w = Inr w"
| "scan_portals S env idx (Suc left) w =
     rbind (read_portal_bsim S env idx w 4) (\<lambda>(ident, _, w).
     rbind (read_portal_bsim S env idx w 5) (\<lambda>(last, _, w).
     rbind (rassert (unat ident < MAX_BSIM_PORTAL_ID) AssertFailed) (\<lambda>_.
       let w = w\<lparr>bw_client := (bw_client w)\<lparr>bc_map := bc_map (bw_client w) @ [(ident, of_nat idx)]\<rparr>\<rparr> in
       if last \<noteq> 0 then Inr w else scan_portals S env (idx + 1) left w)))"

definition connect_to_bsim :: "'k sockets \<Rightarrow> ('k bsim \<Rightarrow> 'k bsim result) \<Rightarrow> 'k bsim \<Rightarrow> 'k bsim result" where
  "connect_to_bsim S env w =
     (if bc_sockfd (bw_client w) \<noteq> - 1 then Inr w
      else
        rbind (init_connecting S (bw_net w)) (\<lambda>(fd, k).
          scan_portals S env 0 32 (w\<lparr>bw_client := (bw_client w)\<lparr>bc_sockfd := fd\<rparr>, bw_net := k\<rparr>)))"

text \<open>\<open>init_bsim\<close>: the number of the portal in the design, found by its identity.\<close>

definition init_bsim ::
  "'k sockets \<Rightarrow> ('k bsim \<Rightarrow> 'k bsim result) \<Rightarrow> u32 \<Rightarrow> 'k bsim \<Rightarrow> (nat \<times> 'k bsim) result" where
  "init_bsim S env ident w =
     rbind (connect_to_bsim S env w) (\<lambda>w.
     rbind (rassert (sint ident < int MAX_BSIM_PORTAL_ID) AssertFailed) (\<lambda>_.
     case find (\<lambda>(name, _). name = ident) (bc_map (bw_client w)) of
       None \<Rightarrow> Inl AssertFailed
     | Some (_, offset) \<Rightarrow>
         rbind (enableint_hardware (write_portal_bsim S (unat offset)) w 1) (\<lambda>w. Inr (unat offset, w))))"

section \<open>What the connection promises\<close>

text \<open>
  A stream socket between descriptor \<open>c\<close> of the program and descriptor \<open>s\<close> of the simulator,
  with the words on their way in each direction.
\<close>

definition direction_law ::
  "'k sockets \<Rightarrow> ('k \<Rightarrow> flight) \<Rightarrow> ('k \<Rightarrow> flight) \<Rightarrow> (int \<Rightarrow> int) \<Rightarrow> int \<Rightarrow> int \<Rightarrow> bool" where
  "direction_law S this other f c s \<longleftrightarrow>
     (\<forall>k ws fd. \<exists>k'. sk_sendmsg S k c ws fd = (int (4 * length ws), k') \<and>
        this k' = this k @ tagged ws (pass_fd f fd) \<and> other k' = other k) \<and>
     (\<forall>k ws fd rest. ws \<noteq> [] \<longrightarrow> this k = tagged ws fd @ rest \<longrightarrow>
        (\<exists>k'. sk_recvmsg S k s (length ws) = (Data ws fd, k') \<and> this k' = rest \<and> other k' = other k)) \<and>
     (\<forall>k n. this k = [] \<longrightarrow> (\<exists>k'. sk_recvmsg S k s n = (Again, k') \<and> this k' = [] \<and> other k' = other k))"

definition duplex_law ::
  "'k sockets \<Rightarrow> ('k \<Rightarrow> flight) \<Rightarrow> ('k \<Rightarrow> flight) \<Rightarrow> (int \<Rightarrow> int) \<Rightarrow> int \<Rightarrow> int \<Rightarrow> bool" where
  "duplex_law S up down f c s \<longleftrightarrow> direction_law S up down f c s \<and> direction_law S down up f s c"

lemma direction_send:
  assumes "direction_law S this other f c s"
  shows "\<exists>k'. portalSendFd S k c ws fd = Inr k' \<and> this k' = this k @ tagged ws (pass_fd f fd) \<and> other k' = other k"
proof -
  let ?fd = "if fd \<ge> 0 then fd else - 1"
  from assms obtain k' where k': "sk_sendmsg S k c ws ?fd = (int (4 * length ws), k')"
    "this k' = this k @ tagged ws (pass_fd f ?fd)" "other k' = other k"
    unfolding direction_law_def by blast
  then show ?thesis unfolding pass_fd_idem by (simp add: portalSendFd_def sock_fd_write_def)
qed

lemma wr_words_all: "length ws = length m \<Longrightarrow> wr_words m 0 ws = Inr ws"
  using wr_words_splice [of 0 ws m] by (simp add: splice_def)

lemma direction_recv:
  assumes "direction_law S this other f c s" and "this k = tagged ws fd @ rest" and "length ws = length m" and "m \<noteq> []"
  shows "\<exists>k'. portalRecvFd S k s m 0 (length m) = Inr (int (4 * length m), False, fd, ws, k') \<and>
           this k' = rest \<and> other k' = other k"
proof -
  have "ws \<noteq> []" using assms(3,4) by auto
  with assms(1,2) obtain k' where "sk_recvmsg S k s (length ws) = (Data ws fd, k')" "this k' = rest" "other k' = other k"
    unfolding direction_law_def by blast
  then show ?thesis using assms(3) by (simp add: portalRecvFd_def wr_words_all)
qed

lemma direction_empty:
  assumes "direction_law S this other f c s" and "this k = []"
  shows "\<exists>k'. portalRecvFd S k s m 0 n = Inr (- 1, True, - 1, m, k') \<and> this k' = [] \<and> other k' = other k"
proof -
  from assms obtain k' where "sk_recvmsg S k s n = (Again, k')" "this k' = []" "other k' = other k"
    unfolding direction_law_def by blast
  then show ?thesis by (simp add: portalRecvFd_def)
qed

section \<open>Requests on their way\<close>

type_synonym posted = "memrequest \<times> int"

definition posted_words :: "posted list \<Rightarrow> flight" where
  "posted_words qs = concat (map (\<lambda>(q, fd). tagged (request_words q) fd) qs)"

definition replies_words :: "memresponse list \<Rightarrow> flight" where
  "replies_words rs = concat (map (\<lambda>r. tagged (response_words r) (- 1)) rs)"

definition is_interrupt :: "memresponse \<Rightarrow> bool" where
  "is_interrupt r \<longleftrightarrow> ms_portal r = MAGIC_PORTAL_FOR_SENDING_INTERRUPT"

text \<open>The effect of a posted write, and of a sequence of them.\<close>

definition posted_data :: "posted \<Rightarrow> u32" where
  "posted_data x = (case x of (q, fd) \<Rightarrow> if fd \<noteq> - 1 then of_int fd else mr_data q)"

definition apply_write :: "posted \<Rightarrow> mem_portal list \<Rightarrow> mem_portal list result" where
  "apply_write x ps = top_write ps (unat (lo32 (mr_addr (fst x)))) (posted_data x)"

fun apply_writes :: "posted list \<Rightarrow> mem_portal list \<Rightarrow> mem_portal list result" where
  "apply_writes [] ps = Inr ps"
| "apply_writes (x # xs) ps = rbind (apply_write x ps) (apply_writes xs)"

lemma apply_writes_append: "apply_writes (xs @ ys) ps = rbind (apply_writes xs ps) (apply_writes ys)"
proof (induction xs arbitrary: ps)
  case (Cons x xs)
  then have "apply_writes (xs @ ys) = (\<lambda>ps. rbind (apply_writes xs ps) (apply_writes ys))" by (intro ext)
  then show ?case by (simp add: rbind_assoc)
qed simp

text \<open>
  The simulator between two steps, connected to the program only: the requests \<open>xs\<close> and the
  answers \<open>rs\<close> are on their way.
\<close>

definition sim_idle ::
  "'k sockets \<Rightarrow> ('k \<Rightarrow> flight) \<Rightarrow> ('k \<Rightarrow> flight) \<Rightarrow> (int \<Rightarrow> int) \<Rightarrow> int \<Rightarrow> int \<Rightarrow> bsim_sim \<Rightarrow> 'k \<Rightarrow>
   posted list \<Rightarrow> memresponse list \<Rightarrow> bool" where
  "sim_idle S up down f c s m k xs rs \<longleftrightarrow>
     duplex_law S up down f c s \<and> bs_fds m = [s] \<and> \<not> bs_valid m \<and>
     up k = posted_words xs \<and> down k = replies_words rs"

lemma getRequest32_split:
  assumes "hi32 (mr_addr (bs_req s)) = 0"
  shows "lo32 (fst (getRequest32 rr s)) = lo32 (mr_addr (bs_req s))" "hi32 (fst (getRequest32 rr s)) = mr_data (bs_req s)"
proof -
  let ?a = "mr_addr (bs_req s)"
  have a: "\<not> bit ?a (32 + n)" for n
  proof
    assume b: "bit ?a (32 + n)"
    then have "n < 32" using bit_imp_le_length [of ?a "32 + n"] by simp
    then have "bit (hi32 ?a) n" using b by (simp add: hi32_def bit_simps)
    then show False using assms by simp
  qed
  show "lo32 (fst (getRequest32 rr s)) = lo32 ?a"
    unfolding getRequest32_def lo32_def fst_conv by (rule bit_word_eqI) (auto simp: bit_simps)
  show "hi32 (fst (getRequest32 rr s)) = mr_data (bs_req s)"
    unfolding getRequest32_def hi32_def fst_conv by (rule bit_word_eqI) (auto simp: bit_simps a)
qed

text \<open>Receiving the first of the requests on their way.\<close>

definition received :: "posted \<Rightarrow> int \<Rightarrow> bsim_sim \<Rightarrow> bsim_sim" where
  "received x s m =
     m\<lparr>bs_sockfd := s, bs_req := (fst x)\<lparr>mr_data := posted_data x\<rparr>,
       bs_resp := (bs_resp m)\<lparr>ms_portal := mr_portal (fst x)\<rparr>, bs_valid := True, bs_inflight := True\<rparr>"

lemma check_fds_recv:
  assumes "sim_idle S up down f c s m k (x # xs) rs"
  shows "\<exists>k'. check_fds S (bs_fds m) m k = Inr (received x s m, k') \<and> up k' = posted_words xs \<and> down k' = replies_words rs"
proof -
  obtain q fd where x: "x = (q, fd)" by (cases x)
  have law: "direction_law S up down f c s" and fds: "bs_fds m = [s]"
    and k: "up k = tagged (request_words q) fd @ posted_words xs" "down k = replies_words rs"
    using assms by (simp_all add: sim_idle_def duplex_law_def posted_words_def x)
  have "\<exists>k'. portalRecvFd S k s (request_words (bs_req m)) 0 6 = Inr (24, False, fd, request_words q, k') \<and>
      up k' = posted_words xs \<and> down k' = down k"
    using direction_recv [OF law k(1), of "request_words (bs_req m)"] by simp
  then show ?thesis using k(2) by (auto simp: fds x received_def posted_data_def)
qed

lemma check_fds_none:
  assumes "sim_idle S up down f c s m k [] rs"
  shows "\<exists>k'. check_fds S (bs_fds m) m k = Inr (m\<lparr>bs_sockfd := s\<rparr>, k') \<and> up k' = [] \<and> down k' = replies_words rs"
proof -
  have law: "direction_law S up down f c s" and fds: "bs_fds m = [s]" and k: "up k = []" "down k = replies_words rs"
    using assms by (simp_all add: sim_idle_def duplex_law_def posted_words_def)
  from direction_empty [OF law k(1), of "request_words (bs_req m)" 6] k(2) show ?thesis by (auto simp: fds)
qed

text \<open>A step with nothing to do, a step that performs a write, and one that performs a read.\<close>

lemma sim_request_idle:
  assumes "sim_idle S up down f c s m k [] rs"
  shows "\<exists>m' k'. sim_request S m k = Inr (m', k') \<and> sim_idle S up down f c s m' k' [] rs \<and> bs_portals m' = bs_portals m"
proof -
  have v: "\<not> bs_valid m" using assms by (simp add: sim_idle_def)
  from check_fds_none [OF assms] obtain k1 where k1: "check_fds S (bs_fds m) m k = Inr (m\<lparr>bs_sockfd := s\<rparr>, k1)"
    "up k1 = []" "down k1 = replies_words rs" by blast
  let ?m = "m\<lparr>bs_sockfd := s\<rparr>"
  have idle1: "sim_idle S up down f c s ?m k1 [] rs" using assms k1 by (simp add: sim_idle_def posted_words_def)
  from check_fds_none [OF idle1] obtain k2 where k2: "check_fds S (bs_fds ?m) ?m k1 = Inr (?m, k2)"
    "up k2 = []" "down k2 = replies_words rs" by auto
  have "sim_request S m k = Inr (?m, k2)"
    using v k1(1) k2(1) by (simp add: sim_request_def checkForRequest_def)
  moreover have "sim_idle S up down f c s ?m k2 [] rs" using assms k2 by (simp add: sim_idle_def posted_words_def)
  ultimately show ?thesis by auto
qed

lemma sim_request_write:
  assumes "sim_idle S up down f c s m k (x # xs) rs" and "mr_write_flag (fst x) = 1" and "hi32 (mr_addr (fst x)) = 0"
    and "apply_write x (bs_portals m) = Inr ps"
  shows "\<exists>m' k'. sim_request S m k = Inr (m', k') \<and> sim_idle S up down f c s m' k' xs rs \<and> bs_portals m' = ps"
proof -
  have v: "\<not> bs_valid m" using assms(1) by (simp add: sim_idle_def)
  from check_fds_recv [OF assms(1)] obtain k1 where k1: "check_fds S (bs_fds m) m k = Inr (received x s m, k1)"
    "up k1 = posted_words xs" "down k1 = replies_words rs" by blast
  let ?m = "received x s m"
  have r: "hi32 (mr_addr (bs_req ?m)) = 0" using assms(3) by (simp add: received_def)
  obtain wd m2 where g: "getRequest32 1 ?m = (wd, m2)" by fastforce
  have wd: "lo32 wd = lo32 (mr_addr (fst x))" "hi32 wd = posted_data x" and m2: "m2 = ?m\<lparr>bs_valid := False, bs_inflight := False\<rparr>"
    using getRequest32_split [OF r, of 1] g by (simp_all add: received_def getRequest32_def)
  have "sim_request S m k = Inr (m2\<lparr>bs_portals := ps\<rparr>, k1)"
    using v k1(1) assms(2,4) g wd
    by (simp add: sim_request_def checkForRequest_def apply_write_def m2) (simp add: received_def)
  moreover have "sim_idle S up down f c s (m2\<lparr>bs_portals := ps\<rparr>) k1 xs rs"
    using assms(1) k1 by (simp add: sim_idle_def m2 received_def)
  ultimately show ?thesis by auto
qed

lemma sim_request_read:
  assumes "sim_idle S up down f c s m k (x # xs) rs" and "mr_write_flag (fst x) = 0" and "hi32 (mr_addr (fst x)) = 0"
    and "snd x = - 1" and "top_read (bs_portals m) (unat (lo32 (mr_addr (fst x)))) = Inr (v, ps)"
  shows "\<exists>m' k' tag. sim_request S m k = Inr (m', k') \<and>
     sim_idle S up down f c s m' k' xs (rs @ [\<lparr>ms_portal = mr_portal (fst x), ms_data = v, ms_tag = tag\<rparr>]) \<and> bs_portals m' = ps"
proof -
  have nv: "\<not> bs_valid m" and law: "direction_law S down up f s c"
    using assms(1) by (simp_all add: sim_idle_def duplex_law_def)
  from check_fds_recv [OF assms(1)] obtain k1 where k1: "check_fds S (bs_fds m) m k = Inr (received x s m, k1)"
    "up k1 = posted_words xs" "down k1 = replies_words rs" by blast
  let ?m = "received x s m"
  have r: "hi32 (mr_addr (bs_req ?m)) = 0" using assms(3) by (simp add: received_def)
  obtain ra m2 where g: "getRequest32 0 ?m = (ra, m2)" by fastforce
  have ra: "lo32 ra = lo32 (mr_addr (fst x))" and m2: "m2 = ?m\<lparr>bs_inflight := False\<rparr>"
    using getRequest32_split [OF r, of 0] g by (simp_all add: received_def getRequest32_def)
  let ?r = "\<lparr>ms_portal = mr_portal (fst x), ms_data = v, ms_tag = hi32 ra AND 63\<rparr>"
  let ?m3 = "m2\<lparr>bs_portals := ps, bs_valid := False, bs_resp := ?r\<rparr>"
  from direction_send [OF law, of k1 "response_words ?r" "- 1"] obtain k2 where
    k2: "portalSendFd S k1 s (response_words ?r) (- 1) = Inr k2" "down k2 = replies_words (rs @ [?r])" "up k2 = up k1"
    using k1(3) by (auto simp: pass_fd_def replies_words_def)
  have "readResponse32 S v (hi32 ra AND 63) (m2\<lparr>bs_portals := ps\<rparr>) k1 = Inr (?m3, k2)"
    using k2(1) by (simp add: readResponse32_def m2 received_def memresponse_update)
  then have "sim_request S m k = Inr (?m3, k2)"
    using nv k1(1) assms(2,5) g ra
    by (simp add: sim_request_def checkForRequest_def m2) (simp add: received_def)
  moreover have "sim_idle S up down f c s ?m3 k2 xs (rs @ [?r])"
    using assms(1) k1(2) k2(2,3) by (simp add: sim_idle_def m2 received_def)
  ultimately show ?thesis by auto
qed

lemma interruptLevel_step:
  assumes "sim_idle S up down f c s m k xs rs"
  shows "\<exists>m' k' is. interruptLevel S v m k = Inr (m', k') \<and> sim_idle S up down f c s m' k' xs (rs @ is) \<and>
     bs_portals m' = bs_portals m \<and> list_all is_interrupt is"
proof (cases "v = bs_level m")
  case True
  then show ?thesis using assms by (auto simp: interruptLevel_def intro!: exI [of _ "[]"])
next
  case False
  have law: "direction_law S down up f s c" and fds: "bs_fds m = [s]" using assms by (simp_all add: sim_idle_def duplex_law_def)
  from direction_send [OF law, of k "response_words (interrupt_message v)" "- 1"] obtain k' where
    "portalSendFd S k s (response_words (interrupt_message v)) (- 1) = Inr k'"
    "down k' = down k @ tagged (response_words (interrupt_message v)) (- 1)" "up k' = up k"
    by (auto simp: pass_fd_def)
  with False fds assms show ?thesis
    by (auto simp: interruptLevel_def sim_idle_def replies_words_def is_interrupt_def interrupt_message_def
        intro!: exI [of _ "[interrupt_message v]"])
qed

text \<open>The steps of the simulator as a whole, interrupts included.\<close>

lemma sim_step_of_request:
  assumes "sim_request S (bw_sim w) (bw_net w) = Inr (m, k)" and "sim_idle S up down f c s m k xs rs"
  shows "\<exists>w' is. sim_step S w = Inr w' \<and> sim_idle S up down f c s (bw_sim w') (bw_net w') xs (rs @ is) \<and>
     bs_portals (bw_sim w') = bs_portals m \<and> bw_client w' = bw_client w \<and> list_all is_interrupt is"
  using interruptLevel_step [OF assms(2), of "intr_mux (bs_portals m)"] assms(1)
  by (fastforce simp: sim_step_def)

text \<open>Polling for an answer: nothing there, an interrupt message, an answer.\<close>

lemma poll_none:
  assumes "sim_idle S up down f c s (bw_sim w) (bw_net w) xs []" and "bc_sockfd (bw_client w) = c"
    and "\<not> bc_response_valid (bw_client w)"
  shows "\<exists>w'. poll_response S n w = Inr (False, w') \<and> sim_idle S up down f c s (bw_sim w') (bw_net w') xs [] \<and>
     bw_sim w' = bw_sim w \<and> bw_client w' = bw_client w"
proof -
  have law: "direction_law S down up f s c" and d: "down (bw_net w) = []"
    using assms(1) by (simp_all add: sim_idle_def duplex_law_def replies_words_def)
  from direction_empty [OF law d, of "response_words (bc_response (bw_client w))" 3] obtain k' where
    "portalRecvFd S (bw_net w) c (response_words (bc_response (bw_client w))) 0 3 =
      Inr (- 1, True, - 1, response_words (bc_response (bw_client w)), k')" "down k' = []" "up k' = up (bw_net w)" by blast
  with assms show ?thesis
    by (auto simp: poll_response_def sim_idle_def replies_words_def Let_def
        intro!: exI [of _ "w\<lparr>bw_net := k'\<rparr>"])
qed

lemma poll_some:
  assumes "sim_idle S up down f c s (bw_sim w) (bw_net w) xs (r # rs)" and "bc_sockfd (bw_client w) = c"
    and "\<not> bc_response_valid (bw_client w)"
  shows "\<exists>w'. poll_response S n w = Inr (\<not> is_interrupt r \<and> ms_portal r = n, w') \<and>
     sim_idle S up down f c s (bw_sim w') (bw_net w') xs rs \<and> bw_sim w' = bw_sim w \<and>
     bw_client w' = (if is_interrupt r then (bw_client w)\<lparr>bc_response := r, bc_interrupt := ms_data r\<rparr>
                     else (bw_client w)\<lparr>bc_response := r, bc_response_valid := True\<rparr>)"
proof -
  have law: "direction_law S down up f s c" and d: "down (bw_net w) = tagged (response_words r) (- 1) @ replies_words rs"
    using assms(1) by (simp_all add: sim_idle_def duplex_law_def replies_words_def)
  from direction_recv [OF law d, of "response_words (bc_response (bw_client w))"] obtain k' where
    "portalRecvFd S (bw_net w) c (response_words (bc_response (bw_client w))) 0 3 =
      Inr (12, False, - 1, response_words r, k')" "down k' = replies_words rs" "up k' = up (bw_net w)" by auto
  with assms show ?thesis
    by (auto simp: poll_response_def sim_idle_def is_interrupt_def Let_def)
qed

section \<open>Waiting for an answer\<close>

text \<open>The program and the simulator with requests \<open>xs\<close> and answers \<open>rs\<close> on their way.\<close>

definition bsim_at ::
  "'k sockets \<Rightarrow> ('k \<Rightarrow> flight) \<Rightarrow> ('k \<Rightarrow> flight) \<Rightarrow> (int \<Rightarrow> int) \<Rightarrow> int \<Rightarrow> int \<Rightarrow> 'k bsim \<Rightarrow> posted list \<Rightarrow> memresponse list \<Rightarrow> bool" where
  "bsim_at S up down f c s w xs rs \<longleftrightarrow>
     sim_idle S up down f c s (bw_sim w) (bw_net w) xs rs \<and> bc_sockfd (bw_client w) = c \<and> \<not> bc_response_valid (bw_client w)"

lemma poll_pass:
  assumes "bsim_at S up down f c s w xs rs" and "rs = [] \<or> is_interrupt (hd rs)"
  shows "\<exists>w'. poll_response S n w = Inr (False, w') \<and> bsim_at S up down f c s w' xs (tl rs) \<and> bw_sim w' = bw_sim w \<and>
     bc_map (bw_client w') = bc_map (bw_client w)"
proof (cases rs)
  case Nil
  with poll_none [of S up down f c s w xs n] assms(1) show ?thesis by (fastforce simp: bsim_at_def)
next
  case (Cons r rs')
  with poll_some [of S up down f c s w xs r rs' n] assms show ?thesis by (fastforce simp: bsim_at_def)
qed

text \<open>What is left when the program has taken the answer \<open>r\<close>.\<close>

definition answered ::
  "'k sockets \<Rightarrow> ('k \<Rightarrow> flight) \<Rightarrow> ('k \<Rightarrow> flight) \<Rightarrow> (int \<Rightarrow> int) \<Rightarrow> int \<Rightarrow> int \<Rightarrow> 'k bsim \<Rightarrow> memresponse \<Rightarrow> 'k bsim \<Rightarrow> bool" where
  "answered S up down f c s w r w' \<longleftrightarrow>
     (\<exists>is. sim_idle S up down f c s (bw_sim w') (bw_net w') [] is \<and> list_all is_interrupt is) \<and>
     bc_sockfd (bw_client w') = c \<and> bc_response (bw_client w') = r \<and> bc_map (bw_client w') = bc_map (bw_client w)"

lemma response_loop_answer:
  "bsim_at S up down f c s w [] (is @ r # js) \<Longrightarrow> list_all is_interrupt is \<Longrightarrow> list_all is_interrupt js \<Longrightarrow>
   \<not> is_interrupt r \<Longrightarrow> ms_portal r = n \<Longrightarrow>
   \<exists>w'. response_loop S (sim_step S) n w = Some (Inr w') \<and> answered S up down f c s w r w' \<and>
     bs_portals (bw_sim w') = bs_portals (bw_sim w)"
proof (induction "is" arbitrary: w js)
  case Nil
  then have "sim_idle S up down f c s (bw_sim w) (bw_net w) [] (r # js)" by (simp add: bsim_at_def)
  from poll_some [OF this, of n] Nil show ?case
    by (subst response_loop.simps) (auto simp: answered_def bsim_at_def)
next
  case (Cons i "is")
  from poll_pass [OF Cons.prems(1), of n] Cons.prems(2) obtain w1 where
    w1: "poll_response S n w = Inr (False, w1)" "bsim_at S up down f c s w1 [] (is @ r # js)" "bw_sim w1 = bw_sim w"
      "bc_map (bw_client w1) = bc_map (bw_client w)" by auto
  from sim_request_idle [of S up down f c s "bw_sim w1" "bw_net w1" "is @ r # js"] w1(2) obtain m k where
    mk: "sim_request S (bw_sim w1) (bw_net w1) = Inr (m, k)" "sim_idle S up down f c s m k [] (is @ r # js)"
      "bs_portals m = bs_portals (bw_sim w1)" by (auto simp: bsim_at_def)
  from sim_step_of_request [OF mk(1,2)] obtain w2 js' where
    w2: "sim_step S w1 = Inr w2" "sim_idle S up down f c s (bw_sim w2) (bw_net w2) [] ((is @ r # js) @ js')"
      "bs_portals (bw_sim w2) = bs_portals m" "bw_client w2 = bw_client w1" "list_all is_interrupt js'" by blast
  have "bsim_at S up down f c s w2 [] (is @ r # (js @ js'))" using w2(2,4) w1(2) by (simp add: bsim_at_def)
  from Cons.IH [OF this] Cons.prems w2(5) obtain w' where
    "response_loop S (sim_step S) n w2 = Some (Inr w')" "answered S up down f c s w2 r w'"
    "bs_portals (bw_sim w') = bs_portals (bw_sim w2)" by auto
  then show ?case using w1 w2 mk(3) by (subst response_loop.simps) (auto simp: answered_def)
qed

definition is_write :: "posted \<Rightarrow> bool" where
  "is_write x \<longleftrightarrow> mr_write_flag (fst x) = 1 \<and> hi32 (mr_addr (fst x)) = 0"

lemma response_loop_read:
  assumes "mr_write_flag q = 0" and "hi32 (mr_addr q) = 0" and "mr_portal q = n" and "n \<noteq> MAGIC_PORTAL_FOR_SENDING_INTERRUPT"
  shows "bsim_at S up down f c s w (xs @ [(q, - 1)]) is \<Longrightarrow> list_all is_interrupt is \<Longrightarrow> list_all is_write xs \<Longrightarrow>
    apply_writes xs (bs_portals (bw_sim w)) = Inr ps \<Longrightarrow> top_read ps (unat (lo32 (mr_addr q))) = Inr (v, ps') \<Longrightarrow>
    \<exists>w' tag. response_loop S (sim_step S) n w = Some (Inr w') \<and>
      answered S up down f c s w \<lparr>ms_portal = n, ms_data = v, ms_tag = tag\<rparr> w' \<and> bs_portals (bw_sim w') = ps'"
proof (induction xs arbitrary: w "is")
  case Nil
  from poll_pass [OF Nil(1), of n] Nil(2) obtain w1 where
    w1: "poll_response S n w = Inr (False, w1)" "bsim_at S up down f c s w1 [(q, - 1)] (tl is)" "bw_sim w1 = bw_sim w"
      "bc_map (bw_client w1) = bc_map (bw_client w)" by (auto simp: list_all_iff) (metis hd_in_set)
  have idle: "sim_idle S up down f c s (bw_sim w1) (bw_net w1) [(q, - 1)] (tl is)" using w1(2) by (simp add: bsim_at_def)
  have rd: "top_read (bs_portals (bw_sim w1)) (unat (lo32 (mr_addr (fst (q, - 1 :: int))))) = Inr (v, ps')"
    using Nil(4,5) w1(3) by simp
  from sim_request_read [OF idle _ _ _ rd] assms obtain m k tag where
    mk: "sim_request S (bw_sim w1) (bw_net w1) = Inr (m, k)"
      "sim_idle S up down f c s m k [] (tl is @ [\<lparr>ms_portal = n, ms_data = v, ms_tag = tag\<rparr>])" "bs_portals m = ps'" by auto
  from sim_step_of_request [OF mk(1,2)] obtain w2 js where
    w2: "sim_step S w1 = Inr w2"
      "sim_idle S up down f c s (bw_sim w2) (bw_net w2) [] ((tl is @ [\<lparr>ms_portal = n, ms_data = v, ms_tag = tag\<rparr>]) @ js)"
      "bs_portals (bw_sim w2) = bs_portals m" "bw_client w2 = bw_client w1" "list_all is_interrupt js" by blast
  have at: "bsim_at S up down f c s w2 [] (tl is @ \<lparr>ms_portal = n, ms_data = v, ms_tag = tag\<rparr> # js)"
    using w2(2,4) w1(2) by (simp add: bsim_at_def)
  have "list_all is_interrupt (tl is)" using Nil(2) by (cases "is") simp_all
  from response_loop_answer [OF at this w2(5)] assms(4) obtain w' where
    "response_loop S (sim_step S) n w2 = Some (Inr w')"
    "answered S up down f c s w2 \<lparr>ms_portal = n, ms_data = v, ms_tag = tag\<rparr> w'"
    "bs_portals (bw_sim w') = bs_portals (bw_sim w2)" by (auto simp: is_interrupt_def)
  then show ?case using w1 w2 mk(3) by (subst response_loop.simps) (auto simp: answered_def)
next
  case (Cons x xs)
  have i: "is = [] \<or> is_interrupt (hd is)" "list_all is_interrupt (tl is)" using Cons.prems(2) by (cases "is"; simp)+
  from poll_pass [OF Cons.prems(1) i(1), of n] obtain w1 where
    w1: "poll_response S n w = Inr (False, w1)" "bsim_at S up down f c s w1 (x # xs @ [(q, - 1)]) (tl is)" "bw_sim w1 = bw_sim w"
      "bc_map (bw_client w1) = bc_map (bw_client w)" by auto
  from Cons.prems(4) obtain ps1 where ps1: "apply_write x (bs_portals (bw_sim w1)) = Inr ps1" "apply_writes xs ps1 = Inr ps"
    unfolding w1(3) by (auto simp: rbind_eq_Inr)
  have idle: "sim_idle S up down f c s (bw_sim w1) (bw_net w1) (x # xs @ [(q, - 1)]) (tl is)" using w1(2) by (simp add: bsim_at_def)
  from sim_request_write [OF idle _ _ ps1(1)] Cons.prems(3) obtain m k where
    mk: "sim_request S (bw_sim w1) (bw_net w1) = Inr (m, k)" "sim_idle S up down f c s m k (xs @ [(q, - 1)]) (tl is)"
      "bs_portals m = ps1" by (auto simp: is_write_def)
  from sim_step_of_request [OF mk(1,2)] obtain w2 js where
    w2: "sim_step S w1 = Inr w2" "sim_idle S up down f c s (bw_sim w2) (bw_net w2) (xs @ [(q, - 1)]) (tl is @ js)"
      "bs_portals (bw_sim w2) = bs_portals m" "bw_client w2 = bw_client w1" "list_all is_interrupt js" by blast
  have at: "bsim_at S up down f c s w2 (xs @ [(q, - 1)]) (tl is @ js)" using w2(2,4) w1(2) by (simp add: bsim_at_def)
  from Cons.IH [OF at _ _ _ Cons.prems(5)] i(2) w2(3,5) mk(3) ps1(2) Cons.prems(3) obtain w' tag where
    "response_loop S (sim_step S) n w2 = Some (Inr w')"
    "answered S up down f c s w2 \<lparr>ms_portal = n, ms_data = v, ms_tag = tag\<rparr> w'" "bs_portals (bw_sim w') = ps'" by auto
  then show ?case using w1 w2 by (subst response_loop.simps) (auto simp: answered_def)
qed

section \<open>A simulated portal is a register transport\<close>

text \<open>
  Seen by the program, the portals of the design are in states \<open>ps\<close>: the states they have once
  the writes on their way are performed.  \<open>bsim_rep\<close> is the view of one portal.
\<close>

definition bsim_all ::
  "'k sockets \<Rightarrow> ('k \<Rightarrow> flight) \<Rightarrow> ('k \<Rightarrow> flight) \<Rightarrow> (int \<Rightarrow> int) \<Rightarrow> int \<Rightarrow> int \<Rightarrow> 'k bsim \<Rightarrow> mem_portal list \<Rightarrow> bool" where
  "bsim_all S up down f c s w ps \<longleftrightarrow>
     (\<exists>xs is. bsim_at S up down f c s w xs is \<and> list_all is_interrupt is \<and> list_all is_write xs \<and>
        apply_writes xs (bs_portals (bw_sim w)) = Inr ps) \<and> length ps \<le> 16"

definition bsim_rep ::
  "'k sockets \<Rightarrow> ('k \<Rightarrow> flight) \<Rightarrow> ('k \<Rightarrow> flight) \<Rightarrow> (int \<Rightarrow> int) \<Rightarrow> int \<Rightarrow> int \<Rightarrow> nat \<Rightarrow> 'k bsim \<Rightarrow> mem_portal \<Rightarrow> bool" where
  "bsim_rep S up down f c s n w d \<longleftrightarrow> (\<exists>ps. bsim_all S up down f c s w ps \<and> n < length ps \<and> ps ! n = d)"

definition bsim_fd :: "(int \<Rightarrow> int) \<Rightarrow> int \<Rightarrow> int" where
  "bsim_fd f fd = (if fd \<ge> 0 \<and> f fd \<noteq> - 1 then f fd else fd)"

lemma bsim_addr_words:
  assumes "n < 16" and "4 * a < 2 ^ 16"
  shows "hi32 (bsim_addr n (int a)) = 0" "unat (lo32 (bsim_addr n (int a))) = n * 2 ^ 16 + 4 * a"
proof -
  define x where "x = n * 2 ^ 16 + 4 * a"
  have "of_int (int n * 2 ^ 16 + 4 * int a) = (of_nat x :: u64)" by (simp add: x_def)
  then have eq: "bsim_addr n (int a) = of_nat x" by (simp only: bsim_addr_def)
  have small: "x < 2 ^ 32" using assms by (simp add: x_def)
  then have u: "unat (of_nat x :: u64) = x" by (intro unat_of_nat_small) simp
  have "unat (lo32 (of_nat x)) = x" unfolding lo32_def unat_ucast_mod u using small by simp
  then show "unat (lo32 (bsim_addr n (int a))) = n * 2 ^ 16 + 4 * a" by (simp only: eq x_def)
  have "unat (hi32 (of_nat x)) = (x div 2 ^ 32) mod 2 ^ 32" unfolding hi32_def unat_ucast_mod unat_drop_bit u by simp
  then have "unat (hi32 (of_nat x)) = 0" using small by simp
  then show "hi32 (bsim_addr n (int a)) = 0" by (metis eq unat_eq_zero)
qed

lemma top_select_window:
  assumes "n < length ps" and "length ps \<le> 16" and "r < 2 ^ 16"
  shows "top_select ps (n * 2 ^ 16 + r) = n" "(n * 2 ^ 16 + r) mod 2 ^ 16 = r"
proof -
  have "(n * 2 ^ 16 + r) div 2 ^ 16 = n" using assms(3) by simp
  moreover have "n < 2 ^ clog2 (length ps)" using clog2_bound [of "length ps"] assms(1) by linarith
  ultimately show "top_select ps (n * 2 ^ 16 + r) = n" using assms(1,2) by (simp add: top_select_def)
  show "(n * 2 ^ 16 + r) mod 2 ^ 16 = r" using assms(3) by simp
qed

lemma top_read_window:
  assumes "n < length ps" and "length ps \<le> 16" and "mp_read (ps ! n) r = Inr (v, d)" and "r < 2 ^ 16"
  shows "top_read ps (n * 2 ^ 16 + r) = Inr (v, ps[n := d])"
  unfolding top_read_def top_select_window [OF assms(1,2,4)] Let_def using assms(1,3) by simp

lemma top_write_window:
  assumes "n < length ps" and "length ps \<le> 16" and "mp_write (ps ! n) r v = Inr d" and "r < 2 ^ 16"
  shows "top_write ps (n * 2 ^ 16 + r) v = Inr (ps[n := d])"
  unfolding top_write_def top_select_window [OF assms(1,2,4)] Let_def using assms(1,3) by simp

lemma mp_access_bound: "mp_read d a = Inr x \<Longrightarrow> a < 2 ^ 16" "mp_write d a v = Inr y \<Longrightarrow> a < 2 ^ 16"
  by (auto simp: mp_read_def mp_write_def Let_def split: if_splits)

lemma send_request_at:
  assumes "bsim_at S up down f c s w xs is"
  shows "\<exists>w'. send_request S q fd w = Inr w' \<and> bsim_at S up down f c s w' (xs @ [(q, pass_fd f fd)]) is \<and>
     bw_sim w' = bw_sim w \<and> bw_client w' = bw_client w"
proof -
  have law: "direction_law S up down f c s" using assms by (simp add: bsim_at_def sim_idle_def duplex_law_def)
  from direction_send [OF law, of "bw_net w" "request_words q" fd] obtain k where
    "portalSendFd S (bw_net w) c (request_words q) fd = Inr k"
    "up k = up (bw_net w) @ tagged (request_words q) (pass_fd f fd)" "down k = down (bw_net w)" by blast
  with assms show ?thesis by (auto simp: send_request_def bsim_at_def sim_idle_def posted_words_def)
qed

lemma bsim_read:
  assumes "bsim_all S up down f c s w ps" and "n < length ps" and "mp_read (ps ! n) (4 * a) = Inr (v, d')"
  shows "\<exists>w'. read_portal_bsim S (sim_step S) n w (int a) = Inr (v, int a, w') \<and> bsim_all S up down f c s w' (ps[n := d']) \<and>
     bc_map (bw_client w') = bc_map (bw_client w)"
proof -
  from assms(1) obtain xs "is" where at: "bsim_at S up down f c s w xs is" and i: "list_all is_interrupt is"
    and xs: "list_all is_write xs" "apply_writes xs (bs_portals (bw_sim w)) = Inr ps" by (auto simp: bsim_all_def)
  have n: "n < length ps" "length ps \<le> 16" using assms(1,2) by (simp_all add: bsim_all_def)
  have a: "4 * a < 2 ^ 16" using mp_access_bound(1) [OF assms(3)] .
  have n16: "n < 16" using n(1,2) by simp
  let ?q = "\<lparr>mr_portal = of_nat n, mr_write_flag = 0, mr_addr = bsim_addr n (int a), mr_data = bc_tag (bw_client w)\<rparr>"
  let ?w = "w\<lparr>bw_client := (bw_client w)\<lparr>bc_tag := bc_tag (bw_client w) + 1\<rparr>\<rparr>"
  have "bsim_at S up down f c s ?w xs is" using at by (simp add: bsim_at_def)
  from send_request_at [OF this, of ?q "- 1"] obtain w1 where
    w1: "send_request S ?q (- 1) ?w = Inr w1" "bsim_at S up down f c s w1 (xs @ [(?q, - 1)]) is" "bw_sim w1 = bw_sim w"
      "bw_client w1 = bw_client ?w" by (auto simp: pass_fd_def)
  have q: "mr_write_flag ?q = 0" "hi32 (mr_addr ?q) = 0" "mr_portal ?q = of_nat n"
    "top_read ps (unat (lo32 (mr_addr ?q))) = Inr (v, ps[n := d'])"
    using bsim_addr_words [OF n16 a] top_read_window [OF n assms(3) a] by simp_all
  have "unat (of_nat n :: u32) = n" using n16 by (intro unat_of_nat_small) simp
  then have "(of_nat n :: u32) \<noteq> MAGIC_PORTAL_FOR_SENDING_INTERRUPT"
    using n16 by (auto simp: MAGIC_PORTAL_FOR_SENDING_INTERRUPT_def)
  from response_loop_read [OF q(1-3) this w1(2) i xs(1) _ q(4)] xs(2) w1(3) obtain w2 tag where
    w2: "response_loop S (sim_step S) (of_nat n) w1 = Some (Inr w2)"
      "answered S up down f c s w1 \<lparr>ms_portal = of_nat n, ms_data = v, ms_tag = tag\<rparr> w2" "bs_portals (bw_sim w2) = ps[n := d']"
    by auto
  let ?w3 = "w2\<lparr>bw_client := (bw_client w2)\<lparr>bc_response_valid := False\<rparr>\<rparr>"
  have "read_portal_bsim S (sim_step S) n w (int a) = Inr (v, int a, ?w3)"
    using w1(1) w2(1,2) by (simp add: read_portal_bsim_def answered_def)
  moreover obtain js where "bsim_at S up down f c s ?w3 [] js" "list_all is_interrupt js"
    using w2(2) by (auto simp: answered_def bsim_at_def)
  then have "bsim_all S up down f c s ?w3 (ps[n := d'])" using w2(3) n(2) unfolding bsim_all_def by fastforce
  moreover have "bc_map (bw_client ?w3) = bc_map (bw_client w)" using w2(2) w1(4) by (simp add: answered_def)
  ultimately show ?thesis by blast
qed

lemma bsim_post:
  assumes "bsim_all S up down f c s w ps" and "n < length ps"
    and "mp_write (ps ! n) (4 * a) (posted_data (q, pass_fd f fd)) = Inr d'"
    and "mr_write_flag q = 1" and "mr_addr q = bsim_addr n (int a)"
  shows "\<exists>w'. send_request S q fd w = Inr w' \<and> bsim_all S up down f c s w' (ps[n := d']) \<and> bw_client w' = bw_client w"
proof -
  from assms(1) obtain xs "is" where at: "bsim_at S up down f c s w xs is" and i: "list_all is_interrupt is"
    and xs: "list_all is_write xs" "apply_writes xs (bs_portals (bw_sim w)) = Inr ps" by (auto simp: bsim_all_def)
  have n: "n < length ps" "length ps \<le> 16" using assms(1,2) by (simp_all add: bsim_all_def)
  have a: "4 * a < 2 ^ 16" using mp_access_bound(2) [OF assms(3)] .
  have n16: "n < 16" using n(1,2) by simp
  let ?x = "(q, pass_fd f fd)"
  from send_request_at [OF at, of q fd] obtain w1 where
    w1: "send_request S q fd w = Inr w1" "bsim_at S up down f c s w1 (xs @ [?x]) is" "bw_sim w1 = bw_sim w"
      "bw_client w1 = bw_client w" by blast
  have "apply_write ?x ps = Inr (ps[n := d'])"
    using bsim_addr_words(2) [OF n16 a] top_write_window [OF n assms(3) a] assms(5) by (simp add: apply_write_def)
  then have "apply_writes (xs @ [?x]) (bs_portals (bw_sim w1)) = Inr (ps[n := d'])"
    using xs(2) w1(3) by (simp add: apply_writes_append)
  moreover have "list_all is_write (xs @ [?x])"
    using xs(1) assms(4,5) bsim_addr_words(1) [OF n16 a] by (simp add: is_write_def)
  ultimately have "bsim_all S up down f c s w1 (ps[n := d'])" 
    using w1(2) i n(2) unfolding bsim_all_def length_list_update by blast
  with w1 show ?thesis by blast
qed

lemma posted_fd: "mr_data q = v \<Longrightarrow> posted_data (q, pass_fd f (sint v)) = of_int (bsim_fd f (sint v))"
  by (auto simp: posted_data_def pass_fd_def bsim_fd_def)

lemma bsim_rep_read:
  assumes "bsim_rep S up down f c s n w d" and "mp_read d (4 * a) = Inr (v, d')"
  shows "\<exists>w'. read_portal_bsim S (sim_step S) n w (int a) = Inr (v, int a, w') \<and> bsim_rep S up down f c s n w' d'"
  using bsim_read [of S up down f c s w] assms unfolding bsim_rep_def by (metis length_list_update nth_list_update_eq)

lemma bsim_rep_post:
  assumes "bsim_rep S up down f c s n w d" and "mp_write d (4 * a) (posted_data (q, pass_fd f fd)) = Inr d'"
    and "mr_write_flag q = 1" and "mr_addr q = bsim_addr n (int a)"
  shows "\<exists>w'. send_request S q fd w = Inr w' \<and> bsim_rep S up down f c s n w' d'"
  using bsim_post [of S up down f c s w] assms unfolding bsim_rep_def by (metis length_list_update nth_list_update_eq)

interpretation bsim: register_dispatch "bsimfunc S (sim_step S) n" "bsim_rep S up down f c s n" id "bsim_fd f"
  for S :: "'k sockets" and n up down f c s
proof unfold_locales
  fix t d a v d'
  let ?I = "bsimfunc S (sim_step S) n :: ('k bsim, 'c dispatch) PortalItemFunctions"
  let ?q = "\<lparr>mr_portal = of_nat n, mr_write_flag = 1, mr_addr = bsim_addr n (int a), mr_data = v\<rparr>"
  show "it_mapchannelReq ?I = mapchannel_hardware" "it_mapchannelInd ?I = mapchannel_hardware"
    "it_send ?I = send_portal_null" "it_recv ?I = recv_portal_null" "it_busywait ?I = busy_hardware (it_read ?I) id"
    by (simp_all add: bsimfunc_def)
  show "bsim_rep S up down f c s n t d \<Longrightarrow> mp_read d (4 * a) = Inr (v, d') \<Longrightarrow>
      \<exists>t'. it_read ?I t (int a) = Inr (v, int a, t') \<and> bsim_rep S up down f c s n t' d'"
    using bsim_rep_read [of S up down f c s n t d a v d'] by (auto simp: bsimfunc_def)
  show "bsim_rep S up down f c s n t d \<Longrightarrow> mp_write d (4 * a) v = Inr d' \<Longrightarrow>
      \<exists>t'. it_write ?I t (int a) v = Inr (int a, t') \<and> bsim_rep S up down f c s n t' d'"
    using bsim_rep_post [of S up down f c s n t d a ?q "- 1" d']
    by (auto simp: bsimfunc_def write_portal_bsim_def posted_data_def pass_fd_def)
  show "bsim_rep S up down f c s n t d \<Longrightarrow> mp_write d (4 * a) (of_int (bsim_fd f (sint v))) = Inr d' \<Longrightarrow>
      \<exists>t'. it_writefd ?I t (int a) v = Inr (int a, t') \<and> bsim_rep S up down f c s n t' d'"
    using bsim_rep_post [of S up down f c s n t d a ?q "sint v" d'] posted_fd [of ?q v f]
    by (auto simp: bsimfunc_def write_portal_fd_bsim_def)
qed

section \<open>Programs and the simulator together\<close>

text \<open>
  C15: A request sent to a simulated portal reaches the simulated hardware through the sockets as
  exactly its words, behind what the request pipe holds and behind earlier writes that are still on
  their way, with a descriptor renumbered for the simulator; nothing else of the portal changes.
\<close>

theorem bsim_send_pushes:
  assumes "bsim_rep S up down f c s n w d" and "fst (mmu_msg (\<lambda>_. 0) r) = of_nat ch" and "ch < 255"
    and "ch < length (mp_requests d)" and "length (mp_requests d ! ch) + length (req_words r) \<le> mp_depth d"
  shows "\<exists>w'. MMURequest_send (bsimfunc S (sim_step S) n :: ('k bsim, 'c dispatch) PortalItemFunctions) w r = Inr w' \<and>
     bsim_rep S up down f c s n w' (d\<lparr>mp_requests := (mp_requests d)[ch := mp_requests d ! ch @ device_words (bsim_fd f) r]\<rparr>)"
  by (rule bsim.send_push [OF assms])

lemma poll_interrupt_rep:
  assumes "bsim_rep S up down f c s n w d" and "c \<noteq> - 1"
  shows "\<exists>v w'. bsim_poll_interrupt S w = Inr (v, w') \<and> bsim_rep S up down f c s n w' d"
proof -
  from assms(1) obtain ps xs "is" where at: "bsim_at S up down f c s w xs is" and i: "list_all is_interrupt is"
    and xs: "list_all is_write xs" "apply_writes xs (bs_portals (bw_sim w)) = Inr ps" and n: "length ps \<le> 16" "n < length ps" "ps ! n = d"
    by (auto simp: bsim_rep_def bsim_all_def)
  have h: "is = [] \<or> is_interrupt (hd is)" "list_all is_interrupt (tl is)" using i by (cases "is"; simp)+
  from poll_pass [OF at h(1), of "- 1"] obtain w' where
    w': "poll_response S (- 1) w = Inr (False, w')" "bsim_at S up down f c s w' xs (tl is)" "bw_sim w' = bw_sim w" by blast
  have "bsim_all S up down f c s w' ps" using w'(2,3) h(2) xs n(1) unfolding bsim_all_def by (metis)
  then have "bsim_rep S up down f c s n w' d" using n(2,3) by (auto simp: bsim_rep_def)
  moreover have "bc_sockfd (bw_client w) = c" using at by (simp add: bsim_at_def)
  ultimately show ?thesis using w'(1) assms(2) by (simp add: bsim_poll_interrupt_def)
qed

text \<open>
  C16: An event of a simulated portal does nothing while the simulator reports no interrupt;
  otherwise it hands over every indication that waits in the simulated hardware, each once, the
  highest channel first and in order within a channel, and leaves the pipes empty.
\<close>

theorem bsim_event_drains:
  fixes st :: "'c dispatch" and w :: "'k bsim"
  assumes "bsim_rep S up down f c s n w d" and "c \<noteq> - 1" and "mp_requests d = []" and "mp_indications d = queued_words Q"
    and "by_channel Q"
  shows "\<exists>v w1 w'. bsim_poll_interrupt S w = Inr (v, w1) \<and>
     it_event (bsimfunc S (sim_step S) n) (MMURequest_handleMessage (bsimfunc S (sim_step S) n) cb) w st =
       Inr (- 1, w', if v = 0 then st
                     else st\<lparr>app := fold (\<lambda>r. cb (arrive (\<lambda>_. 0) r)) (concat (rev Q)) (app st)\<rparr>) \<and>
     bsim_rep S up down f c s n w' (if v = 0 then d else d\<lparr>mp_indications := replicate (length Q) []\<rparr>)"
proof -
  let ?I = "bsimfunc S (sim_step S) n :: ('k bsim, 'c dispatch) PortalItemFunctions"
  from poll_interrupt_rep [OF assms(1,2)] obtain v w1 where
    v: "bsim_poll_interrupt S w = Inr (v, w1)" and rep: "bsim_rep S up down f c s n w1 d" by blast
  have ev: "it_event ?I H w st = (if v = 0 then Inr (- 1, w1, st)
      else rbind (portalCheckIndication (it_read ?I) H w1 st) (\<lambda>(t, s). Inr (- 1, t, s)))" for H
    using v by (simp add: bsimfunc_def event_portal_bsim_def event_hardware_def)
  from bsim.checkIndication_drains [OF rep assms(3-5), of cb st] obtain w2 where
    w2: "portalCheckIndication (it_read ?I) (MMURequest_handleMessage ?I cb) w1 st =
      Inr (w2, st\<lparr>app := fold (\<lambda>r. cb (arrive (\<lambda>_. 0) r)) (concat (rev Q)) (app st)\<rparr>)"
      "bsim_rep S up down f c s n w2 (d\<lparr>mp_indications := replicate (length Q) []\<rparr>)" by blast
  show ?thesis
  proof (cases "v = 0")
    case True
    then show ?thesis using v rep ev by auto
  next
    case False
    then show ?thesis using v w2 ev by auto
  qed
qed

text \<open>Finding a portal by its identity.\<close>

lemma read_identity: "mp_read d (4 * 4) = Inr (mp_id d, d)" "mp_read d (4 * 5) = Inr (if mp_top d then 1 else 0, d)"
  by (simp_all add: mp_read_def mp_select_def ctrl_read_def)

lemma scan_portals_map:
  assumes "bsim_all S up down f c s w ps" and "i < length ps" and "length ps - i \<le> left"
    and "\<forall>j. i \<le> j \<and> j < length ps \<longrightarrow> unat (mp_id (ps ! j)) < MAX_BSIM_PORTAL_ID \<and> mp_top (ps ! j) = (j + 1 = length ps)"
  shows "\<exists>w'. scan_portals S (sim_step S) i left w = Inr w' \<and> bsim_all S up down f c s w' ps \<and>
     bc_map (bw_client w') = bc_map (bw_client w) @ map (\<lambda>j. (mp_id (ps ! j), of_nat j)) [i..<length ps]"
  using assms
proof (induction left arbitrary: i w)
  case (Suc left)
  let ?d = "ps ! i"
  have top: "unat (mp_id ?d) < MAX_BSIM_PORTAL_ID" "mp_top ?d = (i + 1 = length ps)" using Suc.prems(2,4) by auto
  from bsim_read [OF Suc.prems(1,2) read_identity(1)] obtain w1 where
    w1: "read_portal_bsim S (sim_step S) i w 4 = Inr (mp_id ?d, 4, w1)" "bsim_all S up down f c s w1 ps"
      "bc_map (bw_client w1) = bc_map (bw_client w)" by auto
  from bsim_read [OF w1(2) Suc.prems(2) read_identity(2)] obtain w2 where
    w2: "read_portal_bsim S (sim_step S) i w1 5 = Inr (if mp_top ?d then 1 else 0, 5, w2)" "bsim_all S up down f c s w2 ps"
      "bc_map (bw_client w2) = bc_map (bw_client w)" using w1(3) by auto
  let ?w = "w2\<lparr>bw_client := (bw_client w2)\<lparr>bc_map := bc_map (bw_client w2) @ [(mp_id ?d, of_nat i)]\<rparr>\<rparr>"
  have all: "bsim_all S up down f c s ?w ps" using w2(2) by (simp add: bsim_all_def bsim_at_def)
  have split: "[i..<length ps] = i # [i + 1..<length ps]" using Suc.prems(2) by (simp add: upt_conv_Cons)
  show ?case
  proof (cases "i + 1 = length ps")
    case True
    then have "[i + 1..<length ps] = []" by simp
    then show ?thesis using True w1(1) w2 top all split by simp
  next
    case False
    then have p: "i + 1 < length ps" "length ps - (i + 1) \<le> left"
      "\<forall>j. i + 1 \<le> j \<and> j < length ps \<longrightarrow> unat (mp_id (ps ! j)) < MAX_BSIM_PORTAL_ID \<and> mp_top (ps ! j) = (j + 1 = length ps)"
      using Suc.prems(2-4) by simp_all
    from Suc.IH [OF all p] obtain w' where
      "scan_portals S (sim_step S) (i + 1) left ?w = Inr w'" "bsim_all S up down f c s w' ps"
      "bc_map (bw_client w') = bc_map (bw_client ?w) @ map (\<lambda>j. (mp_id (ps ! j), of_nat j)) [i + 1..<length ps]" by blast
    then show ?thesis using False w1(1) w2 top split by simp
  qed
qed simp

lemma find_first:
  assumes "i < length xs" and "P (xs ! i)" and "\<forall>j < i. \<not> P (xs ! j)"
  shows "find P xs = Some (xs ! i)"
  using assms by (auto simp: find_Some_iff)

lemma write_enable: "mp_write d (4 * 1) 1 = Inr (d\<lparr>mp_enable := True\<rparr>)"
  by (simp add: mp_write_def mp_select_def)

text \<open>
  C17: The first portal a program opens connects it to the simulator and learns the identities of
  all portals of the design; the portal it gets is the first one of the design that has the
  identity it asked for, with its interrupt enabled and every other portal as it was.
\<close>

theorem init_bsim_finds_portal:
  assumes "bc_sockfd (bw_client w) = - 1" and "bc_map (bw_client w) = []" and "init_connecting S (bw_net w) = Inr (c, k)"
    and "bsim_all S up down f c s (w\<lparr>bw_client := (bw_client w)\<lparr>bc_sockfd := c\<rparr>, bw_net := k\<rparr>) ps"
    and "\<forall>j < length ps. unat (mp_id (ps ! j)) < MAX_BSIM_PORTAL_ID \<and> mp_top (ps ! j) = (j + 1 = length ps)"
    and "i < length ps" and "mp_id (ps ! i) = ident" and "\<forall>j < i. mp_id (ps ! j) \<noteq> ident"
  shows "\<exists>w'. init_bsim S (sim_step S) ident w = Inr (i, w') \<and>
     bsim_all S up down f c s w' (ps[i := (ps ! i)\<lparr>mp_enable := True\<rparr>])"
proof -
  let ?w = "w\<lparr>bw_client := (bw_client w)\<lparr>bc_sockfd := c\<rparr>, bw_net := k\<rparr>"
  have len: "length ps \<le> 16" using assms(4) by (simp add: bsim_all_def)
  have i16: "i < 16" using assms(6) len by simp
  have p: "0 < length ps" "length ps - 0 \<le> 32"
    "\<forall>j. 0 \<le> j \<and> j < length ps \<longrightarrow> unat (mp_id (ps ! j)) < MAX_BSIM_PORTAL_ID \<and> mp_top (ps ! j) = (j + 1 = length ps)"
    using assms(5,6) len by (simp_all only: le0 simp_thms)
  from scan_portals_map [OF assms(4) p] obtain w1 where
    w1: "scan_portals S (sim_step S) 0 32 ?w = Inr w1" "bsim_all S up down f c s w1 ps"
      "bc_map (bw_client w1) = map (\<lambda>j. (mp_id (ps ! j), of_nat j)) [0..<length ps]" using assms(2) by auto
  have con: "connect_to_bsim S (sim_step S) w = Inr w1" using assms(1,3) w1(1) by (simp add: connect_to_bsim_def)
  have "find (\<lambda>(name, _). name = ident) (bc_map (bw_client w1)) = Some (bc_map (bw_client w1) ! i)"
    unfolding w1(3) using assms(6-8) by (intro find_first) auto
  then have fnd: "find (\<lambda>(name, _). name = ident) (bc_map (bw_client w1)) = Some (ident, of_nat i)"
    using assms(6,7) by (simp add: w1(3))
  have u: "unat (of_nat i :: u32) = i" using i16 by (intro unat_of_nat_small) simp
  have small: "unat ident < MAX_BSIM_PORTAL_ID" using assms(5-7) by auto
  then have "sint ident = int (unat ident)" by (intro sint_int_unat) (simp add: MAX_BSIM_PORTAL_ID_def)
  then have id_ok: "sint ident < int MAX_BSIM_PORTAL_ID" by (simp only: of_nat_less_iff small)
  let ?q = "\<lparr>mr_portal = of_nat i, mr_write_flag = 1, mr_addr = bsim_addr i (int 1), mr_data = 1\<rparr>"
  have "mp_write (ps ! i) (4 * 1) (posted_data (?q, pass_fd f (- 1))) = Inr ((ps ! i)\<lparr>mp_enable := True\<rparr>)"
    using write_enable by (simp add: posted_data_def pass_fd_def)
  from bsim_post [OF w1(2) assms(6) this] obtain w2 where
    "send_request S ?q (- 1) w1 = Inr w2" "bsim_all S up down f c s w2 (ps[i := (ps ! i)\<lparr>mp_enable := True\<rparr>])" by auto
  then show ?thesis
    using con fnd id_ok u by (simp add: init_bsim_def enableint_hardware_def write_portal_bsim_def)
qed

section \<open>A concrete connection\<close>

text \<open>Descriptor 4 is the program's end, 5 the simulator's; descriptors arrive renumbered by 100.\<close>

definition demo_duplex :: "(flight \<times> flight) sockets" where
  "demo_duplex =
     \<lparr>sk_socket = (\<lambda>k. (4, k)), sk_unlink = id, sk_bind = (\<lambda>k fd. (0, k)), sk_listen = (\<lambda>k fd. (0, k)),
      sk_connect = (\<lambda>k fd. (0, k)), sk_accept = (\<lambda>k fd. (None, True, k)),
      sk_sendmsg = (\<lambda>(u, d) fd ws sfd. (int (4 * length ws),
        if fd = 4 then (u @ tagged ws (pass_fd (\<lambda>n. n + 100) sfd), d) else (u, d @ tagged ws (pass_fd (\<lambda>n. n + 100) sfd)))),
      sk_recvmsg = (\<lambda>(u, d) fd n.
        if fd = 5 then (if u = [] then (Again, u, d) else (Data (map fst (take n u)) (snd (hd u)), drop n u, d))
        else (if d = [] then (Again, u, d) else (Data (map fst (take n d)) (snd (hd d)), u, drop n d))),
      sk_close = (\<lambda>k fd. k)\<rparr>"

lemma demo_duplex_law: "duplex_law demo_duplex fst snd (\<lambda>n. n + 100) 4 5"
proof -
  have 1: "map fst (tagged ws fd) = ws" and 2: "length (tagged ws fd) = length ws" for ws fd
    by (cases ws; simp add: comp_def)+
  have 3: "ws \<noteq> [] \<Longrightarrow> snd (hd (tagged ws fd)) = fd \<and> tagged ws fd \<noteq> []" for ws fd by (cases ws) simp_all
  show ?thesis by (auto simp: duplex_law_def direction_law_def demo_duplex_def 1 2 3)
qed

definition demo_sim :: "mem_portal list \<Rightarrow> bsim_sim" where
  "demo_sim ps = \<lparr>bs_fds = [5], bs_req = words_request (replicate 6 0), bs_sockfd = 0, bs_valid = False, bs_inflight = False,
     bs_resp = words_response (replicate 3 0), bs_level = 0, bs_portals = ps\<rparr>"

definition demo_client :: "int \<Rightarrow> bsim_client" where
  "demo_client fd = \<lparr>bc_sockfd = fd, bc_response = words_response (replicate 3 0), bc_response_valid = False,
     bc_interrupt = 0, bc_tag = 0, bc_map = []\<rparr>"

lemma demo_bsim_all:
  assumes "length ps \<le> 16"
  shows "bsim_all demo_duplex fst snd (\<lambda>n. n + 100) 4 5 \<lparr>bw_client = demo_client 4, bw_sim = demo_sim ps, bw_net = ([], [])\<rparr> ps"
proof -
  let ?w = "\<lparr>bw_client = demo_client 4, bw_sim = demo_sim ps, bw_net = ([], [])\<rparr>"
  have "bsim_at demo_duplex fst snd (\<lambda>n. n + 100) 4 5 ?w [] []"
    using demo_duplex_law by (simp add: bsim_at_def sim_idle_def demo_sim_def demo_client_def posted_words_def replies_words_def)
  then show ?thesis using assms unfolding bsim_all_def by (force simp: demo_sim_def)
qed

theorem bsim_send_pushes_witness:
  "\<exists>w'. MMURequest_send (bsimfunc demo_duplex (sim_step demo_duplex) 0 :: ((flight \<times> flight) bsim, unit dispatch) PortalItemFunctions)
       \<lparr>bw_client = demo_client 4, bw_sim = demo_sim [demo_mem_portal\<lparr>mp_requests := [[], [], []]\<rparr>], bw_net = ([], [])\<rparr> (IdRequest 7) = Inr w' \<and>
     bsim_rep demo_duplex fst snd (\<lambda>n. n + 100) 4 5 0 w' (demo_mem_portal\<lparr>mp_requests := [[], [], [107]]\<rparr>)"
proof -
  let ?d = "demo_mem_portal\<lparr>mp_requests := [[], [], []]\<rparr>"
  have "bsim_rep demo_duplex fst snd (\<lambda>n. n + 100) 4 5 0 \<lparr>bw_client = demo_client 4, bw_sim = demo_sim [?d], bw_net = ([], [])\<rparr> ?d"
    using demo_bsim_all [of "[?d]"] by (force simp: bsim_rep_def)
  from bsim_send_pushes [where 'c = unit, OF this, of "IdRequest 7" 2] show ?thesis
    by (simp add: mmu_msg_def req_words_def demo_mem_portal_def device_words_def bsim_fd_def)
qed

theorem bsim_event_drains_witness:
  "\<exists>v w1 w'. bsim_poll_interrupt demo_duplex \<lparr>bw_client = demo_client 4, bw_sim = demo_sim [demo_mem_portal], bw_net = ([], [])\<rparr> = Inr (v, w1) \<and>
     it_event (bsimfunc demo_duplex (sim_step demo_duplex) 0)
       (MMURequest_handleMessage (bsimfunc demo_duplex (sim_step demo_duplex) 0) (\<lambda>r c. c @ [r]))
       \<lparr>bw_client = demo_client 4, bw_sim = demo_sim [demo_mem_portal], bw_net = ([], [])\<rparr> \<lparr>runaway = 0, app = []\<rparr> =
       Inr (- 1, w', if v = 0 then \<lparr>runaway = 0, app = []\<rparr>
                     else \<lparr>runaway = 0, app = [SetInterface 1 2, IdReturn 7, IdReturn 8]\<rparr>)"
proof -
  let ?Q = "[[], [], [], [IdReturn 7, IdReturn 8], [SetInterface 1 2]]"
  have "bsim_rep demo_duplex fst snd (\<lambda>n. n + 100) 4 5 0
      \<lparr>bw_client = demo_client 4, bw_sim = demo_sim [demo_mem_portal], bw_net = ([], [])\<rparr> demo_mem_portal"
    using demo_bsim_all [of "[demo_mem_portal]"] by (force simp: bsim_rep_def)
  from bsim_event_drains [OF this, of ?Q "\<lambda>r c. c @ [r]" "\<lparr>runaway = 0, app = []\<rparr>"] show ?thesis
    by (fastforce simp: demo_mem_portal_def by_channel_def mmu_msg_def arrive_def numeral_eq_Suc)
qed

theorem init_bsim_finds_portal_witness:
  "\<exists>w'. init_bsim demo_duplex (sim_step demo_duplex) 9
       \<lparr>bw_client = demo_client (- 1), bw_sim = demo_sim [demo_mem_portal\<lparr>mp_top := False\<rparr>, demo_mem_portal\<lparr>mp_id := 9\<rparr>], bw_net = ([], [])\<rparr> = Inr (1, w')"
proof -
  let ?ps = "[demo_mem_portal\<lparr>mp_top := False\<rparr>, demo_mem_portal\<lparr>mp_id := 9\<rparr>]"
  let ?w = "\<lparr>bw_client = demo_client (- 1), bw_sim = demo_sim ?ps, bw_net = ([], [])\<rparr> :: (flight \<times> flight) bsim"
  have 1: "bc_sockfd (bw_client ?w) = - 1" "bc_map (bw_client ?w) = []" by (simp_all add: demo_client_def)
  have 2: "init_connecting demo_duplex (bw_net ?w) = Inr (4, ([], []))"
    by (simp add: init_connecting_def demo_duplex_def connect_loop.simps)
  have 3: "bsim_all demo_duplex fst snd (\<lambda>n. n + 100) 4 5 (?w\<lparr>bw_client := (bw_client ?w)\<lparr>bc_sockfd := 4\<rparr>, bw_net := ([], [])\<rparr>) ?ps"
    using demo_bsim_all [of ?ps] by (simp add: demo_client_def)
  have 4: "\<forall>j < length ?ps. unat (mp_id (?ps ! j)) < MAX_BSIM_PORTAL_ID \<and> mp_top (?ps ! j) = (j + 1 = length ?ps)"
    by (auto simp: less_Suc_eq demo_mem_portal_def MAX_BSIM_PORTAL_ID_def)
  from init_bsim_finds_portal [OF 1 2 3 4, of 1 9] show ?thesis by (auto simp: demo_mem_portal_def)
qed

end
