(* ===== verification/Bsim_Dma.thy ===== *)
theory Bsim_Dma
  imports Portal_Interface
begin

text \<open>
  The memory of a simulated design (\<open>cpp/BsimDma.cxx\<close>): a table of buffers the simulator maps
  when the host has described them, and the accesses the simulated hardware makes.  A handle of the
  hardware has five bits for the buffer and the port above them.
\<close>

definition MAX_DMA_PORTS :: nat where "MAX_DMA_PORTS = 4"
definition MAX_DMA_IDS :: nat where "MAX_DMA_IDS = 32"

record dma_slot =
  de_fd :: u32
  de_buffer :: "u8 list option"
  de_buffer_len :: u32
  de_size_accum :: u32

type_synonym dma_table = "dma_slot list list"

definition no_slot :: dma_slot where
  "no_slot = \<lparr>de_fd = 0, de_buffer = None, de_buffer_len = 0, de_size_accum = 0\<rparr>"

definition dma_info :: dma_table where
  "dma_info = replicate MAX_DMA_PORTS (replicate MAX_DMA_IDS no_slot)"

definition dma_get :: "dma_table \<Rightarrow> u32 \<Rightarrow> u32 \<Rightarrow> dma_slot result" where
  "dma_get T ident pref =
     (if unat ident < length T \<and> unat pref < length (T ! unat ident) then Inr (T ! unat ident ! unat pref) else Inl OutOfBounds)"

definition dma_put :: "dma_table \<Rightarrow> u32 \<Rightarrow> u32 \<Rightarrow> dma_slot \<Rightarrow> dma_table" where
  "dma_put T ident pref e = T[unat ident := (T ! unat ident)[unat pref := e]]"

text \<open>Little-endian accesses to a mapped buffer.\<close>

primrec load_bytes :: "u8 list \<Rightarrow> nat \<Rightarrow> nat \<Rightarrow> nat" where
  "load_bytes b off 0 = 0"
| "load_bytes b off (Suc n) = unat (b ! off) + 256 * load_bytes b (off + 1) n"

primrec store_bytes :: "u8 list \<Rightarrow> nat \<Rightarrow> nat \<Rightarrow> nat \<Rightarrow> u8 list" where
  "store_bytes b off v 0 = b"
| "store_bytes b off v (Suc n) = store_bytes (b[off := of_nat v]) (off + 1) (v div 256) n"

definition entry_load :: "dma_slot \<Rightarrow> u32 \<Rightarrow> nat \<Rightarrow> nat result" where
  "entry_load e offset n =
     (case de_buffer e of
        None \<Rightarrow> Inl NullDeref
      | Some b \<Rightarrow> if unat offset + n \<le> length b then Inr (load_bytes b (unat offset) n) else Inl OutOfBounds)"

definition entry_store :: "dma_slot \<Rightarrow> u32 \<Rightarrow> nat \<Rightarrow> nat \<Rightarrow> dma_slot result" where
  "entry_store e offset v n =
     (case de_buffer e of
        None \<Rightarrow> Inl NullDeref
      | Some b \<Rightarrow>
          if unat offset + n \<le> length b then Inr (e\<lparr>de_buffer := Some (store_bytes b (unat offset) v n)\<rparr>)
          else Inl OutOfBounds)"

definition write_pareff32 :: "u32 \<Rightarrow> u32 \<Rightarrow> u32 \<Rightarrow> dma_table \<Rightarrow> dma_table result" where
  "write_pareff32 pref offset data T =
     (let ident = drop_bit 5 pref; pref = pref - push_bit 5 ident in
      rbind (dma_get T ident pref) (\<lambda>e.
      rbind (entry_store e offset (unat data) 4) (\<lambda>e. Inr (dma_put T ident pref e))))"

definition read_pareff32 :: "u32 \<Rightarrow> u32 \<Rightarrow> dma_table \<Rightarrow> u32 result" where
  "read_pareff32 pref offset T =
     (let ident = drop_bit 5 pref; pref = pref - push_bit 5 ident in
      rbind (dma_get T ident pref) (\<lambda>e. rbind (entry_load e offset 4) (\<lambda>v. Inr (of_nat v))))"

definition write_pareff64 :: "u32 \<Rightarrow> u32 \<Rightarrow> u64 \<Rightarrow> dma_table \<Rightarrow> dma_table result" where
  "write_pareff64 pref offset data T =
     (let ident = drop_bit 5 pref; pref = pref - push_bit 5 ident in
      rbind (dma_get T ident pref) (\<lambda>e.
      rbind (entry_store e offset (unat data) 8) (\<lambda>e. Inr (dma_put T ident pref e))))"

definition read_pareff64 :: "u32 \<Rightarrow> u32 \<Rightarrow> dma_table \<Rightarrow> u64 result" where
  "read_pareff64 pref offset T =
     (let ident = drop_bit 5 pref; pref = pref - push_bit 5 ident in
      rbind (dma_get T ident pref) (\<lambda>e. rbind (entry_load e offset 8) (\<lambda>v. Inr (of_nat v))))"

definition pareff_initfd :: "u32 \<Rightarrow> u32 \<Rightarrow> dma_table \<Rightarrow> dma_table result" where
  "pareff_initfd aid fd T =
     (let ident = drop_bit 16 aid; pref = aid AND 0xffff in
      rbind (dma_get T ident pref) (\<lambda>e. Inr (dma_put T ident pref (e\<lparr>de_fd := fd\<rparr>))))"

text \<open>\<open>pareff_init\<close>; \<open>mm\<close> is the system's \<open>mmap\<close> of a descriptor, which may fail.\<close>

definition pareff_init :: "(u32 \<Rightarrow> int \<Rightarrow> u8 list option) \<Rightarrow> u32 \<Rightarrow> u32 \<Rightarrow> u32 \<Rightarrow> dma_table \<Rightarrow> dma_table result" where
  "pareff_init mm ident pref sz T =
     rbind (rassert (unat pref < MAX_DMA_IDS) AssertFailed) (\<lambda>_.
     rbind (dma_get T ident pref) (\<lambda>e.
       let e = e\<lparr>de_size_accum := de_size_accum e + sz\<rparr> in
       if sz = 0 then
         (case mm (de_fd e) (sint (de_size_accum e)) of
            None \<Rightarrow> Inl (Exit (- 1))
          | Some b \<Rightarrow> Inr (dma_put T ident pref (e\<lparr>de_buffer := Some b, de_buffer_len := de_size_accum e\<rparr>)))
       else Inr (dma_put T ident pref e)))"

section \<open>Bytes\<close>

lemma length_store_bytes [simp]: "length (store_bytes b off v n) = length b"
  by (induction n arbitrary: b off v) simp_all

lemma store_bytes_nth_before: "k < off \<Longrightarrow> store_bytes b off v n ! k = b ! k"
  by (induction n arbitrary: b off v) simp_all

lemma store_bytes_nth:
  "off + n \<le> length b \<Longrightarrow> i < n \<Longrightarrow> store_bytes b off v n ! (off + i) = of_nat (v div 256 ^ i)"
proof (induction n arbitrary: b off v i)
  case (Suc n)
  show ?case
  proof (cases i)
    case 0
    then show ?thesis using Suc.prems by (simp add: store_bytes_nth_before)
  next
    case (Suc j)
    then show ?thesis using Suc.IH [of "off + 1" "b[off := of_nat v]" j "v div 256"] Suc.prems Suc
      by (simp add: div_mult2_eq mult.commute)
  qed
qed simp

lemma load_bytes_value:
  "(\<And>i. i < n \<Longrightarrow> b ! (off + i) = of_nat (v div 256 ^ i)) \<Longrightarrow> load_bytes b off n = v mod 256 ^ n"
proof (induction n arbitrary: off v)
  case (Suc n)
  have "load_bytes b (off + 1) n = (v div 256) mod 256 ^ n"
    using Suc.prems [of "Suc _"] by (intro Suc.IH) (simp add: div_mult2_eq mult.commute)
  moreover have "unat (b ! off) = v mod 256" using Suc.prems [of 0] by (simp add: unat_of_nat)
  moreover have "v mod 256 ^ Suc n = v mod 256 + 256 * ((v div 256) mod 256 ^ n)"
    by (simp add: mod_mult2_eq)
  ultimately show ?case by simp
qed simp

text \<open>What a part of a stored value reads as.\<close>

lemma load_store_bytes:
  assumes "off + n \<le> length b" and "i + m \<le> n"
  shows "load_bytes (store_bytes b off v n) (off + i) m = (v div 256 ^ i) mod 256 ^ m"
proof (rule load_bytes_value)
  fix j assume "j < m"
  then show "store_bytes b off v n ! (off + i + j) = of_nat (v div 256 ^ i div 256 ^ j)"
    using store_bytes_nth [OF assms(1), of "i + j" v] assms(2) by (simp add: add.assoc power_add div_mult2_eq)
qed

section \<open>Handles\<close>

definition handle :: "nat \<Rightarrow> nat \<Rightarrow> u32" where
  "handle port pref = of_nat (port * 32 + pref)"

lemma handle_parts:
  assumes "port < MAX_DMA_PORTS" and "pref < MAX_DMA_IDS"
  shows "drop_bit 5 (handle port pref) = of_nat port"
    "handle port pref - push_bit 5 (of_nat port) = of_nat pref"
    "unat (of_nat port :: u32) = port" "unat (of_nat pref :: u32) = pref"
proof -
  have b: "port < 4" "pref < 32" using assms by (simp_all add: MAX_DMA_PORTS_def MAX_DMA_IDS_def)
  show u: "unat (of_nat port :: u32) = port" "unat (of_nat pref :: u32) = pref" using b by (auto intro!: unat_of_nat_small)
  have h: "unat (handle port pref) = port * 32 + pref" unfolding handle_def using b by (intro unat_of_nat_small) simp
  show "drop_bit 5 (handle port pref) = of_nat port"
    using b by (simp add: word_unat_eq_iff unat_drop_bit h u)
  show "handle port pref - push_bit 5 (of_nat port) = of_nat pref"
    by (simp add: handle_def push_bit_eq_mult mult.commute)
qed

definition has_buffer :: "dma_table \<Rightarrow> nat \<Rightarrow> nat \<Rightarrow> u8 list \<Rightarrow> bool" where
  "has_buffer T port pref b \<longleftrightarrow> length T = MAX_DMA_PORTS \<and> length (T ! port) = MAX_DMA_IDS \<and> de_buffer (T ! port ! pref) = Some b"

lemmas pareff_defs = write_pareff32_def read_pareff32_def write_pareff64_def read_pareff64_def Let_def dma_get_def dma_put_def
  entry_load_def entry_store_def

text \<open>
  C34: Eight bytes the simulated hardware writes through a handle read back as the same eight bytes,
  and as their lower and upper four bytes at the two halves of the address; no other buffer changes.
\<close>

theorem pareff_write_read:
  assumes "port < MAX_DMA_PORTS" and "pref < MAX_DMA_IDS" and "has_buffer T port pref b"
    and "off + 8 \<le> length b" and "off + 8 < 2 ^ 32"
  shows "\<exists>T'. write_pareff64 (handle port pref) (of_nat off) v T = Inr T' \<and>
     read_pareff64 (handle port pref) (of_nat off) T' = Inr v \<and>
     read_pareff32 (handle port pref) (of_nat off) T' = Inr (lo32 v) \<and>
     read_pareff32 (handle port pref) (of_nat (off + 4)) T' = Inr (hi32 v) \<and>
     (\<forall>p q. p \<noteq> port \<or> q \<noteq> pref \<longrightarrow> T' ! p ! q = T ! p ! q)"
proof -
  note hp = handle_parts [OF assms(1,2)]
  have o: "unat (of_nat off :: u32) = off" "unat (of_nat (off + 4) :: u32) = off + 4"
    using assms(5) by (intro unat_of_nat_small; simp)+
  have T: "port < length T" "pref < length (T ! port)" "de_buffer (T ! port ! pref) = Some b"
    using assms(1-3) by (simp_all add: has_buffer_def)
  let ?b = "store_bytes b off (unat v) 8"
  let ?T = "T[port := (T ! port)[pref := (T ! port ! pref)\<lparr>de_buffer := Some ?b\<rparr>]]"
  have w: "write_pareff64 (handle port pref) (of_nat off) v T = Inr ?T"
    unfolding pareff_defs hp o(1) using T assms(4) by simp
  have "load_bytes ?b (off + 0) 8 = unat v" "load_bytes ?b (off + 0) 4 = unat v mod 2 ^ 32"
    "load_bytes ?b (off + 4) 4 = unat v div 2 ^ 32"
    using load_store_bytes [OF assms(4), of 0 8 "unat v"] load_store_bytes [OF assms(4), of 0 4 "unat v"]
      load_store_bytes [OF assms(4), of 4 4 "unat v"] unat_less_size [of v]
    by (simp_all add: less_mult_imp_div_less)
  moreover have "(of_nat (unat v mod 2 ^ 32) :: u32) = lo32 v"
    by (simp add: word_unat_eq_iff lo32_def unat_ucast_mod unat_of_nat)
  moreover have "(of_nat (unat v div 2 ^ 32) :: u32) = hi32 v"
    by (simp add: word_unat_eq_iff hi32_def unat_ucast_mod unat_of_nat unat_drop_bit)
  ultimately have "read_pareff64 (handle port pref) (of_nat off) ?T = Inr v"
    "read_pareff32 (handle port pref) (of_nat off) ?T = Inr (lo32 v)"
    "read_pareff32 (handle port pref) (of_nat (off + 4)) ?T = Inr (hi32 v)"
    unfolding pareff_defs hp o using T assms(4) by simp_all
  moreover have "\<forall>p q. p \<noteq> port \<or> q \<noteq> pref \<longrightarrow> ?T ! p ! q = T ! p ! q"
    by (metis nth_list_update_neq nth_list_update_eq T(1))
  ultimately show ?thesis using w by blast
qed

theorem pareff_write_read_witness:
  "\<exists>T'. write_pareff64 (handle 1 3) 0 0x1122334455667788
          (dma_put dma_info 1 3 (no_slot\<lparr>de_buffer := Some (replicate 16 0)\<rparr>)) = Inr T' \<and>
     read_pareff32 (handle 1 3) 4 T' = Inr 0x11223344"
proof -
  let ?T = "dma_put dma_info 1 3 (no_slot\<lparr>de_buffer := Some (replicate 16 0)\<rparr>)"
  have "has_buffer ?T 1 3 (replicate 16 0)"
    by (simp add: has_buffer_def dma_put_def dma_info_def MAX_DMA_PORTS_def MAX_DMA_IDS_def)
  moreover have "(1 :: nat) < MAX_DMA_PORTS" "(3 :: nat) < MAX_DMA_IDS" by (simp_all add: MAX_DMA_PORTS_def MAX_DMA_IDS_def)
  ultimately obtain T' where "write_pareff64 (handle 1 3) 0 0x1122334455667788 ?T = Inr T'"
    "read_pareff32 (handle 1 3) 4 T' = Inr (hi32 0x1122334455667788)"
    using pareff_write_read [of 1 3 ?T "replicate 16 0" 0 "0x1122334455667788"] by auto
  moreover have "hi32 0x1122334455667788 = 0x11223344" by (simp add: hi32_def drop_bit_eq_div)
  ultimately show ?thesis by simp
qed

end
