(* ===== verification/Poller.thy ===== *)
theory Poller
  imports Connectal_Prelude
begin

text \<open>
  The event loop of a program (\<open>cpp/poller.cpp\<close>, \<open>cpp/poller.h\<close>): the arrays of registered
  portals and of descriptors to wait for, with the counters the code keeps, and the loop of the
  polling thread.  Portals are addresses; \<open>P\<close> gives the fields of a portal the poller reads.
\<close>

section \<open>State\<close>

record portal_info =
  pn_number :: int
  pn_fd :: int
  pn_clients :: "int list"
  pn_handler :: bool

record poller =
  pl_wrappers :: "nat list"
  pl_numWrappers :: int
  pl_fds :: "int list"
  pl_numFds :: int
  pl_stopping :: bool
  pl_timeout :: int

definition PortalPoller :: poller where
  "PortalPoller = \<lparr>pl_wrappers = [], pl_numWrappers = 0, pl_fds = [], pl_numFds = 0, pl_stopping = False, pl_timeout = 0\<rparr>"

text \<open>\<open>realloc\<close> of an array; new elements have some value.\<close>

definition resize :: "'a \<Rightarrow> nat \<Rightarrow> 'a list \<Rightarrow> 'a list" where
  "resize x n xs = take n xs @ replicate (n - length xs) x"

section \<open>Registration\<close>

definition addFd :: "int \<Rightarrow> poller \<Rightarrow> poller result" where
  "addFd fd p =
     (let n = pl_numFds p + 1 in
      if n \<le> 0 then Inl OutOfBounds
      else Inr (p\<lparr>pl_numFds := n, pl_fds := (resize 0 (nat n) (pl_fds p))[nat n - 1 := fd]\<rparr>))"

fun addFds :: "int list \<Rightarrow> poller \<Rightarrow> poller result" where
  "addFds [] p = Inr p"
| "addFds (fd # fds) p = rbind (addFd fd p) (addFds fds)"

definition registerInstance :: "(nat \<Rightarrow> portal_info) \<Rightarrow> nat \<Rightarrow> poller \<Rightarrow> poller result" where
  "registerInstance P a p =
     (let n = pl_numWrappers p + 1 in
      if n \<le> 0 then Inl OutOfBounds
      else
        (let p = p\<lparr>pl_numWrappers := n, pl_wrappers := (resize 0 (nat n) (pl_wrappers p))[nat n - 1 := a]\<rparr> in
         rbind (if pn_fd (P a) \<noteq> - 1 then addFd (pn_fd (P a)) p else Inr p) (addFds (pn_clients (P a)))))"

text \<open>The two loops of \<open>unregisterInstance\<close>: find the element, move the rest down.\<close>

definition search :: "('a \<Rightarrow> bool) \<Rightarrow> 'a list \<Rightarrow> int \<Rightarrow> nat" where
  "search Q xs n = length (takeWhile (\<lambda>i. \<not> Q (xs ! i)) [0..<nat n])"

function shift_down :: "'a list \<Rightarrow> nat \<Rightarrow> int \<Rightarrow> 'a list" where
  "shift_down xs i n = (if int i < n - 1 then shift_down (xs[i := xs ! (i + 1)]) (i + 1) n else xs)"
  by pat_completeness auto
termination
  by (relation "measure (\<lambda>(xs, i, n). nat n - i)") auto

declare shift_down.simps [simp del]

definition unregisterInstance :: "(nat \<Rightarrow> portal_info) \<Rightarrow> nat \<Rightarrow> poller \<Rightarrow> poller" where
  "unregisterInstance P a p =
     (let i = search (\<lambda>b. pn_number (P b) = pn_number (P a)) (pl_wrappers p) (pl_numWrappers p);
          w = shift_down (pl_wrappers p) i (pl_numWrappers p);
          j = search (\<lambda>fd. fd = pn_fd (P a)) (pl_fds p) (pl_numFds p);
          f = shift_down (pl_fds p) j (pl_numFds p) in
      p\<lparr>pl_wrappers := w, pl_numWrappers := pl_numWrappers p - 1, pl_fds := f, pl_numFds := pl_numFds p - 1\<rparr>)"

text \<open>
  The constructor and the destructor of a portal: one with a handler, or over a socket (\<open>sock\<close>),
  is registered; the destructor removes it if it has a handler and closes its device.  The second
  component of the result is the descriptor closed.
\<close>

definition initPortal :: "(nat \<Rightarrow> portal_info) \<Rightarrow> bool \<Rightarrow> nat \<Rightarrow> poller \<Rightarrow> poller result" where
  "initPortal P sock a p = (if pn_handler (P a) \<or> sock then registerInstance P a p else Inr p)"

definition destroyPortal :: "(nat \<Rightarrow> portal_info) \<Rightarrow> nat \<Rightarrow> poller \<Rightarrow> poller \<times> int option" where
  "destroyPortal P a p =
     (if pn_handler (P a) then unregisterInstance P a p else p, if pn_fd (P a) > 0 then Some (pn_fd (P a)) else None)"

section \<open>The loop\<close>










section \<open>The arrays\<close>

lemma nat_int_Suc [simp]: "nat (int k + 1) = Suc k"
  by simp

lemma append_resize: "(resize x (Suc (length xs)) xs)[length xs := a] = xs @ [a]"
  by (simp add: resize_def list_update_append)

text \<open>\<open>holds p as fds\<close>: the poller has the portals \<open>as\<close> and the descriptors \<open>fds\<close>.\<close>

definition holds :: "poller \<Rightarrow> nat list \<Rightarrow> int list \<Rightarrow> bool" where
  "holds p as fds \<longleftrightarrow>
     pl_numWrappers p = int (length as) \<and> take (length as) (pl_wrappers p) = as \<and>
     pl_numFds p = int (length fds) \<and> take (length fds) (pl_fds p) = fds"

lemma resize_grow:
  assumes "take n xs = ys" and "length ys = n"
  shows "take (Suc n) ((resize x (Suc n) xs)[n := a]) = ys @ [a]"
proof (rule nth_equalityI)
  have n: "n \<le> length xs" using assms by (metis length_take min.cobounded1 min_def)
  show "length (take (Suc n) ((resize x (Suc n) xs)[n := a])) = length (ys @ [a])" using n assms(2) by (simp add: resize_def)
  fix i assume "i < length (take (Suc n) ((resize x (Suc n) xs)[n := a]))"
  then have i: "i < Suc n" by simp
  show "take (Suc n) ((resize x (Suc n) xs)[n := a]) ! i = (ys @ [a]) ! i"
  proof (cases "i = n")
    case True
    have "(ys @ [a]) ! n = a" using assms(2) by (metis nth_append_length)
    then show ?thesis using n True by (simp add: resize_def)
  next
    case False
    then have "i < n" using i by simp
    moreover from this have "ys ! i = xs ! i" "i < length ys" using assms by auto
    ultimately show ?thesis using n by (simp add: resize_def nth_append)
  qed
qed

lemma addFd_holds:
  assumes "holds p as fds"
  shows "\<exists>p'. addFd fd p = Inr p' \<and> holds p' as (fds @ [fd])"
proof -
  let ?p = "p\<lparr>pl_numFds := pl_numFds p + 1, pl_fds := (resize 0 (nat (pl_numFds p + 1)) (pl_fds p))[nat (pl_numFds p + 1) - 1 := fd]\<rparr>"
  have n: "nat (pl_numFds p + 1) = Suc (length fds)" using assms by (simp add: holds_def nat_add_distrib)
  have "addFd fd p = Inr ?p" using assms by (simp add: addFd_def holds_def Let_def)
  moreover have "holds ?p as (fds @ [fd])"
    using assms resize_grow [of "length fds" "pl_fds p" fds 0 fd] by (simp add: holds_def n del: take_Suc_conv_app_nth)
  ultimately show ?thesis by blast
qed

lemma addFds_holds: "holds p as fds \<Longrightarrow> \<exists>p'. addFds gs p = Inr p' \<and> holds p' as (fds @ gs)"
proof (induction gs arbitrary: p fds)
  case (Cons g gs)
  from addFd_holds [OF Cons.prems, of g] obtain p1 where "addFd g p = Inr p1" "holds p1 as (fds @ [g])" by blast
  with Cons.IH [OF this(2)] show ?case by simp
qed simp

text \<open>The descriptors of a portal, as registration adds them.\<close>

definition portal_fds :: "portal_info \<Rightarrow> int list" where
  "portal_fds i = (if pn_fd i \<noteq> - 1 then [pn_fd i] else []) @ pn_clients i"

lemma register_holds:
  assumes "holds p as fds"
  shows "\<exists>p'. registerInstance P a p = Inr p' \<and> holds p' (as @ [a]) (fds @ portal_fds (P a))"
proof -
  let ?p = "p\<lparr>pl_numWrappers := pl_numWrappers p + 1,
    pl_wrappers := (resize 0 (nat (pl_numWrappers p + 1)) (pl_wrappers p))[nat (pl_numWrappers p + 1) - 1 := a]\<rparr>"
  have n: "nat (pl_numWrappers p + 1) = Suc (length as)" "0 < pl_numWrappers p + 1"
    using assms by (simp_all add: holds_def nat_add_distrib)
  have h: "holds ?p (as @ [a]) fds"
    using assms resize_grow [of "length as" "pl_wrappers p" as 0 a] by (simp add: holds_def n del: take_Suc_conv_app_nth)
  obtain p1 where p1: "(if pn_fd (P a) \<noteq> - 1 then addFd (pn_fd (P a)) ?p else Inr ?p) = Inr p1"
    "holds p1 (as @ [a]) (fds @ (if pn_fd (P a) \<noteq> - 1 then [pn_fd (P a)] else []))"
    using addFd_holds [OF h, of "pn_fd (P a)"] h by (cases "pn_fd (P a) = - 1") auto
  have "registerInstance P a p = rbind (if pn_fd (P a) \<noteq> - 1 then addFd (pn_fd (P a)) ?p else Inr ?p) (addFds (pn_clients (P a)))"
    using n(2) by (simp add: registerInstance_def Let_def)
  with addFds_holds [OF p1(2), of "pn_clients (P a)"] p1(1) show ?thesis by (simp add: portal_fds_def)
qed

text \<open>Removing the element at position \<open>i\<close>.\<close>

lemma shift_down_take:
  "take n xs = ys \<Longrightarrow> length ys = n \<Longrightarrow> i < n \<Longrightarrow>
   take (n - 1) (shift_down xs i (int n)) = take i ys @ drop (i + 1) ys"
proof (induction xs i "int n" arbitrary: ys rule: shift_down.induct)
  case (1 xs i)
  have len: "n \<le> length xs" using 1(2,3) by (metis length_take min.cobounded1 min_def)
  show ?case
  proof (cases "i + 1 < n")
    case True
    let ?xs = "xs[i := xs ! (i + 1)]"
    have t: "take n ?xs = ys[i := ys ! (i + 1)]" using 1(2) True by (auto simp: take_update_swap)
    have "take (n - 1) (shift_down ?xs (i + 1) (int n)) =
        take (i + 1) (ys[i := ys ! (i + 1)]) @ drop (i + 1 + 1) (ys[i := ys ! (i + 1)])"
      using 1(1) [OF _ t] True 1(3) by simp
    also have "\<dots> = take i ys @ ys ! (i + 1) # drop (i + 2) ys"
      using True 1(3) by (simp add: take_Suc_conv_app_nth)
    also have "ys ! (i + 1) # drop (i + 2) ys = drop (i + 1) ys"
      using True 1(3) by (simp add: Cons_nth_drop_Suc)
    finally show ?thesis using True by (subst shift_down.simps) simp
  next
    case False
    then have "i = n - 1" "drop (i + 1) ys = []" using 1(3,4) by simp_all
    moreover have "take (n - 1) xs = take (n - 1) ys" using 1(2) by (metis diff_le_self take_take min.absorb1)
    ultimately show ?thesis using False by (subst shift_down.simps) simp
  qed
qed

lemma search_first:
  assumes "i < n" and "Q (xs ! i)" and "\<forall>j < i. \<not> Q (xs ! j)"
  shows "search Q xs (int n) = i"
proof -
  have "[0..<n] = [0..<i] @ i # [Suc i..<n]" using assms(1) upt_add_eq_append [of 0 i "n - i"] upt_conv_Cons [of i n] by simp
  moreover have "takeWhile (\<lambda>j. \<not> Q (xs ! j)) ([0..<i] @ i # [Suc i..<n]) = [0..<i]"
    using assms(2,3) by (subst takeWhile_append2) auto
  ultimately show ?thesis by (simp add: search_def)
qed

lemma search_none: "\<forall>j < n. \<not> Q (xs ! j) \<Longrightarrow> search Q xs (int n) = n"
  by (simp add: search_def takeWhile_eq_all_conv [THEN iffD2])

lemma remove_split:
  assumes "take (length (us @ a # vs)) xs = us @ a # vs" and "Q a" and "\<forall>b \<in> set us. \<not> Q b"
  shows "take (length (us @ vs)) (shift_down xs (search Q xs (int (length (us @ a # vs)))) (int (length (us @ a # vs)))) = us @ vs"
proof -
  let ?n = "length (us @ a # vs)"
  have nth: "xs ! j = (us @ a # vs) ! j" if "j < ?n" for j using assms(1) that by (metis nth_take)
  have "search Q xs (int ?n) = length us"
  proof (rule search_first)
    show "length us < ?n" by simp
    show "Q (xs ! length us)" using nth [of "length us"] assms(2) by simp
    show "\<forall>j < length us. \<not> Q (xs ! j)" using nth assms(3) by (simp add: nth_append)
  qed
  moreover have "length (us @ vs) = ?n - 1" by simp
  ultimately show ?thesis using shift_down_take [OF assms(1) refl, of "length us"] by simp
qed

section \<open>Properties\<close>

text \<open>Runs of registrations and removals, and the list of portals they leave.\<close>

datatype reg_op = Register nat | Unregister nat

fun run_ops :: "(nat \<Rightarrow> portal_info) \<Rightarrow> reg_op list \<Rightarrow> poller \<Rightarrow> poller result" where
  "run_ops P [] p = Inr p"
| "run_ops P (Register a # ops) p = rbind (registerInstance P a p) (run_ops P ops)"
| "run_ops P (Unregister a # ops) p = run_ops P ops (unregisterInstance P a p)"

fun registered :: "reg_op list \<Rightarrow> nat list \<Rightarrow> nat list" where
  "registered [] as = as"
| "registered (Register a # ops) as = registered ops (as @ [a])"
| "registered (Unregister a # ops) as = registered ops (filter (\<lambda>b. b \<noteq> a) as)"

text \<open>Only portals that are not there are registered, and only portals that are there are removed.\<close>

fun sensible :: "reg_op list \<Rightarrow> nat list \<Rightarrow> bool" where
  "sensible [] as = True"
| "sensible (Register a # ops) as = (a \<notin> set as \<and> sensible ops (as @ [a]))"
| "sensible (Unregister a # ops) as = (a \<in> set as \<and> sensible ops (filter (\<lambda>b. b \<noteq> a) as))"

definition own_device :: "(nat \<Rightarrow> portal_info) \<Rightarrow> bool" where
  "own_device P \<longleftrightarrow> (\<forall>a. pn_fd (P a) \<noteq> - 1 \<and> pn_clients (P a) = []) \<and>
     inj (\<lambda>a. pn_number (P a)) \<and> inj (\<lambda>a. pn_fd (P a))"

lemma unregister_holds:
  assumes "own_device P" and "holds p as (map (\<lambda>a. pn_fd (P a)) as)" and "a \<in> set as" and "distinct as"
  shows "holds (unregisterInstance P a p) (filter (\<lambda>b. b \<noteq> a) as) (map (\<lambda>a. pn_fd (P a)) (filter (\<lambda>b. b \<noteq> a) as))"
proof -
  from assms(3) obtain us vs where as: "as = us @ a # vs" by (auto dest: split_list)
  have fil: "filter (\<lambda>b. b \<noteq> a) as = us @ vs"
  proof -
    have "filter (\<lambda>b. b \<noteq> a) us = us" "filter (\<lambda>b. b \<noteq> a) vs = vs"
      using assms(4) by (auto simp: as intro!: filter_True)
    then show ?thesis by (simp add: as)
  qed
  let ?f = "\<lambda>a. pn_fd (P a)"
  have inj: "pn_number (P b) = pn_number (P a) \<longleftrightarrow> b = a" "?f b = ?f a \<longleftrightarrow> b = a" for b
    using assms(1) by (auto simp: own_device_def inj_def)
  have nus: "\<forall>b \<in> set us. \<not> pn_number (P b) = pn_number (P a)" "\<forall>g \<in> set (map ?f us). \<not> g = ?f a"
    using assms(4) inj by (auto simp: as)
  have h: "pl_numWrappers p = int (length (us @ a # vs))" "take (length (us @ a # vs)) (pl_wrappers p) = us @ a # vs"
    "pl_numFds p = int (length (map ?f us @ ?f a # map ?f vs))"
    "take (length (map ?f us @ ?f a # map ?f vs)) (pl_fds p) = map ?f us @ ?f a # map ?f vs"
    using assms(2) by (simp_all add: holds_def as)
  show ?thesis
    unfolding fil using remove_split [OF h(2), of "\<lambda>b. pn_number (P b) = pn_number (P a)"] nus
      remove_split [OF h(4), of "\<lambda>g. g = ?f a"] h(1,3)
    by (simp add: holds_def unregisterInstance_def Let_def)
qed

text \<open>
  C18: For portals that each have their own device, any sensible sequence of registrations and
  removals leaves the poller with exactly the portals that are registered, in the order of their
  registration, and with exactly their descriptors to wait for.
\<close>

theorem poller_tracks_portals:
  assumes "own_device P" and "holds p as (map (\<lambda>a. pn_fd (P a)) as)" and "distinct as" and "sensible ops as"
  shows "\<exists>p'. run_ops P ops p = Inr p' \<and>
     holds p' (registered ops as) (map (\<lambda>a. pn_fd (P a)) (registered ops as))"
  using assms
proof (induction ops as arbitrary: p rule: registered.induct)
  case (2 a ops as)
  have fds: "portal_fds (P a) = [pn_fd (P a)]" using 2(2) by (simp add: portal_fds_def own_device_def)
  from register_holds [OF 2(3), of P a] obtain p1 where
    "registerInstance P a p = Inr p1" "holds p1 (as @ [a]) (map (\<lambda>a. pn_fd (P a)) (as @ [a]))" by (auto simp: fds)
  with 2(1) [OF 2(2) this(2)] 2(4,5) show ?case by simp
next
  case (3 a ops as)
  then show ?case using unregister_holds [OF 3(2,3)] by simp
qed simp

definition demo_portals :: "nat \<Rightarrow> portal_info" where
  "demo_portals a = \<lparr>pn_number = int a, pn_fd = int a + 10, pn_clients = [], pn_handler = True\<rparr>"

theorem poller_tracks_portals_witness:
  "\<exists>p'. run_ops demo_portals [Register 3, Register 1, Register 2, Unregister 1] PortalPoller = Inr p' \<and>
     holds p' [3, 2] [13, 12]"
proof -
  have "own_device demo_portals" by (auto simp: own_device_def demo_portals_def inj_def)
  moreover have "holds PortalPoller [] (map (\<lambda>a. pn_fd (demo_portals a)) [])" by (simp add: holds_def PortalPoller_def)
  ultimately show ?thesis
    using poller_tracks_portals [of demo_portals PortalPoller "[]" "[Register 3, Register 1, Register 2, Unregister 1]"]
    by (simp add: demo_portals_def)
qed

text \<open>
  Removing a portal without a descriptor of its own (one of a simulation, or one that shares a
  socket) drops the last descriptor of the array, which belongs to another portal.
\<close>

lemma unregister_drops_foreign_fd:
  assumes "holds p [a, b] [pn_fd (P b)]" and "pn_fd (P a) = - 1" and "pn_fd (P b) \<noteq> - 1"
    and "pn_number (P a) \<noteq> pn_number (P b)"
  shows "holds (unregisterInstance P a p) [b] []"
proof -
  have w: "take (length ([] @ a # [b])) (pl_wrappers p) = [] @ a # [b]" "pl_numWrappers p = 2" "pl_numFds p = 1"
    using assms(1) by (simp_all add: holds_def)
  show ?thesis using remove_split [OF w(1), of "\<lambda>c. pn_number (P c) = pn_number (P a)"] w(2,3)
    by (simp add: holds_def unregisterInstance_def Let_def)
qed

text \<open>A socket portal without a handler is still registered after its destruction.\<close>

lemma destroyed_portal_stays:
  assumes "holds p as fds" and "\<not> pn_handler (P a)"
  shows "\<exists>p1. initPortal P True a p = Inr p1 \<and> holds (fst (destroyPortal P a p1)) (as @ [a]) (fds @ portal_fds (P a))"
  using register_holds [OF assms(1), of P a] assms(2) by (auto simp: initPortal_def destroyPortal_def)










end
