(* ===== verification/Dma_Manager.thy ===== *)
theory Dma_Manager
  imports Send_Fd
begin

text \<open>
  Referencing memory from a program: \<open>cpp/dmaManager.c\<close>, \<open>cpp/dmaManager.h\<close>, the indications
  of \<open>cpp/StdDmaIndication.h\<close> and the translation unit in software, \<open>cpp/MMUServer.h\<close>.  The two
  sides exchange requests and indications; \<open>peer\<close> is what the other side does with the requests
  sent to it and the indications that come back.  A semaphore is its count, and waiting for a
  count of zero that no indication raises does not return.
\<close>

section \<open>The manager\<close>

datatype mmu_ind = IdResponse u32 | ConfigResp u32 | MmuError u32 u32 u64 u64

record dma_priv =
  confSem :: nat
  sglIdSem :: nat
  sglId :: u32
  errorLimit :: int


definition sglIdResp :: "u32 \<Rightarrow> dma_priv \<Rightarrow> dma_priv" where
  "sglIdResp sid p = p\<lparr>sglId := sid, sglIdSem := sglIdSem p + 1\<rparr>"

definition confResp :: "u32 \<Rightarrow> dma_priv \<Rightarrow> dma_priv" where
  "confResp channelId p = p\<lparr>confSem := confSem p + 1\<rparr>"

text \<open>\<open>MMUIndication\<close>: the twenty-first error ends the program.\<close>

definition MMUIndication_error :: "dma_priv \<Rightarrow> dma_priv result" where
  "MMUIndication_error p =
     (let n = errorLimit p - 1 in if n < 0 then Inl (Exit (- 1)) else Inr (p\<lparr>errorLimit := n\<rparr>))"

definition MMUIndication :: "mmu_ind \<Rightarrow> dma_priv \<Rightarrow> dma_priv result" where
  "MMUIndication i p =
     (case i of
        IdResponse sid \<Rightarrow> Inr (sglIdResp sid p)
      | ConfigResp ptr \<Rightarrow> Inr (confResp ptr p)
      | MmuError code pointer offset extra \<Rightarrow> MMUIndication_error p)"

fun indications :: "mmu_ind list \<Rightarrow> dma_priv \<Rightarrow> dma_priv result" where
  "indications [] p = Inr p"
| "indications (i # is) p = rbind (MMUIndication i p) (indications is)"

definition wait_sglId :: "dma_priv \<Rightarrow> dma_priv result" where
  "wait_sglId p = (if sglIdSem p > 0 then Inr (p\<lparr>sglIdSem := sglIdSem p - 1\<rparr>) else Inl NoReturn)"

definition wait_conf :: "dma_priv \<Rightarrow> dma_priv result" where
  "wait_conf p = (if confSem p > 0 then Inr (p\<lparr>confSem := confSem p - 1\<rparr>) else Inl NoReturn)"

type_synonym 'w peer = "mmu_req list \<Rightarrow> 'w \<Rightarrow> (mmu_ind list \<times> 'w) result"

definition post :: "'w peer \<Rightarrow> mmu_req list \<Rightarrow> dma_priv \<Rightarrow> 'w \<Rightarrow> (dma_priv \<times> 'w) result" where
  "post peer rs p w = rbind (peer rs w) (\<lambda>(is, w). rbind (indications is p) (\<lambda>p. Inr (p, w)))"

definition DmaManager_dereference :: "'w peer \<Rightarrow> u32 \<Rightarrow> dma_priv \<Rightarrow> 'w \<Rightarrow> (dma_priv \<times> 'w) result" where
  "DmaManager_dereference peer ref p w = post peer [IdReturn ref] p w"

text \<open>The first half: ask for a list number.\<close>

definition request_id :: "'w peer \<Rightarrow> int \<Rightarrow> dma_priv \<Rightarrow> 'w \<Rightarrow> (u32 \<times> dma_priv \<times> 'w) result" where
  "request_id peer fd p w =
     rbind (post peer [IdRequest fd] p w) (\<lambda>(p, w). rbind (wait_sglId p) (\<lambda>p. Inr (sglId p, p, w)))"

text \<open>
  \<open>DmaManager_reference\<close> where the driver sends the blocks: \<open>send\<close> is its \<open>ioctl\<close>, with its
  result and the requests it sends.
\<close>

definition DmaManager_reference_driver ::
  "(int \<Rightarrow> u32 \<Rightarrow> int \<times> mmu_req list) \<Rightarrow> 'w peer \<Rightarrow> int \<Rightarrow> dma_priv \<Rightarrow> 'w \<Rightarrow> (int \<times> dma_priv \<times> 'w) result" where
  "DmaManager_reference_driver send peer fd p w =
     rbind (request_id peer fd p w) (\<lambda>(sid, p, w).
     case send fd sid of (rc, rs) \<Rightarrow>
       rbind (post peer rs p w) (\<lambda>(p, w).
       rbind (if rc = 0 then wait_conf p else Inr p) (\<lambda>p. Inr (sint sid, p, w))))"

text \<open>And where the program sends them, in a simulation: \<open>elem\<close> is \<open>PA_ELEMENT_SIZE\<close>.\<close>

definition DmaManager_reference_bsim ::
  "(nat \<Rightarrow> int) \<Rightarrow> 'w peer \<Rightarrow> int \<Rightarrow> dma_priv \<Rightarrow> 'w \<Rightarrow> (int \<times> dma_priv \<times> 'w) result" where
  "DmaManager_reference_bsim elem peer fd p w =
     rbind (request_id peer fd p w) (\<lambda>(sid, p, w).
     rbind (send_fd_to_portal_bsim elem sid) (\<lambda>(rc, rs).
       rbind (post peer rs p w) (\<lambda>(p, w).
       rbind (if rc \<le> 0 then wait_conf p else Inr p) (\<lambda>p. Inr (rc, p, w)))))"

section \<open>Memory traffic\<close>

record traffic =
  mtSem :: nat
  mtCnt :: u64
  memErrorLimit :: int

definition MemServerIndication_error :: "traffic \<Rightarrow> traffic result" where
  "MemServerIndication_error t =
     (let n = memErrorLimit t - 1 in if n < 0 then Inl (Exit (- 1)) else Inr (t\<lparr>memErrorLimit := n\<rparr>))"

definition reportMemoryTraffic :: "u64 \<Rightarrow> traffic \<Rightarrow> traffic" where
  "reportMemoryTraffic words t = t\<lparr>mtCnt := words, mtSem := mtSem t + 1\<rparr>"

definition receiveMemoryTraffic :: "traffic \<Rightarrow> (u64 \<times> traffic) result" where
  "receiveMemoryTraffic t = (if mtSem t > 0 then Inr (mtCnt t, t\<lparr>mtSem := mtSem t - 1\<rparr>) else Inl NoReturn)"

text \<open>\<open>answers\<close> are the reports the hardware makes in answer to the request.\<close>

definition getMemoryTraffic :: "bool \<Rightarrow> u64 list \<Rightarrow> traffic \<Rightarrow> (u64 \<times> traffic) result" where
  "getMemoryTraffic have_proxy answers t =
     rbind (rassert have_proxy AssertFailed) (\<lambda>_. receiveMemoryTraffic (fold reportMemoryTraffic answers t))"

section \<open>The translation unit in software\<close>

definition MAX_SERVER_AREAS :: nat where "MAX_SERVER_AREAS = 20"

record server_area =
  ar_fd :: int
  ar_ptr :: "int option"
  ar_len :: u32

record mmu_server =
  sv_areas :: "server_area list"
  sv_index :: nat
  sv_ifcarr :: "nat option list"
  sv_base :: "nat \<Rightarrow> int option"

definition area_get :: "mmu_server \<Rightarrow> u32 \<Rightarrow> server_area result" where
  "area_get sv i = (if unat i < length (sv_areas sv) then Inr (sv_areas sv ! unat i) else Inl OutOfBounds)"

definition area_put :: "mmu_server \<Rightarrow> u32 \<Rightarrow> server_area \<Rightarrow> mmu_server" where
  "area_put sv i a = sv\<lparr>sv_areas := (sv_areas sv)[unat i := a]\<rparr>"

definition server_sglist :: "u32 \<Rightarrow> u32 \<Rightarrow> mmu_server \<Rightarrow> (mmu_ind list \<times> mmu_server) result" where
  "server_sglist sid len sv =
     rbind (area_get sv sid) (\<lambda>a. Inr ([], area_put sv sid (a\<lparr>ar_len := ar_len a + len\<rparr>)))"

text \<open>\<open>region\<close>: all blocks are known, map the memory.  \<open>mm\<close> is the system's \<open>mmap\<close>.\<close>

definition server_region :: "(int \<Rightarrow> int \<Rightarrow> int) \<Rightarrow> u32 \<Rightarrow> mmu_server \<Rightarrow> (mmu_ind list \<times> mmu_server) result" where
  "server_region mm sid sv =
     rbind (area_get sv sid) (\<lambda>a.
       Inr ([ConfigResp 0], area_put sv sid (a\<lparr>ar_ptr := Some (mm (ar_fd a) (sint (ar_len a)))\<rparr>)))"

definition server_idRequest :: "int \<Rightarrow> mmu_server \<Rightarrow> (mmu_ind list \<times> mmu_server) result" where
  "server_idRequest fd sv =
     (if sv_index sv < length (sv_areas sv) then
        if fd \<le> 0 then Inl (Exit 1)
        else Inr ([IdResponse (of_nat (sv_index sv))],
               sv\<lparr>sv_areas := (sv_areas sv)[sv_index sv := \<lparr>ar_fd = fd, ar_ptr = None, ar_len = 0\<rparr>],
                  sv_index := sv_index sv + 1\<rparr>)
      else Inl OutOfBounds)"

definition server_setInterface :: "u32 \<Rightarrow> u32 \<Rightarrow> mmu_server \<Rightarrow> (mmu_ind list \<times> mmu_server) result" where
  "server_setInterface interfaceId sid sv =
     (if unat interfaceId < length (sv_ifcarr sv) then
        (case sv_ifcarr sv ! unat interfaceId of
           None \<Rightarrow> Inl NullDeref
         | Some a \<Rightarrow> rbind (area_get sv sid) (\<lambda>m. Inr ([], sv\<lparr>sv_base := (sv_base sv)(a := ar_ptr m)\<rparr>)))
      else Inl OutOfBounds)"

definition registerInterface :: "u32 \<Rightarrow> nat \<Rightarrow> mmu_server \<Rightarrow> mmu_server result" where
  "registerInterface interfaceId a sv =
     (if unat interfaceId < length (sv_ifcarr sv)
      then Inr (sv\<lparr>sv_ifcarr := (sv_ifcarr sv)[unat interfaceId := Some a]\<rparr>) else Inl OutOfBounds)"

definition getPtr :: "u32 \<Rightarrow> mmu_server \<Rightarrow> int option result" where
  "getPtr sid sv = rbind (area_get sv sid) (\<lambda>a. Inr (ar_ptr a))"


definition server_request :: "(int \<Rightarrow> int \<Rightarrow> int) \<Rightarrow> mmu_req \<Rightarrow> mmu_server \<Rightarrow> (mmu_ind list \<times> mmu_server) result" where
  "server_request mm r sv =
     (case r of
        Sglist sid i addr len \<Rightarrow> server_sglist sid len sv
      | Region sid b8 i8 b4 i4 b0 i0 \<Rightarrow> server_region mm sid sv
      | IdRequest fd \<Rightarrow> server_idRequest fd sv
      | IdReturn sid \<Rightarrow> Inr ([], sv)
      | SetInterface interfaceId sid \<Rightarrow> server_setInterface interfaceId sid sv)"

fun server :: "(int \<Rightarrow> int \<Rightarrow> int) \<Rightarrow> mmu_server peer" where
  "server mm [] sv = Inr ([], sv)"
| "server mm (r # rs) sv =
     rbind (server_request mm r sv) (\<lambda>(is, sv). rbind (server mm rs sv) (\<lambda>(js, sv). Inr (is @ js, sv)))"

section \<open>A reference, from end to end\<close>








text \<open>
  A reference whose blocks the memory driver refuses to describe waits for a confirmation that
  nobody sends.
\<close>

lemma failed_reference_hangs:
  assumes "elem 0 < 0" and "confSem p = 0" and "length (sv_areas sv) = MAX_SERVER_AREAS" and "sv_index sv < MAX_SERVER_AREAS"
    and "0 < fd"
  shows "DmaManager_reference_bsim elem (server mm) fd p sv = Inl NoReturn"
proof -
  have "send_fd_to_portal_bsim elem sid = Inr (elem 0, [])" for sid
    using assms(1) by (simp add: send_fd_to_portal_bsim_def bsim_loop.simps Let_def)
  then show ?thesis
    using assms by (simp add: DmaManager_reference_bsim_def request_id_def post_def server_request_def server_idRequest_def
        MMUIndication_def sglIdResp_def wait_sglId_def wait_conf_def)
qed

end
