(* ===== verification/Kernel_Relay.thy ===== *)
theory Kernel_Relay
  imports Bsim
begin

text \<open>
  Programs that run as a kernel module against a simulation: the kernel half of
  \<open>cpp/portalSocket.c\<close> and \<open>cpp/kernel_module.c\<close>, and the process \<open>cpp/bsim_relay.c\<close> that
  carries the requests to the simulator.  The threads meet in two semaphores; the steps between
  them are an inductive relation.
\<close>

section \<open>The character device\<close>

definition MAGIC_PORTAL_FOR_SENDING_FD :: u32 where "MAGIC_PORTAL_FOR_SENDING_FD = 666"

record relay =
  bsim_avail :: nat
  bsim_have_response :: nat
  bsim_start :: nat
  have_request :: bool
  upreq :: memrequest
  downresp :: memresponse
  bsim_relay_running :: bool
  main_program_finished :: bool

text \<open>
  \<open>connectal_kernel_read\<close>: the result and the structure copied out, of which the caller sees the
  first bytes.  \<open>newfd\<close> is \<open>dma_buf_fd\<close>.
\<close>

definition connectal_kernel_read ::
  "(u64 \<Rightarrow> u64) \<Rightarrow> nat \<Rightarrow> relay \<Rightarrow> int \<times> memrequest option \<times> relay" where
  "connectal_kernel_read newfd len r =
     (let r = (if bsim_relay_running r then r else r\<lparr>bsim_start := bsim_start r + 1\<rparr>);
          r = r\<lparr>bsim_relay_running := True\<rparr> in
      if main_program_finished r then (0, None, r)
      else if \<not> have_request r then (- EAGAIN, None, r)
      else
        (let q = (if mr_write_flag (upreq r) = MAGIC_PORTAL_FOR_SENDING_FD
                  then (upreq r)\<lparr>mr_addr := newfd (mr_addr (upreq r))\<rparr> else upreq r) in
         (int (min len 24), Some q, r\<lparr>upreq := q, have_request := False, bsim_avail := bsim_avail r + 1\<rparr>)))"

text \<open>\<open>connectal_kernel_write\<close> of a whole structure; it may lie outside the memory of the caller.\<close>

definition connectal_kernel_write :: "memresponse option \<Rightarrow> relay \<Rightarrow> int \<times> relay" where
  "connectal_kernel_write arg r =
     (12, case arg of
        Some resp \<Rightarrow> r\<lparr>downresp := resp, bsim_have_response := bsim_have_response r + 1\<rparr>
      | None \<Rightarrow> r)"

text \<open>\<open>connect_to_bsim\<close>: both semaphores are set up, then the relay has to start.\<close>

definition connect_to_bsim_kernel :: "relay \<Rightarrow> relay result" where
  "connect_to_bsim_kernel r =
     (if bsim_relay_running r then Inr r
      else
        (let r = r\<lparr>bsim_avail := 1, bsim_have_response := 0\<rparr> in
         if bsim_start r > 0 then Inr (r\<lparr>bsim_start := bsim_start r - 1\<rparr>) else Inl NoReturn))"

section \<open>The module\<close>

record kmodule =
  km_registered :: bool
  km_completed :: bool
  km_relay :: relay

definition pa_init_module :: "kmodule \<Rightarrow> kmodule" where
  "pa_init_module m = m\<lparr>km_registered := True, km_relay := (km_relay m)\<lparr>bsim_start := 0\<rparr>\<rparr>"

definition main_start_end :: "kmodule \<Rightarrow> kmodule" where
  "main_start_end m = m\<lparr>km_completed := True, km_relay := (km_relay m)\<lparr>main_program_finished := True\<rparr>\<rparr>"

definition pa_exit_module :: "bool \<Rightarrow> kmodule \<Rightarrow> kmodule result" where
  "pa_exit_module bluesim m =
     rbind
       (if bluesim \<and> \<not> bsim_relay_running (km_relay m)
        then Inr (m\<lparr>km_relay := (km_relay m)\<lparr>main_program_finished := True, bsim_start := bsim_start (km_relay m) + 1\<rparr>\<rparr>)
        else if km_completed m then Inr m else Inl NoReturn)
       (\<lambda>m. Inr (m\<lparr>km_registered := False\<rparr>))"

section \<open>The threads\<close>

text \<open>
  The accesses of the program: \<open>read_portal_bsim\<close>, \<open>write_portal_bsim\<close> and
  \<open>write_portal_fd_bsim\<close> (whose address is that of the buffer object), with the request each
  posts and whether it waits for an answer.
\<close>

datatype kop = KRead u32 u64 | KWrite u32 u64 u32 | KWriteFd u32 u64 u32

definition kop_request :: "kop \<Rightarrow> memrequest" where
  "kop_request x =
     (case x of
        KRead ident addr \<Rightarrow> \<lparr>mr_portal = ident, mr_write_flag = 0, mr_addr = addr, mr_data = 0\<rparr>
      | KWrite ident addr v \<Rightarrow> \<lparr>mr_portal = ident, mr_write_flag = 1, mr_addr = addr, mr_data = v\<rparr>
      | KWriteFd ident dmabuf v \<Rightarrow> \<lparr>mr_portal = ident, mr_write_flag = MAGIC_PORTAL_FOR_SENDING_FD, mr_addr = dmabuf, mr_data = v\<rparr>)"

definition kop_waits :: "kop \<Rightarrow> bool" where
  "kop_waits x = (case x of KWrite _ _ _ \<Rightarrow> False | _ \<Rightarrow> True)"

text \<open>Between \<open>down(bsim_avail)\<close> and the next blocking call: the request is posted.\<close>

definition post_request :: "kop \<Rightarrow> relay \<Rightarrow> relay" where
  "post_request x r = r\<lparr>bsim_avail := bsim_avail r - 1, upreq := kop_request x, have_request := True\<rparr>"

text \<open>
  The answer of the relay process to a request, if it answers it: \<open>value\<close> is what reading from the
  simulator gives after the requests so far.
\<close>

definition relay_answer :: "(memrequest list \<Rightarrow> u32) \<Rightarrow> memrequest list \<Rightarrow> memrequest \<Rightarrow> memresponse option" where
  "relay_answer val seen q =
     (if mr_portal q = 666 then Some \<lparr>ms_portal = mr_portal q, ms_data = 0xdead, ms_tag = 0\<rparr>
      else if mr_write_flag q \<noteq> 0 then None
      else Some \<lparr>ms_portal = mr_portal q, ms_data = val seen, ms_tag = 0\<rparr>)"

text \<open>
  A state: the device, what the program has still to do, the access it waits for, the accesses
  posted and the answers it got, the request the relay process works on, and all requests it took.
\<close>

record kworld =
  kw_dev :: relay
  kw_todo :: "kop list"
  kw_wait :: "kop option"
  kw_issued :: "kop list"
  kw_answers :: "(kop \<times> u32) list"
  kw_relay :: "memrequest option"
  kw_seen :: "memrequest list"

inductive kstep :: "(u64 \<Rightarrow> u64) \<Rightarrow> (memrequest list \<Rightarrow> u32) \<Rightarrow> kworld \<Rightarrow> kworld \<Rightarrow> bool" for newfd val where
  program_posts:
  "kw_wait w = None \<Longrightarrow> kw_todo w = x # xs \<Longrightarrow> \<not> main_program_finished (kw_dev w) \<Longrightarrow> bsim_avail (kw_dev w) > 0 \<Longrightarrow>
   kstep newfd val w
     (w\<lparr>kw_dev := post_request x (kw_dev w), kw_todo := xs, kw_wait := (if kop_waits x then Some x else None),
        kw_issued := kw_issued w @ [x]\<rparr>)"
| program_skips:
  "kw_wait w = None \<Longrightarrow> kw_todo w = x # xs \<Longrightarrow> main_program_finished (kw_dev w) \<Longrightarrow>
   kstep newfd val w
     (w\<lparr>kw_todo := xs, kw_answers := kw_answers w @ (case x of KRead _ _ \<Rightarrow> [(x, 0)] | _ \<Rightarrow> [])\<rparr>)"
| program_ends:
  "kw_wait w = None \<Longrightarrow> kw_todo w = [] \<Longrightarrow>
   kstep newfd val w (w\<lparr>kw_dev := (kw_dev w)\<lparr>main_program_finished := True\<rparr>\<rparr>)"
| program_continues:
  "kw_wait w = Some x \<Longrightarrow> bsim_have_response (kw_dev w) > 0 \<Longrightarrow>
   kstep newfd val w
     (w\<lparr>kw_dev := (kw_dev w)\<lparr>bsim_have_response := bsim_have_response (kw_dev w) - 1\<rparr>, kw_wait := None,
        kw_answers := kw_answers w @ [(x, ms_data (downresp (kw_dev w)))]\<rparr>)"
| relay_reads:
  "kw_relay w = None \<Longrightarrow> connectal_kernel_read newfd 24 (kw_dev w) = (rc, Some q, d) \<Longrightarrow>
   kstep newfd val w (w\<lparr>kw_dev := d, kw_relay := Some q, kw_seen := kw_seen w @ [q]\<rparr>)"
| relay_polls:
  "kw_relay w = None \<Longrightarrow> connectal_kernel_read newfd 24 (kw_dev w) = (rc, None, d) \<Longrightarrow>
   kstep newfd val w (w\<lparr>kw_dev := d\<rparr>)"
| relay_answers:
  "kw_relay w = Some q \<Longrightarrow> relay_answer val (kw_seen w) q = Some resp \<Longrightarrow>
   kstep newfd val w (w\<lparr>kw_dev := snd (connectal_kernel_write (Some resp) (kw_dev w)), kw_relay := None\<rparr>)"
| relay_writes:
  "kw_relay w = Some q \<Longrightarrow> relay_answer val (kw_seen w) q = None \<Longrightarrow>
   kstep newfd val w (w\<lparr>kw_relay := None\<rparr>)"

inductive_cases kstepE: "kstep newfd val w w'"

definition kstart :: "kop list \<Rightarrow> memrequest \<Rightarrow> memresponse \<Rightarrow> kworld" where
  "kstart ops qi ri =
     \<lparr>kw_dev = \<lparr>bsim_avail = 1, bsim_have_response = 0, bsim_start = 0, have_request = False, upreq = qi, downresp = ri,
        bsim_relay_running = True, main_program_finished = False\<rparr>,
      kw_todo = ops, kw_wait = None, kw_issued = [], kw_answers = [], kw_relay = None, kw_seen = []\<rparr>"

text \<open>The requests as the relay process sees them.\<close>

definition seen_request :: "(u64 \<Rightarrow> u64) \<Rightarrow> kop \<Rightarrow> memrequest" where
  "seen_request newfd x =
     (case x of KWriteFd _ dmabuf _ \<Rightarrow> (kop_request x)\<lparr>mr_addr := newfd dmabuf\<rparr> | _ \<Rightarrow> kop_request x)"

definition answered_kop :: "kop \<Rightarrow> bool" where
  "answered_kop x = (case x of KRead _ _ \<Rightarrow> True | _ \<Rightarrow> False)"

text \<open>What the program should get: each read the value after the requests up to it.\<close>

fun expected :: "(memrequest list \<Rightarrow> u32) \<Rightarrow> (u64 \<Rightarrow> u64) \<Rightarrow> memrequest list \<Rightarrow> kop list \<Rightarrow> (kop \<times> u32) list" where
  "expected val newfd pre [] = []"
| "expected val newfd pre (x # xs) =
     (if answered_kop x then [(x, val (pre @ [seen_request newfd x]))] else []) @
     expected val newfd (pre @ [seen_request newfd x]) xs"

definition normal_id :: "kop \<Rightarrow> bool" where
  "normal_id x \<longleftrightarrow> mr_portal (kop_request x) \<noteq> 666"

section \<open>The invariant\<close>

lemma expected_append:
  "expected val newfd pre (xs @ ys) =
   expected val newfd pre xs @ expected val newfd (pre @ map (seen_request newfd) xs) ys"
  by (induction xs arbitrary: pre) simp_all

text \<open>
  A posted request is answered only if it is a read; while a read is under way its request is
  with the device, with the relay process, or its answer is there.
\<close>

definition kbase :: "(u64 \<Rightarrow> u64) \<Rightarrow> kop list \<Rightarrow> kworld \<Rightarrow> bool" where
  "kbase newfd ops w \<longleftrightarrow>
     kw_issued w @ kw_todo w = ops \<and> (main_program_finished (kw_dev w) \<longrightarrow> kw_todo w = [] \<and> kw_wait w = None) \<and>
     (have_request (kw_dev w) \<longrightarrow> kw_issued w \<noteq> [] \<and> upreq (kw_dev w) = kop_request (last (kw_issued w))) \<and>
     kw_seen w = map (seen_request newfd) (if have_request (kw_dev w) then butlast (kw_issued w) else kw_issued w) \<and>
     bsim_avail (kw_dev w) = (if have_request (kw_dev w) then 0 else 1) \<and>
     (\<forall>q. kw_relay w = Some q \<longrightarrow> kw_seen w \<noteq> [] \<and> q = last (kw_seen w))"

definition silent :: "(memrequest list \<Rightarrow> u32) \<Rightarrow> kworld \<Rightarrow> bool" where
  "silent val w \<longleftrightarrow> bsim_have_response (kw_dev w) = 0 \<and> (\<forall>q. kw_relay w = Some q \<longrightarrow> relay_answer val (kw_seen w) q = None)"

definition kidle :: "(u64 \<Rightarrow> u64) \<Rightarrow> (memrequest list \<Rightarrow> u32) \<Rightarrow> kworld \<Rightarrow> bool" where
  "kidle newfd val w \<longleftrightarrow> silent val w \<and> kw_answers w = expected val newfd [] (kw_issued w) \<and>
     (have_request (kw_dev w) \<longrightarrow> \<not> kop_waits (last (kw_issued w)))"

definition kwaiting :: "(u64 \<Rightarrow> u64) \<Rightarrow> (memrequest list \<Rightarrow> u32) \<Rightarrow> kworld \<Rightarrow> kop \<Rightarrow> bool" where
  "kwaiting newfd val w x \<longleftrightarrow>
     kw_issued w = butlast (kw_issued w) @ [x] \<and> kop_waits x \<and> kw_answers w = expected val newfd [] (butlast (kw_issued w)) \<and>
     (if have_request (kw_dev w) then silent val w
      else if kw_relay w \<noteq> None then bsim_have_response (kw_dev w) = 0
      else if bsim_have_response (kw_dev w) = 0 then \<not> answered_kop x
      else bsim_have_response (kw_dev w) = 1 \<and> answered_kop x \<and> ms_data (downresp (kw_dev w)) = val (kw_seen w))"

definition kinv :: "(u64 \<Rightarrow> u64) \<Rightarrow> (memrequest list \<Rightarrow> u32) \<Rightarrow> kop list \<Rightarrow> kworld \<Rightarrow> bool" where
  "kinv newfd val ops w \<longleftrightarrow> kbase newfd ops w \<and>
     (case kw_wait w of None \<Rightarrow> kidle newfd val w | Some x \<Rightarrow> kwaiting newfd val w x)"

lemma relay_answer_seen:
  assumes "normal_id x"
  shows "relay_answer val s (seen_request newfd x) =
    (if answered_kop x then Some \<lparr>ms_portal = mr_portal (kop_request x), ms_data = val s, ms_tag = 0\<rparr> else None)"
  using assms by (cases x) (auto simp: relay_answer_def seen_request_def kop_request_def answered_kop_def normal_id_def
      MAGIC_PORTAL_FOR_SENDING_FD_def)

lemma not_waits_not_answered: "\<not> kop_waits x \<Longrightarrow> \<not> answered_kop x"
  by (cases x) (simp_all add: kop_waits_def answered_kop_def)

lemma kernel_read_some:
  assumes "connectal_kernel_read newfd 24 d = (rc, Some q, d')" and "upreq d = kop_request x"
  shows "have_request d" "q = seen_request newfd x"
    "bsim_avail d' = bsim_avail d + 1" "\<not> have_request d'" "bsim_have_response d' = bsim_have_response d"
    "downresp d' = downresp d" "main_program_finished d' = main_program_finished d"
  using assms by (cases x; auto simp: connectal_kernel_read_def Let_def kop_request_def seen_request_def
      MAGIC_PORTAL_FOR_SENDING_FD_def split: if_splits)+

lemma kernel_read_none:
  assumes "connectal_kernel_read newfd 24 d = (rc, None, d')"
  shows "bsim_avail d' = bsim_avail d" "have_request d' = have_request d" "bsim_have_response d' = bsim_have_response d"
    "downresp d' = downresp d" "main_program_finished d' = main_program_finished d" "upreq d' = upreq d"
  using assms by (auto simp: connectal_kernel_read_def Let_def split: if_splits)

lemma kinv_start: "kinv newfd val ops (kstart ops qi ri)"
  by (simp add: kinv_def kstart_def kbase_def kidle_def silent_def)

lemma kinv_posts:
  assumes "kinv newfd val ops w" and "kw_wait w = None" and "kw_todo w = x # xs" and "bsim_avail (kw_dev w) > 0"
  shows "kinv newfd val ops
     (w\<lparr>kw_dev := post_request x (kw_dev w), kw_todo := xs, kw_wait := (if kop_waits x then Some x else None),
        kw_issued := kw_issued w @ [x]\<rparr>)" (is "kinv _ _ _ ?w")
proof -
  have b: "kbase newfd ops w" and id: "kidle newfd val w" using assms(1,2) by (simp_all add: kinv_def)
  have nr: "\<not> have_request (kw_dev w)" using b assms(4) by (simp add: kbase_def split: if_splits)
  have "kbase newfd ops ?w" using b nr assms(3) by (auto simp: kbase_def post_request_def)
  moreover have s: "silent val ?w" using id by (simp add: kidle_def silent_def post_request_def)
  moreover have "kidle newfd val ?w" if "\<not> kop_waits x"
    using that id s not_waits_not_answered [OF that] by (simp add: kidle_def expected_append)
  moreover have "kwaiting newfd val ?w x" if "kop_waits x"
    using that id s by (simp add: kidle_def kwaiting_def post_request_def)
  ultimately show ?thesis by (simp add: kinv_def)
qed

lemma kinv_continues:
  assumes "kinv newfd val ops w" and "kw_wait w = Some x" and "bsim_have_response (kw_dev w) > 0"
  shows "kinv newfd val ops
     (w\<lparr>kw_dev := (kw_dev w)\<lparr>bsim_have_response := bsim_have_response (kw_dev w) - 1\<rparr>, kw_wait := None,
        kw_answers := kw_answers w @ [(x, ms_data (downresp (kw_dev w)))]\<rparr>)" (is "kinv _ _ _ ?w")
proof -
  have b: "kbase newfd ops w" and k: "kwaiting newfd val w x" using assms(1,2) by (simp_all add: kinv_def)
  have i: "\<not> have_request (kw_dev w)" "kw_relay w = None" "bsim_have_response (kw_dev w) = 1" "answered_kop x"
    "ms_data (downresp (kw_dev w)) = val (kw_seen w)"
    using k assms(3) by (auto simp: kwaiting_def silent_def split: if_splits)
  let ?pre = "butlast (kw_issued w)"
  have iss: "kw_issued w = ?pre @ [x]" and ans: "kw_answers w = expected val newfd [] ?pre" using k by (simp_all add: kwaiting_def)
  have "kw_seen w = map (seen_request newfd) (kw_issued w)" using b i(1) by (simp add: kbase_def)
  then have seen: "kw_seen w = map (seen_request newfd) ?pre @ [seen_request newfd x]" using iss by (metis map_append list.map)
  have "expected val newfd [] (?pre @ [x]) = expected val newfd [] ?pre @ [(x, val (kw_seen w))]"
    unfolding expected_append using i(4) seen by simp
  then have "kw_answers w @ [(x, ms_data (downresp (kw_dev w)))] = expected val newfd [] (kw_issued w)"
    using iss ans i(5) by simp
  moreover have "kbase newfd ops ?w" using b by (auto simp: kbase_def)
  ultimately show ?thesis using i by (simp add: kinv_def kidle_def silent_def)
qed

lemma kinv_reads:
  assumes "kinv newfd val ops w" and "kw_relay w = None" and "connectal_kernel_read newfd 24 (kw_dev w) = (rc, Some q, d)"
    and "list_all normal_id ops"
  shows "kinv newfd val ops (w\<lparr>kw_dev := d, kw_relay := Some q, kw_seen := kw_seen w @ [q]\<rparr>)" (is "kinv _ _ _ ?w")
proof -
  have b: "kbase newfd ops w" using assms(1) by (simp add: kinv_def)
  have hr: "have_request (kw_dev w)" using assms(3) by (auto simp: connectal_kernel_read_def Let_def split: if_splits)
  define x where "x = last (kw_issued w)"
  have iss: "kw_issued w = butlast (kw_issued w) @ [x]" "upreq (kw_dev w) = kop_request x"
    "kw_seen w = map (seen_request newfd) (butlast (kw_issued w))"
    using b hr by (simp_all add: kbase_def x_def)
  note r = kernel_read_some [OF assms(3) iss(2)]
  have seen: "kw_seen w @ [q] = map (seen_request newfd) (kw_issued w)" unfolding iss(3) r(2) using iss(1) by (metis map_append list.map)
  have "x \<in> set ops" using b iss(1) by (metis kbase_def in_set_conv_decomp append_assoc append_Cons)
  then have nx: "normal_id x" using assms(4) by (simp add: list_all_iff)
  have base: "kbase newfd ops ?w" using b r(1,3-7) hr by (auto simp: kbase_def seen [symmetric])
  show ?thesis
  proof (cases "kw_wait w")
    case None
    then have id: "kidle newfd val w" using assms(1) by (simp add: kinv_def)
    then have "\<not> kop_waits x" using hr by (simp add: kidle_def x_def)
    then have "relay_answer val s q = None" for s
      using relay_answer_seen [OF nx, of val s newfd] not_waits_not_answered by (simp add: r(2))
    then have "kidle newfd val ?w" using id r by (simp add: kidle_def silent_def)
    then show ?thesis using base None by (simp add: kinv_def)
  next
    case (Some y)
    then have k: "kwaiting newfd val w y" using assms(1) by (simp add: kinv_def)
    then have "kwaiting newfd val ?w y" using hr r by (simp add: kwaiting_def silent_def)
    then show ?thesis using base Some by (simp add: kinv_def)
  qed
qed

lemma kinv_polls:
  assumes "kinv newfd val ops w" and "connectal_kernel_read newfd 24 (kw_dev w) = (rc, None, d)"
  shows "kinv newfd val ops (w\<lparr>kw_dev := d\<rparr>)" (is "kinv _ _ _ ?w")
proof -
  note r = kernel_read_none [OF assms(2)]
  have "kbase newfd ops ?w" using assms(1) by (auto simp: kinv_def kbase_def r)
  moreover have "kidle newfd val w \<Longrightarrow> kidle newfd val ?w" by (simp add: kidle_def silent_def r)
  moreover have "kwaiting newfd val w x \<Longrightarrow> kwaiting newfd val ?w x" for x
    by (simp add: kwaiting_def silent_def r split: if_splits)
  ultimately show ?thesis using assms(1) by (cases "kw_wait w") (simp_all add: kinv_def)
qed

lemma kinv_answers:
  assumes "kinv newfd val ops w" and "kw_relay w = Some q" and "relay_answer val (kw_seen w) q = Some resp" and "list_all normal_id ops"
  shows "kinv newfd val ops (w\<lparr>kw_dev := snd (connectal_kernel_write (Some resp) (kw_dev w)), kw_relay := None\<rparr>)" (is "kinv _ _ _ ?w")
proof -
  have b: "kbase newfd ops w" using assms(1) by (simp add: kinv_def)
  have base: "kbase newfd ops ?w" using b by (auto simp: kbase_def connectal_kernel_write_def)
  have "kw_wait w \<noteq> None"
  proof
    assume "kw_wait w = None"
    then have "silent val w" using assms(1) by (simp add: kinv_def kidle_def)
    then show False using assms(2,3) by (simp add: silent_def)
  qed
  then obtain x where x: "kw_wait w = Some x" by blast
  then have k: "kwaiting newfd val w x" using assms(1) by (simp add: kinv_def)
  have nr: "\<not> have_request (kw_dev w)" "bsim_have_response (kw_dev w) = 0"
    using k assms(2,3) by (auto simp: kwaiting_def silent_def split: if_splits)
  have iss: "kw_issued w = butlast (kw_issued w) @ [x]" using k by (simp add: kwaiting_def)
  have "q = last (kw_seen w)" "kw_seen w = map (seen_request newfd) (kw_issued w)" using b assms(2) nr(1) by (simp_all add: kbase_def)
  then have q: "q = seen_request newfd x" using iss by (metis last_map last_snoc snoc_eq_iff_butlast)
  have "x \<in> set ops" using b iss by (metis kbase_def in_set_conv_decomp append_assoc append_Cons)
  then have "normal_id x" using assms(4) by (simp add: list_all_iff)
  then have "answered_kop x" "ms_data resp = val (kw_seen w)"
    using relay_answer_seen [of x val "kw_seen w" newfd] assms(3) q by (auto split: if_splits)
  then have "kwaiting newfd val ?w x" using k nr by (simp add: kwaiting_def connectal_kernel_write_def)
  then show ?thesis using base x by (simp add: kinv_def)
qed

lemma kinv_writes:
  assumes "kinv newfd val ops w" and "kw_relay w = Some q" and "relay_answer val (kw_seen w) q = None" and "list_all normal_id ops"
  shows "kinv newfd val ops (w\<lparr>kw_relay := None\<rparr>)" (is "kinv _ _ _ ?w")
proof -
  have b: "kbase newfd ops w" using assms(1) by (simp add: kinv_def)
  have base: "kbase newfd ops ?w" using b by (auto simp: kbase_def)
  show ?thesis
  proof (cases "kw_wait w")
    case None
    then show ?thesis using assms(1) base by (simp add: kinv_def kidle_def silent_def)
  next
    case (Some x)
    then have k: "kwaiting newfd val w x" using assms(1) by (simp add: kinv_def)
    have "kwaiting newfd val ?w x"
    proof (cases "have_request (kw_dev w)")
      case True
      then show ?thesis using k by (simp add: kwaiting_def silent_def)
    next
      case False
      have iss: "kw_issued w = butlast (kw_issued w) @ [x]" using k by (simp add: kwaiting_def)
      have "q = last (kw_seen w)" "kw_seen w = map (seen_request newfd) (kw_issued w)" using b assms(2) False by (simp_all add: kbase_def)
      then have q: "q = seen_request newfd x" using iss by (metis last_map last_snoc snoc_eq_iff_butlast)
      have "x \<in> set ops" using b iss by (metis kbase_def in_set_conv_decomp append_assoc append_Cons)
      then have "normal_id x" using assms(4) by (simp add: list_all_iff)
      then have "\<not> answered_kop x" using relay_answer_seen [of x val "kw_seen w" newfd] assms(3) q by (auto split: if_splits)
      then show ?thesis using k False assms(2) by (simp add: kwaiting_def)
    qed
    then show ?thesis using base Some by (simp add: kinv_def)
  qed
qed

lemma kinv_step: "kstep newfd val w w' \<Longrightarrow> list_all normal_id ops \<Longrightarrow> kinv newfd val ops w \<Longrightarrow> kinv newfd val ops w'"
proof (induction rule: kstep.induct)
  case (program_posts w x xs)
  then show ?case using kinv_posts by blast
next
  case (program_skips w x xs)
  then show ?case by (simp add: kinv_def kbase_def)
next
  case (program_ends w)
  then show ?case by (auto simp: kinv_def kbase_def kidle_def silent_def)
next
  case (program_continues w x)
  then show ?case using kinv_continues by blast
next
  case (relay_reads w rc q d)
  then show ?case using kinv_reads by blast
next
  case (relay_polls w rc d)
  then show ?case using kinv_polls by blast
next
  case (relay_answers w q resp)
  then show ?case using kinv_answers by blast
next
  case (relay_writes w q)
  then show ?case using kinv_writes by blast
qed

lemma kinv_reachable:
  assumes "(kstep newfd val)\<^sup>*\<^sup>* (kstart ops qi ri) w" and "list_all normal_id ops"
  shows "kinv newfd val ops w"
  using assms(1) by (induction rule: rtranclp_induct) (auto intro: kinv_start kinv_step assms(2))

section \<open>Progress\<close>

definition kwork :: "kworld \<Rightarrow> nat" where
  "kwork w = 5 * length (kw_todo w) + (if have_request (kw_dev w) then 3 else 0) + (if kw_relay w = None then 0 else 2) +
     bsim_have_response (kw_dev w)"

lemma kernel_read_have:
  assumes "have_request d" and "\<not> main_program_finished d"
  shows "\<exists>rc q d'. connectal_kernel_read newfd n d = (rc, Some q, d')"
  using assms by (cases "bsim_relay_running d") (simp_all add: connectal_kernel_read_def Let_def)

lemma relay_step_works:
  assumes "\<not> main_program_finished (kw_dev w)" and "have_request (kw_dev w) \<or> kw_relay w \<noteq> None"
  shows "\<exists>w'. kstep newfd val w w' \<and> kwork w' < kwork w"
proof (cases "kw_relay w")
  case None
  then have hr: "have_request (kw_dev w)" using assms(2) by simp
  obtain rc q d where r: "connectal_kernel_read newfd 24 (kw_dev w) = (rc, Some q, d)"
    using kernel_read_have [OF hr assms(1)] by blast
  have "\<not> have_request d" "bsim_have_response d = bsim_have_response (kw_dev w)"
    using r by (auto simp: connectal_kernel_read_def Let_def split: if_splits)
  then show ?thesis using kstep.relay_reads [OF None r, of val] None hr by (auto simp: kwork_def intro!: exI)
next
  case (Some q)
  show ?thesis
  proof (cases "relay_answer val (kw_seen w) q")
    case None
    from kstep.relay_writes [OF Some None, of newfd] Some show ?thesis by (auto simp: kwork_def intro!: exI)
  next
    case resp: (Some resp)
    from kstep.relay_answers [OF Some resp, of newfd] Some show ?thesis
      by (auto simp: kwork_def connectal_kernel_write_def intro!: exI)
  qed
qed

definition no_fd :: "kop \<Rightarrow> bool" where
  "no_fd x = (case x of KWriteFd _ _ _ \<Rightarrow> False | _ \<Rightarrow> True)"

lemma kstep_progress:
  assumes "kinv newfd val ops w" and "list_all no_fd ops" and "kw_todo w \<noteq> [] \<or> kw_wait w \<noteq> None"
  shows "\<exists>w'. kstep newfd val w w' \<and> kwork w' < kwork w"
proof (cases "have_request (kw_dev w) \<or> kw_relay w \<noteq> None")
  case True
  have "\<not> main_program_finished (kw_dev w)" using assms(1,3) by (auto simp: kinv_def kbase_def)
  then show ?thesis using relay_step_works True by blast
next
  case False
  have b: "kbase newfd ops w" using assms(1) by (simp add: kinv_def)
  show ?thesis
  proof (cases "kw_wait w")
    case None
    then obtain x xs where x: "kw_todo w = x # xs" using assms(3) by (metis neq_Nil_conv)
    have av: "\<not> main_program_finished (kw_dev w)" "bsim_avail (kw_dev w) > 0" using b False x by (auto simp: kbase_def)
    from kstep.program_posts [OF None x av, of newfd val] False x show ?thesis
      by (auto simp: kwork_def post_request_def intro!: exI)
  next
    case (Some x)
    then have k: "kwaiting newfd val w x" using assms(1) by (simp add: kinv_def)
    have "x \<in> set ops" using b k by (metis kbase_def kwaiting_def in_set_conv_decomp append_assoc append_Cons)
    then have "no_fd x" using assms(2) by (simp add: list_all_iff)
    then have "answered_kop x" using k by (cases x) (simp_all add: kwaiting_def kop_waits_def answered_kop_def no_fd_def)
    then have "bsim_have_response (kw_dev w) > 0" using k False by (simp add: kwaiting_def split: if_splits)
    from kstep.program_continues [OF Some this, of newfd val] this show ?thesis by (auto simp: kwork_def intro!: exI)
  qed
qed

lemma kstep_completes:
  assumes "kinv newfd val ops w" and "list_all normal_id ops" and "list_all no_fd ops"
  shows "\<exists>w'. (kstep newfd val)\<^sup>*\<^sup>* w w' \<and> kw_todo w' = [] \<and> kw_wait w' = None"
  using assms(1)
proof (induction "kwork w" arbitrary: w rule: less_induct)
  case less
  show ?case
  proof (cases "kw_todo w = [] \<and> kw_wait w = None")
    case False
    then obtain w1 where w1: "kstep newfd val w w1" "kwork w1 < kwork w"
      using kstep_progress [OF less.prems assms(3)] by blast
    from less.hyps [OF w1(2) kinv_step [OF w1(1) assms(2) less.prems]] w1(1) show ?thesis
      by (meson converse_rtranclp_into_rtranclp)
  qed blast
qed

text \<open>
  C20: Whatever the order in which the program in the kernel and the relay process run, the program
  gets for each of its reads, in order, the value the simulator has after exactly the accesses
  before it; and from every state that can be reached the program can run to its end.
\<close>

theorem kernel_relay_in_order:
  assumes "list_all normal_id ops" and "list_all no_fd ops" and "(kstep newfd val)\<^sup>*\<^sup>* (kstart ops qi ri) w"
  shows "(\<exists>rest. expected val newfd [] ops = kw_answers w @ rest) \<and>
     (\<exists>w'. (kstep newfd val)\<^sup>*\<^sup>* w w' \<and> kw_todo w' = [] \<and> kw_wait w' = None \<and> kw_answers w' = expected val newfd [] ops)"
proof -
  have inv: "kinv newfd val ops w" by (rule kinv_reachable [OF assms(3,1)])
  have "\<exists>rest. expected val newfd [] ops = kw_answers w @ rest"
  proof (cases "kw_wait w")
    case None
    then have "kw_answers w = expected val newfd [] (kw_issued w)" "ops = kw_issued w @ kw_todo w"
      using inv by (auto simp: kinv_def kidle_def kbase_def)
    then show ?thesis by (metis expected_append)
  next
    case (Some x)
    then have "kw_answers w = expected val newfd [] (butlast (kw_issued w))" "ops = butlast (kw_issued w) @ x # kw_todo w"
      using inv by (auto simp: kinv_def kwaiting_def kbase_def)
    then show ?thesis by (metis expected_append)
  qed
  moreover obtain w' where w': "(kstep newfd val)\<^sup>*\<^sup>* w w'" "kw_todo w' = []" "kw_wait w' = None"
    using kstep_completes [OF inv assms(1,2)] by blast
  moreover have "kinv newfd val ops w'"
    using rtranclp_trans [OF assms(3) w'(1)] by (rule kinv_reachable [OF _ assms(1)])
  then have "kw_answers w' = expected val newfd [] ops" using w'(2,3) by (simp add: kinv_def kidle_def kbase_def)
  ultimately show ?thesis by blast
qed

theorem kernel_relay_in_order_witness:
  "\<exists>w'. (kstep id (\<lambda>s. of_nat (length s)))\<^sup>*\<^sup>*
       (kstart [KWrite 1 8 5, KRead 1 8] (kop_request (KRead 0 0)) \<lparr>ms_portal = 0, ms_data = 0, ms_tag = 0\<rparr>) w' \<and>
     kw_answers w' = [(KRead 1 8, 2)]"
proof -
  have "list_all normal_id [KWrite 1 8 5, KRead 1 8]" "list_all no_fd [KWrite 1 8 5, KRead 1 8]"
    by (simp_all add: normal_id_def kop_request_def no_fd_def)
  from kernel_relay_in_order [where newfd = id and val = "\<lambda>s. of_nat (length s)" and qi = "kop_request (KRead 0 0)" and
      ri = "\<lparr>ms_portal = 0, ms_data = 0, ms_tag = 0\<rparr>", OF this rtranclp.rtrancl_refl]
  show ?thesis by (auto simp: answered_kop_def)
qed

section \<open>Descriptors\<close>

text \<open>Every access posted that waits, except the current one, has been answered.\<close>

definition waits_answered :: "kworld \<Rightarrow> bool" where
  "waits_answered w \<longleftrightarrow>
     list_all (\<lambda>x. kop_waits x \<longrightarrow> answered_kop x) (if kw_wait w = None then kw_issued w else butlast (kw_issued w))"

lemma waits_answered_unfold:
  assumes "waits_answered w" and "kw_wait w = Some x"
  shows "list_all (\<lambda>x. kop_waits x \<longrightarrow> answered_kop x) (butlast (kw_issued w))"
  using assms by (simp add: waits_answered_def)

lemma waits_answered_cong:
  assumes "kw_wait w' = kw_wait w" and "kw_issued w' = kw_issued w"
  shows "waits_answered w' = waits_answered w"
  using assms by (simp add: waits_answered_def)

lemma waits_answered_step:
  assumes "kstep newfd val w w'" and "kinv newfd val ops w" and "waits_answered w"
  shows "waits_answered w'"
  using assms(1)
proof cases
  case (program_posts x xs)
  then show ?thesis using assms(3) by (simp add: waits_answered_def)
next
  case (program_skips x xs)
  then show ?thesis using assms(2) by (simp add: kinv_def kbase_def)
next
  case (program_continues x)
  have k: "kwaiting newfd val w x" using assms(2) program_continues(2) by (simp add: kinv_def)
  then have "answered_kop x" "kw_issued w = butlast (kw_issued w) @ [x]"
    using program_continues(3) by (auto simp: kwaiting_def silent_def split: if_splits)
  then have "list_all (\<lambda>x. kop_waits x \<longrightarrow> answered_kop x) (kw_issued w)"
    using waits_answered_unfold [OF assms(3) program_continues(2)] by (metis (no_types, lifting) list_all_append list.pred_inject)
  then show ?thesis by (simp add: program_continues(1) waits_answered_def)
qed (use assms(3) waits_answered_cong [of w' w] in simp_all)

text \<open>
  C40: Sending a descriptor from the kernel never returns: the relay process recognises such a
  request by its portal number, while the kernel marks it in the write flag, so no answer is ever
  written and nothing behind it is posted.
\<close>

theorem kernel_fd_write_never_returns:
  assumes "list_all normal_id (pre @ KWriteFd ident dmabuf v # post)"
    and "(kstep newfd val)\<^sup>*\<^sup>* (kstart (pre @ KWriteFd ident dmabuf v # post) qi ri) w"
  shows "length (kw_issued w) \<le> length pre + 1 \<and>
     (length (kw_issued w) = length pre + 1 \<longrightarrow> kw_wait w = Some (KWriteFd ident dmabuf v))"
proof -
  let ?ops = "pre @ KWriteFd ident dmabuf v # post"
  have inv: "kinv newfd val ?ops w" by (rule kinv_reachable [OF assms(2,1)])
  have "waits_answered w \<and> kinv newfd val ?ops w"
    using assms(2)
  proof (induction rule: rtranclp_induct)
    case base
    then show ?case by (simp add: kinv_start) (simp add: waits_answered_def kstart_def)
  next
    case (step y z)
    then show ?case using waits_answered_step kinv_step [OF _ assms(1)] by blast
  qed
  then have wa: "waits_answered w" by blast
  have ops: "kw_issued w @ kw_todo w = ?ops" using inv by (simp add: kinv_def kbase_def)
  have bad: "\<not> (kop_waits (KWriteFd ident dmabuf v) \<longrightarrow> answered_kop (KWriteFd ident dmabuf v))"
    by (simp add: kop_waits_def answered_kop_def)
  have nth: "kw_issued w ! length pre = KWriteFd ident dmabuf v" if "length pre < length (kw_issued w)"
    using that ops by (metis nth_append nth_append_length)
  show ?thesis
  proof (cases "kw_wait w")
    case None
    have "\<not> length pre < length (kw_issued w)"
      using wa None nth bad by (auto simp: waits_answered_def list_all_length)
    then show ?thesis by simp
  next
    case (Some x)
    then have iss: "kw_issued w = butlast (kw_issued w) @ [x]" using inv by (simp add: kinv_def kwaiting_def)
    have "\<not> length pre < length (butlast (kw_issued w))"
    proof
      assume l: "length pre < length (butlast (kw_issued w))"
      then have "butlast (kw_issued w) ! length pre = KWriteFd ident dmabuf v" using nth by (simp add: nth_butlast)
      then show False using wa Some bad l by (auto simp: waits_answered_def list_all_length)
    qed
    then have le: "length (kw_issued w) \<le> length pre + 1" by simp
    moreover have "x = KWriteFd ident dmabuf v" if "length (kw_issued w) = length pre + 1"
    proof -
      have "length (butlast (kw_issued w)) = length pre" using that by simp
      then have "kw_issued w ! length pre = x" using iss by (metis nth_append_length)
      then show ?thesis using nth that by simp
    qed
    ultimately show ?thesis using Some by simp
  qed
qed

theorem kernel_fd_write_never_returns_witness:
  "\<exists>w. kstep id (\<lambda>s. 0) (kstart [KWriteFd 2 64 5] (kop_request (KRead 0 0)) \<lparr>ms_portal = 0, ms_data = 0, ms_tag = 0\<rparr>) w \<and>
     length (kw_issued w) = 1 \<and> kw_wait w = Some (KWriteFd 2 64 5)"
proof -
  let ?w = "kstart [KWriteFd 2 64 5] (kop_request (KRead 0 0)) \<lparr>ms_portal = 0, ms_data = 0, ms_tag = 0\<rparr>"
  have n: "list_all normal_id ([] @ KWriteFd 2 64 5 # [])" by (simp add: normal_id_def kop_request_def)
  have "kw_wait ?w = None" "kw_todo ?w = KWriteFd 2 64 5 # []" "\<not> main_program_finished (kw_dev ?w)" "bsim_avail (kw_dev ?w) > 0"
    by (simp_all add: kstart_def)
  then obtain w where w: "kstep id (\<lambda>s. 0) ?w w" "length (kw_issued w) = 1"
    using kstep.program_posts [of ?w, where newfd = id and val = "\<lambda>s. 0"] by (fastforce simp: kstart_def)
  have "(kstep id (\<lambda>s. 0))\<^sup>*\<^sup>* (kstart ([] @ KWriteFd 2 64 5 # []) (kop_request (KRead 0 0)) \<lparr>ms_portal = 0, ms_data = 0, ms_tag = 0\<rparr>) w"
    using w(1) by simp
  from kernel_fd_write_never_returns [OF n this] w show ?thesis by auto
qed

text \<open>
  The program may end while its last write still waits to be fetched: from then on reading the
  device returns the end of file, and the relay process never sees the write.
\<close>

definition write_lost :: "kworld \<Rightarrow> bool" where
  "write_lost w \<longleftrightarrow> main_program_finished (kw_dev w) \<and> kw_todo w = [] \<and> kw_wait w = None \<and> kw_relay w = None \<and> kw_seen w = []"

lemma write_lost_stays:
  assumes "(kstep newfd val)\<^sup>*\<^sup>* w w'" and "write_lost w"
  shows "write_lost w'"
  using assms
proof (induction rule: rtranclp_induct)
  case (step y z)
  then have "write_lost y" by blast
  with step.hyps(2) show ?case
    by cases (auto simp: write_lost_def connectal_kernel_read_def Let_def split: if_splits)
qed

lemma last_write_may_be_lost:
  "\<exists>w. (kstep newfd val)\<^sup>*\<^sup>* (kstart [KWrite p a v] qi ri) w \<and> kw_issued w = [KWrite p a v] \<and> kw_todo w = [] \<and>
     (\<forall>w'. (kstep newfd val)\<^sup>*\<^sup>* w w' \<longrightarrow> kw_seen w' = [])"
proof -
  define w1 where "w1 = (kstart [KWrite p a v] qi ri)\<lparr>kw_dev := post_request (KWrite p a v) (kw_dev (kstart [KWrite p a v] qi ri)),
    kw_todo := [], kw_wait := None, kw_issued := [KWrite p a v]\<rparr>"
  define w2 where "w2 = w1\<lparr>kw_dev := (kw_dev w1)\<lparr>main_program_finished := True\<rparr>\<rparr>"
  have "kstep newfd val (kstart [KWrite p a v] qi ri) w1"
    using kstep.program_posts [of "kstart [KWrite p a v] qi ri" "KWrite p a v" "[]" newfd val]
    by (simp add: w1_def kstart_def kop_waits_def)
  moreover have "kstep newfd val w1 w2"
    unfolding w2_def by (rule kstep.program_ends) (simp_all add: w1_def)
  moreover have l: "write_lost w2" by (simp add: write_lost_def w2_def w1_def kstart_def)
  moreover have "kw_issued w2 = [KWrite p a v]" "kw_todo w2 = []" by (simp_all add: w2_def w1_def)
  moreover have "kw_seen w' = []" if "(kstep newfd val)\<^sup>*\<^sup>* w2 w'" for w'
    using write_lost_stays [OF that l] by (simp add: write_lost_def)
  ultimately show ?thesis by (meson converse_rtranclp_into_rtranclp r_into_rtranclp)
qed

end
