(* ===== verification/Ring_Hardware.thy ===== *)
theory Ring_Hardware
  imports Connectal_Prelude
begin

text \<open>
  The hardware of the ring example: the registers of a ring buffer (\<open>lib/bsv/RingBuffer.bsv\<close>) and
  the engine that fetches commands from one ring, runs them and reports in the other
  (\<open>examples/ring/Ring.bsv\<close>, \<open>CopyEngine.bsv\<close>, \<open>EchoEngine.bsv\<close>, \<open>NopEngine.bsv\<close>).  A ring lies in a
  buffer of 64-bit words; items have eight words.  What the hardware does next is one of five
  actions; every action whose guard fails does nothing.
\<close>

section \<open>Registers of a ring\<close>

record ringbuf =
  rb_base :: nat
  rb_end :: nat
  rb_first :: nat
  rb_lastfetch :: nat
  rb_lastack :: nat
  rb_mask :: nat
  rb_mem :: nat
  rb_enable :: bool

text \<open>Offsets have \<open>MemOffsetSize\<close> bits, handles 32.\<close>

definition offset_bits :: nat where "offset_bits = 44"

definition rb_set :: "nat \<Rightarrow> nat \<Rightarrow> ringbuf \<Rightarrow> ringbuf" where
  "rb_set regist addr rb =
     (let v = take_bit offset_bits addr in
      if regist = 0 then rb\<lparr>rb_base := v\<rparr>
      else if regist = 1 then rb\<lparr>rb_end := v\<rparr>
      else if regist = 2 then rb\<lparr>rb_first := v\<rparr>
      else if regist = 3 then rb\<lparr>rb_lastfetch := v\<rparr>
      else if regist = 4 then rb\<lparr>rb_mask := v\<rparr>
      else if regist = 5 then rb\<lparr>rb_mem := take_bit 32 addr\<rparr>
      else if regist = 6 then rb\<lparr>rb_lastack := v\<rparr>
      else rb\<lparr>rb_enable := odd addr\<rparr>)"

definition rb_setFirst :: "nat \<Rightarrow> ringbuf \<Rightarrow> ringbuf" where
  "rb_setFirst addr rb = rb\<lparr>rb_first := take_bit offset_bits addr\<rparr>"

definition rb_setLast :: "nat \<Rightarrow> ringbuf \<Rightarrow> ringbuf" where
  "rb_setLast addr rb = rb\<lparr>rb_lastfetch := take_bit offset_bits addr, rb_lastack := take_bit offset_bits addr\<rparr>"

definition rb_get :: "nat \<Rightarrow> ringbuf \<Rightarrow> nat" where
  "rb_get regist rb =
     (if regist = 0 then rb_base rb
      else if regist = 1 then rb_end rb
      else if regist = 2 then rb_first rb
      else if regist = 3 then rb_lastfetch rb
      else if regist = 4 then rb_mask rb
      else if regist = 5 then rb_mem rb
      else if regist = 6 then rb_lastack rb
      else of_bool (rb_enable rb))"

definition rb_advance :: "nat \<Rightarrow> ringbuf \<Rightarrow> nat" where
  "rb_advance v rb = take_bit offset_bits (v + 64) AND rb_mask rb"

definition rb_notEmpty :: "ringbuf \<Rightarrow> bool" where
  "rb_notEmpty rb \<longleftrightarrow> rb_first rb \<noteq> rb_lastfetch rb"

definition rb_notFull :: "ringbuf \<Rightarrow> bool" where
  "rb_notFull rb \<longleftrightarrow> rb_advance (rb_first rb) rb \<noteq> rb_lastack rb"

definition rb_push :: "ringbuf \<Rightarrow> ringbuf" where
  "rb_push rb = rb\<lparr>rb_first := rb_advance (rb_first rb) rb\<rparr>"

definition rb_popfetch :: "ringbuf \<Rightarrow> ringbuf" where
  "rb_popfetch rb = rb\<lparr>rb_lastfetch := rb_advance (rb_lastfetch rb) rb\<rparr>"

definition rb_popack :: "ringbuf \<Rightarrow> ringbuf" where
  "rb_popack rb = rb\<lparr>rb_lastack := rb_advance (rb_lastack rb) rb\<rparr>"

section \<open>The engine\<close>

type_synonym item = "u64 list"
type_synonym buffers = "nat \<Rightarrow> u64 list"

definition item_at :: "u64 list \<Rightarrow> nat \<Rightarrow> item" where
  "item_at b off = slice b (off div 8) 8"

definition put_item :: "u64 list \<Rightarrow> nat \<Rightarrow> item \<Rightarrow> u64 list" where
  "put_item b off it = splice b (off div 8) it"

text \<open>The methods of the request portal and the indications it answers with.\<close>

datatype ring_req =
    SetReg nat nat nat
  | SetCmdFirst nat | SetCmdLast nat | SetStatusFirst nat | SetStatusLast nat
  | GetReg nat nat
  | HwEnable nat

datatype ring_ind = SetResult nat nat nat | GetResult nat nat nat

text \<open>
  The state: both rings, requests and indications under way, reads of commands under way, and the
  commands in the copy and in the echo engine.  \<open>rh_dispatched\<close> and \<open>rh_pushed\<close> record the
  history: the commands given to an engine and the items written to the status ring.
\<close>

record ring_hw =
  rh_cmd :: ringbuf
  rh_status :: ringbuf
  rh_enabled :: bool
  rh_requests :: "ring_req list"
  rh_inds :: "ring_ind list"
  rh_reads :: "nat list"
  rh_copy :: "item list"
  rh_echo :: "item list"
  rh_dispatched :: "item list"
  rh_pushed :: "item list"

definition ring_request :: "ring_req \<Rightarrow> ring_hw \<Rightarrow> ring_hw" where
  "ring_request q h =
     (case q of
        SetReg c regist addr \<Rightarrow>
          (if c = 0 then h\<lparr>rh_cmd := rb_set regist addr (rh_cmd h)\<rparr> else h\<lparr>rh_status := rb_set regist addr (rh_status h)\<rparr>)
            \<lparr>rh_inds := rh_inds h @ [SetResult c regist addr]\<rparr>
      | SetCmdFirst addr \<Rightarrow> h\<lparr>rh_cmd := rb_setFirst addr (rh_cmd h)\<rparr>
      | SetCmdLast addr \<Rightarrow> h\<lparr>rh_cmd := rb_setLast addr (rh_cmd h)\<rparr>
      | SetStatusFirst addr \<Rightarrow> h\<lparr>rh_status := rb_setFirst addr (rh_status h)\<rparr>
      | SetStatusLast addr \<Rightarrow> h\<lparr>rh_status := rb_setLast addr (rh_status h)\<rparr>
      | GetReg c regist \<Rightarrow>
          h\<lparr>rh_inds := rh_inds h @ [if c = 0 then GetResult 0 regist (rb_get regist (rh_cmd h))
                                  else GetResult 1 regist (rb_get regist (rh_status h))]\<rparr>
      | HwEnable en \<Rightarrow> h\<lparr>rh_enabled := (en = 1)\<rparr>)"

datatype engine = NopEngine | CopyEngine | EchoEngine

definition cmdifc :: "item \<Rightarrow> engine" where
  "cmdifc it =
     (let sel = drop_bit 56 (it ! 0) in
      if sel = 0 then NopEngine else if sel = 1 then CopyEngine else if sel = 2 then EchoEngine else NopEngine)"

text \<open>
  The copy engine takes one command at a time and holds two more in front and two results behind;
  the echo engine is a queue of sixteen words.
\<close>

definition engine_room :: "engine \<Rightarrow> ring_hw \<Rightarrow> bool" where
  "engine_room e h \<longleftrightarrow>
     (case e of NopEngine \<Rightarrow> True | CopyEngine \<Rightarrow> length (rh_copy h) < 5 | EchoEngine \<Rightarrow> length (rh_echo h) < 2)"

text \<open>The copy engine: words are moved one after the other.\<close>

fun copy_words :: "nat \<Rightarrow> nat \<Rightarrow> nat \<Rightarrow> nat \<Rightarrow> nat \<Rightarrow> buffers \<Rightarrow> buffers" where
  "copy_words rp ra wp wa 0 b = b"
| "copy_words rp ra wp wa (Suc n) b =
     copy_words rp (ra + 8) wp (wa + 8) n (b(wp := (b wp)[wa div 8 := b rp ! (ra div 8)]))"

definition copy_count :: "item \<Rightarrow> nat" where
  "copy_count it = unat (take_bit 16 (it ! 5))"

definition run_copy :: "item \<Rightarrow> buffers \<Rightarrow> buffers" where
  "run_copy it =
     copy_words (unat (take_bit 32 (it ! 1))) (unat (take_bit offset_bits (it ! 2)))
       (unat (take_bit 32 (it ! 3))) (unat (take_bit offset_bits (it ! 4))) (copy_count it div 8)"

definition copy_status :: "item \<Rightarrow> item" where
  "copy_status it = [0, 0, 0, 0, 0, 0, 0, take_bit 32 (it ! 7)]"

definition write_status :: "item \<Rightarrow> ring_hw \<times> buffers \<Rightarrow> ring_hw \<times> buffers" where
  "write_status st hb =
     (case hb of (h, b) \<Rightarrow>
        (h\<lparr>rh_status := rb_push (rh_status h), rh_pushed := rh_pushed h @ [st]\<rparr>,
         b(rb_mem (rh_status h) := put_item (b (rb_mem (rh_status h))) (rb_first (rh_status h)) st)))"

datatype hw_act = DoRequest | DoFetch | DoDispatch | DoCopy | DoEcho

definition next_command :: "ring_hw \<times> buffers \<Rightarrow> item" where
  "next_command hb = (case hb of (h, b) \<Rightarrow> item_at (b (rb_mem (rh_cmd h))) (hd (rh_reads h)))"

definition hw_enabled :: "hw_act \<Rightarrow> ring_hw \<times> buffers \<Rightarrow> bool" where
  "hw_enabled act hb =
     (case hb of (h, b) \<Rightarrow>
        (case act of
           DoRequest \<Rightarrow> rh_requests h \<noteq> []
         | DoFetch \<Rightarrow> rh_enabled h \<and> rb_notEmpty (rh_cmd h) \<and> length (rh_reads h) < 4
         | DoDispatch \<Rightarrow> rh_reads h \<noteq> [] \<and> engine_room (cmdifc (next_command hb)) h
         | DoCopy \<Rightarrow> rh_copy h \<noteq> [] \<and> copy_count (hd (rh_copy h)) mod 8 = 0 \<and> rb_notFull (rh_status h)
         | DoEcho \<Rightarrow> rh_echo h \<noteq> [] \<and> rb_notFull (rh_status h)))"

definition hw_effect :: "hw_act \<Rightarrow> ring_hw \<times> buffers \<Rightarrow> ring_hw \<times> buffers" where
  "hw_effect act hb =
     (case hb of (h, b) \<Rightarrow>
        (case act of
           DoRequest \<Rightarrow> (ring_request (hd (rh_requests h)) (h\<lparr>rh_requests := tl (rh_requests h)\<rparr>), b)
         | DoFetch \<Rightarrow> (h\<lparr>rh_reads := rh_reads h @ [rb_lastfetch (rh_cmd h)], rh_cmd := rb_popfetch (rh_cmd h)\<rparr>, b)
         | DoDispatch \<Rightarrow>
             (let it = next_command hb;
                  h = h\<lparr>rh_reads := tl (rh_reads h), rh_cmd := rb_popack (rh_cmd h), rh_dispatched := rh_dispatched h @ [it]\<rparr> in
              (case cmdifc it of
                 NopEngine \<Rightarrow> h
               | CopyEngine \<Rightarrow> h\<lparr>rh_copy := rh_copy h @ [it]\<rparr>
               | EchoEngine \<Rightarrow> h\<lparr>rh_echo := rh_echo h @ [it]\<rparr>, b))
         | DoCopy \<Rightarrow>
             write_status (copy_status (hd (rh_copy h))) (h\<lparr>rh_copy := tl (rh_copy h)\<rparr>, run_copy (hd (rh_copy h)) b)
         | DoEcho \<Rightarrow> write_status (hd (rh_echo h)) (h\<lparr>rh_echo := tl (rh_echo h)\<rparr>, b)))"

definition hw_step :: "hw_act \<Rightarrow> ring_hw \<times> buffers \<Rightarrow> ring_hw \<times> buffers" where
  "hw_step act hb = (if hw_enabled act hb then hw_effect act hb else hb)"

end
