(* ===== verification/Ring_Driver.thy ===== *)
theory Ring_Driver
  imports Ring_Hardware
begin

text \<open>
  The software of the ring example, \<open>examples/ring/testring.cpp\<close>: the pool of completions, the two
  rings, sending a command and polling for results, and the operations built on them.  The hardware
  runs whenever the software looks at it: \<open>sched\<close> says what it does at each look.
\<close>

section \<open>State\<close>

definition CMD_NOP :: u64 where "CMD_NOP = 0"
definition CMD_COPY :: u64 where "CMD_COPY = 1"
definition CMD_ECHO :: u64 where "CMD_ECHO = 2"

definition REG_BASE :: nat where "REG_BASE = 0"
definition REG_END :: nat where "REG_END = 1"
definition REG_MASK :: nat where "REG_MASK = 4"
definition REG_HANDLE :: nat where "REG_HANDLE = 5"
definition REG_LASTACK :: nat where "REG_LASTACK = 6"

lemmas ring_consts = CMD_NOP_def CMD_COPY_def CMD_ECHO_def REG_BASE_def REG_END_def REG_MASK_def REG_HANDLE_def REG_LASTACK_def

text \<open>Functions a completion may call, and the records they fill in, found by their address.\<close>

datatype finish_fn = Flag_finish | Echo_finish

record Ring_Completion =
  rc_tag :: nat
  rc_in_use :: bool
  rc_finish :: "finish_fn option"
  rc_arg :: nat

record CompletionEvent =
  ce_exp_a :: u64
  ce_exp_b :: u64
  ce_got_a :: u64
  ce_got_b :: u64
  ce_flag :: bool

record SWRing =
  sr_ref :: nat
  sr_base :: nat
  sr_first :: nat
  sr_last :: nat
  sr_size :: nat
  sr_slots :: nat
  sr_cached_space :: nat
  sr_ringid :: nat

text \<open>
  The world: the hardware and the buffers it shares with the program (a buffer goes by the handle
  the DMA manager gave it), the globals of the program, the flags and events of the callers, and
  the number of looks at the hardware so far.  \<open>w_sent\<close> and \<open>w_handled\<close> are history: the commands
  sent and the items of the status ring handled.
\<close>

record ring_world =
  w_hw :: ring_hw
  w_bufs :: buffers
  w_completion :: "Ring_Completion list"
  w_freelist :: "nat list"
  w_setresult_flag :: bool
  w_getresult_flag :: bool
  w_cmd_ring :: SWRing
  w_status_ring :: SWRing
  w_ring_init_done :: bool
  w_flags :: "nat \<Rightarrow> bool"
  w_events :: "nat \<Rightarrow> CompletionEvent"
  w_totalCompletions :: nat
  w_clock :: nat
  w_sent :: "item list"
  w_handled :: "item list"

datatype ring_name = Cmd | Status

definition the_ring :: "ring_name \<Rightarrow> ring_world \<Rightarrow> SWRing" where
  "the_ring r w = (case r of Cmd \<Rightarrow> w_cmd_ring w | Status \<Rightarrow> w_status_ring w)"

definition set_ring :: "ring_name \<Rightarrow> SWRing \<Rightarrow> ring_world \<Rightarrow> ring_world" where
  "set_ring r s w = (case r of Cmd \<Rightarrow> w\<lparr>w_cmd_ring := s\<rparr> | Status \<Rightarrow> w\<lparr>w_status_ring := s\<rparr>)"

type_synonym schedule = "nat \<Rightarrow> hw_act list"

definition hw_run :: "schedule \<Rightarrow> ring_world \<Rightarrow> ring_world" where
  "hw_run sched w =
     (case fold hw_step (sched (w_clock w)) (w_hw w, w_bufs w) of
        (h, b) \<Rightarrow> w\<lparr>w_hw := h, w_bufs := b, w_clock := w_clock w + 1\<rparr>)"

text \<open>A method of the request portal.\<close>

definition request :: "ring_req \<Rightarrow> ring_world \<Rightarrow> ring_world" where
  "request q w = w\<lparr>w_hw := (w_hw w)\<lparr>rh_requests := rh_requests (w_hw w) @ [q]\<rparr>\<rparr>"

section \<open>Completions\<close>

definition completion_list_init :: "ring_world \<Rightarrow> ring_world" where
  "completion_list_init w =
     w\<lparr>w_completion :=
         (w_completion w ! 0) # map (\<lambda>i. \<lparr>rc_tag = i, rc_in_use = False, rc_finish = None, rc_arg = 0\<rparr>) [1..<1024],
       w_freelist := [1..<1024]\<rparr>"

definition get_free_completion :: "ring_world \<Rightarrow> (nat option \<times> ring_world) result" where
  "get_free_completion w =
     (case w_freelist w of
        [] \<Rightarrow> Inr (None, w)
      | p # ps \<Rightarrow>
          rbind (rassert (\<not> rc_in_use (w_completion w ! p)) AssertFailed) (\<lambda>_.
          Inr (Some p, w\<lparr>w_freelist := ps, w_completion := (w_completion w)[p := (w_completion w ! p)\<lparr>rc_in_use := True\<rparr>]\<rparr>)))"

definition flag_finish :: "nat \<Rightarrow> item \<Rightarrow> ring_world \<Rightarrow> ring_world result" where
  "flag_finish arg event w = Inr (w\<lparr>w_flags := (w_flags w)(arg := True)\<rparr>)"

definition echo_finish :: "nat \<Rightarrow> item \<Rightarrow> ring_world \<Rightarrow> ring_world result" where
  "echo_finish arg event w =
     rbind (rassert (arg \<noteq> 0) AssertFailed) (\<lambda>_.
     Inr (w\<lparr>w_events := (w_events w)(arg := (w_events w arg)\<lparr>ce_got_a := event ! 1, ce_got_b := event ! 2, ce_flag := True\<rparr>),
            w_totalCompletions := w_totalCompletions w + 1\<rparr>))"

definition call_finish :: "finish_fn option \<Rightarrow> nat \<Rightarrow> item \<Rightarrow> ring_world \<Rightarrow> ring_world result" where
  "call_finish f arg event w =
     (case f of None \<Rightarrow> Inr w | Some Flag_finish \<Rightarrow> flag_finish arg event w | Some Echo_finish \<Rightarrow> echo_finish arg event w)"

text \<open>The event lies at byte \<open>off\<close> of the buffer \<open>base\<close>.\<close>

definition clear_mark :: "nat \<Rightarrow> nat \<Rightarrow> ring_world \<Rightarrow> ring_world" where
  "clear_mark base off w = w\<lparr>w_bufs := (w_bufs w)(base := (w_bufs w base)[off div 8 + 7 := 0])\<rparr>"

definition Ring_Handle_Completion :: "nat \<Rightarrow> nat \<Rightarrow> ring_world \<Rightarrow> ring_world result" where
  "Ring_Handle_Completion base off w =
     (let event = item_at (w_bufs w base) off; tag = unat (event ! 7 AND 0xffff) in
      rbind (rassert (tag < 1024) AssertFailed) (\<lambda>_.
      let p = w_completion w ! tag in
      rbind (rassert (rc_in_use p) AssertFailed) (\<lambda>_.
      let w = w\<lparr>w_completion := (w_completion w)[tag := p\<lparr>rc_in_use := False\<rparr>], w_handled := w_handled w @ [event]\<rparr> in
      rbind (call_finish (rc_finish p) (rc_arg p) event w) (\<lambda>w.
      let w = clear_mark base off w in
      Inr (w\<lparr>w_freelist := w_freelist w @ [tag]\<rparr>)))))"

section \<open>Polling\<close>

definition setResult :: "nat \<Rightarrow> nat \<Rightarrow> nat \<Rightarrow> ring_world \<Rightarrow> ring_world" where
  "setResult c regist addr w = w\<lparr>w_setresult_flag := True\<rparr>"

definition getResult :: "nat \<Rightarrow> nat \<Rightarrow> nat \<Rightarrow> ring_world \<Rightarrow> ring_world" where
  "getResult c regist addr w =
     (if c = sr_ringid (w_cmd_ring w) \<and> regist = REG_LASTACK
      then w\<lparr>w_cmd_ring := (w_cmd_ring w)\<lparr>sr_last := addr mod 2 ^ 32\<rparr>\<rparr> else w)\<lparr>w_getresult_flag := True\<rparr>"

definition indication :: "ring_ind \<Rightarrow> ring_world \<Rightarrow> ring_world" where
  "indication i w = (case i of SetResult c r a \<Rightarrow> setResult c r a w | GetResult c r a \<Rightarrow> getResult c r a w)"

text \<open>An event of the portals hands over every indication that waits.\<close>

definition portal_event :: "ring_world \<Rightarrow> ring_world" where
  "portal_event w = fold indication (rh_inds (w_hw w)) (w\<lparr>w_hw := (w_hw w)\<lparr>rh_inds := []\<rparr>\<rparr>)"

definition ring_next :: "ring_name \<Rightarrow> ring_world \<Rightarrow> nat option result" where
  "ring_next r w =
     (let s = the_ring r w; i = sr_last s div 8 + 7; b = w_bufs w (sr_base s) in
      if i < length b then Inr (if b ! i = 0 then None else Some (sr_last s)) else Inl OutOfBounds)"

definition ring_pop :: "ring_name \<Rightarrow> ring_world \<Rightarrow> ring_world" where
  "ring_pop r w =
     (let w = clear_mark (sr_base (the_ring r w)) (sr_last (the_ring r w)) w;
          s = the_ring r w;
          last' = (sr_last s + 64) mod 2 ^ 32;
          last' = (if last' \<ge> sr_size s then 0 else last');
          w = set_ring r (s\<lparr>sr_last := last'\<rparr>) w in
      if last' mod (sr_size s div 4) = 0
      then request (if sr_ringid s = 0 then SetCmdLast last' else SetStatusLast last') w else w)"

definition handle_one :: "nat \<Rightarrow> ring_world \<Rightarrow> ring_world result" where
  "handle_one off w =
     rbind (Ring_Handle_Completion (sr_base (w_status_ring w)) off w) (\<lambda>w. Inr (ring_pop Status w))"

partial_function (option) poll_ring_loop :: "schedule \<Rightarrow> ring_world \<Rightarrow> ring_world result option" where
  "poll_ring_loop sched w =
     (case ring_next Status (hw_run sched w) of
        Inl e \<Rightarrow> Some (Inl e)
      | Inr msg \<Rightarrow>
          if msg = None then Some (Inr (hw_run sched w))
          else (case handle_one (the msg) (hw_run sched w) of Inl e \<Rightarrow> Some (Inl e) | Inr w \<Rightarrow> poll_ring_loop sched w))"

definition StatusPollRingOnly :: "schedule \<Rightarrow> ring_world \<Rightarrow> ring_world result" where
  "StatusPollRingOnly sched w = returned (poll_ring_loop sched w)"

definition StatusPoll :: "schedule \<Rightarrow> ring_world \<Rightarrow> ring_world result" where
  "StatusPoll sched w =
     (let w = portal_event (hw_run sched w) in
      if w_ring_init_done w then
        rbind (ring_next Status w) (\<lambda>msg. case msg of None \<Rightarrow> Inr w | Some off \<Rightarrow> handle_one off w)
      else Inr w)"

text \<open>\<open>while (!done) StatusPoll();\<close>\<close>

partial_function (option) poll_until :: "schedule \<Rightarrow> (ring_world \<Rightarrow> bool) \<Rightarrow> ring_world \<Rightarrow> ring_world result option" where
  "poll_until sched fin w =
     (if fin w then Some (Inr w)
      else (case StatusPoll sched w of Inl e \<Rightarrow> Some (Inl e) | Inr w \<Rightarrow> poll_until sched fin w))"

definition waitforflag :: "schedule \<Rightarrow> (ring_world \<Rightarrow> bool) \<Rightarrow> ring_world \<Rightarrow> ring_world result" where
  "waitforflag sched f w = returned (poll_until sched f w)"

section \<open>Rings\<close>

definition set_wait :: "schedule \<Rightarrow> nat \<Rightarrow> nat \<Rightarrow> nat \<Rightarrow> ring_world \<Rightarrow> ring_world result" where
  "set_wait sched ringid regist v w =
     waitforflag sched w_setresult_flag (request (SetReg ringid regist v) (w\<lparr>w_setresult_flag := False\<rparr>))"

definition fresh_ring :: "nat \<Rightarrow> nat \<Rightarrow> nat \<Rightarrow> nat \<Rightarrow> SWRing" where
  "fresh_ring ringid ref base sz =
     \<lparr>sr_ref = ref, sr_base = base, sr_first = 0, sr_last = 0, sr_size = sz, sr_slots = sz div 64,
      sr_cached_space = (sz + 2 ^ 64 - 64) mod 2 ^ 32, sr_ringid = ringid\<rparr>"

definition ring_init :: "schedule \<Rightarrow> ring_name \<Rightarrow> nat \<Rightarrow> nat \<Rightarrow> nat \<Rightarrow> nat \<Rightarrow> ring_world \<Rightarrow> ring_world result" where
  "ring_init sched r ringid ref base sz w =
     (let w = set_ring r (fresh_ring ringid ref base sz) w in
      rbind (set_wait sched ringid REG_BASE 0 w) (\<lambda>w.
      rbind (set_wait sched ringid REG_END sz w) (\<lambda>w.
      let w = (if ringid = 0 then request (SetCmdLast 0) (request (SetCmdFirst 0) w)
               else request (SetStatusLast 0) (request (SetStatusFirst 0) w)) in
      rbind (set_wait sched ringid REG_MASK (sz - 1) w) (\<lambda>w.
      set_wait sched ringid REG_HANDLE ref w))))"

text \<open>The space that the reported end of the ring leaves.\<close>

definition ring_space :: "SWRing \<Rightarrow> nat" where
  "ring_space s = ((sr_size s + sr_last s + 2 ^ 64 - sr_first s - 64) mod 2 ^ 64 mod sr_size s) mod 2 ^ 32"

partial_function (option) send_loop :: "schedule \<Rightarrow> ring_name \<Rightarrow> ring_world \<Rightarrow> ring_world result option" where
  "send_loop sched r w =
     (if sr_cached_space (the_ring r w) mod (sr_size (the_ring r w) div 4) = 0 then
        (case waitforflag sched w_getresult_flag
                (request (GetReg (sr_ringid (the_ring r w)) REG_LASTACK) (w\<lparr>w_getresult_flag := False\<rparr>)) of
           Inl e \<Rightarrow> Some (Inl e)
         | Inr w \<Rightarrow>
             if ring_space (the_ring r w) \<noteq> 0
             then Some (Inr (set_ring r ((the_ring r w)\<lparr>sr_cached_space := ring_space (the_ring r w)\<rparr>) w))
             else send_loop sched r (set_ring r ((the_ring r w)\<lparr>sr_cached_space := ring_space (the_ring r w)\<rparr>) w))
      else Some (Inr w))"

definition put_command :: "ring_name \<Rightarrow> item \<Rightarrow> ring_world \<Rightarrow> ring_world result" where
  "put_command r cmd w =
     (let s = the_ring r w; b = w_bufs w (sr_base s) in
      if sr_first s div 8 + 8 \<le> length b then
        let next_first = (sr_first s + 64) mod 2 ^ 32;
            next_first = (if next_first = sr_size s then 0 else next_first) in
        Inr (set_ring r (s\<lparr>sr_first := next_first, sr_cached_space := (sr_cached_space s + 2 ^ 32 - 64) mod 2 ^ 32\<rparr>)
          (w\<lparr>w_bufs := (w_bufs w)(sr_base s := put_item b (sr_first s) cmd), w_sent := w_sent w @ [cmd]\<rparr>))
      else Inl OutOfBounds)"

definition ring_send :: "schedule \<Rightarrow> ring_name \<Rightarrow> item \<Rightarrow> finish_fn option \<Rightarrow> nat \<Rightarrow> ring_world \<Rightarrow> ring_world result" where
  "ring_send sched r cmd fp arg w =
     rbind (rassert (sr_first (the_ring r w) < sr_size (the_ring r w)) AssertFailed) (\<lambda>_.
     rbind (returned (send_loop sched r w)) (\<lambda>w.
     rbind (get_free_completion w) (\<lambda>(p, w).
     case p of
       None \<Rightarrow> Inl AssertFailed
     | Some p \<Rightarrow>
         put_command r (cmd[7 := of_nat (rc_tag (w_completion w ! p))])
           (w\<lparr>w_completion := (w_completion w)[p := (w_completion w ! p)\<lparr>rc_finish := fp, rc_arg := arg\<rparr>]\<rparr>))))"

definition STARTRING :: "ring_world \<Rightarrow> ring_world" where
  "STARTRING w = request (SetCmdFirst (sr_first (w_cmd_ring w))) w"

section \<open>Operations\<close>

text \<open>\<open>tcmd\<close> is what the array on the stack holds before it is filled in.\<close>

definition opcode :: "u64 \<Rightarrow> u64" where "opcode c = push_bit 56 c"

definition copy_command :: "item \<Rightarrow> nat \<Rightarrow> u64 \<Rightarrow> u64 \<Rightarrow> u32 \<Rightarrow> item" where
  "copy_command tcmd scratch from to count =
     tcmd[0 := opcode CMD_COPY, 1 := of_nat scratch, 2 := from, 3 := of_nat scratch, 4 := to, 5 := ucast count]"

definition hw_copy :: "schedule \<Rightarrow> item \<Rightarrow> nat \<Rightarrow> nat \<Rightarrow> u64 \<Rightarrow> u64 \<Rightarrow> u32 \<Rightarrow> ring_world \<Rightarrow> ring_world result" where
  "hw_copy sched tcmd scratch flag from to count w =
     rbind (ring_send sched Cmd (copy_command tcmd scratch from to count) (Some Flag_finish) flag
              (w\<lparr>w_flags := (w_flags w)(flag := False)\<rparr>)) (\<lambda>w.
     waitforflag sched (\<lambda>w. w_flags w flag) (STARTRING w))"

definition hw_copy_nb :: "schedule \<Rightarrow> item \<Rightarrow> nat \<Rightarrow> nat \<Rightarrow> u64 \<Rightarrow> u64 \<Rightarrow> u32 \<Rightarrow> ring_world \<Rightarrow> ring_world result" where
  "hw_copy_nb sched tcmd scratch flag from to count w =
     rbind (ring_send sched Cmd (copy_command tcmd scratch from to count) (Some Flag_finish) flag w) (\<lambda>w.
     Inr (STARTRING w))"

definition echo_command :: "item \<Rightarrow> u64 \<Rightarrow> u64 \<Rightarrow> item" where
  "echo_command tcmd a b = tcmd[0 := opcode CMD_ECHO, 1 := a, 2 := b]"

text \<open>The result says whether the echo was right.\<close>

definition hw_echo :: "schedule \<Rightarrow> item \<Rightarrow> nat \<Rightarrow> u64 \<Rightarrow> u64 \<Rightarrow> ring_world \<Rightarrow> (bool \<times> ring_world) result" where
  "hw_echo sched tcmd ev a b w =
     (let w = w\<lparr>w_events := (w_events w)(ev := (w_events w ev)\<lparr>ce_exp_a := a, ce_exp_b := b, ce_flag := False\<rparr>)\<rparr> in
      rbind (ring_send sched Cmd (echo_command tcmd a b) (Some Echo_finish) ev w) (\<lambda>w.
      rbind (waitforflag sched (\<lambda>w. ce_flag (w_events w ev)) (STARTRING w)) (\<lambda>w.
      Inr (ce_got_a (w_events w ev) = a \<and> ce_got_b (w_events w ev) = b, w))))"

definition hw_nop :: "schedule \<Rightarrow> item \<Rightarrow> ring_world \<Rightarrow> ring_world result" where
  "hw_nop sched tcmd w =
     rbind (ring_send sched Cmd (tcmd[0 := opcode CMD_NOP, 1 := 17, 2 := 34]) None 0 w) (\<lambda>w. Inr (STARTRING w))"

section \<open>The program\<close>

definition cmd_ring_sz :: nat where "cmd_ring_sz = 8192"
definition status_ring_sz :: nat where "status_ring_sz = 8192"

text \<open>What \<open>main\<close> does between referencing its buffers and the first command.\<close>

definition ring_setup :: "schedule \<Rightarrow> nat \<Rightarrow> nat \<Rightarrow> ring_world \<Rightarrow> ring_world result" where
  "ring_setup sched cmdPointer statusPointer w =
     rbind (ring_init sched Cmd 0 cmdPointer cmdPointer cmd_ring_sz (completion_list_init w)) (\<lambda>w.
     rbind (ring_init sched Status 1 statusPointer statusPointer status_ring_sz w) (\<lambda>w.
     Inr (request (HwEnable 1) (w\<lparr>w_ring_init_done := True\<rparr>))))"

text \<open>The bytes of the scratch buffer, which the hardware sees as little-endian words.\<close>

definition byte_at :: "u64 list \<Rightarrow> nat \<Rightarrow> u8" where
  "byte_at ws i = ucast (drop_bit (8 * (i mod 8)) (ws ! (i div 8)))"

definition set_byte :: "u64 list \<Rightarrow> nat \<Rightarrow> u8 \<Rightarrow> u64 list" where
  "set_byte ws i v =
     ws[i div 8 := or (and (ws ! (i div 8)) (not (push_bit (8 * (i mod 8)) 0xFF))) (push_bit (8 * (i mod 8)) (ucast v))]"

definition scratch_sz :: nat where "scratch_sz = 2 ^ 20"

definition fill_scratch :: "nat \<Rightarrow> ring_world \<Rightarrow> ring_world" where
  "fill_scratch scratch w =
     w\<lparr>w_bufs := (w_bufs w)(scratch := fold (\<lambda>i ws. set_byte ws i (of_nat i)) [0..<256] (w_bufs w scratch))\<rparr>"

text \<open>The first pass. Its result, too, says whether everything was right; \<open>char\<close> is signed.\<close>

fun copy_and_echo :: "schedule \<Rightarrow> item \<Rightarrow> nat \<Rightarrow> nat \<Rightarrow> nat \<Rightarrow> nat \<Rightarrow> nat \<Rightarrow> ring_world \<Rightarrow> (bool \<times> ring_world) result" where
  "copy_and_echo sched tcmd scratch flag ev i 0 w = Inr (True, w)"
| "copy_and_echo sched tcmd scratch flag ev i (Suc n) w =
     rbind (hw_copy sched tcmd scratch flag (256 * of_nat i) (256 * (of_nat i + 1)) 0x100 w) (\<lambda>w.
     rbind (hw_echo sched tcmd ev (push_bit 32 0x111 + of_nat i) (push_bit 32 0x222 + of_nat i) w) (\<lambda>(ok, w).
     rbind (copy_and_echo sched tcmd scratch flag ev (Suc i) n w) (\<lambda>(ok', w). Inr (ok \<and> ok', w))))"

definition check_scratch :: "nat \<Rightarrow> ring_world \<Rightarrow> bool" where
  "check_scratch scratch w = list_all (\<lambda>i. sint (byte_at (w_bufs w scratch) (i + 2560)) = int i) [0..<10]"

definition pass1 :: "schedule \<Rightarrow> item \<Rightarrow> nat \<Rightarrow> nat \<Rightarrow> nat \<Rightarrow> ring_world \<Rightarrow> (bool \<times> ring_world) result" where
  "pass1 sched tcmd scratch flag ev w =
     rbind (copy_and_echo sched tcmd scratch flag ev 0 10 (fill_scratch scratch w)) (\<lambda>(ok, w).
     Inr (ok \<and> check_scratch scratch w, w))"

text \<open>The second pass: ten copies without waiting in between, then the wait for each of their flags.\<close>

fun copies_nb :: "schedule \<Rightarrow> item \<Rightarrow> nat \<Rightarrow> nat list \<Rightarrow> nat \<Rightarrow> ring_world \<Rightarrow> ring_world result" where
  "copies_nb sched tcmd scratch [] i w = Inr w"
| "copies_nb sched tcmd scratch (fl # fls) i w =
     rbind (hw_copy_nb sched tcmd scratch fl (256 * of_nat i) (256 * (of_nat i + 1)) 0x100 w) (\<lambda>w.
     copies_nb sched tcmd scratch fls (Suc i) w)"

fun wait_flags :: "schedule \<Rightarrow> nat list \<Rightarrow> ring_world \<Rightarrow> ring_world result" where
  "wait_flags sched [] w = Inr w"
| "wait_flags sched (fl # fls) w = rbind (waitforflag sched (\<lambda>w. w_flags w fl) w) (wait_flags sched fls)"

definition pass2 :: "schedule \<Rightarrow> item \<Rightarrow> nat \<Rightarrow> nat list \<Rightarrow> ring_world \<Rightarrow> ring_world result" where
  "pass2 sched tcmd scratch flag w =
     (let w = fill_scratch scratch (w\<lparr>w_bufs := (w_bufs w)(scratch := replicate (scratch_sz div 8) 0)\<rparr>);
          w = w\<lparr>w_flags := fold (\<lambda>fl fs. fs(fl := False)) flag (w_flags w)\<rparr> in
      rbind (copies_nb sched tcmd scratch flag 0 w) (wait_flags sched flag))"

text \<open>The third pass: \<open>n\<close> echoes from number \<open>i\<close> on, and whether all of them were right.\<close>

fun pass3 :: "schedule \<Rightarrow> item \<Rightarrow> nat \<Rightarrow> nat \<Rightarrow> nat \<Rightarrow> ring_world \<Rightarrow> (bool \<times> ring_world) result" where
  "pass3 sched tcmd ev i 0 w = Inr (True, w)"
| "pass3 sched tcmd ev i (Suc n) w =
     rbind (hw_echo sched tcmd ev (push_bit 32 0x333 + of_nat i) (push_bit 32 0x444 + of_nat i) w) (\<lambda>(ok, w).
     rbind (pass3 sched tcmd ev (Suc i) n w) (\<lambda>(ok', w). Inr (ok \<and> ok', w)))"

text \<open>The whole program up to the timing runs.\<close>

definition ring_main :: "schedule \<Rightarrow> item \<Rightarrow> nat \<Rightarrow> nat \<Rightarrow> nat \<Rightarrow> nat \<Rightarrow> nat \<Rightarrow> nat list \<Rightarrow> ring_world \<Rightarrow> (bool \<times> ring_world) result" where
  "ring_main sched tcmd cmdPointer statusPointer scratchPointer cflag ev flag w =
     rbind (ring_setup sched cmdPointer statusPointer w) (\<lambda>w.
     rbind (pass1 sched tcmd scratchPointer cflag ev w) (\<lambda>(ok1, w).
     rbind (pass2 sched tcmd scratchPointer flag w) (\<lambda>w.
     rbind (pass3 sched tcmd ev 0 512 w) (\<lambda>(ok3, w).
     Inr (ok1 \<and> ok3, w)))))"

end
