(* ===== verification/Ring_Inv.thy ===== *)
theory Ring_Inv
  imports Ring_Driver "HOL-Library.Multiset"
begin

text \<open>
  What holds of the rings at any moment: the positions of software and hardware are those of four
  counters per ring, every command that waits is in its slot, every slot without an unread result
  is marked empty, and the tags in use are those of the commands under way.  The invariant is kept
  by every action of the hardware and every step of the software.
\<close>

declare upt_rec_numeral [simp del]

section \<open>Slots\<close>

definition slot :: "nat \<Rightarrow> nat" where "slot i = 64 * (i mod 128)"

lemma slot_less: "slot i < 8192"
  by (simp add: slot_def)

lemma slot_0 [simp]: "slot 0 = 0"
  by (simp add: slot_def)

lemma slot_small: "take_bit offset_bits (slot i) = slot i"
  using slot_less [of i] by (simp add: take_bit_nat_eq_self_iff offset_bits_def)

lemma slot_mod32 [simp]: "slot i mod 4294967296 = slot i"
  using slot_less [of i] by simp

lemma slot_Suc: "slot (Suc i) = (slot i + 64) mod 8192"
proof -
  have "(slot i + 64) mod 8192 = (64 * (i mod 128 + 1)) mod (64 * 128)" by (simp add: slot_def add.commute)
  also have "\<dots> = 64 * ((i mod 128 + 1) mod 128)" by (simp only: mult_mod_right [symmetric])
  also have "\<dots> = slot (Suc i)" by (simp add: slot_def mod_Suc_eq)
  finally show ?thesis by simp
qed

lemma slot_Suc_if: "slot (Suc i) = (if slot i + 64 = 8192 then 0 else slot i + 64)"
  using slot_less [of i] slot_Suc [of i] by (auto simp: slot_def)

lemma slot_step: "(if (slot i + 64) mod 4294967296 = 8192 then 0 else (slot i + 64) mod 4294967296) = slot (Suc i)"
  using slot_less [of i] by (simp add: slot_Suc_if)

lemma slot_step_ge: "(if (slot i + 64) mod 4294967296 \<ge> 8192 then 0 else (slot i + 64) mod 4294967296) = slot (Suc i)"
  using slot_less [of i] slot_Suc_if [of i] by (auto simp: slot_def)

lemma and_8191: "(x :: nat) AND 8191 = x mod 8192"
proof -
  have "x AND 8191 = take_bit 13 x" by (simp add: take_bit_eq_mask mask_eq_exp_minus_1)
  then show ?thesis by (simp add: take_bit_eq_mod)
qed

lemma rb_advance_slot:
  assumes "rb_mask rb = 8191"
  shows "rb_advance (slot i) rb = slot (Suc i)"
proof -
  have "take_bit offset_bits (slot i + 64) = slot i + 64"
    using slot_less [of i] by (simp add: take_bit_nat_eq_self_iff offset_bits_def)
  then show ?thesis using assms by (simp add: rb_advance_def and_8191 slot_Suc)
qed

lemma slot_add128: "slot (i + 128) = slot i"
  by (simp add: slot_def)

lemma slot_inj:
  assumes "slot i = slot j" and "i \<le> j" and "j < i + 128"
  shows "i = j"
proof -
  have "i mod 128 = j mod 128" using assms(1) by (simp add: slot_def)
  then have "(j - i) mod 128 = 0" using assms(2) by (metis mod_eq_dvd_iff_nat dvd_imp_mod_0)
  then show ?thesis using assms(2,3) by simp
qed

lemma slot_quarter: "slot i mod 2048 = 0 \<longleftrightarrow> i mod 32 = 0"
proof -
  have "slot i mod 2048 = (64 * (i mod 128)) mod (64 * 32)" by (simp add: slot_def)
  also have "\<dots> = 64 * ((i mod 128) mod 32)" by (simp only: mult_mod_right [symmetric])
  also have "(i mod 128) mod 32 = i mod 32" by (simp add: mod_mod_cancel)
  finally show ?thesis by simp
qed

lemma mod_128_diff:
  assumes "d \<le> (127 :: nat)"
  shows "(128 + l mod 128 - (l + d) mod 128 - 1) mod 128 = 127 - d"
proof -
  define a where "a = l mod 128"
  have a: "a < 128" by (simp add: a_def)
  have "(l + d) mod 128 = (a + d) mod 128" by (simp add: a_def mod_add_left_eq)
  also have "\<dots> = (if a + d < 128 then a + d else a + d - 128)"
    using a assms by (simp add: mod_if [of "a + d - 128"] le_mod_geq)
  finally have e: "(l + d) mod 128 = (if a + d < 128 then a + d else a + d - 128)" .
  show ?thesis
  proof (cases "a + d < 128")
    case True
    then show ?thesis using e a assms by (simp add: a_def [symmetric])
  next
    case False
    then have "128 + a - (a + d - 128) - 1 = 128 + (127 - d)" using assms a by simp
    moreover have "(l + d) mod 128 = a + d - 128" using False e by (simp only: if_False)
    ultimately have "(128 + a - (l + d) mod 128 - 1) mod 128 = (128 + (127 - d)) mod 128" by (simp only:)
    also have "\<dots> = 127 - d" by simp
    finally show ?thesis by (simp add: a_def)
  qed
qed

lemma slot_space:
  assumes "l \<le> i" and "i \<le> l + 127"
  shows "(8192 + slot l - slot i - 64) mod 8192 = 64 * (127 - (i - l))"
proof -
  have "(8192 + slot l - slot i - 64) mod 8192 = (64 * (128 + l mod 128 - i mod 128 - 1)) mod (64 * 128)"
    by (simp add: slot_def diff_mult_distrib2 add_mult_distrib2)
  also have "\<dots> = 64 * ((128 + l mod 128 - i mod 128 - 1) mod 128)" by (simp only: mult_mod_right [symmetric])
  also have "(128 + l mod 128 - i mod 128 - 1) mod 128 = 127 - (i - l)"
    using mod_128_diff [of "i - l" l] assms by simp
  finally show ?thesis .
qed

lemma ring_space_slots:
  assumes "sr_size s = 8192" and "sr_first s = slot i" and "sr_last s = slot l" and "l \<le> i" and "i \<le> l + 127"
  shows "ring_space s = 64 * (127 - (i - l))"
proof -
  define x where "x = 8192 + slot l - slot i - 64"
  have le: "slot i + 64 \<le> 8192" by (simp add: slot_def)
  have x: "x < 2 ^ 64" using slot_less [of l] by (simp add: x_def)
  have "8192 + slot l + 2 ^ 64 - slot i - 64 = x + 2 ^ 64" using le by (simp add: x_def)
  then have "(8192 + slot l + 2 ^ 64 - slot i - 64) mod 2 ^ 64 = x" using x by simp
  moreover have "x mod 8192 = 64 * (127 - (i - l))" unfolding x_def by (rule slot_space [OF assms(4,5)])
  moreover have "64 * (127 - (i - l)) mod 2 ^ 32 = 64 * (127 - (i - l))" by (rule mod_less) simp
  ultimately show ?thesis using assms(1-3) by (simp add: ring_space_def)
qed

section \<open>Items\<close>

lemma slot_word: "slot i div 8 = 8 * (i mod 128)"
  by (simp add: slot_def)

lemma slot_word_le: "slot i div 8 + 8 \<le> 1024"
  by (simp add: slot_word)

lemma length_put_item [simp]: "length b = 1024 \<Longrightarrow> length it = 8 \<Longrightarrow> length (put_item b (slot i) it) = 1024"
  using slot_word_le [of i] by (simp add: put_item_def)

lemma length_item_at [simp]: "length b = 1024 \<Longrightarrow> length (item_at b (slot i)) = 8"
  using slot_word_le [of i] by (simp add: item_at_def)

lemma item_at_put_same: "length b = 1024 \<Longrightarrow> length it = 8 \<Longrightarrow> item_at (put_item b (slot i) it) (slot i) = it"
  using slot_word_le [of i] slice_splice [of "slot i div 8" it b] by (simp add: item_at_def put_item_def)

lemma slot_neq_word:
  assumes "slot i \<noteq> slot j"
  shows "slot j div 8 + 8 \<le> slot i div 8 \<or> slot i div 8 + 8 \<le> slot j div 8"
  using assms by (auto simp: slot_def)

lemma item_at_put_other:
  assumes "length b = 1024" and "length it = 8" and "slot i \<noteq> slot j"
  shows "item_at (put_item b (slot i) it) (slot j) = item_at b (slot j)"
proof -
  have "splice b (slot i div 8) it ! k = b ! k" if "slot j div 8 \<le> k" "k < slot j div 8 + 8" for k
    using that slot_neq_word [OF assms(3)] slot_word_le [of i] slot_word_le [of j] assms(1,2) by (auto simp: nth_splice)
  then show ?thesis
    unfolding item_at_def put_item_def
    using slot_word_le [of i] slot_word_le [of j] assms(1,2) by (intro slice_cong) simp_all
qed

lemma item_at_mark_same: "length b = 1024 \<Longrightarrow> item_at (b[slot i div 8 + 7 := 0]) (slot i) = (item_at b (slot i))[7 := 0]"
  using slot_word_le [of i] by (auto simp: item_at_def slice_def drop_update_swap take_update_swap)

lemma item_at_mark_other:
  assumes "slot i \<noteq> slot j"
  shows "item_at (b[slot i div 8 + 7 := v]) (slot j) = item_at b (slot j)"
  using slot_neq_word [OF assms] unfolding item_at_def by (intro slice_update_other) auto

lemma item_at_nth7: "length b = 1024 \<Longrightarrow> item_at b (slot i) ! 7 = b ! (slot i div 8 + 7)"
  using slot_word_le [of i] by (simp add: item_at_def slice_def add.commute)

section \<open>Positions under way\<close>

text \<open>
  A list of positions that take a register from counter \<open>lo\<close> to counter \<open>hi\<close>, never backwards.
\<close>

fun chain :: "nat \<Rightarrow> nat list \<Rightarrow> nat \<Rightarrow> bool" where
  "chain lo [] hi \<longleftrightarrow> lo = hi"
| "chain lo (v # vs) hi \<longleftrightarrow> (\<exists>x. lo \<le> x \<and> v = slot x \<and> chain x vs hi)"

lemma chain_le: "chain lo vs hi \<Longrightarrow> lo \<le> hi"
  by (induction vs arbitrary: lo) (auto intro: order_trans)

lemma chain_snoc: "chain lo vs hi \<Longrightarrow> hi \<le> x \<Longrightarrow> chain lo (vs @ [slot x]) x"
  by (induction vs arbitrary: lo) auto

definition firsts :: "ring_req list \<Rightarrow> nat list" where
  "firsts qs = List.map_filter (\<lambda>q. case q of SetCmdFirst v \<Rightarrow> Some v | _ \<Rightarrow> None) qs"

definition lasts :: "ring_req list \<Rightarrow> nat list" where
  "lasts qs = List.map_filter (\<lambda>q. case q of SetStatusLast v \<Rightarrow> Some v | _ \<Rightarrow> None) qs"

definition acks :: "ring_ind list \<Rightarrow> nat list" where
  "acks is = List.map_filter (\<lambda>i. case i of GetResult c r v \<Rightarrow> if c = 0 \<and> r = REG_LASTACK then Some v else None | _ \<Rightarrow> None) is"

lemma map_filter_append: "List.map_filter f (xs @ ys) = List.map_filter f xs @ List.map_filter f ys"
  by (induction xs) (auto split: option.splits)

lemma firsts_simps [simp]:
  "firsts [] = []" "firsts (xs @ ys) = firsts xs @ firsts ys"
  "firsts (SetCmdFirst v # xs) = v # firsts xs" "firsts (SetStatusLast v # xs) = firsts xs" "firsts (GetReg c r # xs) = firsts xs"
  "firsts (HwEnable en # xs) = firsts xs"
  by (simp_all add: firsts_def map_filter_append)

lemma lasts_simps [simp]:
  "lasts [] = []" "lasts (xs @ ys) = lasts xs @ lasts ys"
  "lasts (SetCmdFirst v # xs) = lasts xs" "lasts (SetStatusLast v # xs) = v # lasts xs" "lasts (GetReg c r # xs) = lasts xs"
  "lasts (HwEnable en # xs) = lasts xs"
  by (simp_all add: lasts_def map_filter_append)

lemma acks_simps [simp]:
  "acks [] = []" "acks (xs @ ys) = acks xs @ acks ys"
  "acks (GetResult 0 REG_LASTACK v # xs) = v # acks xs"
  "acks (GetResult c r v # xs) = (if c = 0 \<and> r = REG_LASTACK then v # acks xs else acks xs)"
  "acks (SetResult c r v # xs) = acks xs"
  by (simp_all add: acks_def map_filter_append)

text \<open>The requests of a program that has set up its rings.\<close>

definition running_req :: "ring_req \<Rightarrow> bool" where
  "running_req q =
     (case q of SetCmdFirst _ \<Rightarrow> True | SetStatusLast _ \<Rightarrow> True | GetReg c r \<Rightarrow> c = 0 \<and> r = REG_LASTACK
      | HwEnable en \<Rightarrow> en = 1 | _ \<Rightarrow> False)"

section \<open>The invariant\<close>

definition tagof :: "item \<Rightarrow> nat" where
  "tagof it = unat (it ! 7 AND 0xffff)"

definition tagged :: "item \<Rightarrow> bool" where
  "tagged it \<longleftrightarrow> length it = 8 \<and> 1 \<le> tagof it \<and> tagof it < 1024 \<and> it ! 7 = of_nat (tagof it)"

definition good_command :: "nat \<Rightarrow> nat \<Rightarrow> item \<Rightarrow> bool" where
  "good_command cb sb it \<longleftrightarrow> cmdifc it \<noteq> NopEngine \<and>
     (cmdifc it = CopyEngine \<longrightarrow> copy_count it mod 8 = 0 \<and> unat (take_bit 32 (it ! 3)) \<notin> {cb, sb})"

text \<open>The counters: sent, given to an engine, fetched, reported and handled.\<close>

definition nS :: "ring_world \<Rightarrow> nat" where "nS w = length (w_sent w)"
definition nD :: "ring_world \<Rightarrow> nat" where "nD w = length (rh_dispatched (w_hw w))"
definition nF :: "ring_world \<Rightarrow> nat" where "nF w = nD w + length (rh_reads (w_hw w))"
definition nP :: "ring_world \<Rightarrow> nat" where "nP w = length (rh_pushed (w_hw w))"
definition nH :: "ring_world \<Rightarrow> nat" where "nH w = length (w_handled w)"

lemmas counters = nS_def nD_def nF_def nP_def nH_def

definition waiting :: "ring_world \<Rightarrow> item list" where "waiting w = drop (nD w) (w_sent w)"
definition unread :: "ring_world \<Rightarrow> item list" where "unread w = drop (nH w) (rh_pushed (w_hw w))"

definition flying :: "ring_world \<Rightarrow> item list" where
  "flying w = waiting w @ rh_copy (w_hw w) @ rh_echo (w_hw w) @ unread w"

definition cmd_soft :: "nat \<Rightarrow> ring_world \<Rightarrow> bool" where
  "cmd_soft cb w \<longleftrightarrow> sr_size (w_cmd_ring w) = 8192 \<and> sr_ringid (w_cmd_ring w) = 0 \<and> sr_base (w_cmd_ring w) = cb \<and>
     sr_first (w_cmd_ring w) = slot (nS w)"

definition cmd_hard :: "nat \<Rightarrow> ring_world \<Rightarrow> bool" where
  "cmd_hard cb w \<longleftrightarrow> rb_mem (rh_cmd (w_hw w)) = cb \<and> rb_mask (rh_cmd (w_hw w)) = 8191 \<and>
     rb_lastfetch (rh_cmd (w_hw w)) = slot (nF w) \<and> rb_lastack (rh_cmd (w_hw w)) = slot (nD w) \<and>
     rh_reads (w_hw w) = map slot [nD w..<nF w] \<and> rh_dispatched (w_hw w) = take (nD w) (w_sent w)"

definition cmd_started :: "ring_world \<Rightarrow> nat \<Rightarrow> nat \<Rightarrow> bool" where
  "cmd_started w t t' \<longleftrightarrow> rb_first (rh_cmd (w_hw w)) = slot t \<and> nF w \<le> t \<and> chain t (firsts (rh_requests (w_hw w))) t' \<and> t' \<le> nS w"

definition cmd_acked :: "ring_world \<Rightarrow> nat \<Rightarrow> nat \<Rightarrow> nat \<Rightarrow> bool" where
  "cmd_acked w l l' c \<longleftrightarrow> sr_last (w_cmd_ring w) = slot l \<and> chain l (acks (rh_inds (w_hw w))) l' \<and> l' \<le> nD w \<and>
     sr_cached_space (w_cmd_ring w) = 64 * c \<and> c + (nS w - l) \<le> 127"

definition cmd_mem :: "nat \<Rightarrow> ring_world \<Rightarrow> bool" where
  "cmd_mem cb w \<longleftrightarrow> length (w_bufs w cb) = 1024 \<and>
     (\<forall>i. nD w \<le> i \<longrightarrow> i < nS w \<longrightarrow> item_at (w_bufs w cb) (slot i) = w_sent w ! i)"

definition cmd_inv :: "nat \<Rightarrow> ring_world \<Rightarrow> bool" where
  "cmd_inv cb w \<longleftrightarrow> cmd_soft cb w \<and> cmd_hard cb w \<and> (\<exists>t t'. cmd_started w t t') \<and> (\<exists>l l' c. cmd_acked w l l' c) \<and> cmd_mem cb w"

definition status_soft :: "nat \<Rightarrow> ring_world \<Rightarrow> bool" where
  "status_soft sb w \<longleftrightarrow> sr_size (w_status_ring w) = 8192 \<and> sr_ringid (w_status_ring w) = 1 \<and> sr_base (w_status_ring w) = sb \<and>
     sr_last (w_status_ring w) = slot (nH w) \<and> nH w \<le> nP w \<and> w_handled w = take (nH w) (rh_pushed (w_hw w))"

definition status_hard :: "nat \<Rightarrow> ring_world \<Rightarrow> nat \<Rightarrow> bool" where
  "status_hard sb w k \<longleftrightarrow> rb_mem (rh_status (w_hw w)) = sb \<and> rb_mask (rh_status (w_hw w)) = 8191 \<and>
     rb_first (rh_status (w_hw w)) = slot (nP w) \<and> rb_lastack (rh_status (w_hw w)) = slot k \<and> nP w \<le> k + 127 \<and>
     chain k (lasts (rh_requests (w_hw w))) (32 * (nH w div 32))"

definition status_mem :: "nat \<Rightarrow> ring_world \<Rightarrow> bool" where
  "status_mem sb w \<longleftrightarrow> length (w_bufs w sb) = 1024 \<and>
     (\<forall>i. nH w \<le> i \<longrightarrow> i < nP w \<longrightarrow> item_at (w_bufs w sb) (slot i) = rh_pushed (w_hw w) ! i) \<and>
     (\<forall>i. nP w \<le> i \<longrightarrow> i < nH w + 128 \<longrightarrow> item_at (w_bufs w sb) (slot i) ! 7 = 0)"

definition status_inv :: "nat \<Rightarrow> ring_world \<Rightarrow> bool" where
  "status_inv sb w \<longleftrightarrow> status_soft sb w \<and> (\<exists>k. status_hard sb w k) \<and> status_mem sb w"

definition pool_inv :: "ring_world \<Rightarrow> bool" where
  "pool_inv w \<longleftrightarrow> length (w_completion w) = 1024 \<and>
     mset (w_freelist w) + mset (map tagof (flying w)) = mset [1..<1024] \<and>
     (\<forall>t. 1 \<le> t \<longrightarrow> t < 1024 \<longrightarrow> rc_tag (w_completion w ! t) = t \<and>
        (rc_in_use (w_completion w ! t) \<longleftrightarrow> t \<in> tagof ` set (flying w)) \<and>
        (rc_finish (w_completion w ! t) = Some Echo_finish \<longrightarrow> rc_arg (w_completion w ! t) \<noteq> 0))"

definition shape_inv :: "nat \<Rightarrow> nat \<Rightarrow> ring_world \<Rightarrow> bool" where
  "shape_inv cb sb w \<longleftrightarrow> cb \<noteq> sb \<and> w_ring_init_done w \<and>
     list_all running_req (rh_requests (w_hw w)) \<and> (rh_enabled (w_hw w) \<or> HwEnable 1 \<in> set (rh_requests (w_hw w))) \<and>
     length (rh_copy (w_hw w)) \<le> 5 \<and> length (rh_echo (w_hw w)) \<le> 2 \<and>
     list_all tagged (flying w) \<and> list_all (good_command cb sb) (waiting w) \<and>
     list_all (\<lambda>it. cmdifc it = CopyEngine \<and> good_command cb sb it) (rh_copy (w_hw w)) \<and>
     list_all (\<lambda>it. cmdifc it = EchoEngine) (rh_echo (w_hw w))"

definition ring_inv :: "nat \<Rightarrow> nat \<Rightarrow> ring_world \<Rightarrow> bool" where
  "ring_inv cb sb w \<longleftrightarrow> cmd_inv cb w \<and> status_inv sb w \<and> pool_inv w \<and> shape_inv cb sb w"

lemmas cmd_defs = cmd_inv_def cmd_soft_def cmd_hard_def cmd_started_def cmd_acked_def cmd_mem_def
lemmas status_defs = status_inv_def status_soft_def status_hard_def status_mem_def
lemmas flying_defs = flying_def waiting_def unread_def

lemma ring_invD:
  assumes "ring_inv cb sb w"
  shows "cmd_inv cb w" "status_inv sb w" "pool_inv w" "shape_inv cb sb w"
  using assms by (simp_all add: ring_inv_def)

section \<open>The hardware\<close>

definition with_hw :: "ring_world \<Rightarrow> ring_hw \<times> buffers \<Rightarrow> ring_world" where
  "with_hw w hb = w\<lparr>w_hw := fst hb, w_bufs := snd hb\<rparr>"

lemma with_hw_simps [simp]:
  "w_hw (with_hw w hb) = fst hb" "w_bufs (with_hw w hb) = snd hb" "w_cmd_ring (with_hw w hb) = w_cmd_ring w"
  "w_status_ring (with_hw w hb) = w_status_ring w" "w_sent (with_hw w hb) = w_sent w" "w_handled (with_hw w hb) = w_handled w"
  "w_completion (with_hw w hb) = w_completion w" "w_freelist (with_hw w hb) = w_freelist w" "w_clock (with_hw w hb) = w_clock w"
  "w_ring_init_done (with_hw w hb) = w_ring_init_done w" "w_flags (with_hw w hb) = w_flags w" "w_events (with_hw w hb) = w_events w"
  "w_totalCompletions (with_hw w hb) = w_totalCompletions w" "w_setresult_flag (with_hw w hb) = w_setresult_flag w"
  "w_getresult_flag (with_hw w hb) = w_getresult_flag w"
  by (simp_all add: with_hw_def)

lemma ring_request_same:
  assumes "running_req q"
  shows "rh_reads (ring_request q h) = rh_reads h" "rh_copy (ring_request q h) = rh_copy h" "rh_echo (ring_request q h) = rh_echo h"
    "rh_dispatched (ring_request q h) = rh_dispatched h" "rh_pushed (ring_request q h) = rh_pushed h"
    "rh_requests (ring_request q h) = rh_requests h"
    "rb_mem (rh_cmd (ring_request q h)) = rb_mem (rh_cmd h)" "rb_mask (rh_cmd (ring_request q h)) = rb_mask (rh_cmd h)"
    "rb_lastfetch (rh_cmd (ring_request q h)) = rb_lastfetch (rh_cmd h)" "rb_lastack (rh_cmd (ring_request q h)) = rb_lastack (rh_cmd h)"
    "rb_mem (rh_status (ring_request q h)) = rb_mem (rh_status h)" "rb_mask (rh_status (ring_request q h)) = rb_mask (rh_status h)"
    "rb_first (rh_status (ring_request q h)) = rb_first (rh_status h)"
  using assms by (cases q; simp add: ring_request_def running_req_def rb_setFirst_def rb_setLast_def)+

lemma inv_DoRequest:
  assumes "ring_inv cb sb w" and q: "rh_requests (w_hw w) = q # qs"
  shows "ring_inv cb sb (with_hw w (ring_request q ((w_hw w)\<lparr>rh_requests := qs\<rparr>), w_bufs w))" (is "ring_inv cb sb ?w")
proof -
  note inv = ring_invD [OF assms(1)]
  have rq: "running_req q" using inv(4) q by (simp add: shape_inv_def)
  note same = ring_request_same [OF rq]
  have cnt [simp]: "nS ?w = nS w" "nD ?w = nD w" "nF ?w = nF w" "nP ?w = nP w" "nH ?w = nH w" "waiting ?w = waiting w" "unread ?w = unread w"
    "flying ?w = flying w"
    by (simp_all add: counters flying_defs same)
  have "cmd_soft cb ?w" "cmd_hard cb ?w" "cmd_mem cb ?w"
    using inv(1) by (simp_all add: cmd_inv_def cmd_soft_def cmd_hard_def cmd_mem_def same)
  moreover have "\<exists>t t'. cmd_started ?w t t'"
  proof -
    obtain t t' where t: "cmd_started w t t'" using inv(1) by (auto simp: cmd_inv_def)
    show ?thesis unfolding cmd_started_def cnt
      using t rq q by (cases q)
        (auto simp: cmd_started_def running_req_def ring_request_def rb_setFirst_def rb_setLast_def slot_small intro: order_trans)
  qed
  moreover have "\<exists>l l' c. cmd_acked ?w l l' c"
  proof -
    obtain l l' c where a: "cmd_acked w l l' c" using inv(1) by (auto simp: cmd_inv_def)
    have h: "rb_lastack (rh_cmd (w_hw w)) = slot (nD w)" using inv(1) by (simp add: cmd_inv_def cmd_hard_def)
    show ?thesis unfolding cmd_acked_def cnt
    proof (cases q)
      case (GetReg c' r)
      have "chain l (acks (rh_inds (w_hw w) @ [GetResult 0 REG_LASTACK (slot (nD w))])) (nD w)"
        using chain_snoc [of l "acks (rh_inds (w_hw w))" l' "nD w"] a by (simp add: cmd_acked_def)
      then show "\<exists>l l' c. sr_last (w_cmd_ring ?w) = slot l \<and> chain l (acks (rh_inds (w_hw ?w))) l' \<and> l' \<le> nD w \<and>
          sr_cached_space (w_cmd_ring ?w) = 64 * c \<and> c + (nS w - l) \<le> 127"
        using a rq by (auto simp: cmd_acked_def GetReg running_req_def ring_request_def rb_get_def REG_LASTACK_def h)
    qed (use a rq in \<open>fastforce simp: cmd_acked_def running_req_def ring_request_def\<close>)+
  qed
  moreover have "status_soft sb ?w" "status_mem sb ?w"
    using inv(2) by (simp_all add: status_inv_def status_soft_def status_mem_def same)
  moreover have "\<exists>k. status_hard sb ?w k"
  proof -
    obtain k where k: "status_hard sb w k" using inv(2) by (auto simp: status_inv_def)
    have "\<exists>k. rb_lastack (rh_status (ring_request q ((w_hw w)\<lparr>rh_requests := qs\<rparr>))) = slot k \<and> nP w \<le> k + 127 \<and>
        chain k (lasts qs) (32 * (nH w div 32))"
    proof (cases q)
      case (SetStatusLast v)
      then obtain x where "k \<le> x" "v = slot x" "chain x (lasts qs) (32 * (nH w div 32))"
        using k q by (auto simp: status_hard_def)
      then show ?thesis
        using k by (intro exI [of _ x]) (simp add: status_hard_def SetStatusLast ring_request_def rb_setLast_def slot_small)
    qed (use k rq q in \<open>fastforce simp: status_hard_def running_req_def ring_request_def rb_setFirst_def rb_setLast_def\<close>)+
    then show ?thesis using k by (simp add: status_hard_def same)
  qed
  moreover have "pool_inv ?w" using inv(3) by (simp add: pool_inv_def)
  moreover have "shape_inv cb sb ?w"
    unfolding shape_inv_def cnt with_hw_simps fst_conv same
    using inv(4) rq q by (cases q) (auto simp: shape_inv_def running_req_def ring_request_def)
  ultimately show ?thesis by (simp add: ring_inv_def cmd_inv_def status_inv_def)
qed

lemma inv_DoFetch:
  assumes "ring_inv cb sb w" and "hw_enabled DoFetch (w_hw w, w_bufs w)"
  shows "ring_inv cb sb (with_hw w (hw_effect DoFetch (w_hw w, w_bufs w)))" (is "ring_inv cb sb ?w")
proof -
  note inv = ring_invD [OF assms(1)]
  define h where "h = fst (hw_effect DoFetch (w_hw w, w_bufs w))"
  have w: "?w = with_hw w (h, w_bufs w)" by (simp add: h_def hw_effect_def)
  let ?v = "with_hw w (h, w_bufs w)"
  have h: "rh_cmd h = rb_popfetch (rh_cmd (w_hw w))" "rh_status h = rh_status (w_hw w)" "rh_enabled h = rh_enabled (w_hw w)"
    "rh_requests h = rh_requests (w_hw w)" "rh_inds h = rh_inds (w_hw w)"
    "rh_reads h = rh_reads (w_hw w) @ [rb_lastfetch (rh_cmd (w_hw w))]"
    "rh_dispatched h = rh_dispatched (w_hw w)" "rh_pushed h = rh_pushed (w_hw w)" "rh_copy h = rh_copy (w_hw w)" "rh_echo h = rh_echo (w_hw w)"
    by (simp_all add: h_def hw_effect_def)
  have cnt: "nS ?v = nS w" "nD ?v = nD w" "nF ?v = Suc (nF w)" "nP ?v = nP w" "nH ?v = nH w" "waiting ?v = waiting w"
    "unread ?v = unread w" "flying ?v = flying w"
    by (simp_all add: counters flying_defs h)
  have hard: "cmd_hard cb w" using inv(1) by (simp add: cmd_inv_def)
  obtain t t' where t: "cmd_started w t t'" using inv(1) by (auto simp: cmd_inv_def)
  have "nF w < t" using t hard assms(2) by (auto simp: cmd_started_def cmd_hard_def rb_notEmpty_def le_less hw_enabled_def)
  then have "cmd_started ?v t t'" unfolding cmd_started_def cnt using t by (simp add: cmd_started_def h rb_popfetch_def)
  moreover have "cmd_hard cb ?v" unfolding cmd_hard_def cnt
    using hard by (simp add: cmd_hard_def h rb_popfetch_def rb_advance_slot) (simp add: nF_def)
  ultimately have "cmd_inv cb ?v" using inv(1) by (auto simp: cmd_inv_def cmd_soft_def cmd_acked_def cmd_mem_def cnt h)
  moreover have "status_inv sb ?v" unfolding status_defs cnt using inv(2) by (simp add: status_defs h)
  moreover have "pool_inv ?v" using inv(3) by (simp add: pool_inv_def cnt)
  moreover have "shape_inv cb sb ?v" unfolding shape_inv_def cnt using inv(4) by (simp add: shape_inv_def h)
  ultimately show ?thesis unfolding w by (simp add: ring_inv_def)
qed

lemma next_command_sent:
  assumes "cmd_inv cb w" and "rh_reads (w_hw w) \<noteq> []"
  shows "nD w < nF w" "nF w \<le> nS w" "hd (rh_reads (w_hw w)) = slot (nD w)" "next_command (w_hw w, w_bufs w) = w_sent w ! nD w"
    "waiting w = w_sent w ! nD w # drop (Suc (nD w)) (w_sent w)"
proof -
  show lt: "nD w < nF w" using assms(2) by (simp add: nF_def)
  obtain t t' where t: "cmd_started w t t'" using assms(1) by (auto simp: cmd_inv_def)
  then show le: "nF w \<le> nS w" using chain_le by (fastforce simp: cmd_started_def)
  have r: "rh_reads (w_hw w) = map slot [nD w..<nF w]" using assms(1) by (simp add: cmd_inv_def cmd_hard_def)
  then show hd: "hd (rh_reads (w_hw w)) = slot (nD w)" using lt by (simp add: upt_conv_Cons)
  have m: "cmd_mem cb w" "rb_mem (rh_cmd (w_hw w)) = cb" using assms(1) by (simp_all add: cmd_inv_def cmd_hard_def)
  then show "next_command (w_hw w, w_bufs w) = w_sent w ! nD w"
    using hd lt le by (simp add: next_command_def cmd_mem_def)
  show "waiting w = w_sent w ! nD w # drop (Suc (nD w)) (w_sent w)"
    using lt le by (simp add: waiting_def Cons_nth_drop_Suc nS_def)
qed

lemma pool_inv_cong:
  assumes "pool_inv w" and "w_completion w' = w_completion w" and "w_freelist w' = w_freelist w"
    and "mset (map tagof (flying w')) = mset (map tagof (flying w))"
  shows "pool_inv w'"
proof -
  have "tagof ` set (flying w') = tagof ` set (flying w)" using mset_eq_setD [OF assms(4)] by simp
  then show ?thesis using assms by (simp add: pool_inv_def)
qed

lemma inv_DoDispatch:
  assumes "ring_inv cb sb w" and "hw_enabled DoDispatch (w_hw w, w_bufs w)"
  shows "ring_inv cb sb (with_hw w (hw_effect DoDispatch (w_hw w, w_bufs w)))" (is "ring_inv cb sb ?w")
proof -
  note inv = ring_invD [OF assms(1)]
  have ne: "rh_reads (w_hw w) \<noteq> []" and room: "engine_room (cmdifc (next_command (w_hw w, w_bufs w))) (w_hw w)"
    using assms(2) by (simp_all add: hw_enabled_def)
  note nc = next_command_sent [OF inv(1) ne]
  define it where "it = w_sent w ! nD w"
  have good: "good_command cb sb it" "tagged it" using inv(4) nc(5) by (simp_all add: shape_inv_def flying_def it_def)
  define h where "h = fst (hw_effect DoDispatch (w_hw w, w_bufs w))"
  have w: "?w = with_hw w (h, w_bufs w)" by (simp add: h_def hw_effect_def Let_def)
  let ?v = "with_hw w (h, w_bufs w)"
  have h: "rh_cmd h = rb_popack (rh_cmd (w_hw w))" "rh_status h = rh_status (w_hw w)" "rh_enabled h = rh_enabled (w_hw w)"
    "rh_requests h = rh_requests (w_hw w)" "rh_inds h = rh_inds (w_hw w)" "rh_reads h = tl (rh_reads (w_hw w))"
    "rh_dispatched h = rh_dispatched (w_hw w) @ [it]" "rh_pushed h = rh_pushed (w_hw w)"
    "rh_copy h = rh_copy (w_hw w) @ (if cmdifc it = CopyEngine then [it] else [])"
    "rh_echo h = rh_echo (w_hw w) @ (if cmdifc it = EchoEngine then [it] else [])"
    by (auto simp: h_def hw_effect_def Let_def nc(4) it_def [symmetric] split: engine.splits)
  have cnt [simp]: "nS ?v = nS w" "nD ?v = Suc (nD w)" "nF ?v = nF w" "nP ?v = nP w" "nH ?v = nH w"
    "waiting ?v = drop (Suc (nD w)) (w_sent w)" "unread ?v = unread w"
    using ne by (simp_all add: counters flying_defs h)
  have hard: "cmd_hard cb w" using inv(1) by (simp add: cmd_inv_def)
  have "cmd_hard cb ?v" unfolding cmd_hard_def cnt
    using hard nc(1,2) by (simp add: cmd_hard_def h rb_popack_def rb_advance_slot it_def take_Suc_conv_app_nth nS_def upt_conv_Cons)
  moreover have "cmd_soft cb ?v" using inv(1) by (simp add: cmd_inv_def cmd_soft_def)
  moreover have "\<exists>t t'. cmd_started ?v t t'" unfolding cmd_started_def cnt
    using inv(1) by (simp add: cmd_inv_def cmd_started_def h rb_popack_def)
  moreover have "\<exists>l l' c. cmd_acked ?v l l' c" unfolding cmd_acked_def cnt
    using inv(1) le_SucI by (fastforce simp: cmd_inv_def cmd_acked_def h)
  moreover have "cmd_mem cb ?v" unfolding cmd_mem_def cnt using inv(1) by (simp add: cmd_inv_def cmd_mem_def)
  moreover have "status_inv sb ?v" unfolding status_defs cnt using inv(2) by (simp add: status_defs h)
  moreover have fly: "mset (flying ?v) = mset (flying w)"
    using good(1) nc(5) by (cases "cmdifc it") (auto simp: flying_def h it_def good_command_def counters flying_defs)
  then have "pool_inv ?v" by (intro pool_inv_cong [OF inv(3)]) simp_all
  moreover have "set (flying ?v) = set (flying w)" using fly by (rule mset_eq_setD)
  then have "shape_inv cb sb ?v"
    using inv(4) good nc(4,5) room
    by (auto simp: shape_inv_def list_all_iff h it_def engine_room_def split: engine.splits)
  ultimately show ?thesis unfolding w by (simp add: ring_inv_def cmd_inv_def)
qed

lemma inv_write_status:
  assumes "ring_inv cb sb w" and "rb_notFull (rh_status (w_hw w))"
    and q: "rh_copy (w_hw w) @ rh_echo (w_hw w) = xs @ it # ys" "mset (cs @ es) = mset (xs @ ys)"
      "set cs \<subseteq> set (rh_copy (w_hw w))" "set es \<subseteq> set (rh_echo (w_hw w))"
      "length cs \<le> length (rh_copy (w_hw w))" "length es \<le> length (rh_echo (w_hw w))"
    and st: "tagged st" "tagof st = tagof it"
    and b: "b cb = w_bufs w cb" "b sb = w_bufs w sb"
  shows "ring_inv cb sb (with_hw w (write_status st ((w_hw w)\<lparr>rh_copy := cs, rh_echo := es\<rparr>, b)))"
proof -
  note inv = ring_invD [OF assms(1)]
  obtain k where k: "status_hard sb w k" using inv(2) by (auto simp: status_inv_def)
  have soft: "status_soft sb w" and mem: "status_mem sb w" using inv(2) by (simp_all add: status_inv_def)
  have hp: "nH w \<le> nP w" "32 * (nH w div 32) \<le> nH w" using soft by (simp_all add: status_soft_def)
  have kh: "k \<le> nH w" using k hp(2) chain_le [of k] by (fastforce simp: status_hard_def)
  have "slot (Suc (nP w)) \<noteq> slot k" using assms(2) k by (simp add: rb_notFull_def status_hard_def rb_advance_slot)
  then have "Suc (nP w) \<noteq> k + 128" by (metis slot_add128)
  then have full: "Suc (nP w) \<le> k + 127" using k by (simp add: status_hard_def)
  define h where "h = fst (write_status st ((w_hw w)\<lparr>rh_copy := cs, rh_echo := es\<rparr>, b))"
  define b' where "b' = b(sb := put_item (w_bufs w sb) (slot (nP w)) st)"
  have w: "with_hw w (write_status st ((w_hw w)\<lparr>rh_copy := cs, rh_echo := es\<rparr>, b)) = with_hw w (h, b')"
    using k b by (simp add: h_def b'_def write_status_def status_hard_def)
  have h: "rh_cmd h = rh_cmd (w_hw w)" "rh_status h = rb_push (rh_status (w_hw w))" "rh_enabled h = rh_enabled (w_hw w)"
    "rh_requests h = rh_requests (w_hw w)" "rh_inds h = rh_inds (w_hw w)" "rh_reads h = rh_reads (w_hw w)"
    "rh_dispatched h = rh_dispatched (w_hw w)" "rh_pushed h = rh_pushed (w_hw w) @ [st]" "rh_copy h = cs" "rh_echo h = es"
    by (simp_all add: h_def write_status_def)
  let ?v = "with_hw w (h, b')"
  have cnt: "nS ?v = nS w" "nD ?v = nD w" "nF ?v = nF w" "nP ?v = Suc (nP w)" "nH ?v = nH w" "waiting ?v = waiting w"
    "unread ?v = unread w @ [st]"
    using hp by (simp_all add: counters flying_defs h)
  have cs: "cb \<noteq> sb" using inv(4) by (simp add: shape_inv_def)
  have "b' cb = w_bufs w cb" using cs b by (simp add: b'_def)
  then have "cmd_inv cb ?v" using inv(1) by (simp add: cmd_defs cnt h)
  moreover have "status_soft sb ?v" using soft cnt hp by (simp add: status_soft_def h nP_def)
  moreover have "status_hard sb ?v k" using k full by (simp add: status_hard_def cnt h rb_push_def rb_advance_slot)
  moreover have "status_mem sb ?v"
  proof -
    have len: "length (w_bufs w sb) = 1024" "length st = 8" using mem st(1) by (simp_all add: status_mem_def tagged_def)
    have other: "item_at (b' sb) (slot i) = item_at (w_bufs w sb) (slot i)" if "slot (nP w) \<noteq> slot i" for i
      using item_at_put_other [OF len that] by (simp add: b'_def)
    have same: "item_at (b' sb) (slot (nP w)) = st" using item_at_put_same [OF len] by (simp add: b'_def)
    have n1: "slot (nP w) \<noteq> slot i" if "nH w \<le> i" "i < nP w" for i
      using slot_inj [of i "nP w"] that full kh by fastforce
    have n2: "slot (nP w) \<noteq> slot i" if "Suc (nP w) \<le> i" "i < nH w + 128" for i
      using slot_inj [of "nP w" i] that hp by fastforce
    have "item_at (b' sb) (slot i) = rh_pushed h ! i" if "nH w \<le> i" "i < Suc (nP w)" for i
      using that mem same other n1 by (cases "i = nP w") (auto simp: status_mem_def h nth_append nP_def)
    moreover have "item_at (b' sb) (slot i) ! 7 = 0" if "Suc (nP w) \<le> i" "i < nH w + 128" for i
      using that mem other [OF n2 [OF that]] by (simp add: status_mem_def)
    moreover have "length (b' sb) = 1024" using len by (simp add: b'_def)
    ultimately show ?thesis by (simp add: status_mem_def cnt h)
  qed
  moreover have fly: "mset (map tagof (flying ?v)) = mset (map tagof (flying w))"
  proof -
    have "mset (flying ?v) = mset (waiting w) + mset (xs @ ys) + mset (unread w) + {#st#}"
      using q(2) by (simp add: flying_def cnt h)
    moreover have "mset (flying w) = mset (waiting w) + mset (xs @ it # ys) + mset (unread w)"
      unfolding q(1) [symmetric] by (simp add: flying_def)
    ultimately have "image_mset tagof (mset (flying ?v)) = image_mset tagof (mset (flying w))" using st(2) by simp
    then show ?thesis by simp
  qed
  then have "pool_inv ?v" by (intro pool_inv_cong [OF inv(3)]) simp_all
  moreover have "shape_inv cb sb ?v"
    using inv(4) q(3-6) st(1) by (auto simp: shape_inv_def cnt h list_all_iff flying_def)
  ultimately show ?thesis unfolding w by (auto simp: ring_inv_def status_inv_def)
qed

lemma copy_words_other: "x \<noteq> wp \<Longrightarrow> copy_words rp ra wp wa n b x = b x"
  by (induction n arbitrary: ra wa b) simp_all

lemma copy_status_tagged:
  assumes "tagged it"
  shows "tagged (copy_status it)" "tagof (copy_status it) = tagof it"
proof -
  define t where "t = tagof it"
  have t: "t < 1024" "1 \<le> t" "it ! 7 = of_nat t" using assms by (simp_all add: tagged_def t_def)
  have "take_bit 32 (of_nat t :: u64) = of_nat t"
    using t(1) by (simp add: take_bit_of_nat take_bit_nat_eq_self)
  then have e: "copy_status it ! 7 = it ! 7" using t(3) by (simp add: copy_status_def)
  then show f: "tagof (copy_status it) = tagof it" by (simp add: tagof_def)
  show "tagged (copy_status it)" using assms e f by (simp add: tagged_def) (simp add: copy_status_def)
qed

lemma inv_DoCopy:
  assumes "ring_inv cb sb w" and "hw_enabled DoCopy (w_hw w, w_bufs w)"
  shows "ring_inv cb sb (with_hw w (hw_effect DoCopy (w_hw w, w_bufs w)))"
proof -
  note inv = ring_invD [OF assms(1)]
  obtain it ys where c: "rh_copy (w_hw w) = it # ys" using assms(2) by (auto simp: hw_enabled_def neq_Nil_conv)
  have it: "tagged it" "good_command cb sb it" "cmdifc it = CopyEngine" using inv(4) c by (simp_all add: shape_inv_def flying_def)
  have b: "run_copy it (w_bufs w) cb = w_bufs w cb" "run_copy it (w_bufs w) sb = w_bufs w sb"
    using it(2,3) by (simp_all add: run_copy_def good_command_def copy_words_other)
  have "ring_inv cb sb (with_hw w (write_status (copy_status it) ((w_hw w)\<lparr>rh_copy := ys, rh_echo := rh_echo (w_hw w)\<rparr>, run_copy it (w_bufs w))))"
    using assms c copy_status_tagged [OF it(1)] b
    by (intro inv_write_status [where xs = "[]" and it = it and ys = "ys @ rh_echo (w_hw w)"]) (auto simp: hw_enabled_def)
  then show ?thesis by (simp add: hw_effect_def c)
qed

lemma inv_DoEcho:
  assumes "ring_inv cb sb w" and "hw_enabled DoEcho (w_hw w, w_bufs w)"
  shows "ring_inv cb sb (with_hw w (hw_effect DoEcho (w_hw w, w_bufs w)))"
proof -
  note inv = ring_invD [OF assms(1)]
  obtain it ys where c: "rh_echo (w_hw w) = it # ys" using assms(2) by (auto simp: hw_enabled_def neq_Nil_conv)
  have it: "tagged it" using inv(4) c by (simp add: shape_inv_def flying_def)
  have "ring_inv cb sb (with_hw w (write_status it ((w_hw w)\<lparr>rh_copy := rh_copy (w_hw w), rh_echo := ys\<rparr>, w_bufs w)))"
    using assms c it by (intro inv_write_status [where xs = "rh_copy (w_hw w)" and it = it and ys = ys]) (auto simp: hw_enabled_def)
  then show ?thesis by (simp add: hw_effect_def c)
qed

lemma hw_step_inv:
  assumes "ring_inv cb sb w"
  shows "ring_inv cb sb (with_hw w (hw_step act (w_hw w, w_bufs w)))"
proof (cases "hw_enabled act (w_hw w, w_bufs w)")
  case True
  show ?thesis
  proof (cases act)
    case DoRequest
    then obtain q qs where "rh_requests (w_hw w) = q # qs" using True by (auto simp: hw_enabled_def neq_Nil_conv)
    then show ?thesis using inv_DoRequest [OF assms] True DoRequest by (simp add: hw_step_def hw_effect_def)
  next
    case DoFetch
    then show ?thesis using inv_DoFetch [OF assms] True by (simp add: hw_step_def)
  next
    case DoDispatch
    then show ?thesis using inv_DoDispatch [OF assms] True by (simp add: hw_step_def)
  next
    case DoCopy
    then show ?thesis using inv_DoCopy [OF assms] True by (simp add: hw_step_def)
  next
    case DoEcho
    then show ?thesis using inv_DoEcho [OF assms] True by (simp add: hw_step_def)
  qed
next
  case False
  then show ?thesis using assms by (simp add: hw_step_def with_hw_def)
qed

text \<open>Steps of the hardware, one after the other, on the world.\<close>

definition world_step :: "hw_act \<Rightarrow> ring_world \<Rightarrow> ring_world" where
  "world_step act w = with_hw w (hw_step act (w_hw w, w_bufs w))"

lemma fold_hw_step:
  "with_hw w (fold hw_step acts (w_hw w, w_bufs w)) = fold world_step acts w"
proof (induction acts arbitrary: w)
  case (Cons a acts)
  have "with_hw w (fold hw_step (a # acts) (w_hw w, w_bufs w)) =
      with_hw (world_step a w) (fold hw_step acts (w_hw (world_step a w), w_bufs (world_step a w)))"
    by (simp add: world_step_def with_hw_def)
  then show ?case by (simp add: Cons.IH)
qed (simp add: with_hw_def)

lemma hw_run_fold: "hw_run sched w = (fold world_step (sched (w_clock w)) w)\<lparr>w_clock := w_clock w + 1\<rparr>"
  unfolding hw_run_def fold_hw_step [symmetric] by (simp add: with_hw_def split: prod.splits)

lemma ring_inv_clock [simp]: "ring_inv cb sb (w\<lparr>w_clock := t\<rparr>) = ring_inv cb sb w"
  by (simp add: ring_inv_def cmd_defs status_defs pool_inv_def shape_inv_def flying_defs counters)

lemma fold_world_step_inv: "ring_inv cb sb w \<Longrightarrow> ring_inv cb sb (fold world_step acts w)"
  by (induction acts arbitrary: w) (simp_all add: world_step_def hw_step_inv)

lemma hw_run_inv: "ring_inv cb sb w \<Longrightarrow> ring_inv cb sb (hw_run sched w)"
  by (simp add: hw_run_fold fold_world_step_inv)

end
