(* ===== verification/Ring_Correct.thy ===== *)
theory Ring_Correct
  imports Ring_Inv
begin

text \<open>
  The software of the ring example keeps the invariant of the rings, never fails an assertion and
  never leaves its buffers; commands reach the engines in order, results are handled in order, and
  with hardware that keeps running every operation returns.
\<close>

section \<open>Indications\<close>

definition with_inds :: "ring_world \<Rightarrow> ring_ind list \<Rightarrow> ring_world" where
  "with_inds w is = w\<lparr>w_hw := (w_hw w)\<lparr>rh_inds := is\<rparr>\<rparr>"

lemma indication_with_inds: "indication i (with_inds w is) = with_inds (indication i w) is"
  by (cases i) (simp_all add: indication_def setResult_def getResult_def with_inds_def)

lemma indication_inv:
  assumes "ring_inv cb sb (with_inds w (i # is))"
  shows "ring_inv cb sb (with_inds (indication i w) is)"
proof -
  let ?w = "with_inds w (i # is)" and ?v = "with_inds (indication i w) is"
  note inv = ring_invD [OF assms]
  have same: "w_hw ?v = (w_hw ?w)\<lparr>rh_inds := is\<rparr>" "w_bufs ?v = w_bufs ?w" "w_status_ring ?v = w_status_ring ?w"
    "w_sent ?v = w_sent ?w" "w_handled ?v = w_handled ?w" "w_completion ?v = w_completion ?w" "w_freelist ?v = w_freelist ?w"
    "w_ring_init_done ?v = w_ring_init_done ?w" "sr_size (w_cmd_ring ?v) = sr_size (w_cmd_ring ?w)"
    "sr_ringid (w_cmd_ring ?v) = sr_ringid (w_cmd_ring ?w)" "sr_base (w_cmd_ring ?v) = sr_base (w_cmd_ring ?w)"
    "sr_first (w_cmd_ring ?v) = sr_first (w_cmd_ring ?w)" "sr_cached_space (w_cmd_ring ?v) = sr_cached_space (w_cmd_ring ?w)"
    by (cases i; simp add: with_inds_def indication_def setResult_def getResult_def)+
  have cnt: "nS ?v = nS ?w" "nD ?v = nD ?w" "nF ?v = nF ?w" "nP ?v = nP ?w" "nH ?v = nH ?w" "waiting ?v = waiting ?w"
    "unread ?v = unread ?w" "flying ?v = flying ?w"
    by (simp_all add: counters flying_defs same)
  obtain l l' c where a: "cmd_acked ?w l l' c" using inv(1) by (auto simp: cmd_inv_def)
  have soft: "sr_ringid (w_cmd_ring w) = 0" using inv(1) by (simp add: cmd_inv_def cmd_soft_def with_inds_def)
  have "\<exists>l l' c. cmd_acked ?v l l' c"
  proof (cases "\<exists>v. i = GetResult 0 REG_LASTACK v")
    case True
    then obtain v where i: "i = GetResult 0 REG_LASTACK v" by blast
    then obtain x where x: "l \<le> x" "v = slot x" "chain x (acks is) l'" using a by (auto simp: cmd_acked_def with_inds_def)
    have "sr_last (w_cmd_ring ?v) = slot x" using soft x by (simp add: i with_inds_def indication_def getResult_def)
    then have "cmd_acked ?v x l' c" unfolding cmd_acked_def cnt same using a x by (auto simp: cmd_acked_def)
    then show ?thesis by blast
  next
    case False
    then have "sr_last (w_cmd_ring ?v) = sr_last (w_cmd_ring ?w)" "acks (i # is) = acks is"
      using soft by (cases i; auto simp: with_inds_def indication_def setResult_def getResult_def)+
    then have "cmd_acked ?v l l' c" unfolding cmd_acked_def cnt same using a by (simp add: cmd_acked_def with_inds_def)
    then show ?thesis by blast
  qed
  then have "cmd_inv cb ?v" using inv(1) by (simp add: cmd_inv_def cmd_soft_def cmd_hard_def cmd_started_def cmd_mem_def cnt same)
  moreover have "status_inv sb ?v" using inv(2) by (simp add: status_defs cnt same)
  moreover have "pool_inv ?v" using inv(3) by (simp add: pool_inv_def cnt same)
  moreover have "shape_inv cb sb ?v" using inv(4) by (simp add: shape_inv_def cnt same)
  ultimately show ?thesis by (simp add: ring_inv_def)
qed

lemma portal_event_inv:
  assumes "ring_inv cb sb w"
  shows "ring_inv cb sb (portal_event w)"
proof -
  have "ring_inv cb sb (with_inds v xs) \<Longrightarrow> ring_inv cb sb (fold indication xs (with_inds v []))" for v xs
    by (induction xs arbitrary: v) (simp_all add: indication_inv indication_with_inds)
  from this [of w "rh_inds (w_hw w)"] show ?thesis using assms by (simp add: portal_event_def with_inds_def)
qed

section \<open>Handling a result\<close>

lemma ring_next_inv:
  assumes "ring_inv cb sb w"
  shows "ring_next Status w = Inr (if nH w < nP w then Some (slot (nH w)) else None)"
proof -
  note inv = ring_invD [OF assms]
  have soft: "sr_last (w_status_ring w) = slot (nH w)" "sr_base (w_status_ring w) = sb" "nH w \<le> nP w"
    and mem: "length (w_bufs w sb) = 1024"
      "\<And>i. nH w \<le> i \<Longrightarrow> i < nP w \<Longrightarrow> item_at (w_bufs w sb) (slot i) = rh_pushed (w_hw w) ! i"
      "\<And>i. nP w \<le> i \<Longrightarrow> i < nH w + 128 \<Longrightarrow> item_at (w_bufs w sb) (slot i) ! 7 = 0"
    using inv(2) by (auto simp: status_defs)
  have w7: "w_bufs w sb ! (slot (nH w) div 8 + 7) = item_at (w_bufs w sb) (slot (nH w)) ! 7"
    by (rule item_at_nth7 [OF mem(1), symmetric])
  have "w_bufs w sb ! (slot (nH w) div 8 + 7) = 0 \<longleftrightarrow> \<not> nH w < nP w"
  proof (cases "nH w < nP w")
    case True
    have "tagged (rh_pushed (w_hw w) ! nH w)"
      using inv(4) True by (simp add: shape_inv_def flying_def list_all_iff unread_def Cons_nth_drop_Suc [symmetric] nP_def)
    then have "rh_pushed (w_hw w) ! nH w ! 7 \<noteq> 0" by (auto simp: tagged_def tagof_def)
    then show ?thesis using True w7 mem(2) [of "nH w"] by simp
  next
    case False
    then show ?thesis using w7 mem(3) [of "nH w"] soft(3) by simp
  qed
  moreover have "slot (nH w) div 8 + 7 < 1024" using slot_word_le [of "nH w"] by simp
  ultimately show ?thesis using soft mem(1) by (simp add: ring_next_def the_ring_def)
qed

lemma pool_distinct:
  assumes "pool_inv w"
  shows "distinct (w_freelist w)" "distinct (map tagof (flying w))" "set (w_freelist w) \<inter> tagof ` set (flying w) = {}"
proof -
  have "mset (w_freelist w @ map tagof (flying w)) = mset [1..<1024]" using assms by (simp add: pool_inv_def)
  then have "distinct (w_freelist w @ map tagof (flying w))" by (metis distinct_upt mset_eq_imp_distinct_iff)
  then show "distinct (w_freelist w)" "distinct (map tagof (flying w))" "set (w_freelist w) \<inter> tagof ` set (flying w) = {}"
    by auto
qed

text \<open>The world after the oldest unread result has been handled.\<close>

definition after_one :: "nat \<Rightarrow> ring_world \<Rightarrow> ring_world" where
  "after_one sb w =
     (let it = rh_pushed (w_hw w) ! nH w; t = tagof it; p = w_completion w ! t in
      w\<lparr>w_hw := (w_hw w)\<lparr>rh_requests := rh_requests (w_hw w) @
            (if Suc (nH w) mod 32 = 0 then [SetStatusLast (slot (Suc (nH w)))] else [])\<rparr>,
        w_bufs := (w_bufs w)(sb := (w_bufs w sb)[slot (nH w) div 8 + 7 := 0]),
        w_completion := (w_completion w)[t := p\<lparr>rc_in_use := False\<rparr>],
        w_freelist := w_freelist w @ [t],
        w_status_ring := (w_status_ring w)\<lparr>sr_last := slot (Suc (nH w))\<rparr>,
        w_flags := (if rc_finish p = Some Flag_finish then (w_flags w)(rc_arg p := True) else w_flags w),
        w_events := (if rc_finish p = Some Echo_finish
           then (w_events w)(rc_arg p := (w_events w (rc_arg p))\<lparr>ce_got_a := it ! 1, ce_got_b := it ! 2, ce_flag := True\<rparr>)
           else w_events w),
        w_totalCompletions := w_totalCompletions w + (if rc_finish p = Some Echo_finish then 1 else 0),
        w_handled := w_handled w @ [it]\<rparr>)"

lemma unread_Cons: "nH w < nP w \<Longrightarrow> unread w = rh_pushed (w_hw w) ! nH w # drop (Suc (nH w)) (rh_pushed (w_hw w))"
  by (simp add: unread_def Cons_nth_drop_Suc nP_def)

lemma oldest_result:
  assumes "ring_inv cb sb w" and "nH w < nP w"
  shows "tagged (rh_pushed (w_hw w) ! nH w)" "rc_in_use (w_completion w ! tagof (rh_pushed (w_hw w) ! nH w))"
    "rc_finish (w_completion w ! tagof (rh_pushed (w_hw w) ! nH w)) = Some Echo_finish \<Longrightarrow>
     rc_arg (w_completion w ! tagof (rh_pushed (w_hw w) ! nH w)) \<noteq> 0"
    "item_at (w_bufs w sb) (slot (nH w)) = rh_pushed (w_hw w) ! nH w"
proof -
  note inv = ring_invD [OF assms(1)]
  have f: "rh_pushed (w_hw w) ! nH w \<in> set (flying w)" using assms(2) by (simp add: flying_def unread_Cons)
  then show t: "tagged (rh_pushed (w_hw w) ! nH w)" using inv(4) by (auto simp: shape_inv_def list_all_iff)
  then show "rc_in_use (w_completion w ! tagof (rh_pushed (w_hw w) ! nH w))"
    using inv(3) f by (auto simp: pool_inv_def tagged_def)
  show "rc_arg (w_completion w ! tagof (rh_pushed (w_hw w) ! nH w)) \<noteq> 0"
    if "rc_finish (w_completion w ! tagof (rh_pushed (w_hw w) ! nH w)) = Some Echo_finish"
    using inv(3) t that by (auto simp: pool_inv_def tagged_def)
  show "item_at (w_bufs w sb) (slot (nH w)) = rh_pushed (w_hw w) ! nH w"
    using inv(2) assms(2) by (simp add: status_inv_def status_mem_def)
qed

lemma ring_pop_slot:
  assumes "sr_base (w_status_ring v) = sb" and "sr_last (w_status_ring v) = slot i" and "sr_size (w_status_ring v) = 8192"
    and "sr_ringid (w_status_ring v) = 1"
  shows "ring_pop Status v =
     v\<lparr>w_bufs := (w_bufs v)(sb := (w_bufs v sb)[slot i div 8 + 7 := 0]),
       w_status_ring := (w_status_ring v)\<lparr>sr_last := slot (Suc i)\<rparr>,
       w_hw := (w_hw v)\<lparr>rh_requests := rh_requests (w_hw v) @ (if Suc i mod 32 = 0 then [SetStatusLast (slot (Suc i))] else [])\<rparr>\<rparr>"
proof -
  have p: "(2 :: nat) ^ 32 = 4294967296" by simp
  have e: "(if 8192 \<le> (slot i + 64) mod 2 ^ 32 then 0 else (slot i + 64) mod 2 ^ 32) = slot (Suc i)"
    unfolding p by (rule slot_step_ge)
  have q: "slot (Suc i) mod (8192 div 4) = 0 \<longleftrightarrow> Suc i mod 32 = 0" using slot_quarter [of "Suc i"] by simp
  define w1 where "w1 = clear_mark sb (slot i) v"
  have w1: "w_status_ring w1 = w_status_ring v" by (simp add: w1_def clear_mark_def)
  have "ring_pop Status v =
     (let w2 = w1\<lparr>w_status_ring := (w_status_ring v)\<lparr>sr_last := slot (Suc i)\<rparr>\<rparr> in
      if Suc i mod 32 = 0 then request (SetStatusLast (slot (Suc i))) w2 else w2)"
    unfolding ring_pop_def Let_def the_ring_def set_ring_def ring_name.case assms(1,2) w1_def [symmetric] w1 assms(2,3,4) e q
    by simp
  then show ?thesis by (cases "Suc i mod 32 = 0") (simp_all only: Let_def if_True if_False, simp_all add: w1_def clear_mark_def request_def)
qed

lemma handle_completion_result:
  assumes "item_at (w_bufs w sb) off = it" and "tagof it < 1024" and "rc_in_use (w_completion w ! tagof it)"
    and "rc_finish (w_completion w ! tagof it) = Some Echo_finish \<Longrightarrow> rc_arg (w_completion w ! tagof it) \<noteq> 0"
  shows "Ring_Handle_Completion sb off w = Inr
     (let t = tagof it; p = w_completion w ! t in
      w\<lparr>w_bufs := (w_bufs w)(sb := (w_bufs w sb)[off div 8 + 7 := 0]),
        w_completion := (w_completion w)[t := p\<lparr>rc_in_use := False\<rparr>],
        w_freelist := w_freelist w @ [t],
        w_flags := (if rc_finish p = Some Flag_finish then (w_flags w)(rc_arg p := True) else w_flags w),
        w_events := (if rc_finish p = Some Echo_finish
           then (w_events w)(rc_arg p := (w_events w (rc_arg p))\<lparr>ce_got_a := it ! 1, ce_got_b := it ! 2, ce_flag := True\<rparr>)
           else w_events w),
        w_totalCompletions := w_totalCompletions w + (if rc_finish p = Some Echo_finish then 1 else 0),
        w_handled := w_handled w @ [it]\<rparr>)"
proof -
  define p where "p = w_completion w ! tagof it"
  have t: "unat (it ! 7 AND 0xffff) = tagof it" by (simp add: tagof_def)
  consider "rc_finish p = None" | "rc_finish p = Some Flag_finish" | "rc_finish p = Some Echo_finish"
    by (metis finish_fn.exhaust not_Some_eq)
  then show ?thesis
    using assms unfolding Ring_Handle_Completion_def Let_def assms(1) t p_def [symmetric]
    by cases (simp_all add: call_finish_def flag_finish_def echo_finish_def clear_mark_def)
qed

lemma handle_one_result:
  assumes "ring_inv cb sb w" and "nH w < nP w"
  shows "handle_one (slot (nH w)) w = Inr (after_one sb w)"
proof -
  note old = oldest_result [OF assms]
  have soft: "sr_base (w_status_ring w) = sb" "sr_last (w_status_ring w) = slot (nH w)" "sr_size (w_status_ring w) = 8192"
    "sr_ringid (w_status_ring w) = 1"
    using assms(1) by (simp_all add: ring_inv_def status_inv_def status_soft_def)
  have "tagof (rh_pushed (w_hw w) ! nH w) < 1024" using old(1) by (simp add: tagged_def)
  from handle_completion_result [OF old(4) this old(2,3)] show ?thesis
    unfolding handle_one_def soft(1) Let_def
    by (simp only: rbind_Inr) (simp add: ring_pop_slot [of _ sb "nH w"] soft after_one_def Let_def)
qed

lemma after_one_same [simp]:
  "w_cmd_ring (after_one sb w) = w_cmd_ring w" "w_sent (after_one sb w) = w_sent w" "w_clock (after_one sb w) = w_clock w"
  "w_ring_init_done (after_one sb w) = w_ring_init_done w" "w_getresult_flag (after_one sb w) = w_getresult_flag w"
  "rh_inds (w_hw (after_one sb w)) = rh_inds (w_hw w)" "rh_reads (w_hw (after_one sb w)) = rh_reads (w_hw w)"
  "rh_copy (w_hw (after_one sb w)) = rh_copy (w_hw w)" "rh_echo (w_hw (after_one sb w)) = rh_echo (w_hw w)"
  "rh_dispatched (w_hw (after_one sb w)) = rh_dispatched (w_hw w)" "rh_pushed (w_hw (after_one sb w)) = rh_pushed (w_hw w)"
  "rh_cmd (w_hw (after_one sb w)) = rh_cmd (w_hw w)" "rh_status (w_hw (after_one sb w)) = rh_status (w_hw w)"
  "rh_enabled (w_hw (after_one sb w)) = rh_enabled (w_hw w)"
  "firsts (rh_requests (w_hw (after_one sb w))) = firsts (rh_requests (w_hw w))"
  by (simp_all add: after_one_def Let_def)

lemma div32_Suc: "Suc n mod 32 \<noteq> 0 \<Longrightarrow> Suc n div 32 = n div 32"
  by (simp add: div_Suc)

lemma after_one_inv:
  assumes "ring_inv cb sb w" and "nH w < nP w"
  shows "ring_inv cb sb (after_one sb w)"
proof -
  let ?v = "after_one sb w"
  note inv = ring_invD [OF assms(1)] and old = oldest_result [OF assms]
  define it where "it = rh_pushed (w_hw w) ! nH w"
  have un: "unread w = it # unread ?v" using assms(2) by (simp add: unread_Cons it_def) (simp add: unread_def nH_def after_one_def Let_def)
  have cnt: "nS ?v = nS w" "nD ?v = nD w" "nF ?v = nF w" "nP ?v = nP w" "nH ?v = Suc (nH w)" "waiting ?v = waiting w"
    by (simp_all add: counters waiting_def) (simp add: after_one_def Let_def)
  have cs: "cb \<noteq> sb" using inv(4) by (simp add: shape_inv_def)
  have bufs: "w_bufs ?v = (w_bufs w)(sb := (w_bufs w sb)[slot (nH w) div 8 + 7 := 0])" by (simp add: after_one_def Let_def)
  have "cmd_inv cb ?v" using inv(1) cs by (simp add: cmd_defs cnt bufs)
  moreover have "status_soft sb ?v"
  proof -
    have "w_handled w = take (nH w) (rh_pushed (w_hw w))" using inv(2) by (simp add: status_inv_def status_soft_def)
    then have "w_handled ?v = take (Suc (nH w)) (rh_pushed (w_hw w))"
      using assms(2) by (simp add: after_one_def Let_def take_Suc_conv_app_nth nP_def)
    then show ?thesis using inv(2) assms(2) by (simp add: status_inv_def status_soft_def cnt) (simp add: after_one_def Let_def)
  qed
  moreover have "\<exists>k. status_hard sb ?v k"
  proof -
    obtain k where k: "status_hard sb w k" using inv(2) by (auto simp: status_inv_def)
    have "chain k (lasts (rh_requests (w_hw ?v))) (32 * (Suc (nH w) div 32))"
    proof (cases "Suc (nH w) mod 32 = 0")
      case True
      then have e: "32 * (Suc (nH w) div 32) = Suc (nH w)" by presburger
      have "chain k (lasts (rh_requests (w_hw w)) @ [slot (Suc (nH w))]) (Suc (nH w))"
        using k by (intro chain_snoc [of k _ "32 * (nH w div 32)"]) (simp_all add: status_hard_def)
      then show ?thesis using True e by (simp add: after_one_def Let_def)
    next
      case False
      then show ?thesis using k by (simp add: status_hard_def after_one_def Let_def div32_Suc)
    qed
    then have "status_hard sb ?v k" using k by (simp add: status_hard_def cnt)
    then show ?thesis by blast
  qed
  moreover have "status_mem sb ?v"
  proof -
    have mem: "length (w_bufs w sb) = 1024"
      "\<And>i. nH w \<le> i \<Longrightarrow> i < nP w \<Longrightarrow> item_at (w_bufs w sb) (slot i) = rh_pushed (w_hw w) ! i"
      "\<And>i. nP w \<le> i \<Longrightarrow> i < nH w + 128 \<Longrightarrow> item_at (w_bufs w sb) (slot i) ! 7 = 0"
      using inv(2) by (auto simp: status_inv_def status_mem_def)
    have pk: "nP w \<le> nH w + 127"
    proof -
      obtain k where "nP w \<le> k + 127" "k \<le> 32 * (nH w div 32)"
        using inv(2) chain_le by (fastforce simp: status_inv_def status_hard_def)
      then show ?thesis by simp
    qed
    have other: "item_at (w_bufs ?v sb) (slot i) = item_at (w_bufs w sb) (slot i)" if "Suc (nH w) \<le> i" "i < nH w + 128" for i
    proof -
      have "slot (nH w) \<noteq> slot i" using slot_inj [of "nH w" i] that by fastforce
      then show ?thesis by (simp add: bufs item_at_mark_other)
    qed
    have z: "item_at (w_bufs ?v sb) (slot (nH w + 128)) ! 7 = 0"
      using mem(1) by (simp add: slot_add128 bufs item_at_mark_same)
    have "item_at (w_bufs ?v sb) (slot i) ! 7 = 0" if "nP w \<le> i" "i < Suc (nH w) + 128" for i
      using that mem(3) other [of i] z assms(2) by (cases "i = nH w + 128") auto
    moreover have "item_at (w_bufs ?v sb) (slot i) = rh_pushed (w_hw w) ! i" if "Suc (nH w) \<le> i" "i < nP w" for i
      using that mem(2) [of i] other [of i] pk by simp
    moreover have "length (w_bufs ?v sb) = 1024" using mem(1) by (simp add: bufs)
    ultimately show ?thesis unfolding status_mem_def cnt by simp
  qed
  moreover have "pool_inv ?v"
  proof -
    have f: "mset (flying w) = add_mset it (mset (flying ?v))" by (simp add: flying_def un cnt)
    have d: "distinct (map tagof (flying w))" by (rule pool_distinct [OF inv(3)])
    have nin: "tagof it \<notin> tagof ` set (flying ?v)" and ins: "tagof ` set (flying w) = insert (tagof it) (tagof ` set (flying ?v))"
    proof -
      have m: "mset (map tagof (flying w)) = mset (tagof it # map tagof (flying ?v))" using f by simp
      from d mset_eq_imp_distinct_iff [OF m] show "tagof it \<notin> tagof ` set (flying ?v)" by simp
      from mset_eq_setD [OF m] show "tagof ` set (flying w) = insert (tagof it) (tagof ` set (flying ?v))" by simp
    qed
    have c: "w_completion ?v = (w_completion w)[tagof it := (w_completion w ! tagof it)\<lparr>rc_in_use := False\<rparr>]"
      "w_freelist ?v = w_freelist w @ [tagof it]"
      by (simp_all add: after_one_def Let_def it_def)
    have "tagof it < 1024" using old(1) by (simp add: tagged_def it_def)
    then show ?thesis
      using inv(3) nin unfolding pool_inv_def c ins f by (auto simp: nth_list_update f)
  qed
  moreover have "shape_inv cb sb ?v"
  proof -
    have "set (flying ?v) \<subseteq> set (flying w)" by (auto simp: flying_def un cnt)
    then show ?thesis using inv(4) by (auto simp: shape_inv_def list_all_iff cnt) (auto simp: after_one_def Let_def running_req_def)
  qed
  ultimately show ?thesis by (simp add: ring_inv_def status_inv_def)
qed

lemma handle_one_inv:
  assumes "ring_inv cb sb w" and "nH w < nP w"
  shows "handle_one (slot (nH w)) w = Inr (after_one sb w) \<and> ring_inv cb sb (after_one sb w)"
  using handle_one_result [OF assms] after_one_inv [OF assms] by simp

section \<open>Polling\<close>

definition polled :: "nat \<Rightarrow> schedule \<Rightarrow> ring_world \<Rightarrow> ring_world" where
  "polled sb sched w =
     (let v = portal_event (hw_run sched w) in if nH v < nP v then after_one sb v else v)"

lemma StatusPoll_inv:
  assumes "ring_inv cb sb w"
  shows "StatusPoll sched w = Inr (polled sb sched w)" "ring_inv cb sb (polled sb sched w)"
proof -
  define v where "v = portal_event (hw_run sched w)"
  have v: "ring_inv cb sb v" unfolding v_def using assms by (intro portal_event_inv hw_run_inv)
  then have "w_ring_init_done v" by (simp add: ring_inv_def shape_inv_def)
  then show "StatusPoll sched w = Inr (polled sb sched w)"
    using handle_one_result [OF v] by (simp add: StatusPoll_def polled_def Let_def v_def [symmetric] ring_next_inv [OF v])
  show "ring_inv cb sb (polled sb sched w)" using v after_one_inv by (auto simp: polled_def Let_def v_def [symmetric])
qed

lemma fold_world_step_same [simp]:
  "w_sent (fold world_step acts w) = w_sent w" "w_handled (fold world_step acts w) = w_handled w"
  "w_completion (fold world_step acts w) = w_completion w" "w_flags (fold world_step acts w) = w_flags w"
  "w_events (fold world_step acts w) = w_events w" "w_getresult_flag (fold world_step acts w) = w_getresult_flag w"
  "w_clock (fold world_step acts w) = w_clock w" "w_cmd_ring (fold world_step acts w) = w_cmd_ring w"
  "w_totalCompletions (fold world_step acts w) = w_totalCompletions w"
  by (induction acts arbitrary: w) (simp_all add: world_step_def)

lemma fold_indication_same [simp]:
  "w_sent (fold indication xs w) = w_sent w" "w_handled (fold indication xs w) = w_handled w"
  "w_completion (fold indication xs w) = w_completion w" "w_flags (fold indication xs w) = w_flags w"
  "w_events (fold indication xs w) = w_events w" "w_clock (fold indication xs w) = w_clock w"
  "w_hw (fold indication xs w) = w_hw w" "w_totalCompletions (fold indication xs w) = w_totalCompletions w"
  by (induction xs arbitrary: w; simp add: indication_def setResult_def getResult_def split: ring_ind.splits)+

lemma polled_sent [simp]: "w_sent (polled sb sched w) = w_sent w"
  by (simp add: polled_def Let_def portal_event_def hw_run_fold)

lemma polled_clock [simp]: "w_clock (polled sb sched w) = w_clock w + 1"
  by (simp add: polled_def Let_def portal_event_def hw_run_fold)

lemma poll_until_inv:
  assumes "poll_until sched fin w = Some r" and "P w" and "\<And>w. P w \<Longrightarrow> \<exists>w'. StatusPoll sched w = Inr w' \<and> P w'"
  shows "\<exists>w'. r = Inr w' \<and> P w' \<and> fin w'"
proof -
  have "P w \<longrightarrow> (\<forall>w. P w \<longrightarrow> (\<exists>w'. StatusPoll sched w = Inr w' \<and> P w')) \<longrightarrow> (\<exists>w'. r = Inr w' \<and> P w' \<and> fin w')"
    using assms(1)
    by (induction rule: poll_until.raw_induct [rotated, consumes 1]) (fastforce split: if_splits sum.splits)
  then show ?thesis using assms(2,3) by blast
qed

text \<open>A number of results handled one after the other.\<close>

lemma waitforflag_inv:
  assumes "P w" and "\<And>w. P w \<Longrightarrow> \<exists>w'. StatusPoll sched w = Inr w' \<and> P w'"
  shows "waitforflag sched fin w = Inl NoReturn \<or> (\<exists>w'. waitforflag sched fin w = Inr w' \<and> P w' \<and> fin w')"
  using poll_until_inv [of sched fin w _ P] assms by (cases "poll_until sched fin w") (auto simp: waitforflag_def returned_def)

section \<open>Sending\<close>

lemma request_inv:
  assumes "ring_inv cb sb w" and "q = GetReg 0 REG_LASTACK \<or> q = SetCmdFirst (sr_first (w_cmd_ring w))"
  shows "ring_inv cb sb (request q w)"
proof -
  let ?v = "request q w"
  note inv = ring_invD [OF assms(1)]
  have same: "w_hw ?v = (w_hw w)\<lparr>rh_requests := rh_requests (w_hw w) @ [q]\<rparr>" by (simp add: request_def)
  have cnt: "nS ?v = nS w" "nD ?v = nD w" "nF ?v = nF w" "nP ?v = nP w" "nH ?v = nH w" "waiting ?v = waiting w"
    "unread ?v = unread w" "flying ?v = flying w"
    by (simp_all add: counters flying_defs request_def)
  have r: "running_req q" using assms(2) by (auto simp: running_req_def)
  obtain t t' where t: "cmd_started w t t'" using inv(1) by (auto simp: cmd_inv_def)
  have first: "sr_first (w_cmd_ring w) = slot (nS w)" using inv(1) by (simp add: cmd_inv_def cmd_soft_def)
  have "\<exists>t t'. cmd_started ?v t t'"
    using assms(2)
  proof
    assume "q = GetReg 0 REG_LASTACK"
    then have "cmd_started ?v t t'" unfolding cmd_started_def cnt same using t by (simp add: cmd_started_def)
    then show ?thesis by blast
  next
    assume "q = SetCmdFirst (sr_first (w_cmd_ring w))"
    then have "cmd_started ?v t (nS w)" unfolding cmd_started_def cnt same
      using t chain_snoc [of t "firsts (rh_requests (w_hw w))" t' "nS w"] by (simp add: cmd_started_def first)
    then show ?thesis by blast
  qed
  then have "cmd_inv cb ?v" using inv(1) by (simp add: cmd_inv_def cmd_soft_def cmd_hard_def cmd_acked_def cmd_mem_def cnt same) (simp add: request_def)
  moreover have "status_inv sb ?v" unfolding status_defs cnt same using inv(2) assms(2) by (auto simp: status_defs request_def)
  moreover have "pool_inv ?v" using inv(3) by (simp add: pool_inv_def cnt) (simp add: request_def)
  moreover have "shape_inv cb sb ?v" using inv(4) r by (auto simp: shape_inv_def cnt same) (simp_all add: request_def)
  ultimately show ?thesis by (simp add: ring_inv_def)
qed

lemma ring_inv_flags [simp]:
  "ring_inv cb sb (w\<lparr>w_getresult_flag := f\<rparr>) = ring_inv cb sb w" "ring_inv cb sb (w\<lparr>w_flags := g\<rparr>) = ring_inv cb sb w"
  "ring_inv cb sb (w\<lparr>w_events := e\<rparr>) = ring_inv cb sb w" "ring_inv cb sb (w\<lparr>w_totalCompletions := n\<rparr>) = ring_inv cb sb w"
  by (simp_all add: ring_inv_def cmd_defs status_defs pool_inv_def shape_inv_def flying_defs counters)

text \<open>After an inquiry the space cached is what the answer leaves.\<close>

lemma space_inv:
  assumes "ring_inv cb sb w"
  shows "ring_inv cb sb (set_ring Cmd ((w_cmd_ring w)\<lparr>sr_cached_space := ring_space (w_cmd_ring w)\<rparr>) w)" (is "ring_inv cb sb ?v")
proof -
  note inv = ring_invD [OF assms]
  have same: "w_cmd_ring ?v = (w_cmd_ring w)\<lparr>sr_cached_space := ring_space (w_cmd_ring w)\<rparr>" "w_hw ?v = w_hw w" "w_bufs ?v = w_bufs w"
    "w_status_ring ?v = w_status_ring w" "w_sent ?v = w_sent w" "w_handled ?v = w_handled w" "w_completion ?v = w_completion w"
    "w_freelist ?v = w_freelist w" "w_ring_init_done ?v = w_ring_init_done w"
    by (simp_all add: set_ring_def)
  have cnt: "nS ?v = nS w" "nD ?v = nD w" "nF ?v = nF w" "nP ?v = nP w" "nH ?v = nH w" "waiting ?v = waiting w"
    "unread ?v = unread w" "flying ?v = flying w"
    by (simp_all add: counters flying_defs same)
  obtain l l' c where a: "cmd_acked w l l' c" using inv(1) by (auto simp: cmd_inv_def)
  have ds: "nD w \<le> nS w" using inv(1) by (metis cmd_inv_def cmd_hard_def length_take min.cobounded1 nD_def nS_def)
  have l: "l \<le> nS w" "nS w \<le> l + 127" using a ds chain_le [of l] by (fastforce simp: cmd_acked_def)+
  have "ring_space (w_cmd_ring w) = 64 * (127 - (nS w - l))"
    using inv(1) a l by (intro ring_space_slots) (simp_all add: cmd_inv_def cmd_soft_def cmd_acked_def)
  then have "cmd_acked ?v l l' (127 - (nS w - l))" unfolding cmd_acked_def cnt same using a l by (auto simp: cmd_acked_def)
  then have "cmd_inv cb ?v"
    using inv(1) by (auto simp: cmd_inv_def cmd_soft_def cmd_hard_def cmd_mem_def cmd_started_def cnt same)
  moreover have "status_inv sb ?v" using inv(2) by (simp add: status_defs cnt same)
  moreover have "pool_inv ?v" using inv(3) by (simp add: pool_inv_def cnt same)
  moreover have "shape_inv cb sb ?v" using inv(4) by (simp add: shape_inv_def cnt same)
  ultimately show ?thesis by (simp add: ring_inv_def)
qed

lemma cached_positive:
  assumes "cmd_inv cb w" and "sr_cached_space (w_cmd_ring w) \<noteq> 0"
  shows "Suc (nS w) \<le> nD w + 127" "64 \<le> sr_cached_space (w_cmd_ring w)"
proof -
  obtain l l' c where a: "cmd_acked w l l' c" using assms(1) by (auto simp: cmd_inv_def)
  then have "l \<le> nD w" "1 \<le> c" using chain_le [of l] assms(2) by (fastforce simp: cmd_acked_def)+
  then show "Suc (nS w) \<le> nD w + 127" "64 \<le> sr_cached_space (w_cmd_ring w)" using a by (auto simp: cmd_acked_def)
qed

text \<open>
  The loop of \<open>ring_send\<close>, whenever it ends, has found room; nothing the program has sent changes.
\<close>

lemma send_loop_inv:
  assumes "send_loop sched r w = Some res" and "r = Cmd" and "P w"
    and poll: "\<And>w. P w \<Longrightarrow> \<exists>w'. StatusPoll sched w = Inr w' \<and> P w'"
    and req: "\<And>w. P w \<Longrightarrow> P (request (GetReg (sr_ringid (w_cmd_ring w)) REG_LASTACK) (w\<lparr>w_getresult_flag := False\<rparr>))"
    and spc: "\<And>w. P w \<Longrightarrow> P (set_ring Cmd ((w_cmd_ring w)\<lparr>sr_cached_space := ring_space (w_cmd_ring w)\<rparr>) w)"
  shows "(\<exists>w'. res = Inr w' \<and> P w' \<and> sr_cached_space (w_cmd_ring w') \<noteq> 0) \<or> res = Inl NoReturn"
proof -
  have "r = Cmd \<longrightarrow> P w \<longrightarrow> (\<forall>w. P w \<longrightarrow> (\<exists>w'. StatusPoll sched w = Inr w' \<and> P w')) \<longrightarrow>
     (\<exists>w'. res = Inr w' \<and> P w' \<and> sr_cached_space (w_cmd_ring w') \<noteq> 0) \<or> res = Inl NoReturn"
    using assms(1)
  proof (induction rule: send_loop.raw_induct [rotated, consumes 1])
    case (1 f sched r w res)
    show ?case
    proof (intro impI)
      assume r: "r = Cmd" and p: "P w" and pl: "\<forall>w. P w \<longrightarrow> (\<exists>w'. StatusPoll sched w = Inr w' \<and> P w')"
      let ?w1 = "request (GetReg (sr_ringid (w_cmd_ring w)) REG_LASTACK) (w\<lparr>w_getresult_flag := False\<rparr>)"
      from waitforflag_inv [of P ?w1 sched w_getresult_flag] req [OF p] pl
      have wf: "waitforflag sched w_getresult_flag ?w1 = Inl NoReturn \<or> (\<exists>w'. waitforflag sched w_getresult_flag ?w1 = Inr w' \<and> P w')"
        by blast
      show "(\<exists>w'. res = Inr w' \<and> P w' \<and> sr_cached_space (w_cmd_ring w') \<noteq> 0) \<or> res = Inl NoReturn"
      proof (cases "sr_cached_space (w_cmd_ring w) mod (sr_size (w_cmd_ring w) div 4) = 0")
        case False
        then have "res = Inr w" using 1(2) r by (simp add: the_ring_def)
        then show ?thesis using p False by (metis mod_0)
      next
        case True
        show ?thesis
        proof (cases "waitforflag sched w_getresult_flag ?w1")
          case (Inl e)
          then have "e = NoReturn" using wf by simp
          then show ?thesis using 1(2) r True Inl by (simp add: the_ring_def)
        next
          case (Inr w2)
          let ?w3 = "set_ring Cmd ((w_cmd_ring w2)\<lparr>sr_cached_space := ring_space (w_cmd_ring w2)\<rparr>) w2"
          have p3: "P ?w3" using wf Inr spc by auto
          have s3: "sr_cached_space (w_cmd_ring ?w3) = ring_space (w_cmd_ring w2)" by (simp add: set_ring_def)
          have b: "(if ring_space (w_cmd_ring w2) \<noteq> 0 then Some (Inr ?w3) else f sched Cmd ?w3) = Some res"
            using 1(2) True Inr unfolding r the_ring_def ring_name.case by (simp only: if_True sum.case simp_thms)
          show ?thesis
          proof (cases "ring_space (w_cmd_ring w2) = 0")
            case True
            then have "f sched Cmd ?w3 = Some res" using b by simp
            from 1(1) [OF this] p3 pl show ?thesis by blast
          next
            case False
            then show ?thesis using b p3 s3 by auto
          qed
        qed
      qed
    qed
  qed
  then show ?thesis using assms(2,3) poll by blast
qed

lemma occupancy:
  assumes "ring_inv cb sb w"
  shows "nD w \<le> nS w" "nS w \<le> nD w + 127" "nP w \<le> nH w + 127" "length (flying w) \<le> 261"
proof -
  note inv = ring_invD [OF assms]
  show ds: "nD w \<le> nS w" using inv(1) by (metis cmd_inv_def cmd_hard_def length_take min.cobounded1 nD_def nS_def)
  obtain l l' c where a: "cmd_acked w l l' c" using inv(1) by (auto simp: cmd_inv_def)
  then have "l \<le> nD w" using chain_le [of l] by (fastforce simp: cmd_acked_def)
  then show s: "nS w \<le> nD w + 127" using a by (auto simp: cmd_acked_def)
  obtain k where "nP w \<le> k + 127" "k \<le> 32 * (nH w div 32)"
    using inv(2) chain_le by (fastforce simp: status_inv_def status_hard_def)
  then show p: "nP w \<le> nH w + 127" by simp
  have "length (flying w) = (nS w - nD w) + length (rh_copy (w_hw w)) + length (rh_echo (w_hw w)) + (nP w - nH w)"
    by (simp add: flying_defs nS_def nP_def)
  moreover have "length (rh_copy (w_hw w)) \<le> 5" "length (rh_echo (w_hw w)) \<le> 2" using inv(4) by (simp_all add: shape_inv_def)
  ultimately show "length (flying w) \<le> 261" using s p by simp
qed

lemma free_completion:
  assumes "ring_inv cb sb w"
  obtains p ps where "w_freelist w = p # ps" "1 \<le> p" "p < 1024" "p \<notin> tagof ` set (flying w)" "\<not> rc_in_use (w_completion w ! p)"
    "rc_tag (w_completion w ! p) = p"
proof -
  note inv = ring_invD [OF assms]
  have m: "mset (w_freelist w) + mset (map tagof (flying w)) = mset [1..<1024]" using inv(3) by (simp add: pool_inv_def)
  have "size (mset (w_freelist w) + mset (map tagof (flying w))) = 1023" unfolding m by simp
  then have "length (w_freelist w) + length (flying w) = 1023" by simp
  then obtain p ps where f: "w_freelist w = p # ps" using occupancy(4) [OF assms] by (cases "w_freelist w") auto
  have "p \<in># mset (w_freelist w) + mset (map tagof (flying w))" using f by simp
  then have r: "1 \<le> p" "p < 1024" unfolding m by auto
  have n: "p \<notin> tagof ` set (flying w)" using pool_distinct(3) [OF inv(3)] f by auto
  from that [OF f r n] show ?thesis using inv(3) r n by (simp add: pool_inv_def)
qed

definition sent_one :: "nat \<Rightarrow> item \<Rightarrow> finish_fn option \<Rightarrow> nat \<Rightarrow> ring_world \<Rightarrow> ring_world" where
  "sent_one cb cmd fp arg w =
     (let p = hd (w_freelist w); it = cmd[7 := of_nat p] in
      w\<lparr>w_freelist := tl (w_freelist w),
        w_completion := (w_completion w)[p := (w_completion w ! p)\<lparr>rc_in_use := True, rc_finish := fp, rc_arg := arg\<rparr>],
        w_cmd_ring := (w_cmd_ring w)\<lparr>sr_first := slot (Suc (nS w)), sr_cached_space := sr_cached_space (w_cmd_ring w) - 64\<rparr>,
        w_bufs := (w_bufs w)(cb := put_item (w_bufs w cb) (slot (nS w)) it),
        w_sent := w_sent w @ [it]\<rparr>)"

lemma put_command_slot:
  assumes "sr_base (w_cmd_ring v) = cb" and "sr_first (w_cmd_ring v) = slot i" and "sr_size (w_cmd_ring v) = 8192"
    and "64 \<le> sr_cached_space (w_cmd_ring v)" and "sr_cached_space (w_cmd_ring v) < 2 ^ 32" and "length (w_bufs v cb) = 1024"
  shows "put_command Cmd it v = Inr (v\<lparr>
     w_cmd_ring := (w_cmd_ring v)\<lparr>sr_first := slot (Suc i), sr_cached_space := sr_cached_space (w_cmd_ring v) - 64\<rparr>,
     w_bufs := (w_bufs v)(cb := put_item (w_bufs v cb) (slot i) it), w_sent := w_sent v @ [it]\<rparr>)"
proof -
  have p: "(2 :: nat) ^ 32 = 4294967296" by simp
  have e: "(if (slot i + 64) mod 2 ^ 32 = 8192 then 0 else (slot i + 64) mod 2 ^ 32) = slot (Suc i)"
    unfolding p by (rule slot_step)
  have "sr_cached_space (w_cmd_ring v) + 2 ^ 32 - 64 = (sr_cached_space (w_cmd_ring v) - 64) + 2 ^ 32" using assms(4) by simp
  then have c: "(sr_cached_space (w_cmd_ring v) + 2 ^ 32 - 64) mod 2 ^ 32 = sr_cached_space (w_cmd_ring v) - 64"
    using assms(5) by (simp only: mod_add_self2) simp
  have l: "slot i div 8 + 8 \<le> length (w_bufs v cb)" using slot_word_le [of i] assms(6) by simp
  show ?thesis
    unfolding put_command_def Let_def the_ring_def set_ring_def ring_name.case assms(1,2,3) e c using l by simp
qed

lemma tagof_update: "length it = 8 \<Longrightarrow> p < 1024 \<Longrightarrow> tagof (it[7 := of_nat p]) = p"
proof -
  assume l: "length it = 8" and p: "p < 1024"
  have "unat (of_nat p AND (0xffff :: u64)) = p"
  proof -
    have "(of_nat p :: u64) AND 0xffff = take_bit 16 (of_nat p)" by (simp add: take_bit_eq_mask mask_eq_exp_minus_1)
    also have "\<dots> = of_nat p" using p by (simp add: take_bit_of_nat take_bit_nat_eq_self)
    finally show ?thesis using p by (simp add: unat_of_nat_small)
  qed
  then show ?thesis using l by (simp add: tagof_def)
qed

lemma sent_one_result:
  assumes "ring_inv cb sb w" and "sr_cached_space (w_cmd_ring w) \<noteq> 0"
  shows "rbind (get_free_completion w) (\<lambda>(p, w). case p of None \<Rightarrow> Inl AssertFailed
     | Some p \<Rightarrow> put_command Cmd (cmd[7 := of_nat (rc_tag (w_completion w ! p))])
         (w\<lparr>w_completion := (w_completion w)[p := (w_completion w ! p)\<lparr>rc_finish := fp, rc_arg := arg\<rparr>]\<rparr>)) =
     Inr (sent_one cb cmd fp arg w)"
proof -
  note inv = ring_invD [OF assms(1)]
  obtain p ps where p: "w_freelist w = p # ps" "p < 1024" "\<not> rc_in_use (w_completion w ! p)" "rc_tag (w_completion w ! p) = p"
    by (rule free_completion [OF assms(1)])
  have len: "length (w_completion w) = 1024" "length (w_bufs w cb) = 1024" using inv by (simp_all add: pool_inv_def cmd_inv_def cmd_mem_def)
  have soft: "sr_base (w_cmd_ring w) = cb" "sr_first (w_cmd_ring w) = slot (nS w)" "sr_size (w_cmd_ring w) = 8192"
    using inv(1) by (simp_all add: cmd_inv_def cmd_soft_def)
  have "64 \<le> sr_cached_space (w_cmd_ring w)" by (rule cached_positive [OF inv(1) assms(2)])
  moreover have "sr_cached_space (w_cmd_ring w) < 2 ^ 32" using inv(1) by (auto simp: cmd_inv_def cmd_acked_def)
  ultimately show ?thesis
    using p len by (simp add: get_free_completion_def put_command_slot [of _ cb "nS w"] soft sent_one_def Let_def)
qed

lemma good_command_update: "length it = 8 \<Longrightarrow> good_command cb sb (it[7 := v]) = good_command cb sb it"
  by (simp add: good_command_def cmdifc_def copy_count_def)

lemma sent_one_inv:
  assumes "ring_inv cb sb w" and "sr_cached_space (w_cmd_ring w) \<noteq> 0" and "length cmd = 8" and "good_command cb sb cmd"
    and "fp = Some Echo_finish \<longrightarrow> arg \<noteq> 0"
  shows "ring_inv cb sb (sent_one cb cmd fp arg w)" (is "ring_inv cb sb ?v")
proof -
  note inv = ring_invD [OF assms(1)]
  obtain p ps where p: "w_freelist w = p # ps" "1 \<le> p" "p < 1024" "p \<notin> tagof ` set (flying w)"
    "rc_tag (w_completion w ! p) = p"
    by (rule free_completion [OF assms(1)])
  define it where "it = cmd[7 := of_nat p]"
  have it: "length it = 8" "tagof it = p" "tagged it" "good_command cb sb it"
    using assms(3,4) p(2,3) by (simp_all add: it_def tagof_update good_command_update tagged_def)
  have room: "Suc (nS w) \<le> nD w + 127" "64 \<le> sr_cached_space (w_cmd_ring w)"
    by (rule cached_positive [OF inv(1) assms(2)])+
  have v: "w_freelist ?v = ps" "w_completion ?v = (w_completion w)[p := (w_completion w ! p)\<lparr>rc_in_use := True, rc_finish := fp, rc_arg := arg\<rparr>]"
    "w_cmd_ring ?v = (w_cmd_ring w)\<lparr>sr_first := slot (Suc (nS w)), sr_cached_space := sr_cached_space (w_cmd_ring w) - 64\<rparr>"
    "w_bufs ?v = (w_bufs w)(cb := put_item (w_bufs w cb) (slot (nS w)) it)" "w_sent ?v = w_sent w @ [it]"
    "w_hw ?v = w_hw w" "w_status_ring ?v = w_status_ring w" "w_handled ?v = w_handled w" "w_ring_init_done ?v = w_ring_init_done w"
    by (simp_all add: sent_one_def Let_def p(1) it_def)
  have ds: "nD w \<le> nS w" by (rule occupancy [OF assms(1)])
  have cnt: "nS ?v = Suc (nS w)" "nD ?v = nD w" "nF ?v = nF w" "nP ?v = nP w" "nH ?v = nH w" "waiting ?v = waiting w @ [it]"
    "unread ?v = unread w"
    using ds by (simp_all add: counters flying_defs v)
  have cs: "cb \<noteq> sb" using inv(4) by (simp add: shape_inv_def)
  have "cmd_soft cb ?v" using inv(1) by (simp add: cmd_inv_def cmd_soft_def cnt v)
  moreover have "cmd_hard cb ?v"
    using inv(1) ds by (simp add: cmd_inv_def cmd_hard_def cnt v nS_def)
  moreover have "\<exists>t t'. cmd_started ?v t t'"
    using inv(1) le_SucI by (fastforce simp: cmd_inv_def cmd_started_def cnt v)
  moreover have "\<exists>l l' c. cmd_acked ?v l l' c"
  proof -
    obtain l l' c where a: "cmd_acked w l l' c" using inv(1) by (auto simp: cmd_inv_def)
    have "1 \<le> c" using a room(2) by (auto simp: cmd_acked_def)
    then have "64 * c - 64 = 64 * (c - 1)" "c - 1 + (Suc (nS w) - l) \<le> 127" using a by (auto simp: cmd_acked_def)
    then have "cmd_acked ?v l l' (c - 1)" using a by (simp add: cmd_acked_def cnt v)
    then show ?thesis by blast
  qed
  moreover have "cmd_mem cb ?v"
  proof -
    have mem: "length (w_bufs w cb) = 1024"
      "\<And>i. nD w \<le> i \<Longrightarrow> i < nS w \<Longrightarrow> item_at (w_bufs w cb) (slot i) = w_sent w ! i"
      using inv(1) by (auto simp: cmd_inv_def cmd_mem_def)
    have "item_at (w_bufs ?v cb) (slot i) = w_sent ?v ! i" if "nD w \<le> i" "i < Suc (nS w)" for i
    proof (cases "i = nS w")
      case True
      then show ?thesis using mem(1) it(1) by (simp add: v item_at_put_same nS_def)
    next
      case False
      then have "slot (nS w) \<noteq> slot i" using slot_inj [of i "nS w"] that room(1) by fastforce
      then show ?thesis using False that mem it(1) by (simp add: v item_at_put_other nS_def nth_append)
    qed
    then show ?thesis using mem(1) it(1) by (simp add: cmd_mem_def cnt) (simp add: v)
  qed
  moreover have "status_inv sb ?v" using inv(2) cs by (simp add: status_defs cnt v)
  moreover have "pool_inv ?v"
  proof -
    have "mset (flying ?v) = add_mset it (mset (flying w))" by (simp add: flying_def cnt v)
    then have f: "mset (map tagof (flying ?v)) = add_mset p (mset (map tagof (flying w)))" by (simp add: it(2))
    then have g: "tagof ` set (flying ?v) = insert p (tagof ` set (flying w))" by (metis set_mset_add_mset_insert set_mset_mset list.set_map)
    have "length (w_completion w) = 1024" using inv(3) by (simp add: pool_inv_def)
    then show ?thesis using inv(3) p assms(5) unfolding pool_inv_def f g v by (auto simp: nth_list_update)
  qed
  moreover have "shape_inv cb sb ?v" using inv(4) it by (simp add: shape_inv_def cnt v flying_def)
  ultimately show ?thesis by (simp add: ring_inv_def cmd_inv_def)
qed

lemma ring_send_inv:
  assumes "ring_inv cb sb w" and "length cmd = 8" and "good_command cb sb cmd" and "fp = Some Echo_finish \<longrightarrow> arg \<noteq> 0"
  shows "ring_send sched Cmd cmd fp arg w = Inl NoReturn \<or>
     (\<exists>w'. ring_inv cb sb w' \<and> w_sent w' = w_sent w \<and> sr_cached_space (w_cmd_ring w') \<noteq> 0 \<and>
        ring_send sched Cmd cmd fp arg w = Inr (sent_one cb cmd fp arg w') \<and> ring_inv cb sb (sent_one cb cmd fp arg w'))"
proof -
  let ?P = "\<lambda>v. ring_inv cb sb v \<and> w_sent v = w_sent w"
  have fs: "sr_first (w_cmd_ring w) < sr_size (w_cmd_ring w)"
    using assms(1) slot_less [of "nS w"] by (simp add: ring_inv_def cmd_inv_def cmd_soft_def)
  have rid: "sr_ringid (w_cmd_ring v) = 0" if "ring_inv cb sb v" for v
    using that by (simp add: ring_inv_def cmd_inv_def cmd_soft_def)
  show ?thesis
  proof (cases "send_loop sched Cmd w")
    case None
    then show ?thesis using fs by (simp add: ring_send_def the_ring_def returned_def)
  next
    case (Some res)
    have "(\<exists>w'. res = Inr w' \<and> ?P w' \<and> sr_cached_space (w_cmd_ring w') \<noteq> 0) \<or> res = Inl NoReturn"
    proof (rule send_loop_inv [where P = ?P, OF Some])
      show "?P w" using assms(1) by simp
      fix v assume v: "?P v"
      show "\<exists>w'. StatusPoll sched v = Inr w' \<and> ?P w'"
        using StatusPoll_inv [of cb sb v sched] v polled_sent by simp
      show "?P (request (GetReg (sr_ringid (w_cmd_ring v)) REG_LASTACK) (v\<lparr>w_getresult_flag := False\<rparr>))"
        using v rid request_inv [of cb sb "v\<lparr>w_getresult_flag := False\<rparr>" "GetReg 0 REG_LASTACK"] by (simp add: request_def)
      show "?P (set_ring Cmd ((w_cmd_ring v)\<lparr>sr_cached_space := ring_space (w_cmd_ring v)\<rparr>) v)"
        using v space_inv by (simp add: set_ring_def)
    qed simp
    then show ?thesis
    proof
      assume "res = Inl NoReturn"
      then show ?thesis using Some fs by (simp add: ring_send_def the_ring_def returned_def)
    next
      assume "\<exists>w'. res = Inr w' \<and> ?P w' \<and> sr_cached_space (w_cmd_ring w') \<noteq> 0"
      then obtain w' where w': "res = Inr w'" "ring_inv cb sb w'" "w_sent w' = w_sent w" "sr_cached_space (w_cmd_ring w') \<noteq> 0" by blast
      then have "ring_send sched Cmd cmd fp arg w = Inr (sent_one cb cmd fp arg w')"
        using Some fs sent_one_result [OF w'(2,4), where cmd = cmd and fp = fp and arg = arg] by (simp add: ring_send_def the_ring_def returned_def)
      then show ?thesis using w' sent_one_inv [OF w'(2,4) assms(2-4)] by blast
    qed
  qed
qed

end
