(* ===== verification/Ring_Live.thy ===== *)
theory Ring_Live
  imports Ring_Correct
begin

text \<open>
  Progress of the ring example.  The work that is left, as a number, falls with every action of
  the hardware and every result handled; while a command is under way some action is possible.
\<close>

section \<open>The work left\<close>

definition is_get :: "ring_req \<Rightarrow> bool" where
  "is_get q = (case q of GetReg _ _ \<Rightarrow> True | _ \<Rightarrow> False)"

definition is_got :: "ring_ind \<Rightarrow> bool" where
  "is_got i = (case i of GetResult _ _ _ \<Rightarrow> True | _ \<Rightarrow> False)"

text \<open>Inquiries count apart: \<open>ring_send\<close> makes a new one whenever it finds the ring full.\<close>

definition moves :: "ring_world \<Rightarrow> nat" where
  "moves w = 6 * (nS w - nF w) + 5 * length (rh_reads (w_hw w)) + 4 * (length (rh_copy (w_hw w)) + length (rh_echo (w_hw w))) +
     3 * (nP w - nH w)"

definition chores :: "ring_world \<Rightarrow> nat" where
  "chores w = 2 * length (filter (\<lambda>q. \<not> is_get q) (rh_requests (w_hw w))) + length (filter (\<lambda>i. \<not> is_got i) (rh_inds (w_hw w)))"

definition inquiries :: "ring_world \<Rightarrow> nat" where
  "inquiries w = 2 * length (filter is_get (rh_requests (w_hw w))) + length (filter is_got (rh_inds (w_hw w)))"

definition work :: "ring_world \<Rightarrow> nat" where "work w = moves w + chores w"
definition all_work :: "ring_world \<Rightarrow> nat" where "all_work w = work w + inquiries w"

lemmas work_defs = moves_def chores_def inquiries_def work_def all_work_def

text \<open>An action that answers an inquiry, and nothing else.\<close>

definition asks :: "hw_act \<Rightarrow> ring_world \<Rightarrow> bool" where
  "asks act w \<longleftrightarrow> act = DoRequest \<and> is_get (hd (rh_requests (w_hw w)))"

abbreviation can :: "hw_act \<Rightarrow> ring_world \<Rightarrow> bool" where
  "can act w \<equiv> hw_enabled act (w_hw w, w_bufs w)"

lemma world_step_idle: "\<not> can act w \<Longrightarrow> world_step act w = w"
  by (simp add: world_step_def hw_step_def with_hw_def)

lemma world_step_moves:
  assumes "ring_inv cb sb w" and "can act w" and "act \<noteq> DoRequest"
  shows "moves (world_step act w) < moves w" "rh_requests (w_hw (world_step act w)) = rh_requests (w_hw w)"
    "rh_inds (w_hw (world_step act w)) = rh_inds (w_hw w)"
proof -
  note inv = ring_invD [OF assms(1)]
  have ph: "nH w \<le> nP w" using inv(2) by (simp add: status_inv_def status_soft_def)
  have "moves (world_step act w) < moves w \<and> rh_requests (w_hw (world_step act w)) = rh_requests (w_hw w) \<and>
     rh_inds (w_hw (world_step act w)) = rh_inds (w_hw w)"
  proof (cases act)
    case DoFetch
    obtain t t' where t: "cmd_started w t t'" using inv(1) by (auto simp: cmd_inv_def)
    have "nF w < t" using t inv(1) assms(2) DoFetch
      by (auto simp: cmd_started_def cmd_inv_def cmd_hard_def rb_notEmpty_def le_less hw_enabled_def)
    moreover have "t \<le> nS w" using t chain_le [of t] by (fastforce simp: cmd_started_def)
    ultimately show ?thesis using assms(2) DoFetch by (simp add: world_step_def hw_step_def hw_effect_def moves_def counters)
  next
    case DoDispatch
    then obtain x xs where "rh_reads (w_hw w) = x # xs" using assms(2) by (auto simp: hw_enabled_def neq_Nil_conv)
    then show ?thesis using assms(2) DoDispatch
      by (simp add: world_step_def hw_step_def hw_effect_def moves_def counters Let_def hw_enabled_def split: engine.splits)
  next
    case DoCopy
    then obtain x xs where "rh_copy (w_hw w) = x # xs" using assms(2) by (auto simp: hw_enabled_def neq_Nil_conv)
    then show ?thesis using assms(2) ph DoCopy
      by (simp add: world_step_def hw_step_def hw_effect_def moves_def counters write_status_def)
  next
    case DoEcho
    then obtain x xs where "rh_echo (w_hw w) = x # xs" using assms(2) by (auto simp: hw_enabled_def neq_Nil_conv)
    then show ?thesis using assms(2) ph DoEcho
      by (simp add: world_step_def hw_step_def hw_effect_def moves_def counters write_status_def)
  qed (use assms(3) in simp)
  then show "moves (world_step act w) < moves w" "rh_requests (w_hw (world_step act w)) = rh_requests (w_hw w)"
    "rh_inds (w_hw (world_step act w)) = rh_inds (w_hw w)"
    by blast+
qed

lemma world_step_request:
  assumes "ring_inv cb sb w" and "rh_requests (w_hw w) = q # qs"
  shows "moves (world_step DoRequest w) = moves w" "rh_requests (w_hw (world_step DoRequest w)) = qs"
    "rh_inds (w_hw (world_step DoRequest w)) = rh_inds (w_hw w) @
       (if is_get q then [GetResult 0 REG_LASTACK (rb_get REG_LASTACK (rh_cmd (w_hw w)))] else [])"
    "running_req q"
proof -
  show r: "running_req q" using ring_invD(4) [OF assms(1)] assms(2) by (simp add: shape_inv_def)
  have h: "w_hw (world_step DoRequest w) = ring_request q ((w_hw w)\<lparr>rh_requests := qs\<rparr>)"
    using assms(2) by (simp add: world_step_def hw_step_def hw_enabled_def hw_effect_def)
  have "w_handled (world_step DoRequest w) = w_handled w" "w_sent (world_step DoRequest w) = w_sent w" by (simp_all add: world_step_def)
  then show "moves (world_step DoRequest w) = moves w" by (simp add: moves_def counters h ring_request_same [OF r])
  show "rh_requests (w_hw (world_step DoRequest w)) = qs" by (simp add: h ring_request_same [OF r])
  show "rh_inds (w_hw (world_step DoRequest w)) = rh_inds (w_hw w) @
       (if is_get q then [GetResult 0 REG_LASTACK (rb_get REG_LASTACK (rh_cmd (w_hw w)))] else [])"
    using r by (cases q) (simp_all add: h ring_request_def is_get_def running_req_def)
qed

lemma world_step_work:
  assumes "ring_inv cb sb w" and "can act w"
  shows "all_work (world_step act w) < all_work w" "work (world_step act w) \<le> work w"
    "\<not> asks act w \<Longrightarrow> work (world_step act w) < work w"
proof -
  have "all_work (world_step act w) < all_work w \<and> work (world_step act w) \<le> work w \<and>
     (\<not> asks act w \<longrightarrow> work (world_step act w) < work w)"
  proof (cases "act = DoRequest")
    case True
    then obtain q qs where q: "rh_requests (w_hw w) = q # qs" using assms(2) by (auto simp: hw_enabled_def neq_Nil_conv)
    note r = world_step_request [OF assms(1) q]
    show ?thesis using r q True by (cases "is_get q") (simp_all add: work_def all_work_def chores_def inquiries_def asks_def is_got_def)
  next
    case False
    note r = world_step_moves [OF assms False]
    then show ?thesis by (simp add: work_def all_work_def chores_def inquiries_def)
  qed
  then show "all_work (world_step act w) < all_work w" "work (world_step act w) \<le> work w"
    "\<not> asks act w \<Longrightarrow> work (world_step act w) < work w"
    by blast+
qed

lemma world_step_inv: "ring_inv cb sb w \<Longrightarrow> ring_inv cb sb (world_step act w)"
  by (simp add: world_step_def hw_step_inv)

lemma fold_work_le:
  assumes "ring_inv cb sb w"
  shows "work (fold world_step acts w) \<le> work w" "all_work (fold world_step acts w) \<le> all_work w"
proof -
  have "work (fold world_step acts w) \<le> work w \<and> all_work (fold world_step acts w) \<le> all_work w"
    using assms
  proof (induction acts arbitrary: w)
    case (Cons a acts)
    have "work (world_step a w) \<le> work w \<and> all_work (world_step a w) \<le> all_work w"
      using world_step_work [OF Cons.prems, of a] by (cases "can a w") (auto simp: world_step_idle)
    with Cons.IH [OF world_step_inv [OF Cons.prems, of a]] show ?case by (simp add: order_trans)
  qed simp
  then show "work (fold world_step acts w) \<le> work w" "all_work (fold world_step acts w) \<le> all_work w" by blast+
qed

text \<open>If some action can be done and every action is tried, work is done.\<close>

lemma fold_all_work_less:
  assumes "ring_inv cb sb w" and "can act w" and "act \<in> set acts"
  shows "all_work (fold world_step acts w) < all_work w"
  using assms
proof (induction acts arbitrary: w)
  case (Cons a acts)
  show ?case
  proof (cases "can a w")
    case True
    have "all_work (fold world_step acts (world_step a w)) \<le> all_work (world_step a w)"
      by (rule fold_work_le [OF world_step_inv [OF Cons.prems(1)]])
    then show ?thesis using world_step_work(1) [OF Cons.prems(1) True] by simp
  next
    case False
    then have "act \<in> set acts" using Cons.prems by auto
    then show ?thesis using Cons.IH [OF Cons.prems(1,2)] False by (simp add: world_step_idle)
  qed
qed simp

section \<open>Some action is possible\<close>

text \<open>A command that the hardware has been told about, or its result, is under way.\<close>

definition busy :: "ring_world \<Rightarrow> bool" where
  "busy w \<longleftrightarrow> (\<exists>t t'. cmd_started w t t' \<and> (nD w < t' \<or> rh_copy (w_hw w) \<noteq> [] \<or> rh_echo (w_hw w) \<noteq> [] \<or> nH w < nP w))"

definition gets_last :: "ring_world \<Rightarrow> bool" where
  "gets_last w \<longleftrightarrow> (\<exists>q. filter is_get q = [] \<and> (rh_requests (w_hw w) = q \<or> rh_requests (w_hw w) = q @ [GetReg 0 REG_LASTACK]))"

lemma only_gets:
  assumes "list_all running_req qs" and "filter (\<lambda>q. \<not> is_get q) qs = []"
  shows "firsts qs = []" "lasts qs = []" "HwEnable 1 \<notin> set qs"
  using assms
  by (induction qs) (auto simp: firsts_def lasts_def is_get_def running_req_def split: ring_req.splits if_splits)

lemma some_action:
  assumes "ring_inv cb sb w" and "busy w" and "filter (\<lambda>q. \<not> is_get q) (rh_requests (w_hw w)) = []" and "\<not> nH w < nP w"
  obtains act where "act \<noteq> DoRequest" "can act w"
proof -
  note inv = ring_invD [OF assms(1)]
  have rr: "list_all running_req (rh_requests (w_hw w))" using inv(4) by (simp add: shape_inv_def)
  note og = only_gets [OF rr assms(3)]
  have hp: "nH w = nP w" using assms(4) inv(2) by (simp add: status_inv_def status_soft_def)
  obtain k where k: "status_hard sb w k" using inv(2) by (auto simp: status_inv_def)
  then have kk: "k = 32 * (nH w div 32)" by (simp add: status_hard_def og)
  have nf: "rb_notFull (rh_status (w_hw w))"
  proof -
    have "slot (Suc (nP w)) \<noteq> slot k"
    proof
      assume e: "slot (Suc (nP w)) = slot k"
      have "k \<le> Suc (nP w)" "Suc (nP w) < k + 128" unfolding kk hp [symmetric] by presburger+
      then have "k = Suc (nP w)" using slot_inj [of k "Suc (nP w)"] e by simp
      then show False using kk hp by presburger
    qed
    then show ?thesis using k by (simp add: rb_notFull_def status_hard_def rb_advance_slot)
  qed
  show ?thesis
  proof (cases "rh_echo (w_hw w) = []")
    case False
    then show ?thesis using nf that [of DoEcho] by (simp add: hw_enabled_def)
  next
    case ne: True
    show ?thesis
    proof (cases "rh_copy (w_hw w) = []")
      case False
      then have "copy_count (hd (rh_copy (w_hw w))) mod 8 = 0"
        using inv(4) by (cases "rh_copy (w_hw w)") (auto simp: shape_inv_def good_command_def)
      then show ?thesis using nf False that [of DoCopy] by (simp add: hw_enabled_def)
    next
      case nc: True
      show ?thesis
      proof (cases "rh_reads (w_hw w) = []")
        case False
        then show ?thesis using ne nc that [of DoDispatch] by (simp add: hw_enabled_def engine_room_def split: engine.splits)
      next
        case nr: True
        obtain t t' where t: "cmd_started w t t'" "nD w < t'" using assms(2,4) ne nc by (auto simp: busy_def)
        have tt: "t = t'" using t(1) by (simp add: cmd_started_def og)
        have fd: "nF w = nD w" using nr by (simp add: nF_def)
        have "t' \<le> nS w" using t(1) by (simp add: cmd_started_def)
        then have "t' < nD w + 128" using occupancy(2) [OF assms(1)] by simp
        then have "slot t' \<noteq> slot (nD w)" using slot_inj [of "nD w" t'] t(2) by fastforce
        then have "rb_notEmpty (rh_cmd (w_hw w))"
          using t(1) inv(1) tt fd by (simp add: rb_notEmpty_def cmd_started_def cmd_inv_def cmd_hard_def)
        moreover have "rh_enabled (w_hw w)" using inv(4) og by (simp add: shape_inv_def)
        ultimately show ?thesis using nr that [of DoFetch] by (simp add: hw_enabled_def)
      qed
    qed
  qed
qed

lemma can_after_get:
  assumes "ring_inv cb sb w" and "rh_requests (w_hw w) = GetReg c r # qs" and "act \<noteq> DoRequest"
  shows "can act (world_step DoRequest w) = can act w"
proof -
  have "w_hw (world_step DoRequest w) = ring_request (GetReg c r) ((w_hw w)\<lparr>rh_requests := qs\<rparr>)"
    "w_bufs (world_step DoRequest w) = w_bufs w"
    using assms(2) by (simp_all add: world_step_def hw_step_def hw_enabled_def hw_effect_def)
  then show ?thesis
    using assms(3) by (cases act) (auto simp: hw_enabled_def ring_request_def engine_room_def next_command_def split: engine.splits)
qed

lemma is_get_GetReg: "is_get q \<Longrightarrow> \<exists>c r. q = GetReg c r"
  by (cases q) (simp_all add: is_get_def)

lemma fold_work_less:
  assumes "ring_inv cb sb w" and "gets_last w" and "can act w" and "\<not> asks act w" and "act \<in> set acts"
  shows "work (fold world_step acts w) < work w"
  using assms
proof (induction acts arbitrary: w)
  case (Cons a acts)
  have inv': "ring_inv cb sb (world_step a w)" by (rule world_step_inv [OF Cons.prems(1)])
  consider "\<not> can a w" | "can a w" "\<not> asks a w" | "can a w" "asks a w" by blast
  then show ?case
  proof cases
    case 1
    then have "act \<in> set acts" using Cons.prems by auto
    then show ?thesis using Cons.IH [OF Cons.prems(1-4)] 1 by (simp add: world_step_idle)
  next
    case 2
    have "work (fold world_step acts (world_step a w)) \<le> work (world_step a w)" by (rule fold_work_le [OF inv'])
    then show ?thesis using world_step_work(3) [OF Cons.prems(1) 2] by simp
  next
    case 3
    then have a: "a = DoRequest" by (simp add: asks_def)
    have ne: "rh_requests (w_hw w) \<noteq> []" "is_get (hd (rh_requests (w_hw w)))" using 3 by (simp_all add: asks_def a hw_enabled_def)
    then have q: "rh_requests (w_hw w) = [GetReg 0 REG_LASTACK]"
      using Cons.prems(2) by (auto simp: gets_last_def filter_empty_conv hd_append split: if_splits)
    have an: "act \<noteq> DoRequest" using Cons.prems(4) ne by (auto simp: asks_def)
    have "gets_last (world_step a w)" using world_step_request(2) [OF Cons.prems(1) q] by (simp add: gets_last_def a)
    moreover have "can act (world_step a w)" using can_after_get [OF Cons.prems(1) q an] Cons.prems(3) a by simp
    moreover have "\<not> asks act (world_step a w)" using an by (simp add: asks_def)
    moreover have "act \<in> set acts" using Cons.prems(5) an a by simp
    ultimately have "work (fold world_step acts (world_step a w)) < work (world_step a w)" by (rule Cons.IH [OF inv'])
    then show ?thesis using world_step_work(2) [OF Cons.prems(1) 3(1)] by simp
  qed
qed simp

section \<open>One poll\<close>

lemma world_step_pushed: "length (rh_pushed (w_hw w)) \<le> length (rh_pushed (w_hw (world_step act w)))"
proof (cases "can act w")
  case True
  then show ?thesis
    by (cases act) (auto simp: world_step_def hw_step_def hw_effect_def write_status_def ring_request_def Let_def
        split: ring_req.splits engine.splits)
next
  case False
  then show ?thesis by (simp add: world_step_idle)
qed

lemma fold_pushed: "nP w \<le> nP (fold world_step acts w)"
  unfolding nP_def by (induction acts arbitrary: w) (auto intro: order_trans [OF world_step_pushed])

lemma portal_event_hw [simp]: "w_hw (portal_event w) = (w_hw w)\<lparr>rh_inds := []\<rparr>"
  by (simp add: portal_event_def)

lemma portal_event_same [simp]:
  "w_sent (portal_event w) = w_sent w" "w_handled (portal_event w) = w_handled w" "w_clock (portal_event w) = w_clock w"
  "w_completion (portal_event w) = w_completion w" "w_flags (portal_event w) = w_flags w" "w_events (portal_event w) = w_events w"
  by (simp_all add: portal_event_def)

lemma portal_event_counts [simp]:
  "nS (portal_event w) = nS w" "nD (portal_event w) = nD w" "nF (portal_event w) = nF w" "nP (portal_event w) = nP w"
  "nH (portal_event w) = nH w" "moves (portal_event w) = moves w"
  by (simp_all add: counters moves_def)

lemma portal_event_work: "work (portal_event w) \<le> work w" "all_work (portal_event w) + length (rh_inds (w_hw w)) \<le> all_work w"
  using sum_length_filter_compl [of is_got "rh_inds (w_hw w)"]
  by (simp_all add: work_def all_work_def chores_def inquiries_def)

lemma after_one_counts [simp]:
  "nS (after_one sb w) = nS w" "nD (after_one sb w) = nD w" "nF (after_one sb w) = nF w" "nP (after_one sb w) = nP w"
  "nH (after_one sb w) = Suc (nH w)"
  by (simp_all add: counters) (simp add: after_one_def Let_def)

lemma after_one_requests:
  "rh_requests (w_hw (after_one sb w)) = rh_requests (w_hw w) @ (if Suc (nH w) mod 32 = 0 then [SetStatusLast (slot (Suc (nH w)))] else [])"
  by (simp add: after_one_def Let_def)

lemma after_one_work:
  assumes "nH w < nP w"
  shows "work (after_one sb w) < work w" "all_work (after_one sb w) < all_work w"
proof -
  have "nP w - nH w = Suc (nP w - Suc (nH w))" using assms by simp
  then show "work (after_one sb w) < work w" "all_work (after_one sb w) < all_work w"
    by (simp_all add: work_defs after_one_requests is_get_def)
qed

lemma hw_run_work: "work (w\<lparr>w_clock := t\<rparr>) = work w" "all_work (w\<lparr>w_clock := t\<rparr>) = all_work w" "nP (w\<lparr>w_clock := t\<rparr>) = nP w"
  "nH (w\<lparr>w_clock := t\<rparr>) = nH w"
  by (simp_all add: work_defs counters)

lemma polled_work:
  assumes "ring_inv cb sb w"
  shows "work (polled sb sched w) \<le> work (fold world_step (sched (w_clock w)) w)"
    "all_work (polled sb sched w) + length (rh_inds (w_hw (fold world_step (sched (w_clock w)) w)))
       \<le> all_work (fold world_step (sched (w_clock w)) w)"
    "nH w < nP w \<Longrightarrow> work (polled sb sched w) < work (fold world_step (sched (w_clock w)) w)"
proof -
  define v where "v = (fold world_step (sched (w_clock w)) w)\<lparr>w_clock := w_clock w + 1\<rparr>"
  have p: "polled sb sched w = (if nH v < nP v then after_one sb (portal_event v) else portal_event v)"
    by (simp add: polled_def Let_def hw_run_fold v_def)
  note e = portal_event_work [of v] and o = after_one_work [of "portal_event v" sb]
  have vw: "work v = work (fold world_step (sched (w_clock w)) w)" "all_work v = all_work (fold world_step (sched (w_clock w)) w)"
    "w_hw v = w_hw (fold world_step (sched (w_clock w)) w)"
    by (simp_all add: v_def hw_run_work)
  show "work (polled sb sched w) \<le> work (fold world_step (sched (w_clock w)) w)" using p e o vw by (cases "nH v < nP v") simp_all
  show "all_work (polled sb sched w) + length (rh_inds (w_hw (fold world_step (sched (w_clock w)) w)))
       \<le> all_work (fold world_step (sched (w_clock w)) w)" using p e o vw by (cases "nH v < nP v") simp_all
  assume "nH w < nP w"
  then have "nH v < nP v" using fold_pushed [of w "sched (w_clock w)"] by (simp add: v_def hw_run_work) (simp add: nH_def)
  then show "work (polled sb sched w) < work (fold world_step (sched (w_clock w)) w)" using p e o vw by simp
qed

lemma polled_work_le:
  assumes "ring_inv cb sb w"
  shows "work (polled sb sched w) \<le> work w" "all_work (polled sb sched w) \<le> all_work w"
  using polled_work(1,2) [OF assms, of sched] fold_work_le [OF assms, of "sched (w_clock w)"] by simp_all

text \<open>A look at the hardware during which it tries everything.\<close>

definition full_look :: "schedule \<Rightarrow> nat \<Rightarrow> bool" where
  "full_look sched t \<longleftrightarrow> set (sched t) = UNIV"

lemma polled_work_less:
  assumes "ring_inv cb sb w" and "gets_last w" and "busy w" and "full_look sched (w_clock w)"
  shows "work (polled sb sched w) < work w"
proof (cases "\<exists>act. can act w \<and> \<not> asks act w")
  case True
  then obtain act where act: "can act w" "\<not> asks act w" by blast
  have "work (fold world_step (sched (w_clock w)) w) < work w"
    using assms(4) by (intro fold_work_less [OF assms(1,2) act]) (simp add: full_look_def)
  then show ?thesis using polled_work(1) [OF assms(1), of sched] by simp
next
  case False
  have "filter (\<lambda>q. \<not> is_get q) (rh_requests (w_hw w)) = []"
  proof -
    obtain q where q: "filter is_get q = []" "rh_requests (w_hw w) = q \<or> rh_requests (w_hw w) = q @ [GetReg 0 REG_LASTACK]"
      using assms(2) by (auto simp: gets_last_def)
    have "q = []"
    proof (rule ccontr)
      assume "q \<noteq> []"
      then have "rh_requests (w_hw w) \<noteq> []" "\<not> is_get (hd (rh_requests (w_hw w)))" using q by (auto simp: filter_empty_conv hd_append)
      then have "can DoRequest w \<and> \<not> asks DoRequest w" by (simp add: hw_enabled_def asks_def)
      then show False using False by blast
    qed
    then show ?thesis using q(2) by (auto simp: is_get_def)
  qed
  then have "nH w < nP w"
    using some_action [OF assms(1,3)] False by (metis asks_def)
  then show ?thesis using polled_work(3) [OF assms(1), of sched] fold_work_le(1) [OF assms(1), of "sched (w_clock w)"] by simp
qed

section \<open>Waiting\<close>

text \<open>Hardware that keeps running: again and again it tries everything.\<close>

definition fair :: "schedule \<Rightarrow> bool" where
  "fair sched \<longleftrightarrow> (\<forall>t. \<exists>t'\<ge>t. full_look sched t')"

lemma poll_until_ends:
  fixes m :: "ring_world \<Rightarrow> nat"
  assumes "fair sched" and "P w"
    and step: "\<And>w. P w \<Longrightarrow> \<not> fin w \<Longrightarrow> StatusPoll sched w = Inr (g w) \<and> w_clock (g w) = Suc (w_clock w) \<and> P (g w) \<and> m (g w) \<le> m w"
    and less: "\<And>w. P w \<Longrightarrow> \<not> fin w \<Longrightarrow> full_look sched (w_clock w) \<Longrightarrow> m (g w) < m w"
  shows "\<exists>w'. poll_until sched fin w = Some (Inr w') \<and> P w' \<and> fin w'"
  using assms(2)
proof (induction "m w" arbitrary: w rule: less_induct)
  case less_m: less
  define M where "M = m w"
  have IH: "\<exists>w'. poll_until sched fin v = Some (Inr w') \<and> P w' \<and> fin w'" if "m v < M" "P v" for v
    using less_m(1) that by (simp add: M_def)
  have "P v \<Longrightarrow> m v \<le> M \<Longrightarrow> full_look sched (w_clock v + d) \<Longrightarrow> \<exists>w'. poll_until sched fin v = Some (Inr w') \<and> P w' \<and> fin w'" for v d
  proof (induction d arbitrary: v)
    case 0
    show ?case
    proof (cases "fin v")
      case True
      then show ?thesis using 0 by (subst poll_until.simps) simp
    next
      case False
      note st = step [OF 0(1) False]
      have "m (g v) < M" using less [OF 0(1) False] 0 by simp
      then obtain w' where "poll_until sched fin (g v) = Some (Inr w') \<and> P w' \<and> fin w'" using IH st by blast
      then show ?thesis using False st by (subst poll_until.simps) simp
    qed
  next
    case (Suc d)
    show ?case
    proof (cases "fin v")
      case True
      then show ?thesis using Suc.prems by (subst poll_until.simps) simp
    next
      case False
      note st = step [OF Suc.prems(1) False]
      have "\<exists>w'. poll_until sched fin (g v) = Some (Inr w') \<and> P w' \<and> fin w'"
        using Suc.prems st by (intro Suc.IH) simp_all
      then show ?thesis using False st by (subst poll_until.simps) simp
    qed
  qed
  moreover obtain d where "full_look sched (w_clock w + d)" using assms(1) unfolding fair_def by (metis le_Suc_ex)
  ultimately show ?case using less_m(2) by (simp add: M_def)
qed

lemma poll_until_returns:
  fixes m :: "ring_world \<Rightarrow> nat"
  assumes "fair sched" and "P w"
    and step: "\<And>w. P w \<Longrightarrow> \<not> fin w \<Longrightarrow> ring_inv cb sb w \<and> P (polled sb sched w) \<and> m (polled sb sched w) \<le> m w"
    and less: "\<And>w. P w \<Longrightarrow> \<not> fin w \<Longrightarrow> full_look sched (w_clock w) \<Longrightarrow> m (polled sb sched w) < m w"
  shows "\<exists>w'. poll_until sched fin w = Some (Inr w') \<and> P w' \<and> fin w'"
  using assms(1,2)
proof (rule poll_until_ends [where g = "polled sb sched" and m = m])
  fix v assume v: "P v" "\<not> fin v"
  show "StatusPoll sched v = Inr (polled sb sched v) \<and> w_clock (polled sb sched v) = Suc (w_clock v) \<and> P (polled sb sched v) \<and>
      m (polled sb sched v) \<le> m v"
    using step [OF v] StatusPoll_inv(1) [of cb sb v sched] by simp
  show "m (polled sb sched v) < m v" if "full_look sched (w_clock v)" using less [OF v that] .
qed

text \<open>The commands the hardware has been told about stay the same, and counters only grow.\<close>

lemma polled_hw:
  "w_hw (polled sb sched w) =
     (let h = (w_hw (fold world_step (sched (w_clock w)) w))\<lparr>rh_inds := []\<rparr>; v = fold world_step (sched (w_clock w)) w in
      if nH v < nP v then h\<lparr>rh_requests := rh_requests h @ (if Suc (nH v) mod 32 = 0 then [SetStatusLast (slot (Suc (nH v)))] else [])\<rparr>
      else h)"
  by (simp add: polled_def Let_def hw_run_fold hw_run_work) (simp add: after_one_def Let_def counters)

lemma world_step_started:
  assumes "ring_inv cb sb w" and "\<exists>t. cmd_started w t t'"
  shows "\<exists>t. cmd_started (world_step act w) t t'"
proof (cases "can act w")
  case False
  then show ?thesis using assms(2) by (simp add: world_step_idle)
next
  case True
  note inv = ring_invD [OF assms(1)]
  obtain t where t: "cmd_started w t t'" using assms(2) by blast
  have n: "nS (world_step act w) = nS w" by (simp add: nS_def world_step_def)
  show ?thesis
  proof (cases act)
    case DoRequest
    then obtain q qs where q: "rh_requests (w_hw w) = q # qs" using True by (auto simp: hw_enabled_def neq_Nil_conv)
    have h: "w_hw (world_step DoRequest w) = ring_request q ((w_hw w)\<lparr>rh_requests := qs\<rparr>)"
      using q by (simp add: world_step_def hw_step_def hw_enabled_def hw_effect_def)
    have rq: "running_req q" using inv(4) q by (simp add: shape_inv_def)
    have f: "nF (world_step DoRequest w) = nF w" by (simp add: counters h ring_request_same [OF rq])
    show ?thesis unfolding cmd_started_def DoRequest f n [unfolded DoRequest] h
      using t rq q by (cases q)
        (auto simp: cmd_started_def running_req_def ring_request_def rb_setFirst_def rb_setLast_def slot_small intro: order_trans)
  next
    case DoFetch
    have "nF w < t" using t inv(1) True DoFetch
      by (auto simp: cmd_started_def cmd_inv_def cmd_hard_def rb_notEmpty_def le_less hw_enabled_def)
    then have "cmd_started (world_step act w) t t'" unfolding cmd_started_def n
      using t True DoFetch by (simp add: cmd_started_def world_step_def hw_step_def hw_effect_def counters rb_popfetch_def)
    then show ?thesis by blast
  next
    case DoDispatch
    then have "cmd_started (world_step act w) t t'" unfolding cmd_started_def n
      using t True by (auto simp: cmd_started_def world_step_def hw_step_def hw_effect_def counters rb_popack_def Let_def
          hw_enabled_def neq_Nil_conv split: engine.splits)
    then show ?thesis by blast
  next
    case DoCopy
    then have "cmd_started (world_step act w) t t'" unfolding cmd_started_def n
      using t True by (simp add: cmd_started_def world_step_def hw_step_def hw_effect_def counters write_status_def)
    then show ?thesis by blast
  next
    case DoEcho
    then have "cmd_started (world_step act w) t t'" unfolding cmd_started_def n
      using t True by (simp add: cmd_started_def world_step_def hw_step_def hw_effect_def counters write_status_def)
    then show ?thesis by blast
  qed
qed

lemma fold_started:
  assumes "ring_inv cb sb w" and "\<exists>t. cmd_started w t t'"
  shows "\<exists>t. cmd_started (fold world_step acts w) t t'"
  using assms
proof (induction acts arbitrary: w)
  case (Cons a acts)
  then show ?case using world_step_started world_step_inv by simp
qed simp

lemma polled_started:
  assumes "ring_inv cb sb w" and "\<exists>t. cmd_started w t t'"
  shows "\<exists>t. cmd_started (polled sb sched w) t t'"
proof -
  obtain t where t: "cmd_started (fold world_step (sched (w_clock w)) w) t t'" using fold_started [OF assms] by blast
  have "cmd_started (portal_event (hw_run sched w)) t t'" using t by (simp add: cmd_started_def hw_run_fold counters)
  then have "cmd_started (polled sb sched w) t t'" by (simp add: polled_def Let_def cmd_started_def)
  then show ?thesis by blast
qed

end
