(* ===== verification/Ring_Send.thy ===== *)
theory Ring_Send
  imports Ring_Live
begin

text \<open>
  \<open>ring_send\<close> returns as long as the hardware keeps running and has been told of a command among
  the last 126: an inquiry is answered, and a ring that was found full has moved on when it is
  looked at again.
\<close>

section \<open>Inquiries\<close>

definition asked :: "ring_world \<Rightarrow> nat" where
  "asked w = length (filter is_get (rh_requests (w_hw w))) + length (filter is_got (rh_inds (w_hw w)))"

text \<open>Every answer that has come or will come reports at least \<open>d\<close> commands fetched.\<close>

definition heard :: "nat \<Rightarrow> ring_world \<Rightarrow> bool" where
  "heard d w \<longleftrightarrow> d \<le> nD w \<and> (w_getresult_flag w \<longrightarrow> (\<exists>x. d \<le> x \<and> x \<le> nD w \<and> sr_last (w_cmd_ring w) = slot x)) \<and>
     (\<forall>i\<in>set (rh_inds (w_hw w)). is_got i \<longrightarrow> (\<exists>x. d \<le> x \<and> x \<le> nD w \<and> i = GetResult 0 REG_LASTACK (slot x)))"

lemma world_step_nD: "nD w \<le> nD (world_step act w)"
proof (cases "can act w")
  case True
  then show ?thesis
    by (cases act) (auto simp: nD_def world_step_def hw_step_def hw_effect_def write_status_def ring_request_def Let_def
        split: ring_req.splits engine.splits)
next
  case False
  then show ?thesis by (simp add: world_step_idle)
qed

lemma world_step_asked:
  assumes "ring_inv cb sb w"
  shows "asked (world_step act w) = asked w"
proof (cases "can act w")
  case True
  show ?thesis
  proof (cases "act = DoRequest")
    case t: True
    then obtain q qs where q: "rh_requests (w_hw w) = q # qs" using True by (auto simp: hw_enabled_def neq_Nil_conv)
    show ?thesis using world_step_request [OF assms q] q t by (simp add: asked_def is_got_def)
  next
    case False
    show ?thesis using world_step_moves [OF assms True False] by (simp add: asked_def)
  qed
qed (simp add: world_step_idle)

lemma world_step_heard:
  assumes "ring_inv cb sb w" and "heard d w"
  shows "heard d (world_step act w)"
proof -
  have n: "nD w \<le> nD (world_step act w)" by (rule world_step_nD)
  have same: "w_getresult_flag (world_step act w) = w_getresult_flag w" "w_cmd_ring (world_step act w) = w_cmd_ring w"
    by (simp_all add: world_step_def)
  have "\<exists>x. d \<le> x \<and> x \<le> nD w \<and> i = GetResult 0 REG_LASTACK (slot x)"
    if "i \<in> set (rh_inds (w_hw (world_step act w)))" "is_got i" for i
  proof (cases "act = DoRequest \<and> can act w")
    case True
    then obtain q qs where q: "rh_requests (w_hw w) = q # qs" by (auto simp: hw_enabled_def neq_Nil_conv)
    have "rb_get REG_LASTACK (rh_cmd (w_hw w)) = slot (nD w)"
      using ring_invD(1) [OF assms(1)] by (simp add: cmd_inv_def cmd_hard_def rb_get_def REG_LASTACK_def)
    then show ?thesis using world_step_request(3) [OF assms(1) q] that assms(2) True
      by (auto simp: heard_def split: if_splits)
  next
    case False
    then have "rh_inds (w_hw (world_step act w)) = rh_inds (w_hw w)"
      using world_step_moves(3) [OF assms(1), of act] world_step_idle [of act w] by (cases "can act w") auto
    then show ?thesis using that assms(2) by (auto simp: heard_def)
  qed
  then show ?thesis using assms(2) n unfolding heard_def same by (blast intro: order_trans)
qed

lemma fold_inquiry:
  assumes "ring_inv cb sb w"
  shows "asked (fold world_step acts w) = asked w" "heard d w \<Longrightarrow> heard d (fold world_step acts w)"
    "nD w \<le> nD (fold world_step acts w)"
  using assms
proof (induction acts arbitrary: w)
  case (Cons a acts)
  {
    case 1
    then show ?case using Cons.IH(1) [of "world_step a w"] world_step_inv world_step_asked by simp
  next
    case 2
    then show ?case using Cons.IH(2) [of "world_step a w"] world_step_inv world_step_heard by simp
  next
    case 3
    then show ?case using Cons.IH(3) [of "world_step a w"] world_step_inv world_step_nD [of w a] by (simp add: order_trans)
  }
qed simp_all

lemma fold_indication_flag: "w_getresult_flag (fold indication xs w) = (w_getresult_flag w \<or> filter is_got xs \<noteq> [])"
  by (induction xs arbitrary: w) (auto simp: indication_def setResult_def getResult_def is_got_def split: ring_ind.splits)

lemma fold_indication_ring:
  assumes "sr_ringid (w_cmd_ring w) = 0"
  shows "sr_last (w_cmd_ring (fold indication xs w)) = (if acks xs = [] then sr_last (w_cmd_ring w) else last (acks xs) mod 2 ^ 32)"
    "sr_ringid (w_cmd_ring (fold indication xs w)) = 0"
  using assms
  by (induction xs arbitrary: w) (auto simp: indication_def setResult_def getResult_def split: ring_ind.splits)

lemma last_ack:
  assumes "\<forall>i\<in>set xs. is_got i \<longrightarrow> (\<exists>x. R x \<and> i = GetResult 0 REG_LASTACK (slot x))"
  shows "acks xs = [] \<longleftrightarrow> filter is_got xs = []" "acks xs \<noteq> [] \<Longrightarrow> \<exists>x. R x \<and> last (acks xs) = slot x"
  using assms by (induction xs) (auto simp: is_got_def split: ring_ind.splits if_splits)

lemma after_one_inquiry: "asked (after_one sb w) = asked w" "heard d w \<Longrightarrow> heard d (after_one sb w)"
  by (simp_all add: asked_def heard_def after_one_requests is_get_def)

lemma polled_inquiry:
  assumes "ring_inv cb sb w" and "asked w = (if w_getresult_flag w then 0 else 1)" and "heard d w"
  shows "asked (polled sb sched w) = (if w_getresult_flag (polled sb sched w) then 0 else 1)" "heard d (polled sb sched w)"
proof -
  define v where "v = hw_run sched w"
  have v: "ring_inv cb sb v" unfolding v_def by (rule hw_run_inv [OF assms(1)])
  have fold: "asked (fold world_step (sched (w_clock w)) w) = asked w" "heard d (fold world_step (sched (w_clock w)) w)"
    using fold_inquiry [OF assms(1)] assms(3) by blast+
  have av: "asked v = (if w_getresult_flag v then 0 else 1)" and hv: "heard d v"
    using fold assms(2) by (simp_all add: v_def hw_run_fold asked_def heard_def counters)
  have rid: "sr_ringid (w_cmd_ring v) = 0" using v by (simp add: ring_inv_def cmd_inv_def cmd_soft_def)
  let ?e = "portal_event v"
  have fe: "w_getresult_flag ?e = (w_getresult_flag v \<or> filter is_got (rh_inds (w_hw v)) \<noteq> [])"
    by (simp add: portal_event_def fold_indication_flag)
  have "asked ?e = (if w_getresult_flag ?e then 0 else 1)"
    using av by (cases "filter is_got (rh_inds (w_hw v))") (auto simp: fe asked_def split: if_splits)
  moreover have "heard d ?e"
  proof -
    have all: "\<forall>i\<in>set (rh_inds (w_hw v)). is_got i \<longrightarrow> (\<exists>x. (d \<le> x \<and> x \<le> nD v) \<and> i = GetResult 0 REG_LASTACK (slot x))"
      using hv by (auto simp: heard_def)
    have sl: "sr_last (w_cmd_ring ?e) = (if acks (rh_inds (w_hw v)) = [] then sr_last (w_cmd_ring v) else last (acks (rh_inds (w_hw v))) mod 2 ^ 32)"
      using fold_indication_ring(1) [of "v\<lparr>w_hw := (w_hw v)\<lparr>rh_inds := []\<rparr>\<rparr>"] rid by (simp add: portal_event_def)
    have "\<exists>x. d \<le> x \<and> x \<le> nD v \<and> sr_last (w_cmd_ring ?e) = slot x" if "w_getresult_flag ?e"
    proof (cases "acks (rh_inds (w_hw v)) = []")
      case True
      then have "w_getresult_flag v" using that fe last_ack(1) [OF all] by simp
      then show ?thesis using hv sl True by (auto simp: heard_def)
    next
      case False
      then obtain x where "d \<le> x" "x \<le> nD v" "last (acks (rh_inds (w_hw v))) = slot x" using last_ack(2) [OF all] by auto
      then show ?thesis using sl False by auto
    qed
    then show ?thesis using hv by (simp add: heard_def)
  qed
  ultimately show "asked (polled sb sched w) = (if w_getresult_flag (polled sb sched w) then 0 else 1)" "heard d (polled sb sched w)"
    by (simp_all add: polled_def Let_def v_def [symmetric] after_one_inquiry)
qed

lemma polled_all_work_less:
  assumes "ring_inv cb sb w" and "asked w \<noteq> 0" and "full_look sched (w_clock w)"
  shows "all_work (polled sb sched w) < all_work w"
proof (cases "rh_requests (w_hw w) = []")
  case False
  then have "can DoRequest w" by (simp add: hw_enabled_def)
  then have "all_work (fold world_step (sched (w_clock w)) w) < all_work w"
    using assms(3) by (intro fold_all_work_less [OF assms(1)]) (simp_all add: full_look_def)
  then show ?thesis using polled_work(2) [OF assms(1), of sched] by simp
next
  case True
  let ?v = "fold world_step (sched (w_clock w)) w"
  show ?thesis
  proof (cases "rh_inds (w_hw ?v) = []")
    case False
    then have "0 < length (rh_inds (w_hw ?v))" by simp
    then show ?thesis using polled_work(2) [OF assms(1), of sched] fold_work_le(2) [OF assms(1), of "sched (w_clock w)"] by linarith
  next
    case e: True
    then have "filter is_get (rh_requests (w_hw ?v)) \<noteq> []" using fold_inquiry(1) [OF assms(1), of "sched (w_clock w)"] assms(2) by (auto simp: asked_def)
    then have "all_work ?v < all_work w \<or> rh_requests (w_hw ?v) \<noteq> []" by auto
    moreover have "rh_requests (w_hw (fold world_step acts v)) = []" if "rh_requests (w_hw v) = []" "ring_inv cb sb v" for acts v
      using that
    proof (induction acts arbitrary: v)
      case (Cons a acts)
      have "rh_requests (w_hw (world_step a v)) = []"
      proof (cases "can a v")
        case c: True
        then have "a \<noteq> DoRequest" using Cons.prems(1) by (auto simp: hw_enabled_def)
        then show ?thesis using world_step_moves(2) [OF Cons.prems(2) c] Cons.prems(1) by simp
      qed (simp add: world_step_idle Cons.prems(1))
      then show ?case using Cons.IH [of "world_step a v"] Cons.prems(2) world_step_inv by simp
    qed simp
    ultimately show ?thesis
      using True assms(1) polled_work(2) [OF assms(1), of sched] by fastforce
  qed
qed

section \<open>Rounds in which nothing but inquiries happens\<close>

lemma fold_same_work:
  assumes "ring_inv cb sb w" and "gets_last w" and "work (fold world_step acts w) = work w"
  shows "gets_last (fold world_step acts w) \<and> nD (fold world_step acts w) = nD w"
  using assms
proof (induction acts arbitrary: w)
  case (Cons a acts)
  have inv': "ring_inv cb sb (world_step a w)" by (rule world_step_inv [OF Cons.prems(1)])
  have le: "work (fold world_step acts (world_step a w)) \<le> work (world_step a w)" by (rule fold_work_le [OF inv'])
  have "gets_last (world_step a w) \<and> nD (world_step a w) = nD w \<and> work (world_step a w) = work w"
  proof (cases "can a w")
    case False
    then show ?thesis using Cons.prems(2) by (simp add: world_step_idle)
  next
    case True
    have as: "asks a w"
    proof (rule ccontr)
      assume "\<not> asks a w"
      then have "work (world_step a w) < work w" by (rule world_step_work(3) [OF Cons.prems(1) True])
      then show False using le Cons.prems(3) by simp
    qed
    then have a: "a = DoRequest" by (simp add: asks_def)
    obtain q qs where q: "rh_requests (w_hw w) = q # qs" using True a by (auto simp: hw_enabled_def neq_Nil_conv)
    then have g: "is_get q" using as by (simp add: asks_def)
    then have "qs = []" using Cons.prems(2) q by (auto simp: gets_last_def filter_empty_conv Cons_eq_append_conv)
    then have "gets_last (world_step a w)" using world_step_request(2) [OF Cons.prems(1) q] by (simp add: gets_last_def a)
    moreover have "nD (world_step a w) = nD w"
      using q world_step_request(4) [OF Cons.prems(1) q]
      by (simp add: nD_def a world_step_def hw_step_def hw_enabled_def hw_effect_def ring_request_same)
    moreover have "work (world_step a w) = work w"
      using world_step_work(2) [OF Cons.prems(1) True] le Cons.prems(3) by simp
    ultimately show ?thesis by simp
  qed
  moreover from this have "work (fold world_step acts (world_step a w)) = work (world_step a w)" using Cons.prems(3) by simp
  ultimately show ?case using Cons.IH [OF inv'] by simp
qed simp

lemma polled_same_work:
  assumes "ring_inv cb sb w" and "gets_last w" and "work (polled sb sched w) = work w"
  shows "gets_last (polled sb sched w)" "nD (polled sb sched w) = nD w"
proof -
  let ?v = "fold world_step (sched (w_clock w)) w"
  have eq: "work ?v = work w"
    using polled_work(1) [OF assms(1), of sched] fold_work_le(1) [OF assms(1), of "sched (w_clock w)"] assms(3) by simp
  note f = fold_same_work [OF assms(1,2) eq]
  define e where "e = portal_event (hw_run sched w)"
  have "work e \<le> work ?v" unfolding e_def hw_run_fold using portal_event_work(1) by (metis hw_run_work(1))
  then have "\<not> nH e < nP e" using after_one_work(1) [of e sb] assms(3) eq by (auto simp: polled_def Let_def e_def [symmetric])
  then have "polled sb sched w = e" by (simp add: polled_def Let_def e_def)
  then show "gets_last (polled sb sched w)" "nD (polled sb sched w) = nD w"
    using f by (simp_all add: e_def gets_last_def hw_run_fold) (simp add: nD_def)
qed

section \<open>Waiting for an answer\<close>

abbreviation inquire :: "ring_world \<Rightarrow> ring_world" where
  "inquire w \<equiv> request (GetReg 0 REG_LASTACK) (w\<lparr>w_getresult_flag := False\<rparr>)"

definition unmoved :: "schedule \<Rightarrow> ring_world \<Rightarrow> ring_world \<Rightarrow> bool" where
  "unmoved sched w v \<longleftrightarrow> gets_last v \<and> nD v = nD w \<and> work v = work w \<and>
     (\<forall>t. w_clock w \<le> t \<longrightarrow> t < w_clock v \<longrightarrow> \<not> full_look sched t)"

definition answering :: "nat \<Rightarrow> nat \<Rightarrow> schedule \<Rightarrow> nat \<Rightarrow> ring_world \<Rightarrow> ring_world \<Rightarrow> bool" where
  "answering cb sb sched t' w v \<longleftrightarrow> ring_inv cb sb v \<and> asked v = (if w_getresult_flag v then 0 else 1) \<and> heard (nD w) v \<and>
     w_sent v = w_sent w \<and> (\<exists>t. cmd_started v t t') \<and> work v \<le> work w \<and> w_clock w \<le> w_clock v \<and>
     (w_getresult_flag v \<longrightarrow> w_clock w < w_clock v) \<and> (nD w < t' \<longrightarrow> work v < work w \<or> unmoved sched w v)"

lemma answering_start:
  assumes "ring_inv cb sb w" and "asked w = 0" and "\<exists>t. cmd_started w t t'"
  shows "answering cb sb sched t' w (inquire w)"
proof -
  have "ring_inv cb sb (inquire w)" using assms(1) by (intro request_inv) simp_all
  moreover have g: "filter is_get (rh_requests (w_hw w)) = []" "filter is_got (rh_inds (w_hw w)) = []" using assms(2) by (simp_all add: asked_def)
  then have "asked (inquire w) = 1" by (simp add: asked_def request_def is_get_def)
  moreover have "heard (nD w) (inquire w)" using g(2) by (auto simp: heard_def request_def counters filter_empty_conv)
  moreover have "\<exists>t. cmd_started (inquire w) t t'" using assms(3) by (simp add: cmd_started_def request_def counters)
  moreover have wk: "work (inquire w) = work w" by (simp add: work_defs request_def counters is_get_def)
  moreover have "unmoved sched w (inquire w)" using g(1) wk by (auto simp: unmoved_def gets_last_def request_def counters)
  ultimately show ?thesis by (simp add: answering_def) (simp add: request_def)
qed

lemma answering_polled:
  assumes "answering cb sb sched t' w v" and "\<not> w_getresult_flag v"
  shows "answering cb sb sched t' w (polled sb sched v)"
proof -
  have v: "ring_inv cb sb v" "asked v = (if w_getresult_flag v then 0 else 1)" "heard (nD w) v" "w_sent v = w_sent w"
    "\<exists>t. cmd_started v t t'" "work v \<le> work w" "w_clock w \<le> w_clock v" "nD w < t' \<longrightarrow> work v < work w \<or> unmoved sched w v"
    using assms(1) by (simp_all add: answering_def)
  have le: "work (polled sb sched v) \<le> work v" by (rule polled_work_le [OF v(1)])
  have "work (polled sb sched v) < work w \<or> unmoved sched w (polled sb sched v)" if t: "nD w < t'"
  proof (cases "work (polled sb sched v) < work w")
    case False
    then have eq: "work (polled sb sched v) = work v" "work v = work w" using le v(6) by simp_all
    then have u: "unmoved sched w v" using v(8) t by simp
    have b: "busy v" using v(5) u t by (auto simp: busy_def unmoved_def)
    have nf: "\<not> full_look sched (w_clock v)"
      using polled_work_less [OF v(1) _ b, of sched] u eq(1) by (auto simp: unmoved_def)
    have "\<not> full_look sched t" if "w_clock w \<le> t" "t < w_clock (polled sb sched v)" for t
      using u nf that by (cases "t = w_clock v") (auto simp: unmoved_def)
    then have "unmoved sched w (polled sb sched v)"
      using polled_same_work [OF v(1) _ eq(1)] u eq by (simp add: unmoved_def)
    then show ?thesis by blast
  qed blast
  moreover note polled_inquiry [OF v(1,2,3), of sched] polled_started [OF v(1,5), of sched] StatusPoll_inv(2) [OF v(1), of sched]
  ultimately show ?thesis using v le by (simp add: answering_def)
qed

lemma inquiry_answered:
  assumes "fair sched" and "ring_inv cb sb w" and "asked w = 0" and "\<exists>t. cmd_started w t t'" and "Q (inquire w)"
    and Q: "\<And>v. ring_inv cb sb v \<Longrightarrow> Q v \<Longrightarrow> Q (polled sb sched v)"
  obtains w' where "waitforflag sched w_getresult_flag (inquire w) = Inr w'" "answering cb sb sched t' w w'" "w_getresult_flag w'" "Q w'"
proof -
  have "\<exists>w'. poll_until sched w_getresult_flag (inquire w) = Some (Inr w') \<and> (answering cb sb sched t' w w' \<and> Q w') \<and> w_getresult_flag w'"
  proof (rule poll_until_returns [OF assms(1), where P = "\<lambda>v. answering cb sb sched t' w v \<and> Q v" and m = all_work and cb = cb and sb = sb])
    show "answering cb sb sched t' w (inquire w) \<and> Q (inquire w)" using answering_start [OF assms(2-4)] assms(5) by blast
    fix v assume v: "answering cb sb sched t' w v \<and> Q v" and nf: "\<not> w_getresult_flag v"
    then have i: "ring_inv cb sb v" "asked v \<noteq> 0" by (simp_all add: answering_def)
    show "ring_inv cb sb v \<and> (answering cb sb sched t' w (polled sb sched v) \<and> Q (polled sb sched v)) \<and>
        all_work (polled sb sched v) \<le> all_work v"
      using i v nf answering_polled Q polled_work_le(2) by blast
    show "all_work (polled sb sched v) < all_work v" if "full_look sched (w_clock v)"
      by (rule polled_all_work_less [OF i that])
  qed
  then show ?thesis using that by (auto simp: waitforflag_def returned_def)
qed

text \<open>If the answer says that the ring is full, it was full when the question was asked.\<close>

lemma full_answer:
  assumes "answering cb sb sched t' w v" and "w_getresult_flag v" and "ring_space (w_cmd_ring v) = 0" and "ring_inv cb sb w"
  shows "nS w = nD w + 127"
proof -
  have inv: "ring_inv cb sb v" and h: "heard (nD w) v" and s: "nS v = nS w" using assms(1) by (simp_all add: answering_def nS_def)
  obtain x where x: "nD w \<le> x" "x \<le> nD v" "sr_last (w_cmd_ring v) = slot x" using h assms(2) by (auto simp: heard_def)
  have xs: "x \<le> nS w" "nS w \<le> x + 127"
    using x occupancy(1) [OF inv] occupancy(2) [OF assms(4)] s by simp_all
  have "ring_space (w_cmd_ring v) = 64 * (127 - (nS w - x))"
    using ring_invD(1) [OF inv] x xs s by (intro ring_space_slots) (simp_all add: cmd_inv_def cmd_soft_def)
  then have "nS w = x + 127" using assms(3) xs by simp
  then show ?thesis using x(1) occupancy(2) [OF assms(4)] by simp
qed

definition sending :: "nat \<Rightarrow> nat \<Rightarrow> nat \<Rightarrow> item list \<Rightarrow> ring_world \<Rightarrow> bool" where
  "sending cb sb t' s v \<longleftrightarrow> ring_inv cb sb v \<and> asked v = 0 \<and> (\<exists>t. cmd_started v t t') \<and> w_sent v = s"

abbreviation set_space :: "ring_world \<Rightarrow> ring_world" where
  "set_space w \<equiv> set_ring Cmd ((w_cmd_ring w)\<lparr>sr_cached_space := ring_space (w_cmd_ring w)\<rparr>) w"

lemma set_space_sending:
  assumes "answering cb sb sched t' w v" and "w_getresult_flag v"
  shows "sending cb sb t' (w_sent w) (set_space v)" "work (set_space v) = work v"
  using assms space_inv [of cb sb v]
  by (auto simp: sending_def answering_def set_ring_def asked_def cmd_started_def counters work_defs)

lemma send_loop_returns:
  assumes "fair sched" and "sending cb sb t' s w" and "length s \<le> t' + 126" and "Q w"
    and Qpoll: "\<And>v. ring_inv cb sb v \<Longrightarrow> Q v \<Longrightarrow> Q (polled sb sched v)"
    and Qask: "\<And>v. ring_inv cb sb v \<Longrightarrow> Q v \<Longrightarrow> Q (inquire v)" and Qspc: "\<And>v. ring_inv cb sb v \<Longrightarrow> Q v \<Longrightarrow> Q (set_space v)"
  shows "\<exists>w'. send_loop sched Cmd w = Some (Inr w') \<and> sending cb sb t' s w' \<and> Q w' \<and> sr_cached_space (w_cmd_ring w') \<noteq> 0"
  using assms(2,4)
proof (induction "work w" arbitrary: w rule: less_induct)
  case outer: less
  let ?G = "\<lambda>v. \<exists>w'. send_loop sched Cmd v = Some (Inr w') \<and> sending cb sb t' s w' \<and> Q w' \<and> sr_cached_space (w_cmd_ring w') \<noteq> 0"
  define M where "M = work w"
  have "sending cb sb t' s v \<Longrightarrow> Q v \<Longrightarrow> work v \<le> M \<Longrightarrow> full_look sched (w_clock v + d) \<Longrightarrow> ?G v" for v d
  proof (induction d arbitrary: v rule: less_induct)
    case inner: (less d)
    have v: "ring_inv cb sb v" "asked v = 0" "\<exists>t. cmd_started v t t'" "w_sent v = s" using inner.prems(1) by (simp_all add: sending_def)
    have soft: "sr_size (w_cmd_ring v) = 8192" "sr_ringid (w_cmd_ring v) = 0"
      using ring_invD(1) [OF v(1)] by (simp_all add: cmd_inv_def cmd_soft_def)
    show ?case
    proof (cases "sr_cached_space (w_cmd_ring v) mod 2048 = 0")
      case False
      then have "send_loop sched Cmd v = Some (Inr v)" using soft by (subst send_loop.simps) (simp add: the_ring_def)
      moreover have "sr_cached_space (w_cmd_ring v) \<noteq> 0" using False by (metis mod_0)
      ultimately show ?thesis using inner.prems by blast
    next
      case True
      obtain v2 where v2: "waitforflag sched w_getresult_flag (inquire v) = Inr v2" "answering cb sb sched t' v v2" "w_getresult_flag v2" "Q v2"
        using inquiry_answered [OF assms(1) v(1-3), of Q] Qask [OF v(1) inner.prems(2)] Qpoll by blast
      have v2i: "ring_inv cb sb v2" using v2(2) by (simp add: answering_def)
      let ?v3 = "set_space v2"
      have step: "send_loop sched Cmd v = (if ring_space (w_cmd_ring v2) \<noteq> 0 then Some (Inr ?v3) else send_loop sched Cmd ?v3)"
        using True soft v2(1) by (subst send_loop.simps) (simp add: the_ring_def)
      have s3: "sending cb sb t' s ?v3" "work ?v3 = work v2" "Q ?v3"
        using set_space_sending [OF v2(2,3)] v(4) Qspc [OF v2i v2(4)] by simp_all
      show ?thesis
      proof (cases "ring_space (w_cmd_ring v2) = 0")
        case False
        then show ?thesis using step s3 by (simp add: set_ring_def)
      next
        case z: True
        have "nS v = nD v + 127" by (rule full_answer [OF v2(2,3) z v(1)])
        then have "nD v < t'" using assms(3) v(4) by (simp add: nS_def)
        then consider "work v2 < work v" | "unmoved sched v v2" using v2(2) by (auto simp: answering_def)
        then have "?G ?v3"
        proof cases
          case 1
          then have "work ?v3 < work w" using s3(2) inner.prems(3) by (simp add: M_def)
          then show ?thesis using outer.hyps [OF _ s3(1,3)] by blast
        next
          case 2
          have c: "w_clock v < w_clock v2" "w_clock ?v3 = w_clock v2" using v2(2,3) by (auto simp: answering_def set_ring_def)
          have "\<not> w_clock v + d < w_clock v2" using 2 inner.prems(4) unfolding unmoved_def by (metis le_add1)
          then have "w_clock v2 \<le> w_clock v + d" by simp
          then have d: "full_look sched (w_clock ?v3 + (w_clock v + d - w_clock v2))" "w_clock v + d - w_clock v2 < d"
            using inner.prems(4) c by simp_all
          have "work ?v3 \<le> M" using s3(2) inner.prems(3) 2 by (simp add: unmoved_def)
          then show ?thesis using inner.IH [OF d(2) s3(1,3) _ d(1)] by blast
        qed
        then show ?thesis using step z by simp
      qed
    qed
  qed
  moreover obtain d where "full_look sched (w_clock w + d)" using assms(1) unfolding fair_def by (metis le_Suc_ex)
  ultimately show ?case using outer.prems by (simp add: M_def)
qed

lemma ring_send_returns:
  assumes "fair sched" and "sending cb sb t' s w" and "length s \<le> t' + 126" and "Q w"
    and Qpoll: "\<And>v. ring_inv cb sb v \<Longrightarrow> Q v \<Longrightarrow> Q (polled sb sched v)"
    and Qask: "\<And>v. ring_inv cb sb v \<Longrightarrow> Q v \<Longrightarrow> Q (inquire v)" and Qspc: "\<And>v. ring_inv cb sb v \<Longrightarrow> Q v \<Longrightarrow> Q (set_space v)"
  obtains w' where "ring_send sched Cmd cmd fp arg w = Inr (sent_one cb cmd fp arg w')" "sending cb sb t' s w'" "Q w'"
    "sr_cached_space (w_cmd_ring w') \<noteq> 0"
proof -
  obtain w' where w': "send_loop sched Cmd w = Some (Inr w')" "sending cb sb t' s w'" "Q w'" "sr_cached_space (w_cmd_ring w') \<noteq> 0"
    using send_loop_returns [OF assms] by blast
  have "sr_first (w_cmd_ring w) < sr_size (w_cmd_ring w)"
    using assms(2) slot_less [of "nS w"] by (simp add: sending_def ring_inv_def cmd_inv_def cmd_soft_def)
  then have "ring_send sched Cmd cmd fp arg w = Inr (sent_one cb cmd fp arg w')"
    using w' sent_one_result [of cb sb w', where cmd = cmd and fp = fp and arg = arg] by (simp add: ring_send_def the_ring_def returned_def sending_def)
  then show ?thesis using that w' by blast
qed

end
