(* ===== verification/Ring_Test.thy ===== *)
theory Ring_Test
  imports Ring_Send
begin

text \<open>
  The operations of the ring example do what they are for: a completion is reported once its
  command has run and not before, an echo returns what was sent, a copy moves the data, and the
  tests of the program pass.
\<close>

section \<open>Commands under way\<close>

definition tags :: "ring_world \<Rightarrow> nat set" where
  "tags w = tagof ` set (flying w)"

definition uses :: "finish_fn \<Rightarrow> nat \<Rightarrow> Ring_Completion \<Rightarrow> bool" where
  "uses f x c \<longleftrightarrow> rc_finish c = Some f \<and> rc_arg c = x"

definition flagged :: "finish_fn \<Rightarrow> nat \<Rightarrow> ring_world \<Rightarrow> bool" where
  "flagged f x w = (case f of Flag_finish \<Rightarrow> w_flags w x | Echo_finish \<Rightarrow> ce_flag (w_events w x))"

definition unshared :: "finish_fn \<Rightarrow> nat \<Rightarrow> ring_world \<Rightarrow> bool" where
  "unshared f x w \<longleftrightarrow> (\<forall>t\<in>tags w. \<not> uses f x (w_completion w ! t))"

text \<open>The command with tag \<open>t\<close> is the one that will report at \<open>x\<close>, and has not done so yet.\<close>

definition pending :: "finish_fn \<Rightarrow> nat \<Rightarrow> nat \<Rightarrow> ring_world \<Rightarrow> bool" where
  "pending f x t w \<longleftrightarrow> t \<in> tags w \<and> uses f x (w_completion w ! t) \<and> \<not> flagged f x w \<and>
     (\<forall>t'\<in>tags w. t' \<noteq> t \<longrightarrow> \<not> uses f x (w_completion w ! t'))"

lemma same_tags:
  assumes "pool_inv w" and "pool_inv w'" and "w_freelist w' = w_freelist w"
  shows "tags w' = tags w"
proof -
  have "mset (w_freelist w) + mset (map tagof (flying w')) = mset (w_freelist w) + mset (map tagof (flying w))"
    using assms by (simp add: pool_inv_def)
  then have "mset (map tagof (flying w')) = mset (map tagof (flying w))" by (simp only: add_left_cancel)
  then show ?thesis unfolding tags_def by (metis mset_eq_setD list.set_map)
qed

lemma fold_world_step_freelist [simp]: "w_freelist (fold world_step acts w) = w_freelist w"
  by (induction acts arbitrary: w) (simp_all add: world_step_def)

lemma fold_indication_freelist [simp]: "w_freelist (fold indication xs w) = w_freelist w"
  by (induction xs arbitrary: w; simp add: indication_def setResult_def getResult_def split: ring_ind.splits)

lemma event_same:
  fixes sched :: schedule
  assumes "ring_inv cb sb w"
  defines "v \<equiv> portal_event (hw_run sched w)"
  shows "ring_inv cb sb v" "tags v = tags w" "w_completion v = w_completion w" "flagged f x v = flagged f x w" "w_events v = w_events w"
    "w_flags v = w_flags w"
proof -
  show i: "ring_inv cb sb v" unfolding v_def using assms(1) by (intro portal_event_inv hw_run_inv)
  have "w_freelist v = w_freelist w" by (simp add: v_def portal_event_def hw_run_fold)
  then show "tags v = tags w" using same_tags ring_invD(3) [OF assms(1)] ring_invD(3) [OF i] by blast
  show "w_completion v = w_completion w" by (simp add: v_def hw_run_fold)
  show "w_events v = w_events w" "w_flags v = w_flags w" by (simp_all add: v_def hw_run_fold)
  then show "flagged f x v = flagged f x w" by (cases f) (simp_all add: flagged_def)
qed

lemma after_one_tags:
  assumes "ring_inv cb sb v" and "nH v < nP v"
  defines "t \<equiv> tagof (rh_pushed (w_hw v) ! nH v)"
  shows "tags v = insert t (tags (after_one sb v))" "t \<notin> tags (after_one sb v)"
    "\<And>t'. t' \<noteq> t \<Longrightarrow> w_completion (after_one sb v) ! t' = w_completion v ! t'"
    "flagged f x (after_one sb v) = (flagged f x v \<or> uses f x (w_completion v ! t))"
proof -
  have un: "unread v = rh_pushed (w_hw v) ! nH v # unread (after_one sb v)"
    using assms(2) by (simp add: unread_Cons) (simp add: unread_def)
  have w: "waiting (after_one sb v) = waiting v" by (simp add: waiting_def)
  then have m: "mset (map tagof (flying v)) = mset (t # map tagof (flying (after_one sb v)))" by (simp add: flying_def un t_def)
  from mset_eq_setD [OF m] show "tags v = insert t (tags (after_one sb v))" by (simp add: tags_def)
  from mset_eq_imp_distinct_iff [OF m] show "t \<notin> tags (after_one sb v)"
    using pool_distinct(2) [OF ring_invD(3) [OF assms(1)]] by (simp add: tags_def)
  show "w_completion (after_one sb v) ! t' = w_completion v ! t'" if "t' \<noteq> t" for t'
    using that by (simp add: after_one_def Let_def t_def)
  show "flagged f x (after_one sb v) = (flagged f x v \<or> uses f x (w_completion v ! t))"
    by (cases f) (auto simp: flagged_def after_one_def Let_def uses_def t_def)
qed

lemma polled_unshared:
  assumes "ring_inv cb sb w" and "unshared f x w"
  shows "unshared f x (polled sb sched w)" "flagged f x (polled sb sched w) = flagged f x w"
proof -
  define v where "v = portal_event (hw_run sched w)"
  note e = event_same [OF assms(1), where sched = sched, folded v_def]
  have u: "unshared f x v" using assms(2) by (simp add: unshared_def e)
  have p: "polled sb sched w = (if nH v < nP v then after_one sb v else v)" by (simp add: polled_def Let_def v_def)
  have "unshared f x (polled sb sched w) \<and> flagged f x (polled sb sched w) = flagged f x w"
  proof (cases "nH v < nP v")
    case True
    note a = after_one_tags [OF e(1) True]
    have "unshared f x (after_one sb v)" using u a(1-3) unfolding unshared_def by (metis insert_iff)
    moreover have "flagged f x (after_one sb v) = flagged f x w" using u a(1,4) e(4) by (auto simp: unshared_def)
    ultimately show ?thesis using p True by simp
  next
    case False
    then show ?thesis using p u e(4) by simp
  qed
  then show "unshared f x (polled sb sched w)" "flagged f x (polled sb sched w) = flagged f x w" by blast+
qed

lemma polled_pending:
  assumes "ring_inv cb sb w" and "pending f x t w"
  shows "pending f x t (polled sb sched w) \<or> flagged f x (polled sb sched w) \<and> unshared f x (polled sb sched w)"
proof -
  define v where "v = portal_event (hw_run sched w)"
  note e = event_same [OF assms(1), where sched = sched, folded v_def]
  have u: "pending f x t v" using assms(2) by (simp add: pending_def e)
  have p: "polled sb sched w = (if nH v < nP v then after_one sb v else v)" by (simp add: polled_def Let_def v_def)
  show ?thesis
  proof (cases "nH v < nP v")
    case True
    note a = after_one_tags [OF e(1) True]
    define r where "r = tagof (rh_pushed (w_hw v) ! nH v)"
    show ?thesis
    proof (cases "r = t")
      case rt: True
      then have "flagged f x (after_one sb v)" using u a(4) rt by (simp add: pending_def r_def)
      moreover have "unshared f x (after_one sb v)"
        using u a(1-3) rt unfolding pending_def unshared_def r_def by (metis insert_iff)
      ultimately show ?thesis using p True by simp
    next
      case rt: False
      have "r \<in> tags v" using a(1) by (simp add: r_def)
      then have "\<not> flagged f x (after_one sb v)" using u a(4) rt by (auto simp: pending_def r_def)
      then have "pending f x t (after_one sb v)"
        using u a(1-3) rt unfolding pending_def r_def by (metis insert_iff)
      then show ?thesis using p True by simp
    qed
  next
    case False
    then show ?thesis using p u by simp
  qed
qed

lemma polled_asked:
  assumes "ring_inv cb sb w" and "asked w = 0"
  shows "asked (polled sb sched w) = 0"
proof -
  have "asked (fold world_step (sched (w_clock w)) w) = 0" using fold_inquiry(1) [OF assms(1)] assms(2) by simp
  then have "asked (portal_event (hw_run sched w)) = 0" by (simp add: hw_run_fold asked_def)
  then show ?thesis by (simp add: polled_def Let_def after_one_inquiry)
qed

lemma flying_busy:
  assumes "ring_inv cb sb w" and "cmd_started w t (nS w)" and "tags w \<noteq> {}"
  shows "busy w"
proof -
  have "nD w < nS w \<or> rh_copy (w_hw w) \<noteq> [] \<or> rh_echo (w_hw w) \<noteq> [] \<or> nH w < nP w"
    using assms(3) by (auto simp: tags_def flying_defs counters not_less)
  then show ?thesis using assms(2) unfolding busy_def by blast
qed

text \<open>Nothing is being asked, and the hardware knows of every command.\<close>

definition settled :: "nat \<Rightarrow> nat \<Rightarrow> ring_world \<Rightarrow> bool" where
  "settled cb sb w \<longleftrightarrow> sending cb sb (nS w) (w_sent w) w"

lemma settled_simps: "settled cb sb w \<longleftrightarrow> ring_inv cb sb w \<and> asked w = 0 \<and> (\<exists>t. cmd_started w t (nS w))"
  by (simp add: settled_def sending_def)

lemma polled_settled:
  assumes "settled cb sb w"
  shows "settled cb sb (polled sb sched w)"
proof -
  have n: "nS (polled sb sched w) = nS w" by (simp add: nS_def)
  show ?thesis using assms polled_asked polled_started [of cb sb w "nS w"] StatusPoll_inv(2) unfolding settled_simps n by blast
qed

lemma report_comes:
  assumes "fair sched" and "settled cb sb w" and "pending f x t w" and "R w"
    and R: "\<And>v. settled cb sb v \<Longrightarrow> pending f x t v \<Longrightarrow> R v \<Longrightarrow> R (polled sb sched v)"
  obtains w' where "waitforflag sched (flagged f x) w = Inr w'" "settled cb sb w'" "flagged f x w'" "unshared f x w'" "R w'"
    "w_sent w' = w_sent w"
proof -
  let ?P = "\<lambda>v. settled cb sb v \<and> (pending f x t v \<or> flagged f x v \<and> unshared f x v) \<and> R v \<and> w_sent v = w_sent w"
  have "\<exists>w'. poll_until sched (flagged f x) w = Some (Inr w') \<and> ?P w' \<and> flagged f x w'"
  proof (rule poll_until_returns [OF assms(1), where m = work and cb = cb and sb = sb])
    show "?P w" using assms(2-4) by simp
    fix v assume v: "?P v" and nf: "\<not> flagged f x v"
    then have i: "ring_inv cb sb v" and p: "pending f x t v" by (auto simp: settled_simps)
    show "ring_inv cb sb v \<and> ?P (polled sb sched v) \<and> work (polled sb sched v) \<le> work v"
      using i p v R [of v] polled_settled [of cb sb v sched] polled_pending [OF i p, of sched] polled_work_le(1) [OF i] by simp
    have "tags v \<noteq> {}" using p by (auto simp: pending_def)
    then have b: "busy v" using v flying_busy [OF i] by (auto simp: settled_simps)
    have "filter is_get (rh_requests (w_hw v)) = []" using v by (simp add: settled_simps asked_def)
    then have "gets_last v" by (auto simp: gets_last_def)
    then show "work (polled sb sched v) < work v" if "full_look sched (w_clock v)" by (rule polled_work_less [OF i _ b that])
  qed
  then obtain w' where w': "poll_until sched (flagged f x) w = Some (Inr w')" "?P w'" "flagged f x w'" by blast
  then have "waitforflag sched (flagged f x) w = Inr w'" by (simp add: waitforflag_def returned_def)
  moreover have "unshared f x w'" using w'(2,3) by (auto simp: pending_def)
  ultimately show ?thesis using that w' by blast
qed

text \<open>Sending a command and telling the hardware.\<close>

lemma sent_started:
  assumes "sending cb sb t' s w" and "sr_cached_space (w_cmd_ring w) \<noteq> 0" and "length cmd = 8" and "good_command cb sb cmd"
    and "f = Echo_finish \<longrightarrow> x \<noteq> 0" and "unshared f x w" and "\<not> flagged f x w"
  defines "v \<equiv> STARTRING (sent_one cb cmd (Some f) x w)" and "t \<equiv> hd (w_freelist w)"
  shows "settled cb sb v" "pending f x t v" "w_sent v = s @ [cmd[7 := of_nat t]]" "waiting v = waiting w @ [cmd[7 := of_nat t]]"
    "tagof (cmd[7 := of_nat t]) = t" "t \<notin> tags w" "tags v = insert t (tags w)" "w_events v = w_events w"
    "\<And>t'. t' \<noteq> t \<Longrightarrow> w_completion v ! t' = w_completion w ! t'"
proof -
  let ?u = "sent_one cb cmd (Some f) x w"
  have inv: "ring_inv cb sb w" "w_sent w = s" using assms(1) by (simp_all add: sending_def)
  obtain p ps where p: "w_freelist w = p # ps" "1 \<le> p" "p < 1024" "p \<notin> tagof ` set (flying w)"
    by (rule free_completion [OF inv(1)])
  then have tp: "t = p" by (simp add: t_def)
  define it where "it = cmd[7 := of_nat t]"
  have it: "tagof it = t" using assms(3) p(3) tp by (simp add: it_def tagof_update)
  have ui: "ring_inv cb sb ?u" using assms(3-5) by (intro sent_one_inv [OF inv(1) assms(2)]) simp_all
  have us: "w_sent ?u = w_sent w @ [it]" "w_hw ?u = w_hw w" "w_handled ?u = w_handled w"
    "w_completion ?u = (w_completion w)[t := (w_completion w ! t)\<lparr>rc_in_use := True, rc_finish := Some f, rc_arg := x\<rparr>]"
    "w_events ?u = w_events w" "w_flags ?u = w_flags w"
    by (simp_all add: sent_one_def Let_def it_def t_def)
  have vs: "w_sent v = w_sent ?u" "w_handled v = w_handled ?u" "w_completion v = w_completion ?u" "w_events v = w_events ?u" "w_flags v = w_flags ?u"
    "w_hw v = (w_hw w)\<lparr>rh_requests := rh_requests (w_hw w) @ [SetCmdFirst (sr_first (w_cmd_ring ?u))]\<rparr>"
    by (simp_all add: v_def STARTRING_def request_def us)
  have vi: "ring_inv cb sb v" unfolding v_def STARTRING_def using ui by (intro request_inv) simp_all
  have first: "sr_first (w_cmd_ring ?u) = slot (nS v)"
    using ring_invD(1) [OF ui] by (simp add: cmd_inv_def cmd_soft_def nS_def vs)
  have nv: "nS v = Suc (length s)" "nD v = nD w" "nF v = nF w" by (simp_all add: counters vs us inv(2))
  obtain t0 where t0: "cmd_started w t0 t'" using assms(1) by (auto simp: sending_def)
  have "cmd_started v t0 (nS v)"
    using t0 chain_snoc [of t0 "firsts (rh_requests (w_hw w))" t' "nS v"] inv(2)
    by (simp add: cmd_started_def nv vs first [unfolded nv]) (simp add: nS_def)
  moreover have "asked v = 0" using assms(1) by (simp add: sending_def asked_def vs is_get_def)
  ultimately show "settled cb sb v" using vi by (auto simp: settled_simps)
  show sent: "w_sent v = s @ [cmd[7 := of_nat t]]" by (simp add: vs us inv(2) it_def)
  have ds: "nD w \<le> length s" using occupancy(1) [OF inv(1)] inv(2) by (simp add: nS_def)
  then show wt: "waiting v = waiting w @ [cmd[7 := of_nat t]]" by (simp add: waiting_def nv sent inv(2))
  show "tagof (cmd[7 := of_nat t]) = t" using it by (simp add: it_def)
  show nt: "t \<notin> tags w" using p(4) tp by (simp add: tags_def)
  have "flying v = waiting w @ [it] @ rh_copy (w_hw w) @ rh_echo (w_hw w) @ unread w"
    by (simp add: flying_def wt it_def) (simp add: vs unread_def nH_def us)
  then show tv: "tags v = insert t (tags w)" using it by (auto simp: tags_def flying_def)
  show ev: "w_events v = w_events w" by (simp add: vs us)
  have fl: "w_flags v = w_flags w" by (simp add: vs us)
  show oth: "w_completion v ! t' = w_completion w ! t'" if "t' \<noteq> t" for t' using that by (simp add: vs us)
  have len: "t < length (w_completion w)" using ring_invD(3) [OF inv(1)] p(3) tp by (simp add: pool_inv_def)
  have "flagged f x v = flagged f x w" by (cases f) (simp_all add: flagged_def ev fl)
  then have "\<not> flagged f x v" using assms(7) by simp
  then show "pending f x t v" using tv nt oth assms(6) len
    by (auto simp: pending_def unshared_def) (auto simp: vs us uses_def)
qed

section \<open>Echo\<close>

definition echo_place :: "item \<Rightarrow> ring_world \<Rightarrow> bool" where
  "echo_place it w \<longleftrightarrow> it \<in> set (waiting w) \<union> set (rh_echo (w_hw w)) \<union> set (unread w)"

lemma world_step_place:
  assumes "ring_inv cb sb w" and "cmdifc it = EchoEngine" and "echo_place it w"
  shows "echo_place it (world_step act w)"
proof (cases "can act w")
  case False
  then show ?thesis using assms(3) by (simp add: world_step_idle)
next
  case True
  note inv = ring_invD [OF assms(1)]
  have hp: "nH w \<le> nP w" using inv(2) by (simp add: status_inv_def status_soft_def)
  show ?thesis
  proof (cases act)
    case DoRequest
    then obtain q qs where q: "rh_requests (w_hw w) = q # qs" using True by (auto simp: hw_enabled_def neq_Nil_conv)
    have "running_req q" using inv(4) q by (simp add: shape_inv_def)
    then show ?thesis using assms(3) q DoRequest
      by (simp add: echo_place_def world_step_def hw_step_def hw_enabled_def hw_effect_def waiting_def unread_def counters ring_request_same)
  next
    case DoFetch
    then show ?thesis using assms(3) True by (simp add: echo_place_def world_step_def hw_step_def hw_effect_def waiting_def unread_def counters)
  next
    case DoDispatch
    then have ne: "rh_reads (w_hw w) \<noteq> []" using True by (simp add: hw_enabled_def)
    note nc = next_command_sent [OF inv(1) ne]
    have h: "nD (world_step act w) = Suc (nD w)" "nH (world_step act w) = nH w" "w_sent (world_step act w) = w_sent w"
      "rh_pushed (w_hw (world_step act w)) = rh_pushed (w_hw w)"
      "rh_echo (w_hw (world_step act w)) = rh_echo (w_hw w) @ (if cmdifc (w_sent w ! nD w) = EchoEngine then [w_sent w ! nD w] else [])"
      using True DoDispatch nc(4)
      by (auto simp: world_step_def hw_step_def hw_effect_def Let_def counters split: engine.splits)
    then show ?thesis using assms(2,3) nc(5) by (auto simp: echo_place_def waiting_def unread_def)
  next
    case DoCopy
    then show ?thesis using assms(3) True hp
      by (auto simp: echo_place_def world_step_def hw_step_def hw_effect_def write_status_def waiting_def unread_def counters)
  next
    case DoEcho
    then obtain y ys where "rh_echo (w_hw w) = y # ys" using True by (auto simp: hw_enabled_def neq_Nil_conv)
    then show ?thesis using assms(3) True hp DoEcho
      by (auto simp: echo_place_def world_step_def hw_step_def hw_effect_def write_status_def waiting_def unread_def counters)
  qed
qed

lemma fold_place:
  assumes "ring_inv cb sb w" and "cmdifc it = EchoEngine" and "echo_place it w"
  shows "echo_place it (fold world_step acts w)"
  using assms
proof (induction acts arbitrary: w)
  case (Cons a acts)
  then show ?case using world_step_place world_step_inv by simp
qed simp

definition echo_data :: "nat \<Rightarrow> nat \<Rightarrow> item \<Rightarrow> ring_world \<Rightarrow> bool" where
  "echo_data ev t it w \<longleftrightarrow> cmdifc it = EchoEngine \<and> tagof it = t \<and> (t \<in> tags w \<longrightarrow> echo_place it w) \<and>
     (flagged Echo_finish ev w \<longrightarrow> ce_got_a (w_events w ev) = it ! 1 \<and> ce_got_b (w_events w ev) = it ! 2)"

lemma polled_echo_data:
  assumes "ring_inv cb sb w" and "pending Echo_finish ev t w" and "echo_data ev t it w"
  shows "echo_data ev t it (polled sb sched w)"
proof -
  define v where "v = portal_event (hw_run sched w)"
  note e = event_same [OF assms(1), where sched = sched, folded v_def]
  have p: "polled sb sched w = (if nH v < nP v then after_one sb v else v)" by (simp add: polled_def Let_def v_def)
  have it: "cmdifc it = EchoEngine" "tagof it = t" using assms(3) by (simp_all add: echo_data_def)
  have "echo_place it w" using assms(2,3) by (simp add: echo_data_def pending_def)
  then have "echo_place it (fold world_step (sched (w_clock w)) w)" by (rule fold_place [OF assms(1) it(1)])
  then have pl: "echo_place it v" by (simp add: v_def hw_run_fold echo_place_def waiting_def unread_def counters)
  have pv: "pending Echo_finish ev t v" using assms(2) by (simp add: pending_def e)
  show ?thesis
  proof (cases "nH v < nP v")
    case True
    note a = after_one_tags [OF e(1) True]
    define y where "y = rh_pushed (w_hw v) ! nH v"
    have un: "unread v = y # unread (after_one sb v)" using True by (simp add: unread_Cons y_def) (simp add: unread_def)
    have w: "waiting (after_one sb v) = waiting v" by (simp add: waiting_def)
    show ?thesis
    proof (cases "y = it")
      case y: True
      then have "t \<notin> tags (after_one sb v)" using a(2) it(2) by (simp add: y_def)
      moreover have "w_events (after_one sb v) ev = (w_events v ev)\<lparr>ce_got_a := it ! 1, ce_got_b := it ! 2, ce_flag := True\<rparr>"
        using pv y it(2) by (simp add: pending_def uses_def after_one_def Let_def y_def)
      ultimately show ?thesis using p True it by (simp add: echo_data_def)
    next
      case y: False
      then have pl': "echo_place it (after_one sb v)" using pl un w by (auto simp: echo_place_def)
      then have "t \<in> tags (after_one sb v)" using it(2) by (auto simp: tags_def echo_place_def flying_def)
      then have "tagof y \<noteq> t" using a(2) by (auto simp: y_def)
      then have "\<not> flagged Echo_finish ev (after_one sb v)" using pv a(1,4) by (auto simp: pending_def y_def)
      then show ?thesis using p True it pl' by (simp add: echo_data_def)
    qed
  next
    case False
    then show ?thesis using p it pl pv by (simp add: echo_data_def pending_def)
  qed
qed

section \<open>Copy\<close>

text \<open>The buffers that are not rings.\<close>

definition others :: "nat \<Rightarrow> nat \<Rightarrow> buffers \<Rightarrow> buffers" where
  "others cb sb b = (\<lambda>x. if x = cb \<or> x = sb then [] else b x)"

lemma others_rings [simp]: "others cb sb (b(cb := y)) = others cb sb b" "others cb sb (b(sb := y)) = others cb sb b"
  by (auto simp: others_def)

lemma others_copy_words:
  assumes "others cb sb b = others cb sb b'" and "rp \<notin> {cb, sb}" and "wp \<notin> {cb, sb}"
  shows "others cb sb (copy_words rp ra wp wa n b) = others cb sb (copy_words rp ra wp wa n b')"
  using assms(1)
proof (induction n arbitrary: ra wa b b')
  case (Suc n)
  have eq: "b x = b' x" if "x \<notin> {cb, sb}" for x using fun_cong [OF Suc.prems, of x] that by (simp add: others_def)
  have "others cb sb (b(wp := (b wp)[wa div 8 := b rp ! (ra div 8)])) = others cb sb (b'(wp := (b' wp)[wa div 8 := b' rp ! (ra div 8)]))"
    using eq assms(2,3) by (auto simp: others_def fun_eq_iff)
  then show ?case unfolding copy_words.simps by (rule Suc.IH)
qed simp

definition copy_data :: "nat \<Rightarrow> nat \<Rightarrow> item \<Rightarrow> buffers \<Rightarrow> ring_world \<Rightarrow> bool" where
  "copy_data cb sb it b w \<longleftrightarrow> rh_echo (w_hw w) = [] \<and>
     (waiting w @ rh_copy (w_hw w) = [it] \<and> others cb sb (w_bufs w) = others cb sb b \<or>
      waiting w @ rh_copy (w_hw w) = [] \<and> others cb sb (w_bufs w) = others cb sb (run_copy it b))"

definition copy_command_ok :: "nat \<Rightarrow> nat \<Rightarrow> item \<Rightarrow> bool" where
  "copy_command_ok cb sb it \<longleftrightarrow> cmdifc it = CopyEngine \<and> unat (take_bit 32 (it ! 1)) \<notin> {cb, sb} \<and> unat (take_bit 32 (it ! 3)) \<notin> {cb, sb}"

lemma world_step_copy_data:
  assumes "ring_inv cb sb w" and "copy_command_ok cb sb it" and "copy_data cb sb it b w"
  shows "copy_data cb sb it b (world_step act w)"
proof (cases "can act w")
  case False
  then show ?thesis using assms(3) by (simp add: world_step_idle)
next
  case True
  note inv = ring_invD [OF assms(1)]
  show ?thesis
  proof (cases act)
    case DoRequest
    then obtain q qs where q: "rh_requests (w_hw w) = q # qs" using True by (auto simp: hw_enabled_def neq_Nil_conv)
    have "running_req q" using inv(4) q by (simp add: shape_inv_def)
    then show ?thesis using assms(3) q DoRequest
      by (simp add: copy_data_def world_step_def hw_step_def hw_enabled_def hw_effect_def waiting_def counters ring_request_same)
  next
    case DoFetch
    then show ?thesis using assms(3) True by (simp add: copy_data_def world_step_def hw_step_def hw_effect_def waiting_def counters)
  next
    case DoDispatch
    then have ne: "rh_reads (w_hw w) \<noteq> []" using True by (simp add: hw_enabled_def)
    note nc = next_command_sent [OF inv(1) ne]
    then have w: "waiting w = [it]" "rh_copy (w_hw w) = []" "w_sent w ! nD w = it" using assms(3) by (auto simp: copy_data_def)
    have d: "drop (Suc (nD w)) (w_sent w) = []" using nc(5) w(1) by simp
    have "cmdifc it = CopyEngine" using assms(2) by (simp add: copy_command_ok_def)
    then have h: "nD (world_step act w) = Suc (nD w)" "w_sent (world_step act w) = w_sent w" "w_bufs (world_step act w) = w_bufs w"
      "rh_echo (w_hw (world_step act w)) = rh_echo (w_hw w)" "rh_copy (w_hw (world_step act w)) = [it]"
      using True DoDispatch nc(4) w
      by (simp_all add: world_step_def hw_step_def hw_effect_def Let_def counters)
    have "waiting (world_step act w) = []" by (simp only: waiting_def h d)
    then show ?thesis using h assms(3) w by (simp add: copy_data_def)
  next
    case DoCopy
    then have "rh_copy (w_hw w) \<noteq> []" using True by (simp add: hw_enabled_def)
    then have w: "waiting w = []" "rh_copy (w_hw w) = [it]" "others cb sb (w_bufs w) = others cb sb b" "rh_echo (w_hw w) = []"
      using assms(3) by (auto simp: copy_data_def append_eq_Cons_conv)
    have mem: "rb_mem (rh_status (w_hw w)) = sb" using inv(2) by (auto simp: status_inv_def status_hard_def)
    have "others cb sb (run_copy it (w_bufs w)) = others cb sb (run_copy it b)"
      unfolding run_copy_def using assms(2) by (intro others_copy_words [OF w(3)]) (simp_all add: copy_command_ok_def)
    then show ?thesis using True DoCopy w mem
      by (simp add: copy_data_def world_step_def hw_step_def hw_effect_def write_status_def waiting_def counters)
  next
    case DoEcho
    then show ?thesis using assms(3) True by (simp add: hw_enabled_def copy_data_def)
  qed
qed

lemma fold_copy_data:
  assumes "ring_inv cb sb w" and "copy_command_ok cb sb it" and "copy_data cb sb it b w"
  shows "copy_data cb sb it b (fold world_step acts w)"
  using assms
proof (induction acts arbitrary: w)
  case (Cons a acts)
  then show ?case using world_step_copy_data world_step_inv by simp
qed simp

lemma portal_event_bufs [simp]: "w_bufs (portal_event w) = w_bufs w"
proof -
  have "w_bufs (fold indication xs v) = w_bufs v" for xs v
    by (induction xs arbitrary: v) (simp_all add: indication_def setResult_def getResult_def split: ring_ind.splits)
  then show ?thesis by (simp add: portal_event_def)
qed

lemma polled_copy_data:
  assumes "ring_inv cb sb w" and "copy_command_ok cb sb it" and "copy_data cb sb it b w"
  shows "copy_data cb sb it b (polled sb sched w)"
proof -
  have "copy_data cb sb it b (portal_event (hw_run sched w))"
    using fold_copy_data [OF assms, of "sched (w_clock w)"] by (simp add: copy_data_def waiting_def counters hw_run_fold)
  then have "copy_data cb sb it b (after_one sb (portal_event (hw_run sched w)))"
    by (simp add: copy_data_def waiting_def) (simp add: after_one_def Let_def)
  then show ?thesis using \<open>copy_data cb sb it b (portal_event (hw_run sched w))\<close> by (simp add: polled_def Let_def)
qed

text \<open>While nothing is under way the other buffers stay as they are.\<close>

lemma world_step_quiet:
  assumes "ring_inv cb sb w" and "flying w = []"
  shows "w_bufs (world_step act w) = w_bufs w"
proof -
  have e: "waiting w = []" "rh_copy (w_hw w) = []" "rh_echo (w_hw w) = []" using assms(2) by (simp_all add: flying_def)
  have "rh_reads (w_hw w) = []"
    using next_command_sent(5) [OF ring_invD(1) [OF assms(1)]] e(1) by fastforce
  then show ?thesis using e
    by (cases act) (auto simp: world_step_def hw_step_def hw_enabled_def hw_effect_def)
qed

lemma tags_empty: "tags w = {} \<longleftrightarrow> flying w = []"
  by (simp add: tags_def)

lemma fold_quiet:
  assumes "ring_inv cb sb w" and "flying w = []"
  shows "w_bufs (fold world_step acts w) = w_bufs w"
  using assms
proof (induction acts arbitrary: w)
  case (Cons a acts)
  have i: "ring_inv cb sb (world_step a w)" by (rule world_step_inv [OF Cons.prems(1)])
  have "w_freelist (world_step a w) = w_freelist w" by (simp add: world_step_def)
  then have "flying (world_step a w) = []"
    using same_tags [OF ring_invD(3) [OF Cons.prems(1)] ring_invD(3) [OF i]] Cons.prems(2) tags_empty by metis
  then show ?case using Cons.IH [OF i] world_step_quiet [OF Cons.prems] by simp
qed simp

lemma polled_tags: "ring_inv cb sb w \<Longrightarrow> tags (polled sb sched w) \<subseteq> tags w"
  using event_same(1,2) [of cb sb w sched] after_one_tags(1) [of cb sb "portal_event (hw_run sched w)"]
  by (auto simp: polled_def Let_def)

lemma polled_uses:
  assumes "ring_inv cb sb w" and "uses f x (w_completion w ! t)"
  shows "uses f x (w_completion (polled sb sched w) ! t)"
proof -
  have "uses f x (c[r := (c ! r)\<lparr>rc_in_use := False\<rparr>] ! t)" if "uses f x (c ! t)" for c :: "Ring_Completion list" and r
    using that by (cases "r = t"; cases "t < length c") (simp_all add: uses_def list_update_beyond not_less)
  then show ?thesis using assms(2) event_same(3) [OF assms(1), of sched] by (simp add: polled_def Let_def after_one_def)
qed

lemma polled_quiet:
  assumes "ring_inv cb sb w" and "flying w = []"
  shows "flying (polled sb sched w) = []" "w_bufs (polled sb sched w) = w_bufs w"
proof -
  define v where "v = portal_event (hw_run sched w)"
  note e = event_same [OF assms(1), where sched = sched, folded v_def]
  have f: "flying v = []" using e(2) assms(2) tags_empty by metis
  then have "\<not> nH v < nP v" by (simp add: flying_def unread_def nP_def)
  then have p: "polled sb sched w = v" by (simp add: polled_def Let_def v_def)
  show "flying (polled sb sched w) = []" using p f by simp
  show "w_bufs (polled sb sched w) = w_bufs w"
    unfolding p v_def using fold_quiet [OF assms] by (simp add: hw_run_fold)
qed

text \<open>While nothing is to be copied the other buffers stay as they are, too.\<close>

definition no_copies :: "ring_world \<Rightarrow> bool" where
  "no_copies w \<longleftrightarrow> rh_copy (w_hw w) = [] \<and> (\<forall>it\<in>set (waiting w). cmdifc it \<noteq> CopyEngine)"

lemma world_step_no_copies:
  assumes "ring_inv cb sb w" and "no_copies w"
  shows "no_copies (world_step act w) \<and> others cb sb (w_bufs (world_step act w)) = others cb sb (w_bufs w)"
proof (cases "can act w")
  case False
  then show ?thesis using assms(2) by (simp add: world_step_idle)
next
  case True
  note inv = ring_invD [OF assms(1)]
  have mem: "rb_mem (rh_status (w_hw w)) = sb" using inv(2) by (auto simp: status_inv_def status_hard_def)
  show ?thesis
  proof (cases act)
    case DoRequest
    then obtain q qs where q: "rh_requests (w_hw w) = q # qs" using True by (auto simp: hw_enabled_def neq_Nil_conv)
    have "running_req q" using inv(4) q by (simp add: shape_inv_def)
    then show ?thesis using assms(2) q DoRequest
      by (simp add: no_copies_def world_step_def hw_step_def hw_enabled_def hw_effect_def waiting_def counters ring_request_same)
  next
    case DoFetch
    then show ?thesis using assms(2) True by (simp add: no_copies_def world_step_def hw_step_def hw_effect_def waiting_def counters)
  next
    case DoDispatch
    then have ne: "rh_reads (w_hw w) \<noteq> []" using True by (simp add: hw_enabled_def)
    note nc = next_command_sent [OF inv(1) ne]
    have h: "waiting (world_step act w) = tl (waiting w)"
      "rh_copy (w_hw (world_step act w)) = rh_copy (w_hw w) @ (if cmdifc (w_sent w ! nD w) = CopyEngine then [w_sent w ! nD w] else [])"
      "w_bufs (world_step act w) = w_bufs w"
      using True DoDispatch nc(4)
      by (auto simp: world_step_def hw_step_def hw_effect_def Let_def counters waiting_def drop_Suc tl_drop split: engine.splits)
    then show ?thesis using assms(2) nc(5) by (auto simp: no_copies_def)
  next
    case DoCopy
    then show ?thesis using assms(2) True by (simp add: no_copies_def hw_enabled_def)
  next
    case DoEcho
    then show ?thesis using assms(2) True mem
      by (simp add: no_copies_def world_step_def hw_step_def hw_effect_def write_status_def waiting_def counters)
  qed
qed

lemma fold_no_copies:
  assumes "ring_inv cb sb w" and "no_copies w"
  shows "no_copies (fold world_step acts w) \<and> others cb sb (w_bufs (fold world_step acts w)) = others cb sb (w_bufs w)"
  using assms
proof (induction acts arbitrary: w)
  case (Cons a acts)
  then show ?case using Cons.IH [OF world_step_inv [OF Cons.prems(1)]] world_step_no_copies [OF Cons.prems] by simp
qed simp

lemma polled_no_copies:
  assumes "ring_inv cb sb w" and "no_copies w"
  shows "no_copies (polled sb sched w) \<and> others cb sb (w_bufs (polled sb sched w)) = others cb sb (w_bufs w)"
proof -
  define v where "v = portal_event (hw_run sched w)"
  have v: "no_copies v \<and> others cb sb (w_bufs v) = others cb sb (w_bufs w)"
    using fold_no_copies [OF assms, of "sched (w_clock w)"] by (simp add: v_def no_copies_def waiting_def counters hw_run_fold)
  then have "no_copies (after_one sb v) \<and> others cb sb (w_bufs (after_one sb v)) = others cb sb (w_bufs w)"
    by (simp add: no_copies_def waiting_def) (simp add: after_one_def Let_def)
  then show ?thesis using v by (simp add: polled_def Let_def v_def)
qed

section \<open>The operations\<close>

lemma hw_echo_echoes:
  assumes "fair sched" and "settled cb sb w" and "unshared Echo_finish ev w" and "ev \<noteq> 0" and "length tcmd = 8"
  shows "\<exists>w'. hw_echo sched tcmd ev a b w = Inr (True, w') \<and> settled cb sb w' \<and> unshared Echo_finish ev w' \<and>
     (flying w = [] \<longrightarrow> flying w' = [] \<and> others cb sb (w_bufs w') = others cb sb (w_bufs w))"
proof -
  define w0 where "w0 = w\<lparr>w_events := (w_events w)(ev := (w_events w ev)\<lparr>ce_exp_a := a, ce_exp_b := b, ce_flag := False\<rparr>)\<rparr>"
  have s0: "sending cb sb (nS w) (w_sent w) w0"
    using assms(2) by (simp add: settled_simps sending_def w0_def) (simp add: cmd_started_def asked_def counters)
  let ?K = "\<lambda>v. flying w = [] \<longrightarrow> flying v = [] \<and> w_bufs v = w_bufs w"
  let ?Q = "\<lambda>v. (unshared Echo_finish ev v \<and> \<not> flagged Echo_finish ev v) \<and> ?K v"
  have q0: "?Q w0" using assms(3) by (simp add: w0_def unshared_def flagged_def tags_def flying_defs counters)
  have Qe: "?Q (inquire v)" "?Q (set_space v)" if "?Q v" for v
    using that by (simp_all add: unshared_def flagged_def tags_def flying_defs counters request_def set_ring_def)
  have Qp: "?Q (polled sb sched v)" if "ring_inv cb sb v" "?Q v" for v
    using that polled_quiet [of cb sb v sched] polled_unshared [of cb sb v Echo_finish ev sched] by simp
  have len: "length (w_sent w) \<le> nS w + 126" by (simp add: nS_def)
  obtain w1 where w1: "ring_send sched Cmd (echo_command tcmd a b) (Some Echo_finish) ev w0 = Inr (sent_one cb (echo_command tcmd a b) (Some Echo_finish) ev w1)"
    "sending cb sb (nS w) (w_sent w) w1" "?Q w1" "sr_cached_space (w_cmd_ring w1) \<noteq> 0"
    using ring_send_returns [OF assms(1) s0 len, of ?Q] q0 Qe Qp by blast
  define t where "t = hd (w_freelist w1)"
  define it where "it = (echo_command tcmd a b)[7 := of_nat t]"
  have cmd: "length (echo_command tcmd a b) = 8" "cmdifc (echo_command tcmd a b) = EchoEngine"
    using assms(5) by (simp_all add: echo_command_def cmdifc_def opcode_def CMD_ECHO_def Let_def)
  then have good: "good_command cb sb (echo_command tcmd a b)" by (simp add: good_command_def)
  note st = sent_started [OF w1(2,4) cmd(1) good, of Echo_finish ev, folded t_def]
  let ?v = "STARTRING (sent_one cb (echo_command tcmd a b) (Some Echo_finish) ev w1)"
  have iti: "cmdifc it = EchoEngine" "it ! 1 = a" "it ! 2 = b"
    using cmd assms(5) by (simp_all add: it_def cmdifc_def echo_command_def)
  have pend: "pending Echo_finish ev t ?v" "settled cb sb ?v" using st(1,2) assms(4) w1(3) by simp_all
  have tg: "tagof it = t" using st(5) assms(4) w1(3) by (simp add: it_def)
  have "echo_place it ?v" using st(4) assms(4) w1(3) by (simp add: echo_place_def it_def)
  then have ed: "echo_data ev t it ?v" using iti tg pend(1) by (simp add: echo_data_def pending_def)
  let ?N = "\<lambda>v. flying w = [] \<longrightarrow> tags v \<subseteq> {t} \<and> no_copies v \<and> others cb sb (w_bufs v) = others cb sb (w_bufs w)"
  let ?R = "\<lambda>v. echo_data ev t it v \<and> uses Echo_finish ev (w_completion v ! t) \<and> ?N v"
  have "?N ?v"
  proof
    assume "flying w = []"
    then have f: "flying w1 = []" "w_bufs w1 = w_bufs w" using w1(3) by simp_all
    have "no_copies ?v"
      using f(1) st(4) assms(4) w1(3) iti(1) by (simp add: no_copies_def it_def flying_def) (simp add: STARTRING_def request_def sent_one_def Let_def)
    moreover have "others cb sb (w_bufs ?v) = others cb sb (w_bufs w)" using f(2) by (simp add: STARTRING_def request_def sent_one_def Let_def)
    ultimately show "tags ?v \<subseteq> {t} \<and> no_copies ?v \<and> others cb sb (w_bufs ?v) = others cb sb (w_bufs w)"
      using st(7) assms(4) w1(3) f(1) by (simp add: tags_def)
  qed
  then have Rv: "?R ?v" using ed pend(1) by (simp add: pending_def)
  have Rp: "?R (polled sb sched v)" if "settled cb sb v" "pending Echo_finish ev t v" "?R v" for v
  proof -
    have i: "ring_inv cb sb v" using that(1) by (simp add: settled_simps)
    have "?N (polled sb sched v)" using that(3) polled_no_copies [OF i, of sched] polled_tags [OF i, of sched] by (simp add: subset_trans)
    then show ?thesis using that(3) polled_echo_data [OF i that(2)] polled_uses [OF i] by blast
  qed
  obtain w2 where w2: "waitforflag sched (flagged Echo_finish ev) ?v = Inr w2" "settled cb sb w2" "flagged Echo_finish ev w2"
    "unshared Echo_finish ev w2" "?R w2"
    by (rule report_comes [where R = ?R, OF assms(1) pend(2,1) Rv Rp])
  have "flagged Echo_finish ev = (\<lambda>w. ce_flag (w_events w ev))" by (simp add: flagged_def fun_eq_iff)
  then have wf: "waitforflag sched (\<lambda>w. ce_flag (w_events w ev)) ?v = Inr w2" using w2(1) by simp
  have "ce_got_a (w_events w2 ev) = a" "ce_got_b (w_events w2 ev) = b" using w2(3,5) iti by (simp_all add: echo_data_def)
  then have "hw_echo sched tcmd ev a b w = Inr (True, w2)"
    unfolding hw_echo_def Let_def w0_def [symmetric] w1(1) rbind_Inr wf by simp
  moreover have "t \<notin> tags w2" using w2(4,5) by (auto simp: unshared_def)
  then have "flying w = [] \<longrightarrow> flying w2 = []" using w2(5) tags_empty by blast
  ultimately show ?thesis using w2 by blast
qed

lemma copy_command_good:
  assumes "length tcmd = 8" and "scratch \<notin> {cb, sb}" and "scratch < 2 ^ 32" and "unat bytes mod 8 = 0" and "unat bytes < 2 ^ 16"
  shows "good_command cb sb (copy_command tcmd scratch from to bytes)"
proof -
  have "take_bit 32 (of_nat scratch :: u64) = of_nat scratch" using assms(3) by (simp add: take_bit_of_nat take_bit_nat_eq_self)
  moreover have "unat (of_nat scratch :: u64) = scratch" using assms(3) by (intro unat_of_nat_small) simp
  moreover have "unat (take_bit 16 (ucast bytes :: u64)) = unat bytes"
    using assms(5) by (simp add: unsigned_take_bit_eq unsigned_ucast_eq take_bit_nat_eq_self)
  ultimately show ?thesis using assms(1,2,4)
    by (simp add: good_command_def copy_count_def copy_command_def cmdifc_def opcode_def CMD_COPY_def Let_def)
qed

lemma hw_copy_runs:
  assumes "fair sched" and "settled cb sb w" and "flying w = []" and "length tcmd = 8" and "scratch \<notin> {cb, sb}" and "scratch < 2 ^ 32"
    and "unat bytes mod 8 = 0" and "unat bytes < 2 ^ 16" and "unat from < 2 ^ 44" and "unat to < 2 ^ 44"
  shows "\<exists>w'. hw_copy sched tcmd scratch fl from to bytes w = Inr w' \<and> settled cb sb w' \<and> flying w' = [] \<and>
     others cb sb (w_bufs w') = others cb sb (copy_words scratch (unat from) scratch (unat to) (unat bytes div 8) (w_bufs w))"
proof -
  define w0 where "w0 = w\<lparr>w_flags := (w_flags w)(fl := False)\<rparr>"
  have s0: "sending cb sb (nS w) (w_sent w) w0"
    using assms(2) by (simp add: settled_simps sending_def w0_def) (simp add: cmd_started_def asked_def counters)
  let ?Q = "\<lambda>v. flying v = [] \<and> \<not> flagged Flag_finish fl v \<and> w_bufs v = w_bufs w"
  have q0: "?Q w0" using assms(3) by (simp add: w0_def flagged_def flying_defs counters)
  have Qe: "?Q (inquire v)" "?Q (set_space v)" if "?Q v" for v
    using that by (simp_all add: flagged_def flying_defs counters request_def set_ring_def)
  have Qp: "?Q (polled sb sched v)" if "ring_inv cb sb v" "?Q v" for v
    using that polled_quiet [of cb sb v sched] polled_unshared(2) [of cb sb v Flag_finish fl sched] by (simp add: unshared_def tags_def)
  have len: "length (w_sent w) \<le> nS w + 126" by (simp add: nS_def)
  let ?cmd = "copy_command tcmd scratch from to bytes"
  obtain w1 where w1: "ring_send sched Cmd ?cmd (Some Flag_finish) fl w0 = Inr (sent_one cb ?cmd (Some Flag_finish) fl w1)"
    "sending cb sb (nS w) (w_sent w) w1" "?Q w1" "sr_cached_space (w_cmd_ring w1) \<noteq> 0"
    using ring_send_returns [OF assms(1) s0 len, of ?Q] q0 Qe Qp by blast
  define t where "t = hd (w_freelist w1)"
  define it where "it = ?cmd[7 := of_nat t]"
  have l: "length ?cmd = 8" "length it = 8" using assms(4) by (simp_all add: copy_command_def it_def)
  have tb: "take_bit 32 (of_nat scratch :: u64) = of_nat scratch"
    using assms(6) by (simp add: take_bit_of_nat take_bit_nat_eq_self)
  have sc: "unat (of_nat scratch :: u64) = scratch" using assms(6) by (intro unat_of_nat_small) simp
  have words: "cmdifc ?cmd = CopyEngine" "it ! 1 = of_nat scratch" "it ! 2 = from" "it ! 3 = of_nat scratch" "it ! 4 = to" "it ! 5 = ucast bytes"
    "cmdifc it = CopyEngine" "?cmd ! 3 = of_nat scratch" "?cmd ! 5 = ucast bytes"
    using assms(4) by (simp_all add: it_def copy_command_def cmdifc_def opcode_def CMD_COPY_def Let_def)
  have cc: "unat (take_bit 16 (ucast bytes :: u64)) = unat bytes"
    using assms(8) by (simp add: unsigned_take_bit_eq unsigned_ucast_eq take_bit_nat_eq_self)
  have good: "good_command cb sb ?cmd" by (rule copy_command_good [OF assms(4-8)])
  have ok: "copy_command_ok cb sb it" using assms(5) words tb sc by (simp add: copy_command_ok_def)
  have run: "run_copy it b = copy_words scratch (unat from) scratch (unat to) (unat bytes div 8) b" for b
    using assms(9,10) words tb sc cc
    by (simp add: run_copy_def copy_count_def offset_bits_def unsigned_take_bit_eq take_bit_nat_eq_self)
  have un: "unshared Flag_finish fl w1" using w1(3) by (simp add: unshared_def tags_def)
  note st = sent_started [OF w1(2,4) l(1) good, of Flag_finish fl, folded t_def]
  let ?v = "STARTRING (sent_one cb ?cmd (Some Flag_finish) fl w1)"
  have pend: "settled cb sb ?v" "pending Flag_finish fl t ?v" using st(1,2) w1(3) un by simp_all
  have tv: "tags ?v = {t}" using st(7) w1(3) un by (simp add: tags_def)
  have cd: "copy_data cb sb it (w_bufs w) ?v"
  proof -
    have "waiting ?v = [it]" using st(4) w1(3) un by (simp add: it_def flying_def)
    moreover have "rh_copy (w_hw ?v) = []" "rh_echo (w_hw ?v) = []" using w1(3) by (simp_all add: STARTRING_def request_def sent_one_def Let_def flying_def)
    moreover have "others cb sb (w_bufs ?v) = others cb sb (w_bufs w)" using w1(3) by (simp add: STARTRING_def request_def sent_one_def Let_def)
    ultimately show ?thesis by (simp add: copy_data_def)
  qed
  let ?R = "\<lambda>v. copy_data cb sb it (w_bufs w) v \<and> tags v \<subseteq> {t} \<and> uses Flag_finish fl (w_completion v ! t)"
  have Rp: "?R (polled sb sched v)" if "settled cb sb v" "pending Flag_finish fl t v" "?R v" for v
  proof -
    have i: "ring_inv cb sb v" using that(1) by (simp add: settled_simps)
    have "uses Flag_finish fl (w_completion (polled sb sched v) ! t)" using polled_uses [OF i] that(3) by blast
    then show ?thesis using that(3) polled_copy_data [OF i ok] polled_tags [OF i, of sched] by blast
  qed
  obtain w2 where w2: "waitforflag sched (flagged Flag_finish fl) ?v = Inr w2" "settled cb sb w2" "unshared Flag_finish fl w2" "?R w2"
    using report_comes [OF assms(1) pend, of ?R] Rp cd tv pend(2) by (metis pending_def subset_refl)
  have "flagged Flag_finish fl = (\<lambda>w. w_flags w fl)" by (simp add: flagged_def fun_eq_iff)
  then have "hw_copy sched tcmd scratch fl from to bytes w = Inr w2"
    unfolding hw_copy_def w0_def [symmetric] w1(1) rbind_Inr using w2(1) by simp
  moreover have "t \<notin> tags w2" using w2(3,4) by (auto simp: unshared_def)
  then have f2: "flying w2 = []" using w2(4) tags_empty by blast
  moreover have "others cb sb (w_bufs w2) = others cb sb (run_copy it (w_bufs w))" using w2(4) f2 by (auto simp: copy_data_def flying_def)
  ultimately show ?thesis using w2(2) run by auto
qed

end
