(* ===== verification/Ring_Boot.thy ===== *)
theory Ring_Boot
  imports Ring_Test
begin

text \<open>
  The ring example from the start: setting up both rings gives the hardware the registers it
  needs, and from then on the invariant holds whatever commands are sent.
\<close>

section \<open>Setting a register\<close>

text \<open>Before it is enabled the hardware does nothing but answer requests.\<close>

definition booting :: "ring_world \<Rightarrow> bool" where
  "booting w \<longleftrightarrow> \<not> rh_enabled (w_hw w) \<and> rh_reads (w_hw w) = [] \<and> rh_copy (w_hw w) = [] \<and> rh_echo (w_hw w) = [] \<and>
     rh_inds (w_hw w) = [] \<and> \<not> w_ring_init_done w"

definition plain_req :: "ring_req \<Rightarrow> bool" where
  "plain_req q = (case q of SetCmdFirst _ \<Rightarrow> True | SetCmdLast _ \<Rightarrow> True | SetStatusFirst _ \<Rightarrow> True | SetStatusLast _ \<Rightarrow> True | _ \<Rightarrow> False)"

lemma ring_request_requests: "ring_request q (h\<lparr>rh_requests := qs\<rparr>) = (ring_request q h)\<lparr>rh_requests := qs\<rparr>"
  by (cases q) (simp_all add: ring_request_def)

lemma fold_request_requests: "(fold ring_request ps h)\<lparr>rh_requests := qs\<rparr> = fold ring_request ps (h\<lparr>rh_requests := qs\<rparr>)"
  by (induction ps arbitrary: h) (simp_all add: ring_request_requests)

lemma fold_request_same:
  "rh_enabled (fold ring_request ps h) = rh_enabled h \<or> \<not> list_all (\<lambda>q. \<forall>n. q \<noteq> HwEnable n) ps"
  "rh_reads (fold ring_request ps h) = rh_reads h" "rh_copy (fold ring_request ps h) = rh_copy h" "rh_echo (fold ring_request ps h) = rh_echo h"
  "rh_dispatched (fold ring_request ps h) = rh_dispatched h" "rh_pushed (fold ring_request ps h) = rh_pushed h"
proof (induction ps arbitrary: h)
  case (Cons q ps)
  { case 1 then show ?case using Cons(1) [of "ring_request q h"] by (cases q) (auto simp: ring_request_def) }
  { case 2 then show ?case using Cons(2) [of "ring_request q h"] by (cases q) (auto simp: ring_request_def) }
  { case 3 then show ?case using Cons(3) [of "ring_request q h"] by (cases q) (auto simp: ring_request_def) }
  { case 4 then show ?case using Cons(4) [of "ring_request q h"] by (cases q) (auto simp: ring_request_def) }
  { case 5 then show ?case using Cons(5) [of "ring_request q h"] by (cases q) (auto simp: ring_request_def) }
  { case 6 then show ?case using Cons(6) [of "ring_request q h"] by (cases q) (auto simp: ring_request_def) }
qed simp_all

lemma plain_inds: "list_all plain_req ps \<Longrightarrow> rh_inds (fold ring_request ps h) = rh_inds h"
  by (induction ps arbitrary: h) (auto simp: plain_req_def ring_request_def split: ring_req.splits)

text \<open>The world when \<open>k\<close> of the requests \<open>qs\<close> have been answered.\<close>

definition boot_at :: "ring_world \<Rightarrow> ring_req list \<Rightarrow> nat \<Rightarrow> ring_world" where
  "boot_at w qs k = w\<lparr>w_hw := (fold ring_request (take k qs) (w_hw w))\<lparr>rh_requests := drop k qs\<rparr>\<rparr>"

lemma boot_step:
  assumes "booting w" and "list_all (\<lambda>q. \<forall>n. q \<noteq> HwEnable n) qs" and "k \<le> length qs"
  shows "world_step act (boot_at w qs k) = boot_at w qs (if act = DoRequest \<and> k < length qs then Suc k else k)"
proof -
  have en: "\<not> rh_enabled (fold ring_request (take k qs) (w_hw w))"
    using fold_request_same(1) [of "take k qs" "w_hw w"] assms(1,2) by (auto simp: booting_def list_all_iff dest: in_set_takeD)
  have "can act (boot_at w qs k) \<longleftrightarrow> act = DoRequest \<and> k < length qs"
    using assms(1,3) en by (cases act) (auto simp: hw_enabled_def boot_at_def fold_request_same booting_def)
  moreover have "world_step DoRequest (boot_at w qs k) = boot_at w qs (Suc k)" if "k < length qs"
    using that by (simp add: world_step_def hw_step_def hw_enabled_def hw_effect_def boot_at_def with_hw_def ring_request_requests
        take_Suc_conv_app_nth hd_drop_conv_nth tl_drop [symmetric] drop_Suc)
  ultimately show ?thesis by (auto simp: world_step_idle)
qed

lemma boot_fold:
  assumes "booting w" and "list_all (\<lambda>q. \<forall>n. q \<noteq> HwEnable n) qs" and "k \<le> length qs"
  shows "\<exists>k'. k \<le> k' \<and> k' \<le> length qs \<and> fold world_step acts (boot_at w qs k) = boot_at w qs k' \<and>
     (DoRequest \<in> set acts \<longrightarrow> k < length qs \<longrightarrow> k < k')"
  using assms(3)
proof (induction acts arbitrary: k)
  case (Cons a acts)
  let ?k = "if a = DoRequest \<and> k < length qs then Suc k else k"
  have "?k \<le> length qs" using Cons.prems by simp
  from Cons.IH [OF this] obtain k' where "?k \<le> k'" "k' \<le> length qs" "fold world_step acts (boot_at w qs ?k) = boot_at w qs k'"
    "DoRequest \<in> set acts \<longrightarrow> ?k < length qs \<longrightarrow> ?k < k'" by blast
  then show ?case using boot_step [OF assms(1,2) Cons.prems, of a] by (intro exI [of _ k']) (auto split: if_splits)
qed auto

definition boot_done :: "ring_world \<Rightarrow> ring_req list \<Rightarrow> ring_world" where
  "boot_done w qs = w\<lparr>w_hw := (fold ring_request qs (w_hw w))\<lparr>rh_requests := [], rh_inds := []\<rparr>, w_setresult_flag := True\<rparr>"

lemma boot_poll:
  fixes c :: nat
  assumes "booting w" and "list_all plain_req ps" and "k \<le> length ps" and "qs = ps @ [SetReg i r v]"
  defines "u \<equiv> (boot_at w qs k)\<lparr>w_clock := c\<rparr>"
  shows "\<exists>k'. k \<le> k' \<and> StatusPoll sched u = Inr
      ((if k' \<le> length ps then boot_at w qs k' else boot_done w qs)\<lparr>w_clock := Suc c\<rparr>) \<and>
     (DoRequest \<in> set (sched c) \<longrightarrow> k < k')"
proof -
  have ne: "list_all (\<lambda>q. \<forall>n. q \<noteq> HwEnable n) qs" using assms(2,4) by (auto simp: list_all_iff plain_req_def split: ring_req.splits)
  have bw: "booting (w\<lparr>w_clock := c\<rparr>)" using assms(1) by (simp add: booting_def)
  have u: "u = boot_at (w\<lparr>w_clock := c\<rparr>) qs k" by (simp add: u_def boot_at_def)
  have kq: "k < length qs" using assms(3,4) by simp
  obtain k' where k': "k \<le> k'" "k' \<le> length qs" "fold world_step (sched c) u = boot_at (w\<lparr>w_clock := c\<rparr>) qs k'"
    "DoRequest \<in> set (sched c) \<longrightarrow> k < k'"
    using boot_fold [OF bw ne, of k "sched c"] kq by (auto simp: u)
  have hr: "hw_run sched u = (boot_at w qs k')\<lparr>w_clock := Suc c\<rparr>" using k'(3) by (simp add: hw_run_fold u_def boot_at_def)
  have nd: "\<not> w_ring_init_done w" "rh_inds (w_hw w) = []" using assms(1) by (simp_all add: booting_def)
  have "portal_event ((boot_at w qs k')\<lparr>w_clock := Suc c\<rparr>) =
      (if k' \<le> length ps then boot_at w qs k' else boot_done w qs)\<lparr>w_clock := Suc c\<rparr>"
  proof (cases "k' \<le> length ps")
    case True
    then have "take k' qs = take k' ps" using assms(4) by simp
    moreover have "list_all plain_req (take k' ps)" using assms(2) by (auto simp: list_all_iff dest: in_set_takeD)
    ultimately have "rh_inds (w_hw (boot_at w qs k')) = []" using plain_inds nd(2) by (simp add: boot_at_def)
    then have "portal_event ((boot_at w qs k')\<lparr>w_clock := Suc c\<rparr>) = (boot_at w qs k')\<lparr>w_clock := Suc c\<rparr>"
      by (simp add: portal_event_def)
    then show ?thesis using True by simp
  next
    case False
    then have "k' = length qs" using k'(2) assms(4) by simp
    moreover have "rh_inds (fold ring_request qs (w_hw w)) = [SetResult i r v]"
      using plain_inds [OF assms(2), of "w_hw w"] nd(2) assms(4) by (simp add: ring_request_def)
    ultimately have "portal_event ((boot_at w qs k')\<lparr>w_clock := Suc c\<rparr>) = (boot_done w qs)\<lparr>w_clock := Suc c\<rparr>"
      by (simp add: portal_event_def boot_at_def boot_done_def indication_def setResult_def)
    then show ?thesis using False by simp
  qed
  moreover have "\<not> w_ring_init_done (if k' \<le> length ps then boot_at w qs k' else boot_done w qs)"
    using nd(1) by (simp add: boot_at_def boot_done_def)
  ultimately have "StatusPoll sched u = Inr ((if k' \<le> length ps then boot_at w qs k' else boot_done w qs)\<lparr>w_clock := Suc c\<rparr>)"
    by (simp add: StatusPoll_def hr Let_def)
  then show ?thesis using k'(1,4) by blast
qed

lemma set_wait_returns:
  assumes "fair sched" and "booting w" and "list_all plain_req (rh_requests (w_hw w))"
  shows "\<exists>c. set_wait sched i r v w =
     Inr ((boot_done w (rh_requests (w_hw w) @ [SetReg i r v]))\<lparr>w_clock := c\<rparr>)"
proof -
  define ps where "ps = rh_requests (w_hw w)"
  define qs where "qs = ps @ [SetReg i r v]"
  define w0 where "w0 = w\<lparr>w_setresult_flag := False\<rparr>"
  have b0: "booting w0" "list_all plain_req ps" "w_setresult_flag w0 = False" using assms(2,3) by (simp_all add: booting_def w0_def ps_def)
  let ?P = "\<lambda>u. (\<exists>k c. k \<le> length ps \<and> u = (boot_at w0 qs k)\<lparr>w_clock := c\<rparr>) \<or> (\<exists>c. u = (boot_done w0 qs)\<lparr>w_clock := c\<rparr>)"
  define g where "g u = (case StatusPoll sched u of Inr u \<Rightarrow> u | Inl e \<Rightarrow> u)" for u
  have start: "request (SetReg i r v) w0 = (boot_at w0 qs 0)\<lparr>w_clock := w_clock w0\<rparr>"
    by (simp add: request_def boot_at_def qs_def ps_def w0_def)
  have poll: "\<exists>k k' c. u = (boot_at w0 qs k)\<lparr>w_clock := c\<rparr> \<and> k \<le> length ps \<and> k \<le> k' \<and> StatusPoll sched u = Inr (g u) \<and>
      g u = (if k' \<le> length ps then boot_at w0 qs k' else boot_done w0 qs)\<lparr>w_clock := Suc c\<rparr> \<and> (DoRequest \<in> set (sched c) \<longrightarrow> k < k')"
    if u: "?P u" "\<not> w_setresult_flag u" for u
  proof -
    from u obtain k c where kc: "k \<le> length ps" "u = (boot_at w0 qs k)\<lparr>w_clock := c\<rparr>" by (auto simp: boot_done_def)
    from boot_poll [OF b0(1,2) kc(1) qs_def, of sched c] show ?thesis
      unfolding kc(2) g_def using kc(1) by (metis sum.case(2))
  qed
  have "\<exists>w'. poll_until sched w_setresult_flag (request (SetReg i r v) w0) = Some (Inr w') \<and> ?P w' \<and> w_setresult_flag w'"
  proof (rule poll_until_ends [OF assms(1), where g = g and m = "\<lambda>u. length (rh_requests (w_hw u))"])
    show "?P (request (SetReg i r v) w0)" unfolding start by blast
    fix u assume u: "?P u" "\<not> w_setresult_flag u"
    from poll [OF u] obtain k k' c where k: "u = (boot_at w0 qs k)\<lparr>w_clock := c\<rparr>" "k \<le> length ps" "k \<le> k'" "StatusPoll sched u = Inr (g u)"
      "g u = (if k' \<le> length ps then boot_at w0 qs k' else boot_done w0 qs)\<lparr>w_clock := Suc c\<rparr>" "DoRequest \<in> set (sched c) \<longrightarrow> k < k'"
      by blast
    have len: "length (rh_requests (w_hw u)) = length qs - k"
      "length (rh_requests (w_hw (g u))) = (if k' \<le> length ps then length qs - k' else 0)"
      unfolding k(5) by (simp_all add: k(1) boot_at_def boot_done_def)
    show "StatusPoll sched u = Inr (g u) \<and> w_clock (g u) = Suc (w_clock u) \<and> ?P (g u) \<and>
        length (rh_requests (w_hw (g u))) \<le> length (rh_requests (w_hw u))"
    proof (intro conjI)
      show "?P (g u)" unfolding k(5) by (cases "k' \<le> length ps") auto
      show "w_clock (g u) = Suc (w_clock u)" unfolding k(5) by (simp add: k(1))
    qed (use k(3,4) len in auto)
    show "length (rh_requests (w_hw (g u))) < length (rh_requests (w_hw u))" if "full_look sched (w_clock u)"
    proof -
      have "k < k'" using that k(1,6) by (simp add: full_look_def)
      then show ?thesis using len k(2) by (auto simp: qs_def)
    qed
  qed
  then obtain w' where w': "poll_until sched w_setresult_flag (request (SetReg i r v) w0) = Some (Inr w')" "?P w'" "w_setresult_flag w'" by blast
  have "\<not> (\<exists>k c. k \<le> length ps \<and> w' = (boot_at w0 qs k)\<lparr>w_clock := c\<rparr>)" using w'(3) b0(3) by (auto simp: boot_at_def)
  then obtain c where c: "w' = (boot_done w0 qs)\<lparr>w_clock := c\<rparr>" using w'(2) by blast
  have "boot_done w0 qs = boot_done w qs" by (simp add: boot_done_def w0_def)
  then have "set_wait sched i r v w = Inr ((boot_done w qs)\<lparr>w_clock := c\<rparr>)"
    using w'(1) c by (simp add: set_wait_def waitforflag_def returned_def w0_def)
  then show ?thesis by (auto simp: qs_def ps_def)
qed

section \<open>Setting up the rings\<close>

lemma booting_done:
  assumes "booting w" and "list_all (\<lambda>q. \<forall>n. q \<noteq> HwEnable n) qs"
  shows "booting ((boot_done w qs)\<lparr>w_clock := c\<rparr>)" "rh_requests (w_hw ((boot_done w qs)\<lparr>w_clock := c\<rparr>)) = []"
  using assms fold_request_same(1) [of qs "w_hw w"] by (auto simp: booting_def boot_done_def fold_request_same)

text \<open>One register after the other.\<close>

lemma set_wait_once:
  assumes "fair sched" and "booting w" and "list_all plain_req (rh_requests (w_hw w))"
  obtains c where "set_wait sched i r v w = Inr ((boot_done w (rh_requests (w_hw w) @ [SetReg i r v]))\<lparr>w_clock := c\<rparr>)"
    "booting ((boot_done w (rh_requests (w_hw w) @ [SetReg i r v]))\<lparr>w_clock := c\<rparr>)"
    "rh_requests (w_hw ((boot_done w (rh_requests (w_hw w) @ [SetReg i r v]))\<lparr>w_clock := c\<rparr>)) = []"
proof -
  obtain c where "set_wait sched i r v w = Inr ((boot_done w (rh_requests (w_hw w) @ [SetReg i r v]))\<lparr>w_clock := c\<rparr>)"
    using set_wait_returns [OF assms] by blast
  moreover have "list_all (\<lambda>q. \<forall>n. q \<noteq> HwEnable n) (rh_requests (w_hw w) @ [SetReg i r v])"
    using assms(3) by (auto simp: list_all_iff plain_req_def split: ring_req.splits)
  ultimately show ?thesis using that booting_done [OF assms(2)] by blast
qed

definition ring_requests :: "nat \<Rightarrow> nat \<Rightarrow> nat \<Rightarrow> ring_req list" where
  "ring_requests ringid ref sz =
     [SetReg ringid REG_BASE 0, SetReg ringid REG_END sz] @
     (if ringid = 0 then [SetCmdFirst 0, SetCmdLast 0] else [SetStatusFirst 0, SetStatusLast 0]) @
     [SetReg ringid REG_MASK (sz - 1), SetReg ringid REG_HANDLE ref]"

lemma fold_request_inds: "fold ring_request qs (h\<lparr>rh_requests := a, rh_inds := b\<rparr>)\<lparr>rh_requests := [], rh_inds := []\<rparr> =
    fold ring_request qs h\<lparr>rh_requests := [], rh_inds := []\<rparr>"
proof (induction qs arbitrary: h a b)
  case (Cons q qs)
  have "\<exists>b'. ring_request q (h\<lparr>rh_requests := a, rh_inds := b\<rparr>) = (ring_request q h)\<lparr>rh_requests := a, rh_inds := b'\<rparr>"
    by (cases q; cases h) (auto simp: ring_request_def)
  then show ?case using Cons.IH by (metis fold_simps(2))
qed simp

lemma boot_done_boot_done:
  "boot_done ((boot_done w qs)\<lparr>w_clock := c\<rparr>) qs' = (boot_done w (qs @ qs'))\<lparr>w_clock := c\<rparr>"
  by (simp add: boot_done_def fold_request_inds)

lemma boot_done_request:
  assumes "rh_requests (w_hw w) = []"
  shows "boot_done (request q1 (request q2 w)) qs = boot_done w qs"
  by (simp add: boot_done_def request_def fold_request_requests [symmetric])

lemma ring_init_returns:
  fixes rn :: ring_name and ref base sz ringid :: nat
  assumes "fair sched" and "booting w" and "rh_requests (w_hw w) = []"
  defines "w0 \<equiv> set_ring rn (fresh_ring ringid ref base sz) w"
  shows "\<exists>c. ring_init sched rn ringid ref base sz w = Inr ((boot_done w0 (ring_requests ringid ref sz))\<lparr>w_clock := c\<rparr>) \<and>
     booting ((boot_done w0 (ring_requests ringid ref sz))\<lparr>w_clock := c\<rparr>)"
proof -
  have b0: "booting w0" "rh_requests (w_hw w0) = []" using assms(2,3) by (cases rn; simp add: w0_def set_ring_def booting_def)+
  obtain c1 where c1: "set_wait sched ringid REG_BASE 0 w0 = Inr ((boot_done w0 [SetReg ringid REG_BASE 0])\<lparr>w_clock := c1\<rparr>)"
    "booting ((boot_done w0 [SetReg ringid REG_BASE 0])\<lparr>w_clock := c1\<rparr>)"
    "rh_requests (w_hw ((boot_done w0 [SetReg ringid REG_BASE 0])\<lparr>w_clock := c1\<rparr>)) = []"
    using set_wait_once [OF assms(1) b0(1), of ringid REG_BASE 0] b0(2) by auto
  define w1 where "w1 = (boot_done w0 [SetReg ringid REG_BASE 0])\<lparr>w_clock := c1\<rparr>"
  obtain c2 where c2: "set_wait sched ringid REG_END sz w1 = Inr ((boot_done w1 [SetReg ringid REG_END sz])\<lparr>w_clock := c2\<rparr>)"
    "booting ((boot_done w1 [SetReg ringid REG_END sz])\<lparr>w_clock := c2\<rparr>)"
    "rh_requests (w_hw ((boot_done w1 [SetReg ringid REG_END sz])\<lparr>w_clock := c2\<rparr>)) = []"
    using set_wait_once [OF assms(1) c1(2), of ringid REG_END sz] c1(3) by (auto simp: w1_def)
  define w2 where "w2 = (boot_done w1 [SetReg ringid REG_END sz])\<lparr>w_clock := c2\<rparr>"
  define ps where "ps = (if ringid = 0 then [SetCmdFirst 0, SetCmdLast 0] else [SetStatusFirst 0, SetStatusLast 0])"
  define w3 where "w3 = (if ringid = 0 then request (SetCmdLast 0) (request (SetCmdFirst 0) w2)
    else request (SetStatusLast 0) (request (SetStatusFirst 0) w2))"
  have b3: "booting w3" "rh_requests (w_hw w3) = ps" "list_all plain_req ps"
    using c2(2,3) [folded w2_def] by (simp_all add: w3_def request_def booting_def ps_def plain_req_def)
  have d3: "boot_done w3 qs = boot_done w2 qs" for qs using boot_done_request [OF c2(3) [folded w2_def]] by (simp add: w3_def)
  obtain c4 where c4: "set_wait sched ringid REG_MASK (sz - 1) w3 = Inr ((boot_done w2 (ps @ [SetReg ringid REG_MASK (sz - 1)]))\<lparr>w_clock := c4\<rparr>)"
    "booting ((boot_done w2 (ps @ [SetReg ringid REG_MASK (sz - 1)]))\<lparr>w_clock := c4\<rparr>)"
    "rh_requests (w_hw ((boot_done w2 (ps @ [SetReg ringid REG_MASK (sz - 1)]))\<lparr>w_clock := c4\<rparr>)) = []"
    using set_wait_once [OF assms(1) b3(1), of ringid REG_MASK "sz - 1"] b3(2,3) d3 by auto
  define w4 where "w4 = (boot_done w2 (ps @ [SetReg ringid REG_MASK (sz - 1)]))\<lparr>w_clock := c4\<rparr>"
  obtain c5 where c5: "set_wait sched ringid REG_HANDLE ref w4 = Inr ((boot_done w4 [SetReg ringid REG_HANDLE ref])\<lparr>w_clock := c5\<rparr>)"
    "booting ((boot_done w4 [SetReg ringid REG_HANDLE ref])\<lparr>w_clock := c5\<rparr>)"
    using set_wait_once [OF assms(1) c4(2), of ringid REG_HANDLE ref] c4(3) by (auto simp: w4_def)
  have e: "(boot_done w4 [SetReg ringid REG_HANDLE ref])\<lparr>w_clock := c5\<rparr> = (boot_done w0 (ring_requests ringid ref sz))\<lparr>w_clock := c5\<rparr>"
    by (simp add: w4_def w2_def w1_def boot_done_boot_done ring_requests_def ps_def)
  have "ring_init sched rn ringid ref base sz w = Inr ((boot_done w4 [SetReg ringid REG_HANDLE ref])\<lparr>w_clock := c5\<rparr>)"
    unfolding ring_init_def Let_def w0_def [symmetric] c1(1) w1_def [symmetric] rbind_Inr c2(1) w2_def [symmetric] w3_def [symmetric]
      c4(1) w4_def [symmetric] c5(1) by simp
  then show ?thesis using e c5(2) by auto
qed

text \<open>
  What \<open>main\<close> starts from: hardware after a reset, buffers of 8192 bytes of which the status ring
  holds zeros, and handles of 32 bits.
\<close>

definition fresh_world :: "nat \<Rightarrow> nat \<Rightarrow> ring_world \<Rightarrow> bool" where
  "fresh_world cb sb w \<longleftrightarrow> cb \<noteq> sb \<and> cb < 2 ^ 32 \<and> sb < 2 ^ 32 \<and>
     \<not> rh_enabled (w_hw w) \<and> rh_requests (w_hw w) = [] \<and> rh_inds (w_hw w) = [] \<and> rh_reads (w_hw w) = [] \<and>
     rh_copy (w_hw w) = [] \<and> rh_echo (w_hw w) = [] \<and> rh_dispatched (w_hw w) = [] \<and> rh_pushed (w_hw w) = [] \<and>
     \<not> w_ring_init_done w \<and> w_sent w = [] \<and> w_handled w = [] \<and>
     length (w_bufs w cb) = 1024 \<and> w_bufs w sb = replicate 1024 0"

lemma ring_registers:
  assumes "cb < 2 ^ 32" and "sb < 2 ^ 32"
  shows "rh_cmd (fold ring_request (ring_requests 0 cb 8192) h) =
      \<lparr>rb_base = 0, rb_end = 8192, rb_first = 0, rb_lastfetch = 0, rb_lastack = 0, rb_mask = 8191, rb_mem = cb, rb_enable = rb_enable (rh_cmd h)\<rparr>"
    "rh_status (fold ring_request (ring_requests 0 cb 8192) h) = rh_status h"
    "rh_status (fold ring_request (ring_requests 1 sb 8192) h) =
      \<lparr>rb_base = 0, rb_end = 8192, rb_first = 0, rb_lastfetch = 0, rb_lastack = 0, rb_mask = 8191, rb_mem = sb, rb_enable = rb_enable (rh_status h)\<rparr>"
    "rh_cmd (fold ring_request (ring_requests 1 sb 8192) h) = rh_cmd h"
  using assms
  by (simp_all add: ring_requests_def ring_request_def rb_set_def rb_setFirst_def rb_setLast_def REG_BASE_def REG_END_def REG_MASK_def
      REG_HANDLE_def Let_def offset_bits_def take_bit_nat_eq_self)

lemma ring_setup_result:
  assumes "fair sched" and "fresh_world cb sb w"
  obtains w' where "ring_setup sched cb sb w = Inr w'"
    "w_hw w' = (fold ring_request (ring_requests 0 cb 8192 @ ring_requests 1 sb 8192) (w_hw w))\<lparr>rh_requests := [HwEnable 1], rh_inds := []\<rparr>"
    "w_bufs w' = w_bufs w" "w_completion w' = w_completion (completion_list_init w)" "w_freelist w' = [1..<1024]"
    "w_cmd_ring w' = fresh_ring 0 cb cb 8192" "w_status_ring w' = fresh_ring 1 sb sb 8192" "w_ring_init_done w'" "w_sent w' = []" "w_handled w' = []"
proof -
  define w0 where "w0 = completion_list_init w"
  have b0: "booting w0" "rh_requests (w_hw w0) = []" using assms(2) by (simp_all add: w0_def completion_list_init_def fresh_world_def booting_def)
  define u1 where "u1 = boot_done (set_ring Cmd (fresh_ring 0 cb cb 8192) w0) (ring_requests 0 cb 8192)"
  obtain c1 where c1: "ring_init sched Cmd 0 cb cb 8192 w0 = Inr (u1\<lparr>w_clock := c1\<rparr>)" "booting (u1\<lparr>w_clock := c1\<rparr>)"
    using ring_init_returns [OF assms(1) b0, of Cmd 0 cb cb 8192] by (auto simp: u1_def)
  have r1: "rh_requests (w_hw (u1\<lparr>w_clock := c1\<rparr>)) = []" by (simp add: u1_def boot_done_def)
  define u2 where "u2 = boot_done (set_ring Status (fresh_ring 1 sb sb 8192) (u1\<lparr>w_clock := c1\<rparr>)) (ring_requests 1 sb 8192)"
  obtain c2 where c2: "ring_init sched Status 1 sb sb 8192 (u1\<lparr>w_clock := c1\<rparr>) = Inr (u2\<lparr>w_clock := c2\<rparr>)"
    using ring_init_returns [OF assms(1) c1(2) r1, of Status 1 sb sb 8192] by (auto simp: u2_def)
  define w' where "w' = request (HwEnable 1) (u2\<lparr>w_clock := c2, w_ring_init_done := True\<rparr>)"
  have hw2: "w_hw u2 = (fold ring_request (ring_requests 0 cb 8192 @ ring_requests 1 sb 8192) (w_hw w))\<lparr>rh_requests := [], rh_inds := []\<rparr>"
    by (simp add: u2_def u1_def boot_done_def set_ring_def fold_request_inds w0_def completion_list_init_def)
  show ?thesis
  proof (rule that [of w'])
    show "ring_setup sched cb sb w = Inr w'"
      using c1(1) c2 by (simp add: ring_setup_def cmd_ring_sz_def status_ring_sz_def w0_def w'_def)
    show "w_hw w' = (fold ring_request (ring_requests 0 cb 8192 @ ring_requests 1 sb 8192) (w_hw w))\<lparr>rh_requests := [HwEnable 1], rh_inds := []\<rparr>"
      by (simp add: w'_def request_def hw2)
    show "w_sent w' = []" "w_handled w' = []" "w_bufs w' = w_bufs w" "w_completion w' = w_completion (completion_list_init w)"
      "w_freelist w' = [1..<1024]"
      using assms(2)
      by (simp_all add: w'_def request_def u2_def u1_def boot_done_def set_ring_def w0_def completion_list_init_def fresh_world_def)
    show "w_cmd_ring w' = fresh_ring 0 cb cb 8192" "w_status_ring w' = fresh_ring 1 sb sb 8192" "w_ring_init_done w'"
      by (simp_all add: w'_def request_def u2_def u1_def boot_done_def set_ring_def)
  qed
qed

lemma ring_setup_ready:
  assumes "fair sched" and "fresh_world cb sb w"
  obtains w' where "ring_setup sched cb sb w = Inr w'" "settled cb sb w'" "tags w' = {}" "w_sent w' = []"
    "\<And>x. w_bufs w' x = w_bufs w x"
proof -
  obtain w' where w': "ring_setup sched cb sb w = Inr w'"
    "w_hw w' = (fold ring_request (ring_requests 0 cb 8192 @ ring_requests 1 sb 8192) (w_hw w))\<lparr>rh_requests := [HwEnable 1], rh_inds := []\<rparr>"
    "w_bufs w' = w_bufs w" "w_completion w' = w_completion (completion_list_init w)" "w_freelist w' = [1..<1024]"
    "w_cmd_ring w' = fresh_ring 0 cb cb 8192" "w_status_ring w' = fresh_ring 1 sb sb 8192" "w_ring_init_done w'" "w_sent w' = []" "w_handled w' = []"
    by (rule ring_setup_result [OF assms])
  have f: "cb \<noteq> sb" "cb < 2 ^ 32" "sb < 2 ^ 32" "rh_reads (w_hw w) = []" "rh_copy (w_hw w) = []" "rh_echo (w_hw w) = []"
    "rh_dispatched (w_hw w) = []" "rh_pushed (w_hw w) = []" "length (w_bufs w cb) = 1024" "w_bufs w sb = replicate 1024 0"
    using assms(2) by (simp_all add: fresh_world_def)
  note reg = ring_registers [OF f(2,3), unfolded One_nat_def]
  have hc: "rb_first (rh_cmd (w_hw w')) = 0" "rb_lastfetch (rh_cmd (w_hw w')) = 0" "rb_lastack (rh_cmd (w_hw w')) = 0"
    "rb_mask (rh_cmd (w_hw w')) = 8191" "rb_mem (rh_cmd (w_hw w')) = cb"
    by (simp_all add: w'(2) reg)
  have hs: "rb_first (rh_status (w_hw w')) = 0" "rb_lastack (rh_status (w_hw w')) = 0"
    "rb_mask (rh_status (w_hw w')) = 8191" "rb_mem (rh_status (w_hw w')) = sb"
    by (simp_all add: w'(2) reg)
  have h: "rh_reads (w_hw w') = []" "rh_copy (w_hw w') = []" "rh_echo (w_hw w') = []" "rh_dispatched (w_hw w') = []" "rh_pushed (w_hw w') = []"
    "rh_requests (w_hw w') = [HwEnable 1]" "rh_inds (w_hw w') = []"
    by (simp_all add: w'(2) fold_request_same f)
  have cnt: "nS w' = 0" "nD w' = 0" "nF w' = 0" "nP w' = 0" "nH w' = 0" "flying w' = []" "waiting w' = []"
    by (simp_all add: counters flying_defs h w'(9,10))
  have "cmd_started w' 0 0" by (simp add: cmd_started_def hc h cnt)
  moreover have "cmd_acked w' 0 0 127" by (simp add: cmd_acked_def h cnt w'(6) fresh_ring_def)
  moreover have "cmd_soft cb w'" "cmd_hard cb w'" "cmd_mem cb w'"
    using f by (simp_all add: cmd_soft_def cmd_hard_def cmd_mem_def w' fresh_ring_def cnt) (simp_all add: w'(2) reg fold_request_same f)
  ultimately have "cmd_inv cb w'" by (auto simp: cmd_inv_def)
  moreover have "status_inv sb w'"
  proof -
    have "status_hard sb w' 0" by (simp add: status_hard_def hs h cnt)
    moreover have "status_soft sb w'" by (simp add: status_soft_def cnt w'(7,10) fresh_ring_def)
    moreover have "item_at (replicate 1024 0) (slot i) ! 7 = 0" for i
      using slot_word_le [of i] by (simp add: item_at_nth7)
    then have "status_mem sb w'" by (simp add: status_mem_def cnt w'(3) f(10))
    ultimately show ?thesis by (auto simp: status_inv_def)
  qed
  moreover have "pool_inv w'"
    by (auto simp: pool_inv_def cnt w'(4,5) completion_list_init_def nth_Cons')
  moreover have "shape_inv cb sb w'" using f(1) by (simp add: shape_inv_def cnt h w'(8) running_req_def)
  ultimately have "ring_inv cb sb w'" by (simp add: ring_inv_def)
  moreover have "asked w' = 0" by (simp add: asked_def h is_get_def)
  ultimately have "settled cb sb w'" using \<open>cmd_started w' 0 0\<close> by (auto simp: settled_simps cnt)
  then show ?thesis using that [OF w'(1)] w'(3,9) by (simp add: tags_def cnt)
qed

lemma pass3_passes:
  assumes "fair sched" and "ev \<noteq> 0" and "length tcmd = 8"
  shows "settled cb sb w \<Longrightarrow> unshared Echo_finish ev w \<Longrightarrow>
    \<exists>w'. pass3 sched tcmd ev i n w = Inr (True, w') \<and> settled cb sb w'"
proof (induction n arbitrary: i w)
  case (Suc n)
  obtain w1 where w1: "hw_echo sched tcmd ev (push_bit 32 0x333 + of_nat i) (push_bit 32 0x444 + of_nat i) w = Inr (True, w1)"
    "settled cb sb w1" "unshared Echo_finish ev w1"
    using hw_echo_echoes [OF assms(1) Suc.prems assms(2,3)] by blast
  then obtain w2 where "pass3 sched tcmd ev (Suc i) n w1 = Inr (True, w2) \<and> settled cb sb w2" using Suc.IH by blast
  then show ?case using w1 by simp
qed simp

end
