(* ===== verification/Ring_Passes.thy ===== *)
theory Ring_Passes
  imports Ring_Boot
begin

text \<open>
  The test program of the ring example as a whole: with hardware that goes on working, it sets up
  the rings, runs its passes to their end and finds nothing wrong.
\<close>

section \<open>Bytes and copies\<close>

lemma set_byte_length [simp]: "length (set_byte ws i v) = length ws"
  by (simp add: set_byte_def)

lemma byte_set:
  assumes "i div 8 < length ws"
  shows "byte_at (set_byte ws i v) j = (if j = i then v else byte_at ws j)"
proof (cases "j div 8 = i div 8")
  case False
  then show ?thesis by (auto simp: byte_at_def set_byte_def)
next
  case True
  have m: "(0xFF :: u64) = mask 8" by (simp add: mask_eq_exp_minus_1)
  have j: "byte_at (set_byte ws i v) j = ucast (drop_bit (8 * (j mod 8))
      (or (and (ws ! (i div 8)) (not (push_bit (8 * (i mod 8)) (mask 8)))) (push_bit (8 * (i mod 8)) (ucast v))) :: u64)"
    using assms True by (simp add: byte_at_def set_byte_def m)
  have b: "bit (byte_at (set_byte ws i v) j) n = (if j = i then bit v n else bit (byte_at ws j) n)" if "n < 8" for n
  proof (cases "j = i")
    case eq: True
    have "i mod 8 < 8" by simp
    then have "8 * (i mod 8) + n < 64" using that by linarith
    then show ?thesis unfolding j using that eq by (auto simp: bit_simps dest: bit_imp_le_length)
  next
    case ne: False
    then have "j mod 8 \<noteq> i mod 8" using True by (metis div_mult_mod_eq)
    then have "\<not> (8 * (i mod 8) \<le> 8 * (j mod 8) + n \<and> 8 * (j mod 8) + n - 8 * (i mod 8) < 8)" using that by auto
    then show ?thesis unfolding j using that ne True by (auto simp: bit_simps byte_at_def dest: bit_imp_le_length)
  qed
  show ?thesis by (rule bit_word_eqI) (simp add: b)
qed

lemma fill_bytes:
  assumes "n \<le> 8 * length ws"
  shows "length (fold (\<lambda>i ws. set_byte ws i (of_nat i)) [0..<n] ws) = length ws"
    "j < n \<Longrightarrow> byte_at (fold (\<lambda>i ws. set_byte ws i (of_nat i)) [0..<n] ws) j = of_nat j"
proof -
  have "length (fold (\<lambda>i ws. set_byte ws i (of_nat i)) [0..<n] ws) = length ws \<and>
    (j < n \<longrightarrow> byte_at (fold (\<lambda>i ws. set_byte ws i (of_nat i)) [0..<n] ws) j = of_nat j)"
    using assms
  proof (induction n)
    case (Suc n)
    then show ?case by (simp add: byte_set less_Suc_eq)
  qed simp
  then show "length (fold (\<lambda>i ws. set_byte ws i (of_nat i)) [0..<n] ws) = length ws"
    "j < n \<Longrightarrow> byte_at (fold (\<lambda>i ws. set_byte ws i (of_nat i)) [0..<n] ws) j = of_nat j" by auto
qed

lemma copy_words_moves:
  assumes "wa div 8 + n \<le> length (b p)" and "ra div 8 + n \<le> wa div 8 \<or> wa div 8 + n \<le> ra div 8"
  shows "length (copy_words p ra p wa n b p) = length (b p)"
    "copy_words p ra p wa n b p ! i = (if wa div 8 \<le> i \<and> i < wa div 8 + n then b p ! (ra div 8 + (i - wa div 8)) else b p ! i)"
proof -
  have "length (copy_words p ra p wa n b p) = length (b p) \<and>
    copy_words p ra p wa n b p ! i = (if wa div 8 \<le> i \<and> i < wa div 8 + n then b p ! (ra div 8 + (i - wa div 8)) else b p ! i)"
    using assms
  proof (induction n arbitrary: ra wa b)
    case (Suc n)
    let ?b = "b(p := (b p)[wa div 8 := b p ! (ra div 8)])"
    have "(wa + 8) div 8 + n \<le> length (?b p)" "(ra + 8) div 8 + n \<le> (wa + 8) div 8 \<or> (wa + 8) div 8 + n \<le> (ra + 8) div 8"
      using Suc.prems by auto
    note ih = Suc.IH [where b = ?b, OF this]
    define r a where "r = ra div 8" and "a = wa div 8"
    have d: "(ra + 8) div 8 = Suc r" "(wa + 8) div 8 = Suc a" by (simp_all add: r_def a_def)
    note ih = ih [unfolded d] and pr = Suc.prems [folded r_def a_def]
    have "copy_words p (ra + 8) p (wa + 8) n ?b p ! i = (if a \<le> i \<and> i < a + Suc n then b p ! (r + (i - a)) else b p ! i)"
    proof (cases "a < i \<and> i < a + Suc n")
      case True
      then obtain k where k: "i = Suc a + k" "k < n" by (auto simp: less_iff_Suc_add)
      then have "Suc (r + k) \<noteq> a" using pr(2) by linarith
      then show ?thesis unfolding conjunct2 [OF ih] unfolding r_def [symmetric] a_def [symmetric] using k by simp
    next
      case False
      then show ?thesis using pr(1) unfolding conjunct2 [OF ih] unfolding r_def [symmetric] a_def [symmetric] by (auto simp: nth_list_update)
    qed
    moreover have "length (copy_words p (ra + 8) p (wa + 8) n ?b p) = length (b p)" unfolding conjunct1 [OF ih] by simp
    ultimately show ?case by (simp add: r_def a_def)
  qed simp
  then show "length (copy_words p ra p wa n b p) = length (b p)"
    "copy_words p ra p wa n b p ! i = (if wa div 8 \<le> i \<and> i < wa div 8 + n then b p ! (ra div 8 + (i - wa div 8)) else b p ! i)" by auto
qed

section \<open>The first pass\<close>

lemma settled_bufs:
  assumes "scratch \<notin> {cb, sb}"
  shows "settled cb sb (w\<lparr>w_bufs := (w_bufs w)(scratch := ws)\<rparr>) = settled cb sb w"
    "flying (w\<lparr>w_bufs := (w_bufs w)(scratch := ws)\<rparr>) = flying w"
    "tags (w\<lparr>w_bufs := (w_bufs w)(scratch := ws)\<rparr>) = tags w"
proof -
  let ?w = "w\<lparr>w_bufs := (w_bufs w)(scratch := ws)\<rparr>"
  have c: "nS ?w = nS w" "nD ?w = nD w" "nF ?w = nF w" "nP ?w = nP w" "nH ?w = nH w" "waiting ?w = waiting w" "flying ?w = flying w" "unread ?w = unread w"
    by (simp_all add: counters flying_defs)
  show "flying ?w = flying w" "tags ?w = tags w" using c by (simp_all add: tags_def)
  show "settled cb sb ?w = settled cb sb w"
    using assms by (simp add: settled_simps ring_inv_def cmd_defs status_inv_def status_hard_def status_soft_def status_mem_def
        pool_inv_def shape_inv_def c asked_def)
qed

lemma settled_flags: "settled cb sb (w\<lparr>w_flags := fs\<rparr>) = settled cb sb w"
proof -
  let ?w = "w\<lparr>w_flags := fs\<rparr>"
  have c: "nS ?w = nS w" "nD ?w = nD w" "nF ?w = nF w" "nP ?w = nP w" "nH ?w = nH w" "waiting ?w = waiting w" "flying ?w = flying w" "unread ?w = unread w"
    by (simp_all add: counters flying_defs)
  show ?thesis
    by (simp add: settled_simps ring_inv_def cmd_defs status_inv_def status_hard_def status_soft_def status_mem_def
        pool_inv_def shape_inv_def c asked_def)
qed

lemma unat_256: "i \<le> 10 \<Longrightarrow> unat (256 * of_nat i :: u64) = 256 * i \<and> unat (256 * (of_nat i + 1) :: u64) = 256 * (i + 1)"
proof -
  assume i: "i \<le> 10"
  have "(256 * of_nat i :: u64) = of_nat (256 * i)" "(256 * (of_nat i + 1) :: u64) = of_nat (256 * (i + 1))" by simp_all
  moreover have "unat (of_nat (256 * i) :: u64) = 256 * i" "unat (of_nat (256 * (i + 1)) :: u64) = 256 * (i + 1)"
    using i by (intro unat_of_nat_small; simp)+
  ultimately show ?thesis by metis
qed

lemma copy_and_echo_copies:
  assumes "fair sched" and "ev \<noteq> 0" and "length tcmd = 8" and "scratch \<notin> {cb, sb}" and "scratch < 2 ^ 32"
  shows "settled cb sb w \<Longrightarrow> flying w = [] \<Longrightarrow> i + n \<le> 10 \<Longrightarrow> 352 \<le> length (w_bufs w scratch) \<Longrightarrow>
    \<exists>w'. copy_and_echo sched tcmd scratch flag ev i n w = Inr (True, w') \<and> settled cb sb w' \<and> flying w' = [] \<and>
      (\<forall>k<32. w_bufs w' scratch ! (32 * (i + n) + k) = w_bufs w scratch ! (32 * i + k))"
proof (induction n arbitrary: i w)
  case (Suc n)
  have u: "unat (256 * of_nat i :: u64) = 256 * i" "unat (256 * (of_nat i + 1) :: u64) = 256 * (i + 1)" "unat (0x100 :: u32) = 256"
    using unat_256 [of i] Suc.prems(3) by simp_all
  have r: "unat (0x100 :: u32) mod 8 = 0" "unat (0x100 :: u32) < 2 ^ 16" "unat (256 * of_nat i :: u64) < 2 ^ 44" "unat (256 * (of_nat i + 1) :: u64) < 2 ^ 44"
    unfolding u using Suc.prems(3) by simp_all
  obtain w1 where w1: "hw_copy sched tcmd scratch flag (256 * of_nat i) (256 * (of_nat i + 1)) 0x100 w = Inr w1" "settled cb sb w1" "flying w1 = []"
    "others cb sb (w_bufs w1) = others cb sb (copy_words scratch (256 * i) scratch (256 * (i + 1)) 32 (w_bufs w))"
    using hw_copy_runs [OF assms(1) Suc.prems(1,2) assms(3-5) r, of flag] unfolding u by auto
  have un: "unshared Echo_finish ev w1" using w1(3) by (simp add: unshared_def tags_def)
  obtain w2 where w2: "hw_echo sched tcmd ev (push_bit 32 0x111 + of_nat i) (push_bit 32 0x222 + of_nat i) w1 = Inr (True, w2)"
    "settled cb sb w2" "flying w2 = []" "others cb sb (w_bufs w2) = others cb sb (w_bufs w1)"
    using hw_echo_echoes [OF assms(1) w1(2) un assms(2,3)] w1(3) by blast
  have "w_bufs w2 scratch = copy_words scratch (256 * i) scratch (256 * (i + 1)) 32 (w_bufs w) scratch"
    using fun_cong [OF w2(4), of scratch] fun_cong [OF w1(4), of scratch] assms(4) by (simp add: others_def)
  moreover have d: "256 * i div 8 = 32 * i" "256 * (i + 1) div 8 = 32 * (i + 1)" by auto
  moreover note copy_words_moves [where p = scratch and ra = "256 * i" and wa = "256 * (i + 1)" and n = 32 and b = "w_bufs w", unfolded d]
  ultimately have b: "length (w_bufs w2 scratch) = length (w_bufs w scratch)"
      "\<And>k. k < 32 \<Longrightarrow> w_bufs w2 scratch ! (32 * (i + 1) + k) = w_bufs w scratch ! (32 * i + k)"
    using Suc.prems(3,4) by auto
  obtain w3 where w3: "copy_and_echo sched tcmd scratch flag ev (Suc i) n w2 = Inr (True, w3)" "settled cb sb w3" "flying w3 = []"
      "\<forall>k<32. w_bufs w3 scratch ! (32 * (Suc i + n) + k) = w_bufs w2 scratch ! (32 * Suc i + k)"
    using Suc.IH [OF w2(2,3), of "Suc i"] Suc.prems(3,4) b(1) by auto
  show ?case using w1(1) w2(1) w3 b(2) by (intro exI [of _ w3]) simp
qed simp

lemma pass1_passes:
  assumes "fair sched" and "ev \<noteq> 0" and "length tcmd = 8" and "scratch \<notin> {cb, sb}" and "scratch < 2 ^ 32"
    and "settled cb sb w" and "flying w = []" and "352 \<le> length (w_bufs w scratch)"
  shows "\<exists>w'. pass1 sched tcmd scratch flag ev w = Inr (True, w') \<and> settled cb sb w' \<and> flying w' = []"
proof -
  let ?w = "fill_scratch scratch w"
  have n: "(256 :: nat) \<le> 8 * length (w_bufs w scratch)" using assms(8) by simp
  note fb = fill_bytes [OF n]
  have s: "settled cb sb ?w" "flying ?w = []" using assms(6,7) settled_bufs [OF assms(4)] by (simp_all add: fill_scratch_def)
  have "352 \<le> length (w_bufs ?w scratch)" using assms(8) fb(1) by (simp add: fill_scratch_def)
  then obtain w' where w': "copy_and_echo sched tcmd scratch flag ev 0 10 ?w = Inr (True, w')" "settled cb sb w'" "flying w' = []"
      "\<forall>k<32. w_bufs w' scratch ! (32 * 10 + k) = w_bufs ?w scratch ! k"
    using copy_and_echo_copies [OF assms(1-5) s, of 0 10] by auto
  have "byte_at (w_bufs w' scratch) (i + 2560) = of_nat i" if "i < 10" for i
  proof -
    have "(i + 2560) div 8 = 32 * 10 + i div 8" using div_mult_self2 [of 8 i 320] by simp
    moreover have "(i + 2560) mod 8 = i mod 8" using mod_mult_self2 [of i 8 320] by simp
    moreover have "i div 8 < 32" using that by simp
    ultimately have "byte_at (w_bufs w' scratch) (i + 2560) = byte_at (w_bufs ?w scratch) i" using w'(4) by (simp add: byte_at_def)
    then show ?thesis using fb(2) [of i] that by (simp add: fill_scratch_def)
  qed
  moreover have "sint (of_nat i :: u8) = int i" if "i < 10" for i
    using that by (auto simp: less_Suc_eq numeral_eq_Suc)
  ultimately have "check_scratch scratch w'" by (simp add: check_scratch_def list_all_iff)
  then show ?thesis using w' by (simp add: pass1_def)
qed

section \<open>The second pass\<close>

text \<open>A report that comes or has come.\<close>

definition reporting :: "finish_fn \<Rightarrow> nat \<Rightarrow> ring_world \<Rightarrow> bool" where
  "reporting f x w \<longleftrightarrow> (\<exists>t. pending f x t w) \<or> flagged f x w \<and> unshared f x w"

definition unsent :: "finish_fn \<Rightarrow> nat \<Rightarrow> ring_world \<Rightarrow> bool" where
  "unsent f x w \<longleftrightarrow> unshared f x w \<and> \<not> flagged f x w"

lemma polled_reporting:
  assumes "ring_inv cb sb w"
  shows "reporting f x w \<Longrightarrow> reporting f x (polled sb sched w)" "unsent f x w \<Longrightarrow> unsent f x (polled sb sched w)"
  using polled_pending [OF assms, of f x _ sched] polled_unshared [OF assms, of f x sched]
  by (auto simp: reporting_def unsent_def)

lemma reporting_cong:
  assumes "tags w' = tags w" and "w_completion w' = w_completion w" and "w_flags w' = w_flags w" and "w_events w' = w_events w"
  shows "pending f x t w' = pending f x t w" "reporting f x w' = reporting f x w" "unsent f x w' = unsent f x w" "unshared f x w' = unshared f x w"
proof -
  have "flagged f x w' = flagged f x w" using assms by (cases f) (simp_all add: flagged_def)
  then show "pending f x t w' = pending f x t w" "reporting f x w' = reporting f x w" "unsent f x w' = unsent f x w" "unshared f x w' = unshared f x w"
    using assms by (simp_all add: pending_def reporting_def unsent_def unshared_def)
qed

lemma started_others:
  assumes "sending cb sb t' s w" and "sr_cached_space (w_cmd_ring w) \<noteq> 0" and "length cmd = 8" and "good_command cb sb cmd"
    and "f = Echo_finish \<longrightarrow> x \<noteq> 0" and "unsent f x w" and "(g, y) \<noteq> (f, x)"
  defines "v \<equiv> STARTRING (sent_one cb cmd (Some f) x w)"
  shows "reporting g y w \<Longrightarrow> reporting g y v" "unsent g y w \<Longrightarrow> unsent g y v" "unshared g y w \<Longrightarrow> unshared g y v"
proof -
  have un: "unshared f x w" "\<not> flagged f x w" using assms(6) by (simp_all add: unsent_def)
  define t where "t = hd (w_freelist w)"
  note st = sent_started [OF assms(1-5) un, folded v_def t_def]
  have "w_flags v = w_flags w" by (simp add: v_def STARTRING_def request_def sent_one_def Let_def)
  then have fl: "flagged g y v = flagged g y w" using st(8) by (cases g) (simp_all add: flagged_def)
  have "uses f x (w_completion v ! t)" using st(2) by (simp add: pending_def)
  then have nt: "\<not> uses g y (w_completion v ! t)" using assms(7) by (auto simp: uses_def)
  have uses: "uses g y (w_completion v ! r) = uses g y (w_completion w ! r)" if "r \<in> tags w" for r
    using st(9) [of r] st(6) that by (cases "r = t") simp_all
  have p: "pending g y r v" if "pending g y r w" for r
    using that st(7) uses nt fl by (auto simp: pending_def)
  show u: "unshared g y w \<Longrightarrow> unshared g y v" using st(7) uses nt by (auto simp: unshared_def)
  show "reporting g y w \<Longrightarrow> reporting g y v" using p u fl by (auto simp: reporting_def)
  show "unsent g y w \<Longrightarrow> unsent g y v" using u fl by (simp add: unsent_def)
qed

lemma hw_copy_nb_sends:
  assumes "fair sched" and "settled cb sb w" and "unsent Flag_finish fl w" and "length tcmd = 8" and "scratch \<notin> {cb, sb}" and "scratch < 2 ^ 32"
    and "unat bytes mod 8 = 0" and "unat bytes < 2 ^ 16" and "fl \<notin> A" and "fl \<notin> B"
    and "\<forall>y\<in>A. reporting Flag_finish y w" and "\<forall>y\<in>B. unsent Flag_finish y w" and "unshared Echo_finish ev w"
  shows "\<exists>w'. hw_copy_nb sched tcmd scratch fl from to bytes w = Inr w' \<and> settled cb sb w' \<and>
     (\<forall>y\<in>insert fl A. reporting Flag_finish y w') \<and> (\<forall>y\<in>B. unsent Flag_finish y w') \<and> unshared Echo_finish ev w'"
proof -
  let ?Q = "\<lambda>v. unsent Flag_finish fl v \<and> (\<forall>y\<in>A. reporting Flag_finish y v) \<and> (\<forall>y\<in>B. unsent Flag_finish y v) \<and> unshared Echo_finish ev v"
  have q: "?Q w" using assms(3,11-13) by simp
  have Qe: "?Q (inquire v)" "?Q (set_space v)" if "?Q v" for v
    using that reporting_cong [of "inquire v" v] reporting_cong [of "set_space v" v]
    by (simp_all add: tags_def flying_defs counters request_def set_ring_def)
  have Qp: "?Q (polled sb sched v)" if "ring_inv cb sb v" "?Q v" for v
    using that polled_reporting [OF that(1)] polled_unshared [OF that(1)] by blast
  have s: "sending cb sb (nS w) (w_sent w) w" using assms(2) by (simp add: settled_def)
  have len: "length (w_sent w) \<le> nS w + 126" by (simp add: nS_def)
  let ?cmd = "copy_command tcmd scratch from to bytes"
  obtain w1 where w1: "ring_send sched Cmd ?cmd (Some Flag_finish) fl w = Inr (sent_one cb ?cmd (Some Flag_finish) fl w1)"
    "sending cb sb (nS w) (w_sent w) w1" "?Q w1" "sr_cached_space (w_cmd_ring w1) \<noteq> 0"
    by (rule ring_send_returns [where Q = ?Q, OF assms(1) s len q Qp Qe(1) Qe(2)])
  have good: "length ?cmd = 8" "good_command cb sb ?cmd"
    using copy_command_good [OF assms(4-8)] assms(4) by (simp_all add: copy_command_def)
  let ?v = "STARTRING (sent_one cb ?cmd (Some Flag_finish) fl w1)"
  have un: "unshared Flag_finish fl w1" "\<not> flagged Flag_finish fl w1" using w1(3) by (simp_all add: unsent_def)
  note st = sent_started [OF w1(2,4) good _ un, simplified]
  note so = started_others [OF w1(2,4) good _ conjunct1 [OF w1(3)], simplified]
  have "reporting Flag_finish fl ?v" using st(2) by (auto simp: reporting_def)
  moreover have "reporting Flag_finish y ?v" if "y \<in> A" for y
    using so(1) [of Flag_finish y] that w1(3) assms(9) by blast
  ultimately have "\<forall>y\<in>insert fl A. reporting Flag_finish y ?v" by blast
  moreover have "unsent Flag_finish y ?v" if "y \<in> B" for y
    using so(2) [of Flag_finish y] that w1(3) assms(10) by blast
  moreover have "unshared Echo_finish ev ?v" using so(3) [of Echo_finish ev] w1(3) by blast
  ultimately show ?thesis using w1(1) st(1) by (simp add: hw_copy_nb_def)
qed

lemma copies_nb_send:
  assumes "fair sched" and "length tcmd = 8" and "scratch \<notin> {cb, sb}" and "scratch < 2 ^ 32"
  shows "settled cb sb w \<Longrightarrow> distinct fls \<Longrightarrow> set fls \<inter> A = {} \<Longrightarrow> \<forall>y\<in>A. reporting Flag_finish y w \<Longrightarrow>
    \<forall>y\<in>set fls. unsent Flag_finish y w \<Longrightarrow> unshared Echo_finish ev w \<Longrightarrow>
    \<exists>w'. copies_nb sched tcmd scratch fls i w = Inr w' \<and> settled cb sb w' \<and>
      (\<forall>y\<in>set fls \<union> A. reporting Flag_finish y w') \<and> unshared Echo_finish ev w'"
proof (induction fls arbitrary: i w A)
  case (Cons fl fls)
  have u: "unat (0x100 :: u32) mod 8 = 0" "unat (0x100 :: u32) < 2 ^ 16" by simp_all
  have "fl \<notin> A" "fl \<notin> set fls" "unsent Flag_finish fl w" "\<forall>y\<in>set fls. unsent Flag_finish y w" using Cons.prems by auto
  then obtain w1 where w1: "hw_copy_nb sched tcmd scratch fl (256 * of_nat i) (256 * (of_nat i + 1)) 0x100 w = Inr w1" "settled cb sb w1"
      "\<forall>y\<in>insert fl A. reporting Flag_finish y w1" "\<forall>y\<in>set fls. unsent Flag_finish y w1" "unshared Echo_finish ev w1"
    using hw_copy_nb_sends [OF assms(1) Cons.prems(1) _ assms(2-4) u _ _ Cons.prems(4) _ Cons.prems(6)] by blast
  moreover have "distinct fls" "set fls \<inter> insert fl A = {}" using Cons.prems(2,3) by auto
  ultimately show ?case using Cons.IH [OF w1(2), of "insert fl A" "Suc i"] by auto
qed simp

lemma wait_flags_ends:
  assumes "fair sched"
  shows "settled cb sb w \<Longrightarrow> \<forall>y\<in>set fls. reporting Flag_finish y w \<Longrightarrow> unshared Echo_finish ev w \<Longrightarrow>
    \<exists>w'. wait_flags sched fls w = Inr w' \<and> settled cb sb w' \<and> unshared Echo_finish ev w'"
proof (induction fls arbitrary: w)
  case (Cons fl fls)
  let ?R = "\<lambda>v. (\<forall>y\<in>set fls. reporting Flag_finish y v) \<and> unshared Echo_finish ev v"
  have fl: "flagged Flag_finish fl = (\<lambda>w. w_flags w fl)" by (simp add: flagged_def fun_eq_iff)
  have "\<exists>w1. waitforflag sched (\<lambda>w. w_flags w fl) w = Inr w1 \<and> settled cb sb w1 \<and> ?R w1"
  proof (cases "w_flags w fl")
    case True
    then show ?thesis using Cons.prems by (simp add: waitforflag_def poll_until.simps [of sched _ w] returned_def)
  next
    case False
    then obtain t where t: "pending Flag_finish fl t w" using Cons.prems(2) fl by (auto simp: reporting_def)
    have R: "?R w" using Cons.prems by simp
    have Rp: "?R (polled sb sched v)" if "settled cb sb v" "pending Flag_finish fl t v" "?R v" for v
    proof -
      have "ring_inv cb sb v" using that(1) by (simp add: settled_simps)
      then show ?thesis using that(3) polled_reporting(1) polled_unshared(1) by blast
    qed
    show ?thesis by (rule report_comes [where R = ?R, OF assms Cons.prems(1) t R Rp]) (auto simp: fl)
  qed
  then obtain w1 where "waitforflag sched (\<lambda>w. w_flags w fl) w = Inr w1" "settled cb sb w1" "?R w1" by blast
  then show ?case using Cons.IH [of w1] by simp
qed simp

lemma cleared_flags: "fold (\<lambda>fl fs. fs(fl := False)) fls fs x = (if x \<in> set fls then False else fs x)"
  by (induction fls arbitrary: fs) auto

lemma pass2_ends:
  assumes "fair sched" and "length tcmd = 8" and "scratch \<notin> {cb, sb}" and "scratch < 2 ^ 32" and "distinct fls"
    and "settled cb sb w" and "flying w = []"
  shows "\<exists>w'. pass2 sched tcmd scratch fls w = Inr w' \<and> settled cb sb w' \<and> unshared Echo_finish ev w'"
proof -
  define u where "u = fill_scratch scratch (w\<lparr>w_bufs := (w_bufs w)(scratch := replicate (scratch_sz div 8) 0)\<rparr>)"
  define v where "v = u\<lparr>w_flags := fold (\<lambda>fl fs. fs(fl := False)) fls (w_flags u)\<rparr>"
  have u: "settled cb sb u" "flying u = []" using assms(6,7) settled_bufs [OF assms(3)] by (simp_all add: u_def fill_scratch_def)
  then have v: "settled cb sb v" "flying v = []"
    by (simp_all add: v_def settled_flags flying_defs counters)
  have "\<forall>y\<in>set fls. unsent Flag_finish y v"
    using v(2) by (simp add: unsent_def unshared_def tags_def flagged_def) (simp add: v_def cleared_flags)
  moreover have "unshared Echo_finish ev v" using v(2) by (simp add: unshared_def tags_def)
  ultimately obtain w1 where w1: "copies_nb sched tcmd scratch fls 0 v = Inr w1" "settled cb sb w1"
      "\<forall>y\<in>set fls. reporting Flag_finish y w1" "unshared Echo_finish ev w1"
    using copies_nb_send [OF assms(1-4) v(1) assms(5), where A = "{}" and ev = ev and i = 0] by auto
  then show ?thesis using wait_flags_ends [OF assms(1) w1(2-4)] by (simp add: pass2_def Let_def u_def v_def)
qed

section \<open>A session with the rings\<close>

text \<open>
  Whatever the program does once the rings are set up: it sends commands the engines can run, tells
  the hardware about them, polls, and changes the flags and events it waits for.
\<close>

inductive ring_session :: "schedule \<Rightarrow> nat \<Rightarrow> nat \<Rightarrow> ring_world \<Rightarrow> bool" for sched cb sb where
  session_starts: "fresh_world cb sb w \<Longrightarrow> ring_setup sched cb sb w = Inr w' \<Longrightarrow> ring_session sched cb sb w'"
| session_sends: "ring_session sched cb sb w \<Longrightarrow> length cmd = 8 \<Longrightarrow> good_command cb sb cmd \<Longrightarrow> (fp = Some Echo_finish \<longrightarrow> arg \<noteq> 0) \<Longrightarrow>
    ring_send sched Cmd cmd fp arg w = Inr w' \<Longrightarrow> ring_session sched cb sb w'"
| session_tells: "ring_session sched cb sb w \<Longrightarrow> ring_session sched cb sb (STARTRING w)"
| session_polls: "ring_session sched cb sb w \<Longrightarrow> StatusPoll sched w = Inr w' \<Longrightarrow> ring_session sched cb sb w'"
| session_prepares: "ring_session sched cb sb w \<Longrightarrow> ring_session sched cb sb (w\<lparr>w_flags := fs, w_events := es\<rparr>)"

lemma ring_inv_prepares: "ring_inv cb sb w \<Longrightarrow> ring_inv cb sb (w\<lparr>w_flags := fs, w_events := es\<rparr>)"
proof -
  let ?w = "w\<lparr>w_flags := fs, w_events := es\<rparr>"
  have c: "nS ?w = nS w" "nD ?w = nD w" "nF ?w = nF w" "nP ?w = nP w" "nH ?w = nH w" "waiting ?w = waiting w" "flying ?w = flying w" "unread ?w = unread w"
    by (simp_all add: counters flying_defs)
  show "ring_inv cb sb w \<Longrightarrow> ring_inv cb sb ?w"
    by (simp add: ring_inv_def cmd_defs status_inv_def status_hard_def status_soft_def status_mem_def pool_inv_def shape_inv_def c)
qed

lemma ring_session_inv:
  assumes "fair sched" and "ring_session sched cb sb w"
  shows "ring_inv cb sb w"
  using assms(2)
proof induction
  case (session_starts w w')
  then show ?case using ring_setup_ready [OF assms(1) session_starts(1)] by (auto simp: settled_simps)
next
  case (session_sends w cmd fp arg w')
  then show ?case using ring_send_inv [OF session_sends(6) session_sends(2-4), of sched] by auto
next
  case (session_tells w)
  then show ?case by (auto simp: STARTRING_def intro: request_inv)
next
  case (session_polls w w')
  then show ?case using StatusPoll_inv [OF session_polls(3), of sched] by auto
next
  case (session_prepares w fs es)
  then show ?case by (simp add: ring_inv_prepares)
qed

section \<open>What the program can rely on\<close>

definition ring_example :: ring_world where
  "ring_example =
     (let rb = \<lparr>rb_base = 0, rb_end = 0, rb_first = 0, rb_lastfetch = 0, rb_lastack = 0, rb_mask = 0, rb_mem = 0, rb_enable = False\<rparr>;
          sr = \<lparr>sr_ref = 0, sr_base = 0, sr_first = 0, sr_last = 0, sr_size = 0, sr_slots = 0, sr_cached_space = 0, sr_ringid = 0\<rparr> in
      \<lparr>w_hw = \<lparr>rh_cmd = rb, rh_status = rb, rh_enabled = False, rh_requests = [], rh_inds = [], rh_reads = [], rh_copy = [], rh_echo = [],
          rh_dispatched = [], rh_pushed = []\<rparr>,
       w_bufs = (\<lambda>x. replicate (if x = 3 then 131072 else 1024) 0), w_completion = [], w_freelist = [], w_setresult_flag = False,
       w_getresult_flag = False, w_cmd_ring = sr, w_status_ring = sr, w_ring_init_done = False, w_flags = (\<lambda>_. False),
       w_events = (\<lambda>_. \<lparr>ce_exp_a = 0, ce_exp_b = 0, ce_got_a = 0, ce_got_b = 0, ce_flag = False\<rparr>), w_totalCompletions = 0,
       w_clock = 0, w_sent = [], w_handled = []\<rparr>)"

definition every_action :: schedule where
  "every_action = (\<lambda>_. [DoRequest, DoFetch, DoDispatch, DoCopy, DoEcho])"

lemma fair_every_action: "fair every_action"
proof -
  have "a \<in> {DoRequest, DoFetch, DoDispatch, DoCopy, DoEcho}" for a by (cases a) auto
  then have "set (every_action t) = UNIV" for t by (auto simp: every_action_def)
  then show ?thesis by (auto simp: fair_def full_look_def)
qed

lemma fresh_ring_example: "fresh_world 1 2 ring_example"
  by (simp add: fresh_world_def ring_example_def Let_def)

text \<open>
  C8: With hardware that goes on working, the test program comes to its end and finds nothing wrong:
  it sets up both rings, the ten copies and echoes of its first pass leave the right bytes in the
  scratch buffer, all flags of the second pass come up, and each of the 512 echoes of the third,
  which wrap around both rings several times, returns the values that were sent.
\<close>

theorem ring_main_passes:
  assumes "fair sched" and "fresh_world cb sb w" and "ev \<noteq> 0" and "length tcmd = 8"
    and "scratch \<notin> {cb, sb}" and "scratch < 2 ^ 32" and "length (w_bufs w scratch) = scratch_sz div 8" and "distinct fls"
  shows "\<exists>w'. ring_main sched tcmd cb sb scratch fl ev fls w = Inr (True, w')"
proof -
  obtain w1 where w1: "ring_setup sched cb sb w = Inr w1" "settled cb sb w1" "tags w1 = {}" "w_sent w1 = []" "\<forall>x. w_bufs w1 x = w_bufs w x"
    by (rule ring_setup_ready [OF assms(1,2)]) blast
  have "flying w1 = []" "352 \<le> length (w_bufs w1 scratch)" using w1(3,5) assms(7) tags_empty by (simp_all add: scratch_sz_def)
  then obtain w2 where w2: "pass1 sched tcmd scratch fl ev w1 = Inr (True, w2)" "settled cb sb w2" "flying w2 = []"
    using pass1_passes [OF assms(1,3-6) w1(2)] by blast
  obtain w3 where w3: "pass2 sched tcmd scratch fls w2 = Inr w3" "settled cb sb w3" "unshared Echo_finish ev w3"
    using pass2_ends [OF assms(1,4-6,8) w2(2,3)] by blast
  obtain w4 where "pass3 sched tcmd ev 0 512 w3 = Inr (True, w4)"
    using pass3_passes [OF assms(1,3,4) w3(2,3)] by blast
  then show ?thesis using w1(1) w2(1) w3(1) by (simp add: ring_main_def)
qed

theorem ring_main_passes_witness:
  "\<exists>w'. ring_main every_action (replicate 8 0) 1 2 3 0 1 [1..<11] ring_example = Inr (True, w')"
proof (rule ring_main_passes [OF fair_every_action fresh_ring_example])
  show "length (w_bufs ring_example 3) = scratch_sz div 8" by (simp add: ring_example_def scratch_sz_def Let_def)
qed simp_all

text \<open>
  C11: At every point of a session the commands the hardware has taken are the first ones that were
  sent, in that order; what the program has handled are the first reports, in that order; at most
  127 commands are in the ring; each completion other than the reserved one is either free or
  belongs to exactly one command under way; and polling does not fail.
\<close>

theorem ring_session_in_order:
  assumes "fair sched" and "ring_session sched cb sb w"
  shows "rh_dispatched (w_hw w) = take (length (rh_dispatched (w_hw w))) (w_sent w) \<and>
    w_handled w = take (length (w_handled w)) (rh_pushed (w_hw w)) \<and>
    length (w_sent w) \<le> length (rh_dispatched (w_hw w)) + 127 \<and>
    mset (w_freelist w) + mset (map tagof (flying w)) = mset [1..<1024] \<and>
    (\<exists>w'. StatusPoll sched w = Inr w')"
proof -
  have i: "ring_inv cb sb w" by (rule ring_session_inv [OF assms])
  note inv = ring_invD [OF i]
  have "nS w \<le> nD w + 127" using occupancy(2) [OF i] by simp
  then show ?thesis using inv StatusPoll_inv(1) [OF i, of sched]
    by (auto simp: cmd_inv_def cmd_hard_def status_inv_def status_soft_def pool_inv_def counters)
qed

theorem ring_session_in_order_witness:
  "\<exists>w. rh_dispatched (w_hw w) = take (length (rh_dispatched (w_hw w))) (w_sent w) \<and> ring_session every_action 1 2 w"
proof -
  obtain w where "ring_setup every_action 1 2 ring_example = Inr w"
    using ring_setup_ready [OF fair_every_action fresh_ring_example] by blast
  then have "ring_session every_action 1 2 w" by (rule session_starts [OF fresh_ring_example])
  then show ?thesis using ring_session_in_order [OF fair_every_action] by blast
qed

text \<open>
  C21: When every command sent so far has been reported and the hardware knows of them all, a copy
  between two parts of the scratch buffer that do not overlap returns with exactly those words
  copied, and the program can go on.
\<close>

theorem hw_copy_copies:
  assumes "fair sched" and "settled cb sb w" and "flying w = []" and "length tcmd = 8" and "scratch \<notin> {cb, sb}" and "scratch < 2 ^ 32"
    and "unat n mod 8 = 0" and "unat n < 2 ^ 16" and "unat src < 2 ^ 44" and "unat dst < 2 ^ 44"
    and "unat dst div 8 + unat n div 8 \<le> length (w_bufs w scratch)"
    and "unat src div 8 + unat n div 8 \<le> unat dst div 8 \<or> unat dst div 8 + unat n div 8 \<le> unat src div 8"
  shows "\<exists>w'. hw_copy sched tcmd scratch fl src dst n w = Inr w' \<and> settled cb sb w' \<and> flying w' = [] \<and>
    (\<forall>i. w_bufs w' scratch ! i =
       (if unat dst div 8 \<le> i \<and> i < unat dst div 8 + unat n div 8 then w_bufs w scratch ! (unat src div 8 + (i - unat dst div 8))
        else w_bufs w scratch ! i))"
proof -
  obtain w' where w': "hw_copy sched tcmd scratch fl src dst n w = Inr w'" "settled cb sb w'" "flying w' = []"
     "others cb sb (w_bufs w') = others cb sb (copy_words scratch (unat src) scratch (unat dst) (unat n div 8) (w_bufs w))"
    using hw_copy_runs [OF assms(1-10), of fl] by blast
  have "w_bufs w' scratch = copy_words scratch (unat src) scratch (unat dst) (unat n div 8) (w_bufs w) scratch"
    using fun_cong [OF w'(4), of scratch] assms(5) by (simp add: others_def)
  then show ?thesis using w'(1-3) copy_words_moves(2) [where b = "w_bufs w" and p = scratch, OF assms(11,12)] by auto
qed

theorem hw_copy_copies_witness:
  "\<exists>w w'. settled 1 2 w \<and> hw_copy every_action (replicate 8 0) 3 0 0 256 256 w = Inr w' \<and> w_bufs w' 3 ! 32 = w_bufs w 3 ! 0"
proof -
  obtain w where w: "settled 1 2 w" "tags w = {}" "\<forall>x. w_bufs w x = w_bufs ring_example x"
    by (rule ring_setup_ready [OF fair_every_action fresh_ring_example]) blast
  have f: "flying w = []" using w(2) tags_empty by blast
  have l: "length (w_bufs w 3) = 131072" by (simp add: w(3) ring_example_def Let_def)
  obtain w' where "hw_copy every_action (replicate 8 0) 3 0 0 256 256 w = Inr w'"
    "\<forall>i. w_bufs w' 3 ! i = (if unat (256 :: u64) div 8 \<le> i \<and> i < unat (256 :: u64) div 8 + unat (256 :: u32) div 8
        then w_bufs w 3 ! (unat (0 :: u64) div 8 + (i - unat (256 :: u64) div 8)) else w_bufs w 3 ! i)"
    using hw_copy_copies [OF fair_every_action w(1) f, of "replicate 8 0" 3 256 0 256 0] l by auto
  then show ?thesis using w(1) by auto
qed

end
