(* ===== verification/Flash_Model.thy ===== *)
theory Flash_Model
  imports Connectal_Prelude
begin

text \<open>
  The flash test (\<open>tests/algo1_flashmodel\<close>): the simulated controller (\<open>FlashTop.bsv\<close>,
  \<open>FlashCtrlModel.bsv\<close>, \<open>FlashBusModel.bsv\<close>), the handlers of its indications and the main program of
  \<open>flashaccess.cpp\<close>, which run in two threads.  The sections a mutex protects are single steps, and so
  is the work of a chip on one command.
\<close>

section \<open>Commands and state\<close>

definition NUM_TAGS :: nat where "NUM_TAGS = 128"
definition NUM_BUSES :: nat where "NUM_BUSES = 8"
definition CHIPS_PER_BUS :: nat where "CHIPS_PER_BUS = 8"
definition BLOCKS_PER_CHIP :: nat where "BLOCKS_PER_CHIP = 2"

text \<open>A page has 8192 bytes: 2048 words of the host.\<close>

definition page_words :: nat where "page_words = 2048"

datatype fop = READ_PAGE | WRITE_PAGE | ERASE_BLOCK

text \<open>Bus, chip and block.\<close>

type_synonym baddr = "nat \<times> nat \<times> nat"
type_synonym page = "u32 list"

record FlashCmd =
  fc_tag :: nat
  fc_op :: fop
  fc_addr :: baddr
  fc_page :: nat

datatype FlashStatusT = UNINIT | ERASED | WRITTEN

record TagTableEntry =
  tt_busy :: bool
  tt_addr :: baddr

text \<open>What the controller reports: the tag of a command and what it was.\<close>

type_synonym find = "fop \<times> nat"

text \<open>The main program as the sequence of its calls.\<close>

datatype main_op = Do fop baddr | Wait fop

datatype stage = Fresh | Picked nat | Marked nat

text \<open>
  The state: the queue of the controller, the commands at the chips, their pages and the reports
  under way; the buffers in host memory; the variables of the program; the report a handler is
  working on and what the main program has still to do.
\<close>

record flash_world =
  fw_cmdq :: "FlashCmd list"
  fw_chips :: "FlashCmd list"
  fw_pages :: "baddr \<Rightarrow> nat \<Rightarrow> page"
  fw_inds :: "find list"
  fw_readBuffers :: "nat \<Rightarrow> page"
  fw_writeBuffers :: "nat \<Rightarrow> page"
  fw_tags :: "fop \<Rightarrow> TagTableEntry list"
  fw_inFlight :: "fop \<Rightarrow> int"
  fw_status :: "baddr \<Rightarrow> FlashStatusT"
  fw_testPass :: bool
  fw_handler :: "find option"
  fw_ops :: "main_op list"
  fw_stage :: stage

section \<open>The controller\<close>

text \<open>A method of the request portal cuts its arguments to the fields of a command.\<close>

definition flash_cmd :: "fop \<Rightarrow> baddr \<Rightarrow> nat \<Rightarrow> nat \<Rightarrow> FlashCmd" where
  "flash_cmd op a page tag =
     (case a of (bus, chip, block) \<Rightarrow>
        \<lparr>fc_tag = tag mod 2 ^ 7, fc_op = op, fc_addr = (bus mod 8, chip mod 8, block mod 2 ^ 16),
         fc_page = (if op = ERASE_BLOCK then 0 else page mod 2 ^ 8)\<rparr>)"

definition same_chip :: "FlashCmd \<Rightarrow> FlashCmd \<Rightarrow> bool" where
  "same_chip c d \<longleftrightarrow> fst (fc_addr c) = fst (fc_addr d) \<and> fst (snd (fc_addr c)) = fst (snd (fc_addr d))"

text \<open>A chip holds sixteen commands.\<close>

definition driveFlashCmd :: "flash_world \<Rightarrow> flash_world option" where
  "driveFlashCmd w =
     (case fw_cmdq w of
        [] \<Rightarrow> None
      | c # cs \<Rightarrow>
          if length (filter (same_chip c) (fw_chips w)) < 16
          then Some (w\<lparr>fw_cmdq := cs, fw_chips := fw_chips w @ [c]\<rparr>) else None)"

text \<open>With hashed data a read does not depend on what was written.\<close>

definition getDataHash :: "nat \<Rightarrow> nat \<Rightarrow> baddr \<Rightarrow> page" where
  "getDataHash dataCnt page a =
     (case a of (bus, chip, block) \<Rightarrow>
        [push_bit 16 (of_nat page) + of_nat dataCnt, push_bit 16 (of_nat chip) + of_nat block, of_nat bus, 0])"

definition hashed_page :: "nat \<Rightarrow> baddr \<Rightarrow> page" where
  "hashed_page page a = concat (map (\<lambda>n. getDataHash n page a) [0..<512])"

definition chip_read :: "bool \<Rightarrow> FlashCmd \<Rightarrow> flash_world \<Rightarrow> page" where
  "chip_read hashed c w = (if hashed then hashed_page (fc_page c) (fc_addr c) else fw_pages w (fc_addr c) (fc_page c))"

definition chip_effect :: "bool \<Rightarrow> FlashCmd \<Rightarrow> flash_world \<Rightarrow> flash_world" where
  "chip_effect hashed c w =
     (case fc_op c of
        READ_PAGE \<Rightarrow> w\<lparr>fw_readBuffers := (fw_readBuffers w)(fc_tag c := chip_read hashed c w)\<rparr>
      | WRITE_PAGE \<Rightarrow>
          w\<lparr>fw_pages := (fw_pages w)(fc_addr c := (fw_pages w (fc_addr c))(fc_page c := fw_writeBuffers w (fc_tag c)))\<rparr>
      | ERASE_BLOCK \<Rightarrow>
          w\<lparr>fw_pages := (fw_pages w)(fc_addr c := (\<lambda>page. if page < 16 then replicate page_words (- 1) else fw_pages w (fc_addr c) page))\<rparr>)"

text \<open>The command at position \<open>i\<close> is run if no earlier one is for the same chip and it is in range.\<close>

definition chip_exec :: "bool \<Rightarrow> nat \<Rightarrow> flash_world \<Rightarrow> flash_world option" where
  "chip_exec hashed i w =
     (if i < length (fw_chips w) then
        let c = fw_chips w ! i in
        if list_ex (same_chip c) (take i (fw_chips w)) \<or> fc_page c \<ge> 16 \<or> snd (snd (fc_addr c)) \<ge> 128 then None
        else let w = w\<lparr>fw_chips := take i (fw_chips w) @ drop (Suc i) (fw_chips w)\<rparr> in
             Some ((chip_effect hashed c w)\<lparr>fw_inds := fw_inds w @ [(fc_op c, fc_tag c)]\<rparr>)
      else None)"

section \<open>The handlers\<close>

definition hashAddrToData :: "baddr \<Rightarrow> nat \<Rightarrow> u32" where
  "hashAddrToData a word =
     (case a of (bus, chip, blk) \<Rightarrow> push_bit 24 (of_nat bus) + push_bit 20 (of_nat chip) + push_bit 16 (of_nat blk) + of_nat word)"

definition read_ok :: "FlashStatusT \<Rightarrow> baddr \<Rightarrow> page \<Rightarrow> bool" where
  "read_ok st a p =
     (case st of
        WRITTEN \<Rightarrow> list_all (\<lambda>word. hashAddrToData a word = p ! word) [0..<page_words]
      | ERASED \<Rightarrow> p ! 0 = - 1 \<or> p ! 0 = 0
      | UNINIT \<Rightarrow> False)"

definition checkReadData :: "nat \<Rightarrow> flash_world \<Rightarrow> flash_world" where
  "checkReadData tag w =
     (let e = fw_tags w READ_PAGE ! tag in
      if read_ok (fw_status w (tt_addr e)) (tt_addr e) (fw_readBuffers w tag) then w else w\<lparr>fw_testPass := False\<rparr>)"

text \<open>A handler up to its locked section, and the section.\<close>

definition handler_start :: "flash_world \<Rightarrow> flash_world option" where
  "handler_start w =
     (case (fw_handler w, fw_inds w) of
        (None, (op, tag) # xs) \<Rightarrow>
          Some ((if op = READ_PAGE then checkReadData tag w else w)\<lparr>fw_inds := xs, fw_handler := Some (op, tag)\<rparr>)
      | _ \<Rightarrow> None)"

definition set_busy :: "bool \<Rightarrow> fop \<Rightarrow> nat \<Rightarrow> flash_world \<Rightarrow> flash_world" where
  "set_busy b op tag w =
     w\<lparr>fw_tags := (fw_tags w)(op := (fw_tags w op)[tag := (fw_tags w op ! tag)\<lparr>tt_busy := b\<rparr>])\<rparr>"

definition count_down :: "int \<Rightarrow> int" where
  "count_down n = (if n - 1 < 0 then 0 else n - 1)"

definition handler_end :: "flash_world \<Rightarrow> flash_world option" where
  "handler_end w =
     (case fw_handler w of
        None \<Rightarrow> None
      | Some (op, tag) \<Rightarrow>
          let w = w\<lparr>fw_inFlight := (fw_inFlight w)(op := count_down (fw_inFlight w op)), fw_handler := None\<rparr>;
              w = (if tt_busy (fw_tags w op ! tag) then w else w\<lparr>fw_testPass := False\<rparr>) in
          Some (set_busy False op tag w))"

section \<open>The main program\<close>

definition idle_tag :: "TagTableEntry list \<Rightarrow> nat option" where
  "idle_tag tab = List.find (\<lambda>t. \<not> tt_busy (tab ! t)) [0..<NUM_TAGS]"

text \<open>What happens in \<open>eraseBlock\<close>, \<open>writePage\<close> and \<open>readPage\<close> up to the request; for a write the buffer is filled in first.\<close>

definition mark_request :: "fop \<Rightarrow> baddr \<Rightarrow> nat \<Rightarrow> flash_world \<Rightarrow> flash_world" where
  "mark_request op a tag w =
     (let w = w\<lparr>fw_inFlight := (fw_inFlight w)(op := fw_inFlight w op + 1)\<rparr> in
      case op of
        ERASE_BLOCK \<Rightarrow> w\<lparr>fw_status := (fw_status w)(a := ERASED)\<rparr>
      | WRITE_PAGE \<Rightarrow> w\<lparr>fw_status := (fw_status w)(a := WRITTEN)\<rparr>
      | READ_PAGE \<Rightarrow>
          w\<lparr>fw_tags := (fw_tags w)(READ_PAGE := (fw_tags w READ_PAGE)[tag := (fw_tags w READ_PAGE ! tag)\<lparr>tt_addr := a\<rparr>])\<rparr>)"

definition fill_buffer :: "fop \<Rightarrow> baddr \<Rightarrow> nat \<Rightarrow> flash_world \<Rightarrow> flash_world" where
  "fill_buffer op a tag w =
     (if op = WRITE_PAGE
      then w\<lparr>fw_writeBuffers := (fw_writeBuffers w)(tag := map (hashAddrToData a) [0..<page_words])\<rparr> else w)"

definition main_step :: "flash_world \<Rightarrow> flash_world option" where
  "main_step w =
     (case fw_ops w of
        [] \<Rightarrow> None
      | Wait op # ops \<Rightarrow> if fw_inFlight w op = 0 then Some (w\<lparr>fw_ops := ops\<rparr>) else None
      | Do op a # ops \<Rightarrow>
          (case fw_stage w of
             Fresh \<Rightarrow> map_option (\<lambda>t. (set_busy True op t w)\<lparr>fw_stage := Picked t\<rparr>) (idle_tag (fw_tags w op))
           | Picked t \<Rightarrow> Some ((mark_request op a t (fill_buffer op a t w))\<lparr>fw_stage := Marked t\<rparr>)
           | Marked t \<Rightarrow>
               if length (fw_cmdq w) < NUM_TAGS
               then Some (w\<lparr>fw_cmdq := fw_cmdq w @ [flash_cmd op a 0 t], fw_ops := ops, fw_stage := Fresh\<rparr>) else None))"

definition every_block :: "baddr list" where
  "every_block =
     concat (map (\<lambda>blk. concat (map (\<lambda>chip. map (\<lambda>bus. (bus, chip, blk)) [0..<NUM_BUSES]) [0..<CHIPS_PER_BUS])) [0..<BLOCKS_PER_CHIP])"

definition blocks_of_bus :: "nat \<Rightarrow> baddr list" where
  "blocks_of_bus bus = concat (map (\<lambda>blk. map (\<lambda>chip. (bus, chip, blk)) [0..<CHIPS_PER_BUS]) [0..<BLOCKS_PER_CHIP])"

definition batch :: "fop \<times> baddr list \<Rightarrow> main_op list" where
  "batch b = map (Do (fst b)) (snd b) @ [Wait (fst b)]"

definition flash_batches :: "(fop \<times> baddr list) list" where
  "flash_batches =
     [(ERASE_BLOCK, every_block), (READ_PAGE, every_block)] @ map (\<lambda>bus. (WRITE_PAGE, blocks_of_bus bus)) [0..<NUM_BUSES] @
     [(READ_PAGE, every_block)]"

definition flash_main :: "main_op list" where
  "flash_main = concat (map batch flash_batches)"

text \<open>The variables when the program has set up its tables and buffers; the pages are what the chips hold.\<close>

definition flash_start :: "(baddr \<Rightarrow> nat \<Rightarrow> page) \<Rightarrow> flash_world" where
  "flash_start pages =
     \<lparr>fw_cmdq = [], fw_chips = [], fw_pages = pages, fw_inds = [],
      fw_readBuffers = (\<lambda>_. replicate page_words 0), fw_writeBuffers = (\<lambda>_. replicate page_words 0),
      fw_tags = (\<lambda>_. replicate NUM_TAGS \<lparr>tt_busy = False, tt_addr = (0, 0, 0)\<rparr>), fw_inFlight = (\<lambda>_. 0),
      fw_status = (\<lambda>_. UNINIT), fw_testPass = True, fw_handler = None, fw_ops = flash_main, fw_stage = Fresh\<rparr>"

section \<open>Steps\<close>

inductive flash_step :: "bool \<Rightarrow> flash_world \<Rightarrow> flash_world \<Rightarrow> bool" for hashed where
  step_main: "main_step w = Some w' \<Longrightarrow> flash_step hashed w w'"
| step_drive: "driveFlashCmd w = Some w' \<Longrightarrow> flash_step hashed w w'"
| step_chip: "chip_exec hashed i w = Some w' \<Longrightarrow> flash_step hashed w w'"
| step_report: "handler_start w = Some w' \<Longrightarrow> flash_step hashed w w'"
| step_handled: "handler_end w = Some w' \<Longrightarrow> flash_step hashed w w'"

inductive flash_run :: "bool \<Rightarrow> flash_world \<Rightarrow> flash_world \<Rightarrow> bool" for hashed w where
  run_start: "flash_run hashed w w"
| run_step: "flash_run hashed w v \<Longrightarrow> flash_step hashed v u \<Longrightarrow> flash_run hashed w u"

end
