(* ===== verification/Flash_Test.thy ===== *)
theory Flash_Test
  imports Flash_Model "HOL-Library.Multiset"
begin

text \<open>
  The flash test keeps its tables and counters right whatever the two threads and the chips do, and
  passes on chips that keep what is written to them.  With the hashed data the simulated chips return
  as they are configured, it fails.
\<close>

section \<open>Commands under way\<close>

definition okey :: "FlashCmd \<Rightarrow> find" where "okey c = (fc_op c, fc_tag c)"

definition main_picked :: "flash_world \<Rightarrow> find list" where
  "main_picked w = (case (fw_ops w, fw_stage w) of (Do op a # ops, Picked t) \<Rightarrow> [(op, t)] | _ \<Rightarrow> [])"

definition main_cmd :: "flash_world \<Rightarrow> FlashCmd list" where
  "main_cmd w = (case (fw_ops w, fw_stage w) of (Do op a # ops, Marked t) \<Rightarrow> [flash_cmd op a 0 t] | _ \<Rightarrow> [])"

definition unexec :: "flash_world \<Rightarrow> FlashCmd list" where
  "unexec w = main_cmd w @ fw_cmdq w @ fw_chips w"

definition issued :: "flash_world \<Rightarrow> find list" where
  "issued w = map okey (unexec w) @ fw_inds w @ (case fw_handler w of None \<Rightarrow> [] | Some x \<Rightarrow> [x])"

definition held :: "flash_world \<Rightarrow> find list" where
  "held w = main_picked w @ issued w"

definition table_inv :: "(fop \<Rightarrow> TagTableEntry list) \<Rightarrow> (fop \<Rightarrow> int) \<Rightarrow> find multiset \<Rightarrow> find multiset \<Rightarrow> bool" where
  "table_inv tags cnt H I \<longleftrightarrow> (\<forall>op. length (tags op) = 128) \<and> (\<forall>x. count H x \<le> 1) \<and> (\<forall>x\<in>#H. snd x < 128) \<and>
     (\<forall>op t. t < 128 \<longrightarrow> tt_busy (tags op ! t) = ((op, t) \<in># H)) \<and>
     (\<forall>op. cnt op = int (size (filter_mset (\<lambda>x. fst x = op) I)))"

definition tag_inv :: "flash_world \<Rightarrow> bool" where
  "tag_inv w \<longleftrightarrow> table_inv (fw_tags w) (fw_inFlight w) (mset (held w)) (mset (issued w))"

text \<open>The commands under way are those of one batch.\<close>

definition phase_inv :: "flash_world \<Rightarrow> bool" where
  "phase_inv w \<longleftrightarrow> (fw_stage w = Fresh \<or> (\<exists>op a ops. fw_ops w = Do op a # ops)) \<and>
     (fw_ops w = [] \<and> held w = [] \<or>
      (\<exists>K as bs. fw_ops w = map (Do K) as @ Wait K # concat (map batch bs) \<and> (\<forall>x\<in>set (held w). fst x = K)))"

text \<open>No block is read before it has been erased or written, and blocks are in range.\<close>

fun ready :: "main_op list \<Rightarrow> baddr set \<Rightarrow> bool" where
  "ready [] S = True"
| "ready (Wait op # ops) S = ready ops S"
| "ready (Do op a # ops) S = ((op = READ_PAGE \<longrightarrow> a \<in> S) \<and> ready ops (if op = READ_PAGE then S else insert a S))"

definition in_range :: "baddr \<Rightarrow> bool" where
  "in_range a \<longleftrightarrow> fst a < 8 \<and> fst (snd a) < 8 \<and> snd (snd a) < 128"

definition ops_inv :: "flash_world \<Rightarrow> bool" where
  "ops_inv w \<longleftrightarrow> ready (fw_ops w) {a. fw_status w a \<noteq> UNINIT} \<and> (\<forall>op a. Do op a \<in> set (fw_ops w) \<longrightarrow> in_range a) \<and>
     (\<forall>c\<in>set (unexec w). in_range (fc_addr c) \<and> fc_page c = 0 \<and> (fc_op c \<noteq> READ_PAGE \<longrightarrow> fw_status w (fc_addr c) \<noteq> UNINIT))"

definition flash_inv :: "flash_world \<Rightarrow> bool" where
  "flash_inv w \<longleftrightarrow> tag_inv w \<and> phase_inv w \<and> ops_inv w"

text \<open>What was asked for and what the chips hold.\<close>

definition golden :: "baddr \<Rightarrow> page" where "golden a = map (hashAddrToData a) [0..<page_words]"

definition as_marked :: "bool \<Rightarrow> flash_world \<Rightarrow> baddr \<Rightarrow> bool" where
  "as_marked h w a \<longleftrightarrow> \<not> h \<longrightarrow> (fw_status w a = WRITTEN \<longrightarrow> fw_pages w a 0 = golden a) \<and>
     (fw_status w a = ERASED \<longrightarrow> fw_pages w a 0 ! 0 = - 1)"

definition cmd_marked :: "flash_world \<Rightarrow> FlashCmd \<Rightarrow> bool" where
  "cmd_marked w c \<longleftrightarrow>
     (case fc_op c of
        WRITE_PAGE \<Rightarrow> fw_writeBuffers w (fc_tag c) = golden (fc_addr c) \<and> fw_status w (fc_addr c) = WRITTEN
      | ERASE_BLOCK \<Rightarrow> fw_status w (fc_addr c) = ERASED
      | READ_PAGE \<Rightarrow> tt_addr (fw_tags w READ_PAGE ! fc_tag c) = fc_addr c \<and> fw_status w (fc_addr c) \<noteq> UNINIT)"

definition read_good :: "bool \<Rightarrow> flash_world \<Rightarrow> find \<Rightarrow> bool" where
  "read_good h w x \<longleftrightarrow> fst x = READ_PAGE \<longrightarrow>
     (let a = tt_addr (fw_tags w READ_PAGE ! snd x) in
      if h then fw_readBuffers w (snd x) = hashed_page 0 a else read_ok (fw_status w a) a (fw_readBuffers w (snd x)))"

definition data_inv :: "bool \<Rightarrow> flash_world \<Rightarrow> bool" where
  "data_inv h w \<longleftrightarrow>
     (\<forall>a. (\<forall>c\<in>set (unexec w). fc_addr c = a \<longrightarrow> fc_op c = READ_PAGE) \<longrightarrow> as_marked h w a) \<and>
     (\<forall>c\<in>set (unexec w). cmd_marked w c) \<and> (\<forall>x\<in>set (fw_inds w). read_good h w x)"

section \<open>The invariant\<close>

lemma flash_cmd_simps:
  assumes "in_range a" and "t < 128"
  shows "flash_cmd op a 0 t = \<lparr>fc_tag = t, fc_op = op, fc_addr = a, fc_page = 0\<rparr>"
  using assms by (cases a) (simp add: flash_cmd_def in_range_def)

lemma idle_tag_Some:
  assumes "idle_tag tab = Some t"
  shows "t < 128" "\<not> tt_busy (tab ! t)"
  using assms by (auto simp: idle_tag_def find_Some_iff NUM_TAGS_def)

lemma idle_tag_exists: "t < 128 \<Longrightarrow> \<not> tt_busy (tab ! t) \<Longrightarrow> \<exists>t. idle_tag tab = Some t"
  by (cases "idle_tag tab") (auto simp: idle_tag_def find_None_iff NUM_TAGS_def)

lemma fop_cases: "op = READ_PAGE \<or> op = WRITE_PAGE \<or> op = ERASE_BLOCK"
  by (cases op) auto

lemma set_busy_simps [simp]:
  "fw_cmdq (set_busy b op t w) = fw_cmdq w" "fw_chips (set_busy b op t w) = fw_chips w" "fw_inds (set_busy b op t w) = fw_inds w"
  "fw_pages (set_busy b op t w) = fw_pages w" "fw_readBuffers (set_busy b op t w) = fw_readBuffers w"
  "fw_writeBuffers (set_busy b op t w) = fw_writeBuffers w" "fw_status (set_busy b op t w) = fw_status w"
  "fw_inFlight (set_busy b op t w) = fw_inFlight w" "fw_testPass (set_busy b op t w) = fw_testPass w"
  "fw_handler (set_busy b op t w) = fw_handler w" "fw_ops (set_busy b op t w) = fw_ops w" "fw_stage (set_busy b op t w) = fw_stage w"
  by (simp_all add: set_busy_def)

lemma set_busy_addr [simp]: "tt_addr (fw_tags (set_busy b op t w) op' ! t') = tt_addr (fw_tags w op' ! t')"
  by (cases "t < length (fw_tags w op)") (auto simp: set_busy_def nth_list_update list_update_beyond)

lemma table_busy:
  assumes "table_inv tags cnt H I" and "t < 128" and "(op, t) \<notin># H"
  shows "table_inv (tags(op := (tags op)[t := (tags op ! t)\<lparr>tt_busy := True\<rparr>])) cnt (add_mset (op, t) H) I"
  using assms by (auto simp: table_inv_def nth_list_update not_in_iff)

lemma table_idle:
  assumes "table_inv tags cnt (add_mset (op, t) H) (add_mset (op, t) I)"
  shows "table_inv (tags(op := (tags op)[t := (tags op ! t)\<lparr>tt_busy := False\<rparr>])) (cnt(op := count_down (cnt op))) H I"
    "tt_busy (tags op ! t)"
proof -
  have c: "count H (op, t) = 0" using assms unfolding table_inv_def by (metis One_nat_def Suc_le_mono count_add_mset le_zero_eq)
  then show "tt_busy (tags op ! t)" using assms by (auto simp: table_inv_def)
  have "count H x \<le> 1" for x using assms unfolding table_inv_def by (metis count_add_mset le_SucI le_Suc_eq nat_le_linear not_less_eq_eq)
  then show "table_inv (tags(op := (tags op)[t := (tags op ! t)\<lparr>tt_busy := False\<rparr>])) (cnt(op := count_down (cnt op))) H I"
    using assms c by (auto simp: table_inv_def nth_list_update count_down_def not_in_iff)
qed

lemmas way_defs = held_def issued_def unexec_def main_picked_def main_cmd_def

text \<open>Steps that only move a command or report on.\<close>

lemma flash_inv_moved:
  assumes "flash_inv w" and "fw_ops v = fw_ops w" and "fw_stage v = fw_stage w" and "fw_tags v = fw_tags w" and "fw_inFlight v = fw_inFlight w"
    and "fw_status v = fw_status w" and "mset (issued v) = mset (issued w)" and "set (unexec v) \<subseteq> set (unexec w)"
  shows "flash_inv v"
proof -
  have p: "main_picked v = main_picked w" using assms(2,3) by (simp add: main_picked_def)
  then have h: "mset (held v) = mset (held w)" using assms(7) by (simp add: held_def)
  then have "set (held v) = set (held w)" "held v = [] \<longleftrightarrow> held w = []" by (metis mset_eq_setD, metis mset_zero_iff)
  then have "phase_inv v" using assms(1-3) by (simp add: flash_inv_def phase_inv_def)
  moreover have "tag_inv v" using assms(1,4,5,7) h by (simp add: flash_inv_def tag_inv_def)
  moreover have "ops_inv v" using assms(1,2,6,8) by (auto simp: flash_inv_def ops_inv_def)
  ultimately show ?thesis by (simp add: flash_inv_def)
qed

lemma data_inv_moved:
  assumes "data_inv h w" and "set (unexec v) = set (unexec w)" and "set (fw_inds v) \<subseteq> set (fw_inds w)"
    and "fw_status v = fw_status w" and "fw_pages v = fw_pages w" and "fw_writeBuffers v = fw_writeBuffers w" and "fw_readBuffers v = fw_readBuffers w"
    and "\<And>i. tt_addr (fw_tags v READ_PAGE ! i) = tt_addr (fw_tags w READ_PAGE ! i)"
  shows "data_inv h v"
proof -
  have "as_marked h v a = as_marked h w a" "cmd_marked v c = cmd_marked w c" "read_good h v x = read_good h w x" for a c x
    using assms(4-8) by (simp_all add: as_marked_def cmd_marked_def read_good_def split: fop.splits)
  then show ?thesis using assms(1-3) unfolding data_inv_def by blast
qed

lemma drive_inv:
  assumes "driveFlashCmd w = Some v"
  shows "flash_inv w \<Longrightarrow> flash_inv v" "data_inv h w \<Longrightarrow> data_inv h v"
proof -
  obtain c cs where c: "fw_cmdq w = c # cs" "v = w\<lparr>fw_cmdq := cs, fw_chips := fw_chips w @ [c]\<rparr>"
    using assms by (auto simp: driveFlashCmd_def split: list.splits if_splits)
  have u: "set (unexec v) = set (unexec w)" by (auto simp: c unexec_def main_cmd_def)
  show "flash_inv w \<Longrightarrow> flash_inv v" using u by (rule_tac flash_inv_moved) (auto simp: c issued_def unexec_def main_cmd_def)
  show "data_inv h w \<Longrightarrow> data_inv h v" using u by (rule_tac data_inv_moved) (simp_all add: c)
qed

lemma chip_exec_Some:
  assumes "chip_exec hashed i w = Some v"
  obtains c xs ys where "fw_chips w = xs @ c # ys"
    "v = (chip_effect hashed c (w\<lparr>fw_chips := xs @ ys\<rparr>))\<lparr>fw_inds := fw_inds w @ [okey c]\<rparr>"
proof -
  have i: "i < length (fw_chips w)" using assms by (auto simp: chip_exec_def split: if_splits)
  then have "fw_chips w = take i (fw_chips w) @ fw_chips w ! i # drop (Suc i) (fw_chips w)" by (rule id_take_nth_drop)
  then show ?thesis using that assms i by (fastforce simp: chip_exec_def Let_def okey_def split: if_splits)
qed

lemma chip_effect_same [simp]:
  "fw_cmdq (chip_effect h c w) = fw_cmdq w" "fw_chips (chip_effect h c w) = fw_chips w" "fw_inds (chip_effect h c w) = fw_inds w"
  "fw_writeBuffers (chip_effect h c w) = fw_writeBuffers w" "fw_status (chip_effect h c w) = fw_status w" "fw_tags (chip_effect h c w) = fw_tags w"
  "fw_inFlight (chip_effect h c w) = fw_inFlight w" "fw_testPass (chip_effect h c w) = fw_testPass w"
  "fw_handler (chip_effect h c w) = fw_handler w" "fw_ops (chip_effect h c w) = fw_ops w" "fw_stage (chip_effect h c w) = fw_stage w"
  by (simp_all add: chip_effect_def split: fop.splits)

lemma chip_inv:
  assumes "chip_exec hashed i w = Some v" and "flash_inv w"
  shows "flash_inv v"
proof -
  obtain c xs ys where c: "fw_chips w = xs @ c # ys"
    "v = (chip_effect hashed c (w\<lparr>fw_chips := xs @ ys\<rparr>))\<lparr>fw_inds := fw_inds w @ [okey c]\<rparr>"
    by (rule chip_exec_Some [OF assms(1)])
  show ?thesis by (rule flash_inv_moved [OF assms(2)]) (auto simp: c issued_def unexec_def main_cmd_def)
qed

lemma report_inv:
  assumes "handler_start w = Some v"
  shows "flash_inv w \<Longrightarrow> flash_inv v" "data_inv h w \<Longrightarrow> data_inv h v" "data_inv False w \<Longrightarrow> fw_testPass v = fw_testPass w"
proof -
  obtain op t xs where x: "fw_handler w = None" "fw_inds w = (op, t) # xs"
    "v = (if op = READ_PAGE then checkReadData t w else w)\<lparr>fw_inds := xs, fw_handler := Some (op, t)\<rparr>"
    using assms by (auto simp: handler_start_def split: option.splits list.splits)
  have same: "fw_cmdq v = fw_cmdq w" "fw_chips v = fw_chips w" "fw_pages v = fw_pages w" "fw_readBuffers v = fw_readBuffers w"
    "fw_writeBuffers v = fw_writeBuffers w" "fw_status v = fw_status w" "fw_tags v = fw_tags w" "fw_inFlight v = fw_inFlight w"
    "fw_ops v = fw_ops w" "fw_stage v = fw_stage w" "fw_inds v = xs" "fw_handler v = Some (op, t)"
    by (simp_all add: x(3) checkReadData_def Let_def)
  then have u: "unexec v = unexec w" by (simp add: unexec_def main_cmd_def)
  show "flash_inv w \<Longrightarrow> flash_inv v"
    using u same by (rule_tac flash_inv_moved) (auto simp: issued_def x(1,2))
  show "data_inv h w \<Longrightarrow> data_inv h v" using u x(2) same by (rule_tac data_inv_moved) auto
  show "fw_testPass v = fw_testPass w" if "data_inv False w"
  proof -
    have "read_good False w (op, t)" using that x(2) by (simp add: data_inv_def)
    then show ?thesis by (auto simp: x(3) read_good_def checkReadData_def Let_def)
  qed
qed

lemma handled_inv:
  assumes "handler_end w = Some v" and "flash_inv w"
  shows "flash_inv v" "data_inv h w \<Longrightarrow> data_inv h v" "fw_testPass v = fw_testPass w"
proof -
  obtain op t where x: "fw_handler w = Some (op, t)" using assms(1) by (auto simp: handler_end_def split: option.splits)
  define H where "H = mset (main_picked w) + mset (map okey (unexec w)) + mset (fw_inds w)"
  define I where "I = mset (map okey (unexec w)) + mset (fw_inds w)"
  have w: "mset (held w) = add_mset (op, t) H" "mset (issued w) = add_mset (op, t) I"
    by (simp_all add: held_def issued_def x H_def I_def)
  note t = table_idle [of "fw_tags w" "fw_inFlight w" op t H I]
  have ti: "table_inv (fw_tags w) (fw_inFlight w) (add_mset (op, t) H) (add_mset (op, t) I)" using assms(2) w by (simp add: flash_inv_def tag_inv_def)
  define u where "u = w\<lparr>fw_inFlight := (fw_inFlight w)(op := count_down (fw_inFlight w op)), fw_handler := None\<rparr>"
  have v: "v = set_busy False op t u" using assms(1) x t(2) [OF ti] by (simp add: handler_end_def Let_def u_def)
  have same: "fw_cmdq v = fw_cmdq w" "fw_chips v = fw_chips w" "fw_pages v = fw_pages w" "fw_readBuffers v = fw_readBuffers w"
    "fw_writeBuffers v = fw_writeBuffers w" "fw_status v = fw_status w" "fw_ops v = fw_ops w" "fw_stage v = fw_stage w" "fw_inds v = fw_inds w"
    "fw_handler v = None" "\<And>t'. tt_addr (fw_tags v READ_PAGE ! t') = tt_addr (fw_tags w READ_PAGE ! t')"
    by (simp_all add: v u_def)
  then have un: "unexec v = unexec w" "main_picked v = main_picked w" by (simp_all add: unexec_def main_cmd_def main_picked_def)
  then have hv: "mset (held v) = H" "mset (issued v) = I" using same by (simp_all add: held_def issued_def H_def I_def)
  show "fw_testPass v = fw_testPass w" by (simp add: v u_def)
  have "tag_inv v" using t(1) [OF ti] by (simp add: tag_inv_def hv) (simp add: v u_def set_busy_def)
  moreover have "set_mset (mset (held v)) \<subseteq> set_mset (mset (held w))" unfolding w(1) hv(1) by auto
  then have sub: "set (held v) \<subseteq> set (held w)" by simp
  then have "held w = [] \<Longrightarrow> held v = []" by simp
  then have "phase_inv v" using assms(2) sub unfolding flash_inv_def phase_inv_def same by blast
  moreover have "ops_inv v" using assms(2) same un by (simp add: flash_inv_def ops_inv_def)
  ultimately show "flash_inv v" by (simp add: flash_inv_def)
  show "data_inv h w \<Longrightarrow> data_inv h v" using un same by (rule_tac data_inv_moved) auto
qed

text \<open>A chip that does what it is asked.\<close>

lemma read_ok_marked: "as_marked False w a \<Longrightarrow> fw_status w a \<noteq> UNINIT \<Longrightarrow> read_ok (fw_status w a) a (fw_pages w a 0)"
  by (cases "fw_status w a") (simp_all add: as_marked_def read_ok_def golden_def list_all_iff)

lemma held_once:
  assumes "flash_inv w" and "mset (held w) = add_mset x (mset ys)"
  shows "x \<notin> set ys"
proof -
  have "count (mset (held w)) x \<le> 1" using assms(1) unfolding flash_inv_def tag_inv_def table_inv_def by blast
  then have "count (mset ys) x = 0" unfolding assms(2) by simp
  then show ?thesis by (metis count_eq_zero_iff set_mset_mset)
qed

lemma one_kind:
  assumes "flash_inv w" and "x \<in> set (held w)" and "y \<in> set (held w)"
  shows "fst x = fst y"
  using assms by (auto simp: flash_inv_def phase_inv_def)

lemma chip_data:
  assumes "chip_exec h i w = Some v" and "flash_inv w" and "data_inv h w"
  shows "data_inv h v"
proof -
  obtain c xs ys where c: "fw_chips w = xs @ c # ys"
    "v = (chip_effect h c (w\<lparr>fw_chips := xs @ ys\<rparr>))\<lparr>fw_inds := fw_inds w @ [okey c]\<rparr>"
    by (rule chip_exec_Some [OF assms(1)])
  have uw: "set (unexec w) = insert c (set (unexec v))" by (auto simp: c unexec_def main_cmd_def)
  then have cm: "cmd_marked w c" "fc_page c = 0" using assms(2,3) by (simp_all add: data_inv_def flash_inv_def ops_inv_def)
  have "mset (held w) = add_mset (okey c) (mset (main_picked w @ map okey (unexec v) @ fw_inds w @ (case fw_handler w of None \<Rightarrow> [] | Some x \<Rightarrow> [x])))"
    by (simp add: held_def issued_def unexec_def c main_cmd_def)
  then have fresh: "okey c \<notin> set (fw_inds w)" using held_once [OF assms(2)] by fastforce
  have kind: "fc_op d = fc_op c" if "d \<in> set (unexec w)" for d
  proof -
    have "okey d \<in> set (held w)" "okey c \<in> set (held w)" using that uw by (auto simp: held_def issued_def)
    then show ?thesis using one_kind [OF assms(2)] by (fastforce simp: okey_def)
  qed
  have D: "\<And>a. (\<forall>c\<in>set (unexec w). fc_addr c = a \<longrightarrow> fc_op c = READ_PAGE) \<Longrightarrow> as_marked h w a" "\<forall>d\<in>set (unexec w). cmd_marked w d"
    "\<forall>x\<in>set (fw_inds w). read_good h w x"
    using assms(3) unfolding data_inv_def by blast+
  have same: "fw_status v = fw_status w" "fw_tags v = fw_tags w" "fw_writeBuffers v = fw_writeBuffers w" "fw_inds v = fw_inds w @ [okey c]"
    by (simp_all add: c)
  have cmv: "cmd_marked v d = cmd_marked w d" for d by (simp add: cmd_marked_def same split: fop.splits)
  have D2: "\<forall>d\<in>set (unexec v). cmd_marked v d" using D(2) uw cmv by simp
  have r: "fc_op c = READ_PAGE \<Longrightarrow> fw_pages v = fw_pages w \<and> fw_readBuffers v = (fw_readBuffers w)(fc_tag c := if h then hashed_page 0 (fc_addr c) else fw_pages w (fc_addr c) 0)"
    "fc_op c \<noteq> READ_PAGE \<Longrightarrow> fw_readBuffers v = fw_readBuffers w" "b \<noteq> fc_addr c \<Longrightarrow> fw_pages v b = fw_pages w b" for b
    by (cases "fc_op c"; simp add: c(2) chip_effect_def chip_read_def cm(2))+
  have D1: "as_marked h v a" if p: "\<forall>d\<in>set (unexec v). fc_addr d = a \<longrightarrow> fc_op d = READ_PAGE" for a
  proof (cases "fc_op c = READ_PAGE \<or> a \<noteq> fc_addr c")
    case True
    have "fc_op d = READ_PAGE" if "d \<in> set (unexec w)" "fc_addr d = a" for d using True that p uw kind [OF that(1)] by (cases "d = c") auto
    then have m: "as_marked h w a" using D(1) by blast
    have "fw_pages v a = fw_pages w a" using True r(1) r(3) [of a] by fastforce
    then show ?thesis using m by (simp add: as_marked_def same)
  next
    case False
    then consider "fc_op c = WRITE_PAGE" | "fc_op c = ERASE_BLOCK" by (cases "fc_op c") auto
    then show ?thesis
    proof cases
      case 1
      then show ?thesis using False cm by (simp add: as_marked_def cmd_marked_def c chip_effect_def)
    next
      case 2
      then show ?thesis using False cm by (simp add: as_marked_def cmd_marked_def c chip_effect_def page_words_def)
    qed
  qed
  have "read_good h v x" if "x \<in> set (fw_inds w)" for x
  proof -
    have "x \<noteq> okey c" using that fresh by blast
    then have "fst x = READ_PAGE \<Longrightarrow> fw_readBuffers v (snd x) = fw_readBuffers w (snd x)"
      using r(1,2) by (cases x; cases "fc_op c = READ_PAGE") (simp_all add: okey_def)
    then show ?thesis using bspec [OF D(3) that] by (auto simp: read_good_def same Let_def)
  qed
  moreover have "read_good h v (okey c)"
  proof (cases "fc_op c = READ_PAGE")
    case True
    then have a: "tt_addr (fw_tags w READ_PAGE ! fc_tag c) = fc_addr c" "fw_status w (fc_addr c) \<noteq> UNINIT" using cm(1) by (simp_all add: cmd_marked_def)
    have "as_marked h w (fc_addr c)" by (rule D(1)) (simp add: kind True)
    then show ?thesis using a read_ok_marked [of w] True r(1) by (cases h) (simp_all add: read_good_def okey_def same)
  qed (simp add: read_good_def okey_def)
  ultimately have "\<forall>x\<in>set (fw_inds v). read_good h v x" by (simp add: same)
  then show ?thesis using D1 D2 unfolding data_inv_def by blast
qed

text \<open>The main program.\<close>

lemma phase_Do:
  assumes "flash_inv w" and "fw_ops w = Do op a # ops"
  obtains as bs where "ops = map (Do op) as @ Wait op # concat (map batch bs)" "\<forall>x\<in>set (held w). fst x = op"
  using assms by (auto simp: flash_inv_def phase_inv_def Cons_eq_append_conv Cons_eq_map_conv)

lemma pick_inv:
  assumes "flash_inv w" and "fw_ops w = Do op a # ops" and "fw_stage w = Fresh" and "idle_tag (fw_tags w op) = Some t"
  defines "v \<equiv> (set_busy True op t w)\<lparr>fw_stage := Picked t\<rparr>"
  shows "flash_inv v" "data_inv h w \<Longrightarrow> data_inv h v"
proof -
  note t = idle_tag_Some [OF assms(4)]
  have way: "unexec v = unexec w" "issued v = issued w" "held v = (op, t) # held w"
    using assms(2,3) by (simp_all add: v_def way_defs)
  obtain as bs where ab: "ops = map (Do op) as @ Wait op # concat (map batch bs)" "\<forall>x\<in>set (held w). fst x = op"
    by (rule phase_Do [OF assms(1,2)])
  have ti: "table_inv (fw_tags w) (fw_inFlight w) (mset (held w)) (mset (issued w))" using assms(1) by (simp add: flash_inv_def tag_inv_def)
  then have "(op, t) \<notin># mset (held w)" using t unfolding table_inv_def by blast
  then have "tag_inv v" using table_busy [OF ti t(1)] by (simp add: tag_inv_def way) (simp add: v_def set_busy_def)
  moreover have "fw_ops v = map (Do op) (a # as) @ Wait op # concat (map batch bs)" by (simp add: v_def assms(2) ab(1))
  then have "phase_inv v" using ab(2) unfolding phase_inv_def way by (metis (no_types, lifting) append_Cons fst_conv list.simps(9) set_ConsD)
  moreover have "ops_inv v" using assms(1) by (simp add: flash_inv_def ops_inv_def way) (simp add: v_def)
  ultimately show "flash_inv v" by (simp add: flash_inv_def)
  have "fw_status v = fw_status w" "fw_pages v = fw_pages w" "fw_writeBuffers v = fw_writeBuffers w" "fw_readBuffers v = fw_readBuffers w" "fw_inds v = fw_inds w"
    "tt_addr (fw_tags v READ_PAGE ! i) = tt_addr (fw_tags w READ_PAGE ! i)" for i
    by (simp_all add: v_def)
  then show "data_inv h w \<Longrightarrow> data_inv h v" using way by (rule_tac data_inv_moved) auto
qed

lemma send_inv:
  assumes "flash_inv w" and "fw_ops w = Do op a # ops" and "fw_stage w = Marked t"
  defines "v \<equiv> w\<lparr>fw_cmdq := fw_cmdq w @ [flash_cmd op a 0 t], fw_ops := ops, fw_stage := Fresh\<rparr>"
  shows "flash_inv v" "data_inv h w \<Longrightarrow> data_inv h v"
proof -
  have way: "set (unexec v) = set (unexec w)" "mset (issued v) = mset (issued w)" "mset (held v) = mset (held w)"
    using assms(2,3) by (auto simp: v_def way_defs split: list.splits main_op.splits)
  obtain as bs where ab: "ops = map (Do op) as @ Wait op # concat (map batch bs)" "\<forall>x\<in>set (held w). fst x = op"
    by (rule phase_Do [OF assms(1,2)])
  have same: "fw_status v = fw_status w" "fw_pages v = fw_pages w" "fw_writeBuffers v = fw_writeBuffers w" "fw_readBuffers v = fw_readBuffers w" "fw_inds v = fw_inds w"
    "fw_tags v = fw_tags w" "fw_inFlight v = fw_inFlight w" "fw_ops v = ops" "fw_stage v = Fresh"
    by (simp_all add: v_def)
  have "tag_inv v" using assms(1) by (simp add: flash_inv_def tag_inv_def same way)
  moreover have "set (held v) = set (held w)" using way(3) by (rule mset_eq_setD)
  then have "\<forall>x\<in>set (held v). fst x = op" using ab(2) by simp
  then have "phase_inv v" unfolding phase_inv_def same using ab(1) by blast
  moreover have "ops_inv v"
  proof -
    have o: "ready (Do op a # ops) {a. fw_status w a \<noteq> UNINIT}" "\<forall>op' a'. Do op' a' \<in> set (Do op a # ops) \<longrightarrow> in_range a'"
      "\<forall>c\<in>set (unexec w). in_range (fc_addr c) \<and> fc_page c = 0 \<and> (fc_op c \<noteq> READ_PAGE \<longrightarrow> fw_status w (fc_addr c) \<noteq> UNINIT)"
      using assms(1,2) by (simp_all add: flash_inv_def ops_inv_def)
    have in_range_a: "in_range a" using o(2) by (meson list.set_intros(1))
    have c: "flash_cmd op a 0 t \<in> set (unexec w)" using assms(2,3) by (simp add: unexec_def main_cmd_def)
    have "fc_op (flash_cmd op a 0 t) = op" "fc_addr (flash_cmd op a 0 t) = a"
      using in_range_a by (cases a; simp add: flash_cmd_def in_range_def)+
    then have "op \<noteq> READ_PAGE \<Longrightarrow> insert a {a. fw_status w a \<noteq> UNINIT} = {a. fw_status w a \<noteq> UNINIT}" using o(3) c by auto
    then have "ready ops {a. fw_status w a \<noteq> UNINIT}" using o(1) by (auto split: if_splits)
    then show ?thesis using o by (simp add: ops_inv_def same way)
  qed
  ultimately show "flash_inv v" by (simp add: flash_inv_def)
  show "data_inv h w \<Longrightarrow> data_inv h v" using way same by (rule_tac data_inv_moved) auto
qed

lemma wait_inv:
  assumes "flash_inv w" and "fw_ops w = Wait op # ops" and "fw_inFlight w op = 0"
  defines "v \<equiv> w\<lparr>fw_ops := ops\<rparr>"
  shows "flash_inv v" "data_inv h w \<Longrightarrow> data_inv h v"
proof -
  have fresh: "fw_stage w = Fresh" using assms(1,2) by (simp add: flash_inv_def phase_inv_def)
  obtain bs where b: "ops = concat (map batch bs)" "\<forall>x\<in>set (held w). fst x = op"
    using assms(1,2) by (auto simp: flash_inv_def phase_inv_def Cons_eq_append_conv)
  have hi: "held w = issued w" using assms(2) by (simp add: held_def main_picked_def)
  have "size (filter_mset (\<lambda>x. fst x = op) (mset (issued w))) = 0"
    using assms(1,3) by (simp add: flash_inv_def tag_inv_def table_inv_def)
  then have "filter (\<lambda>x. fst x = op) (issued w) = []" by (metis mset_filter mset_zero_iff size_eq_0_iff_empty)
  then have h: "held w = []" using b(2) hi by (simp add: filter_empty_conv)
  have way: "unexec v = unexec w" "issued v = issued w" "held v = held w"
    using assms(2) fresh by (auto simp: v_def way_defs split: list.splits main_op.splits)
  have same: "fw_status v = fw_status w" "fw_pages v = fw_pages w" "fw_writeBuffers v = fw_writeBuffers w" "fw_readBuffers v = fw_readBuffers w" "fw_inds v = fw_inds w"
    "fw_tags v = fw_tags w" "fw_inFlight v = fw_inFlight w" "fw_ops v = ops" "fw_stage v = Fresh"
    by (simp_all add: v_def fresh)
  have "tag_inv v" using assms(1) by (simp add: flash_inv_def tag_inv_def same way)
  moreover have "phase_inv v"
    unfolding phase_inv_def same way h b(1) by (cases bs) (auto simp: batch_def)
  moreover have "ops_inv v" using assms(1,2) by (simp add: flash_inv_def ops_inv_def same way)
  ultimately show "flash_inv v" by (simp add: flash_inv_def)
  show "data_inv h w \<Longrightarrow> data_inv h v" using way same by (rule_tac data_inv_moved) auto
qed

lemma mark_inv:
  assumes "flash_inv w" and "fw_ops w = Do op a # ops" and "fw_stage w = Picked t"
  defines "v \<equiv> (mark_request op a t (fill_buffer op a t w))\<lparr>fw_stage := Marked t\<rparr>"
  shows "flash_inv v" "data_inv h w \<Longrightarrow> data_inv h v"
proof -
  let ?c = "\<lparr>fc_tag = t, fc_op = op, fc_addr = a, fc_page = 0\<rparr>"
  have ti: "table_inv (fw_tags w) (fw_inFlight w) (mset (held w)) (mset (issued w))" using assms(1) by (simp add: flash_inv_def tag_inv_def)
  have hw: "held w = (op, t) # issued w" using assms(2,3) by (simp add: held_def main_picked_def)
  have t: "t < 128" using ti by (auto simp: table_inv_def hw)
  have in_a: "in_range a" using assms(1,2) by (metis flash_inv_def list.set_intros(1) ops_inv_def)
  note cmd = flash_cmd_simps [OF in_a t, of op]
  have same: "fw_cmdq v = fw_cmdq w" "fw_chips v = fw_chips w" "fw_pages v = fw_pages w" "fw_readBuffers v = fw_readBuffers w"
    "fw_inds v = fw_inds w" "fw_handler v = fw_handler w" "fw_ops v = Do op a # ops" "fw_stage v = Marked t"
    "fw_inFlight v = (fw_inFlight w)(op := fw_inFlight w op + 1)"
    by (simp_all add: v_def mark_request_def fill_buffer_def assms(2) Let_def split: fop.splits)
  have st: "fw_status v = (if op = READ_PAGE then fw_status w else (fw_status w)(a := if op = WRITE_PAGE then WRITTEN else ERASED))"
    "fw_writeBuffers v = (if op = WRITE_PAGE then (fw_writeBuffers w)(t := golden a) else fw_writeBuffers w)"
    "fw_tags v = (if op = READ_PAGE then (fw_tags w)(READ_PAGE := (fw_tags w READ_PAGE)[t := (fw_tags w READ_PAGE ! t)\<lparr>tt_addr := a\<rparr>]) else fw_tags w)"
    by (cases op; simp add: v_def mark_request_def fill_buffer_def golden_def)+
  have way: "unexec v = ?c # unexec w" "issued v = (op, t) # issued w" "held v = (op, t) # issued w"
    using assms(2,3) by (simp_all add: way_defs same cmd okey_def)
  obtain as bs where ab: "ops = map (Do op) as @ Wait op # concat (map batch bs)" "\<forall>x\<in>set (held w). fst x = op"
    by (rule phase_Do [OF assms(1,2)])
  have "table_inv (fw_tags v) (fw_inFlight v) (mset (held v)) (mset (issued v))"
    using ti by (auto simp: table_inv_def way hw same st nth_list_update)
  then have tag: "tag_inv v" by (simp add: tag_inv_def)
  have "fw_ops v = map (Do op) (a # as) @ Wait op # concat (map batch bs)" by (simp add: same ab(1))
  then have phase: "phase_inv v" using ab(2) same(7) unfolding phase_inv_def way hw by blast
  let ?S = "{a. fw_status w a \<noteq> UNINIT}"
  have S: "{a. fw_status v a \<noteq> UNINIT} = (if op = READ_PAGE then ?S else insert a ?S)" by (auto simp: st)
  have old: "ready (Do op a # ops) ?S" "\<forall>op' a'. Do op' a' \<in> set (Do op a # ops) \<longrightarrow> in_range a'"
    "\<forall>c\<in>set (unexec w). in_range (fc_addr c) \<and> fc_page c = 0 \<and> (fc_op c \<noteq> READ_PAGE \<longrightarrow> fc_addr c \<in> ?S)"
    using assms(1,2) by (simp_all add: flash_inv_def ops_inv_def)
  have "ready (fw_ops v) {a. fw_status v a \<noteq> UNINIT}" unfolding S same using old(1) by (cases "op = READ_PAGE") simp_all
  moreover have "\<forall>c\<in>set (unexec v). in_range (fc_addr c) \<and> fc_page c = 0 \<and> (fc_op c \<noteq> READ_PAGE \<longrightarrow> fc_addr c \<in> {a. fw_status v a \<noteq> UNINIT})"
    unfolding S way using old(3) in_a by auto
  ultimately have "ops_inv v" unfolding ops_inv_def same using old(2) by blast
  then show inv: "flash_inv v" using tag phase by (simp add: flash_inv_def)
  have kind: "fst x = op" if "x \<in> set (issued w)" for x using that ab(2) by (simp add: hw)
  have "(op, t) \<notin> set (issued w)" using held_once [OF assms(1), of "(op, t)" "issued w"] by (simp add: hw)
  then have other: "fc_op d = op" "fc_tag d \<noteq> t" if "d \<in> set (unexec w)" for d
    using that kind [of "okey d"] by (force simp: issued_def okey_def)+
  show "data_inv h v" if D: "data_inv h w"
  proof -
    have "as_marked h v b" if "\<forall>d\<in>set (unexec v). fc_addr d = b \<longrightarrow> fc_op d = READ_PAGE" for b
    proof -
      have "\<forall>d\<in>set (unexec w). fc_addr d = b \<longrightarrow> fc_op d = READ_PAGE" using that unfolding way by simp
      then have "as_marked h w b" using D unfolding data_inv_def by blast
      moreover have "fw_status v b = fw_status w b" using that st(1) way(1) by auto
      ultimately show ?thesis by (simp add: as_marked_def same)
    qed
    moreover have "cmd_marked v d" if "d \<in> set (unexec w)" for d
    proof -
      have "cmd_marked w d" using D that unfolding data_inv_def by blast
      then show ?thesis using other [OF that] by (cases op) (auto simp: cmd_marked_def st)
    qed
    moreover have "cmd_marked v ?c"
      using old(1) ti t by (cases op) (auto simp: cmd_marked_def st table_inv_def)
    moreover have "read_good h v x" if "x \<in> set (fw_inds w)" for x
    proof -
      have i: "x \<in> set (issued w)" using that by (simp add: issued_def)
      have "read_good h w x" using D that unfolding data_inv_def by blast
      then show ?thesis using kind [OF i] i \<open>(op, t) \<notin> set (issued w)\<close> by (cases x; cases "snd x = t") (auto simp: read_good_def st same Let_def)
    qed
    ultimately show ?thesis unfolding data_inv_def way same list.set by blast
  qed
qed

lemma main_inv:
  assumes "main_step w = Some v" and "flash_inv w"
  shows "flash_inv v" "data_inv h w \<Longrightarrow> data_inv h v" "fw_testPass v = fw_testPass w"
proof -
  obtain x ops where ops: "fw_ops w = x # ops" using assms(1) by (auto simp: main_step_def split: list.splits)
  have "flash_inv v \<and> (data_inv h w \<longrightarrow> data_inv h v) \<and> fw_testPass v = fw_testPass w"
  proof (cases x)
    case (Wait op)
    then have "fw_inFlight w op = 0" "v = w\<lparr>fw_ops := ops\<rparr>" using assms(1) ops by (auto simp: main_step_def split: if_splits)
    then show ?thesis using wait_inv [OF assms(2) ops [unfolded Wait]] by simp
  next
    case (Do op a)
    note o = ops [unfolded Do]
    show ?thesis
    proof (cases "fw_stage w")
      case Fresh
      then obtain t where "idle_tag (fw_tags w op) = Some t" "v = (set_busy True op t w)\<lparr>fw_stage := Picked t\<rparr>"
        using assms(1) o by (auto simp: main_step_def)
      then show ?thesis using pick_inv [OF assms(2) o Fresh] by simp
    next
      case (Picked t)
      then have v: "v = (mark_request op a t (fill_buffer op a t w))\<lparr>fw_stage := Marked t\<rparr>" using assms(1) o by (simp add: main_step_def)
      then have "fw_testPass v = fw_testPass w" by (cases op) (simp_all add: mark_request_def fill_buffer_def)
      then show ?thesis using mark_inv [OF assms(2) o Picked] v by simp
    next
      case (Marked t)
      then have "v = w\<lparr>fw_cmdq := fw_cmdq w @ [flash_cmd op a 0 t], fw_ops := ops, fw_stage := Fresh\<rparr>"
        using assms(1) o by (simp add: main_step_def split: if_splits)
      then show ?thesis using send_inv [OF assms(2) o Marked] by simp
    qed
  qed
  then show "flash_inv v" "data_inv h w \<Longrightarrow> data_inv h v" "fw_testPass v = fw_testPass w" by blast+
qed

lemma flash_step_inv: "flash_step hashed w v \<Longrightarrow> flash_inv w \<Longrightarrow> flash_inv v"
  by (induction rule: flash_step.induct) (auto intro: main_inv(1) drive_inv(1) chip_inv report_inv(1) handled_inv(1))

lemma chip_exec_testPass: "chip_exec hashed i w = Some v \<Longrightarrow> fw_testPass v = fw_testPass w"
  by (erule chip_exec_Some) simp

lemma drive_testPass: "driveFlashCmd w = Some v \<Longrightarrow> fw_testPass v = fw_testPass w"
  by (auto simp: driveFlashCmd_def split: list.splits if_splits)

lemma flash_step_data:
  assumes "flash_step h w v" and "flash_inv w" and "data_inv h w"
  shows "data_inv h v \<and> (\<not> h \<longrightarrow> fw_testPass v = fw_testPass w)"
  using assms
proof (induction rule: flash_step.induct)
  case (step_main w v)
  then show ?case using main_inv(2,3) by blast
next
  case (step_drive w v)
  then show ?case using drive_inv(2) drive_testPass by blast
next
  case (step_chip i w v)
  then show ?case using chip_data chip_exec_testPass by blast
next
  case (step_report w v)
  then show ?case using report_inv(2) [OF step_report(1)] report_inv(3) [OF step_report(1)] by (cases h) simp_all
next
  case (step_handled w v)
  then show ?case using handled_inv(2,3) by blast
qed

section \<open>The start and the end\<close>

lemma ready_batch:
  "ready (map (Do op) as @ ops) S = (if op = READ_PAGE then set as \<subseteq> S \<and> ready ops S else ready ops (S \<union> set as))"
  by (induction as arbitrary: S) auto

lemma ready_writes: "ready (concat (map (\<lambda>b. batch (WRITE_PAGE, f b)) bs) @ ops) S = ready ops (S \<union> (\<Union>b\<in>set bs. set (f b)))"
  by (induction bs arbitrary: S) (simp_all add: batch_def ready_batch Un_assoc)

lemma every_block_set: "set every_block = {..<8} \<times> {..<8} \<times> {..<2}"
  by (auto simp: every_block_def NUM_BUSES_def CHIPS_PER_BUS_def BLOCKS_PER_CHIP_def image_iff)

lemma blocks_of_bus_set: "set (blocks_of_bus b) = {b} \<times> {..<8} \<times> {..<2}"
  by (auto simp: blocks_of_bus_def CHIPS_PER_BUS_def BLOCKS_PER_CHIP_def image_iff)

lemma flash_main_split:
  "flash_main = map (Do ERASE_BLOCK) every_block @ Wait ERASE_BLOCK # map (Do READ_PAGE) every_block @ Wait READ_PAGE #
     concat (map (\<lambda>bus. batch (WRITE_PAGE, blocks_of_bus bus)) [0..<8]) @ map (Do READ_PAGE) every_block @ [Wait READ_PAGE]"
  by (simp add: flash_main_def flash_batches_def batch_def NUM_BUSES_def comp_def)

lemma flash_start_inv: "flash_inv (flash_start pages)" "data_inv h (flash_start pages)"
proof -
  let ?w = "flash_start pages"
  have way: "unexec ?w = []" "issued ?w = []" "held ?w = []" "fw_inds ?w = []"
    by (simp_all add: way_defs flash_start_def split: list.splits main_op.splits)
  have "tag_inv ?w" by (simp add: tag_inv_def table_inv_def way) (simp add: flash_start_def NUM_TAGS_def)
  moreover have "phase_inv ?w"
  proof -
    have "fw_ops ?w = map (Do ERASE_BLOCK) every_block @ Wait ERASE_BLOCK # concat (map batch (tl flash_batches))"
      by (simp add: flash_start_def flash_main_def flash_batches_def batch_def)
    moreover have "fw_stage ?w = Fresh" by (simp add: flash_start_def)
    ultimately show ?thesis unfolding phase_inv_def way by auto
  qed
  moreover have "ops_inv ?w"
  proof -
    have "ready (fw_ops ?w) {a. fw_status ?w a \<noteq> UNINIT}"
      by (simp add: flash_start_def flash_main_split ready_batch ready_writes)
    moreover have "in_range a" if "Do op a \<in> set (fw_ops ?w)" for op a
      using that by (auto simp: flash_start_def flash_main_split in_range_def every_block_set blocks_of_bus_set batch_def)
    ultimately show ?thesis unfolding ops_inv_def way by simp
  qed
  ultimately show "flash_inv ?w" by (simp add: flash_inv_def)
  show "data_inv h ?w" unfolding data_inv_def way by (simp add: as_marked_def flash_start_def)
qed

text \<open>The steps still to be made.\<close>

definition op_work :: "main_op \<Rightarrow> nat" where
  "op_work x = (case x of Do op a \<Rightarrow> 7 | Wait op \<Rightarrow> 1)"

definition flash_work :: "flash_world \<Rightarrow> nat" where
  "flash_work w = sum_list (map op_work (fw_ops w)) - (case fw_stage w of Fresh \<Rightarrow> 0 | Picked t \<Rightarrow> 1 | Marked t \<Rightarrow> 2) +
     4 * length (fw_cmdq w) + 3 * length (fw_chips w) + 2 * length (fw_inds w) + (case fw_handler w of None \<Rightarrow> 0 | Some x \<Rightarrow> 1)"

lemma flash_work_falls: "flash_step hashed w v \<Longrightarrow> flash_inv w \<Longrightarrow> flash_work v < flash_work w"
proof (induction rule: flash_step.induct)
  case (step_main w v)
  have f: "fw_stage w = Fresh \<or> (\<exists>op a ops. fw_ops w = Do op a # ops)" using step_main(2) by (simp add: flash_inv_def phase_inv_def)
  have m: "fw_cmdq (mark_request op a t (fill_buffer op a t w)) = fw_cmdq w" "fw_chips (mark_request op a t (fill_buffer op a t w)) = fw_chips w"
    "fw_inds (mark_request op a t (fill_buffer op a t w)) = fw_inds w" "fw_handler (mark_request op a t (fill_buffer op a t w)) = fw_handler w"
    "fw_ops (mark_request op a t (fill_buffer op a t w)) = fw_ops w" for op a t
    by (cases op; simp add: mark_request_def fill_buffer_def)+
  show ?case using step_main(1) f
    by (auto simp: main_step_def flash_work_def op_work_def m split: list.splits main_op.splits stage.splits if_splits)
next
  case (step_drive w v)
  then show ?case by (auto simp: driveFlashCmd_def flash_work_def split: list.splits if_splits)
next
  case (step_chip i w v)
  from step_chip(1) show ?case by (rule chip_exec_Some) (simp add: flash_work_def)
next
  case (step_report w v)
  then show ?case by (auto simp: handler_start_def flash_work_def checkReadData_def Let_def split: option.splits list.splits)
next
  case (step_handled w v)
  then show ?case by (auto simp: handler_end_def flash_work_def Let_def split: option.splits if_splits)
qed

lemma flash_progress:
  assumes "flash_inv w"
  shows "fw_ops w = [] \<and> held w = [] \<or> (\<exists>v. flash_step hashed w v)"
proof -
  consider x where "fw_handler w = Some x" | x xs where "fw_handler w = None" "fw_inds w = x # xs"
    | c cs where "fw_chips w = c # cs" | c cs where "fw_chips w = []" "fw_cmdq w = c # cs"
    | "fw_handler w = None" "fw_inds w = []" "fw_chips w = []" "fw_cmdq w = []"
    by (cases "fw_handler w"; cases "fw_inds w"; cases "fw_chips w"; cases "fw_cmdq w") auto
  then show ?thesis
  proof cases
    case (1 x)
    then have "\<exists>v. handler_end w = Some v" by (cases x) (simp add: handler_end_def Let_def)
    then show ?thesis using step_handled by blast
  next
    case (2 x xs)
    then have "\<exists>v. handler_start w = Some v" by (cases x) (simp add: handler_start_def)
    then show ?thesis using step_report by blast
  next
    case (3 c cs)
    then have "c \<in> set (unexec w)" by (simp add: unexec_def)
    then have "in_range (fc_addr c)" "fc_page c = 0" using assms unfolding flash_inv_def ops_inv_def by blast+
    then have "\<exists>v. chip_exec hashed 0 w = Some v" using 3 by (simp add: chip_exec_def in_range_def Let_def)
    then show ?thesis using step_chip by blast
  next
    case (4 c cs)
    then have "\<exists>v. driveFlashCmd w = Some v" by (simp add: driveFlashCmd_def)
    then show ?thesis using step_drive by blast
  next
    case 5
    show ?thesis
    proof (cases "fw_ops w")
      case Nil
      then show ?thesis using 5 by (simp add: way_defs)
    next
      case (Cons x ops)
      have now: "fw_stage w = Fresh \<Longrightarrow> held w = []" "issued w = map okey (main_cmd w)"
        using 5 by (simp_all add: way_defs split: list.splits main_op.splits)
      have ti: "table_inv (fw_tags w) (fw_inFlight w) (mset (held w)) (mset (issued w))" using assms by (simp add: flash_inv_def tag_inv_def)
      have "\<exists>v. main_step w = Some v"
      proof (cases x)
        case (Do op a)
        then show ?thesis
        proof (cases "fw_stage w")
          case Fresh
          then have "\<not> tt_busy (fw_tags w op ! 0)" using now(1) ti by (simp add: table_inv_def)
          then have "\<exists>t. idle_tag (fw_tags w op) = Some t" using idle_tag_exists [of 0] by simp
          then show ?thesis using Cons Do Fresh by (auto simp: main_step_def)
        qed (use Cons Do 5 in \<open>simp_all add: main_step_def NUM_TAGS_def\<close>)
      next
        case (Wait op)
        then have "issued w = []" using now(2) Cons by (simp add: main_cmd_def)
        then have "fw_inFlight w op = 0" using ti by (simp add: table_inv_def)
        then show ?thesis using Cons Wait by (simp add: main_step_def)
      qed
      then show ?thesis using step_main by blast
    qed
  qed
qed

lemma flash_run_inv: "flash_run h (flash_start pages) w \<Longrightarrow> flash_inv w \<and> data_inv h w \<and> (\<not> h \<longrightarrow> fw_testPass w)"
proof (induction rule: flash_run.induct)
  case run_start
  then show ?case using flash_start_inv by (simp add: flash_start_def)
next
  case (run_step v u)
  then show ?case using flash_step_inv flash_step_data by blast
qed

section \<open>Hashed data\<close>

text \<open>One block that is written and read is enough for the test to fail.\<close>

definition odd_block :: baddr where "odd_block = (1, 0, 0)"

definition read_waits :: "flash_world \<Rightarrow> bool" where
  "read_waits w \<longleftrightarrow> Do READ_PAGE odd_block \<in> set (fw_ops w) \<or> (\<exists>c\<in>set (unexec w). fc_op c = READ_PAGE \<and> fc_addr c = odd_block) \<or>
     (\<exists>x\<in>set (fw_inds w). fst x = READ_PAGE \<and> tt_addr (fw_tags w READ_PAGE ! snd x) = odd_block)"

definition write_waits :: "main_op list \<Rightarrow> bool" where
  "write_waits ops \<longleftrightarrow> (\<exists>xs ys. ops = xs @ Do WRITE_PAGE odd_block # ys \<and> Do READ_PAGE odd_block \<in> set ys \<and> Do ERASE_BLOCK odd_block \<notin> set ys)"

definition doomed :: "flash_world \<Rightarrow> bool" where
  "doomed w \<longleftrightarrow> \<not> fw_testPass w \<or> write_waits (fw_ops w) \<or>
     fw_status w odd_block = WRITTEN \<and> Do ERASE_BLOCK odd_block \<notin> set (fw_ops w) \<and> read_waits w"

lemma hashed_read_fails: "\<not> read_ok WRITTEN odd_block (hashed_page 0 odd_block)"
proof -
  have "[0..<512] = (0 :: nat) # [1..<512]" by (simp add: upt_rec)
  then have "hashed_page 0 odd_block ! 0 = 0" by (simp add: hashed_page_def getDataHash_def odd_block_def)
  moreover have "hashAddrToData odd_block 0 \<noteq> 0" by (simp add: hashAddrToData_def odd_block_def)
  moreover have "(0 :: nat) \<in> set [0..<page_words]" by (simp add: page_words_def)
  ultimately show ?thesis unfolding read_ok_def list_all_iff FlashStatusT.case by metis
qed

lemma doomed_moved:
  assumes "doomed w" and "fw_ops v = fw_ops w" and "fw_status v odd_block = fw_status w odd_block" and "fw_testPass v \<Longrightarrow> fw_testPass w"
    and "read_waits w \<Longrightarrow> fw_testPass v \<Longrightarrow> fw_status w odd_block = WRITTEN \<Longrightarrow> read_waits v"
  shows "doomed v"
  using assms by (auto simp: doomed_def)

lemma doomed_chip:
  assumes "chip_exec h i w = Some v" and "data_inv h w" and "doomed w"
  shows "doomed v"
proof -
  obtain c xs ys where c: "fw_chips w = xs @ c # ys"
    "v = (chip_effect h c (w\<lparr>fw_chips := xs @ ys\<rparr>))\<lparr>fw_inds := fw_inds w @ [okey c]\<rparr>"
    by (rule chip_exec_Some [OF assms(1)])
  have uw: "set (unexec w) = insert c (set (unexec v))" by (auto simp: c unexec_def main_cmd_def)
  then have "cmd_marked w c" using assms(2) unfolding data_inv_def by blast
  then have "fc_op c = READ_PAGE \<Longrightarrow> tt_addr (fw_tags w READ_PAGE ! fc_tag c) = fc_addr c" by (simp add: cmd_marked_def)
  then have "read_waits w \<Longrightarrow> read_waits v" unfolding read_waits_def uw by (auto simp: c(2) okey_def)
  then show ?thesis by (intro doomed_moved [OF assms(3)]) (simp_all add: c(2))
qed

lemma doomed_report:
  assumes "handler_start w = Some v" and "data_inv True w" and "doomed w"
  shows "doomed v"
proof -
  obtain op t xs where x: "fw_handler w = None" "fw_inds w = (op, t) # xs"
    "v = (if op = READ_PAGE then checkReadData t w else w)\<lparr>fw_inds := xs, fw_handler := Some (op, t)\<rparr>"
    using assms(1) by (auto simp: handler_start_def split: option.splits list.splits)
  have fields: "fw_ops v = fw_ops w" "fw_status v = fw_status w" "fw_tags v = fw_tags w" "fw_inds v = xs" "fw_cmdq v = fw_cmdq w"
    "fw_chips v = fw_chips w" "fw_stage v = fw_stage w"
    by (simp_all add: x(3) checkReadData_def Let_def)
  then have "unexec v = unexec w" by (simp add: unexec_def main_cmd_def)
  note same = fields this
  have g: "read_good True w (op, t)" using assms(2) x(2) unfolding data_inv_def by simp
  have fails: "\<not> fw_testPass v" if "op = READ_PAGE" "tt_addr (fw_tags w READ_PAGE ! t) = odd_block" "fw_status w odd_block = WRITTEN"
    using that g hashed_read_fails by (simp add: x(3) checkReadData_def read_good_def Let_def)
  show ?thesis
  proof (rule doomed_moved [OF assms(3)])
    show "fw_testPass v \<Longrightarrow> fw_testPass w" by (auto simp: x(3) checkReadData_def Let_def split: if_splits)
    show "read_waits v" if "read_waits w" "fw_testPass v" "fw_status w odd_block = WRITTEN"
      using that fails by (auto simp: read_waits_def same x(2))
  qed (simp_all add: same)
qed

lemma doomed_main:
  assumes "main_step w = Some v" and "flash_inv w" and "data_inv True w" and "doomed w"
  shows "doomed v"
proof -
  obtain x ops where ops: "fw_ops w = x # ops" using assms(1) by (auto simp: main_step_def split: list.splits)
  have tl: "write_waits (x # ops) \<Longrightarrow> x \<noteq> Do WRITE_PAGE odd_block \<Longrightarrow> write_waits ops"
    by (auto simp: write_waits_def Cons_eq_append_conv)
  have tp: "fw_testPass v = fw_testPass w" by (rule main_inv(3) [OF assms(1,2)])
  show ?thesis
  proof (cases x)
    case (Wait op)
    then have "v = w\<lparr>fw_ops := ops\<rparr>" "fw_stage w = Fresh" using assms(1,2) ops by (auto simp: main_step_def flash_inv_def phase_inv_def split: if_splits)
    then show ?thesis using assms(4) tl Wait ops tp
      by (auto simp: doomed_def read_waits_def unexec_def main_cmd_def split: list.splits main_op.splits)
  next
    case (Do op a)
    note o = ops [unfolded Do]
    show ?thesis
    proof (cases "fw_stage w")
      case Fresh
      then obtain t where v: "v = (set_busy True op t w)\<lparr>fw_stage := Picked t\<rparr>" using assms(1) o by (auto simp: main_step_def)
      have "unexec v = unexec w" using o Fresh by (simp add: v unexec_def main_cmd_def)
      then show ?thesis by (intro doomed_moved [OF assms(4)]) (auto simp: v read_waits_def)
    next
      case (Picked t)
      then have v: "v = (mark_request op a t (fill_buffer op a t w))\<lparr>fw_stage := Marked t\<rparr>" using assms(1) o by (simp add: main_step_def)
      have "held w = (op, t) # issued w" using o Picked by (simp add: held_def main_picked_def)
      then have "(op, t) \<notin> set (issued w)" using held_once [OF assms(2), of "(op, t)" "issued w"] by simp
      then have ni: "(op, t) \<notin> set (fw_inds w)" by (simp add: issued_def)
      have u: "set (unexec w) \<subseteq> set (unexec v)" using o Picked by (cases op) (auto simp: v unexec_def main_cmd_def mark_request_def fill_buffer_def)
      have same: "fw_ops v = fw_ops w" "fw_inds v = fw_inds w" "op \<noteq> READ_PAGE \<Longrightarrow> fw_tags v = fw_tags w"
        "r \<noteq> t \<Longrightarrow> tt_addr (fw_tags v READ_PAGE ! r) = tt_addr (fw_tags w READ_PAGE ! r)" for r
        by (cases op; simp add: v mark_request_def fill_buffer_def)+
      have rw: "read_waits w \<Longrightarrow> read_waits v" unfolding read_waits_def same using u ni same(3,4) by (cases op) force+
      have "fw_status v odd_block = WRITTEN" if "fw_status w odd_block = WRITTEN" "Do ERASE_BLOCK odd_block \<notin> set (fw_ops w)"
        using that o by (cases op) (auto simp: v mark_request_def fill_buffer_def)
      then show ?thesis using assms(4) rw tp by (auto simp: doomed_def same)
    next
      case (Marked t)
      then have v: "v = w\<lparr>fw_cmdq := fw_cmdq w @ [flash_cmd op a 0 t], fw_ops := ops, fw_stage := Fresh\<rparr>"
        using assms(1) o by (simp add: main_step_def split: if_splits)
      have u: "set (unexec v) = set (unexec w)" using o Marked by (auto simp: v unexec_def main_cmd_def split: list.splits main_op.splits)
      have "in_range a" using assms(2) o by (metis flash_inv_def list.set_intros(1) ops_inv_def)
      then have c: "fc_op (flash_cmd op a 0 t) = op" "fc_addr (flash_cmd op a 0 t) = a" by (cases a; simp add: flash_cmd_def in_range_def)+
      have mem: "flash_cmd op a 0 t \<in> set (unexec w)" using o Marked by (simp add: unexec_def main_cmd_def)
      then have cm: "cmd_marked w (flash_cmd op a 0 t)" using assms(3) unfolding data_inv_def by blast
      have rw: "read_waits w \<Longrightarrow> read_waits v" using mem c by (auto simp: read_waits_def u) (auto simp: v o)
      show ?thesis
      proof (cases "write_waits (fw_ops w) \<and> Do op a = Do WRITE_PAGE odd_block")
        case True
        then have "fw_status w odd_block = WRITTEN" using cm c by (simp add: cmd_marked_def)
        moreover have "write_waits ops \<or> Do READ_PAGE odd_block \<in> set ops \<and> Do ERASE_BLOCK odd_block \<notin> set ops"
          using True o by (auto simp: write_waits_def Cons_eq_append_conv)
        ultimately show ?thesis by (auto simp: doomed_def v read_waits_def)
      next
        case False
        then show ?thesis using assms(4) tl Do o rw tp by (auto simp: doomed_def v)
      qed
    qed
  qed
qed

lemma doomed_step:
  assumes "flash_step True w v" and "flash_inv w" and "data_inv True w" and "doomed w"
  shows "doomed v"
  using assms
proof (induction rule: flash_step.induct)
  case (step_main w v)
  then show ?case by (rule doomed_main)
next
  case (step_drive w v)
  then obtain c cs where c: "fw_cmdq w = c # cs" "v = w\<lparr>fw_cmdq := cs, fw_chips := fw_chips w @ [c]\<rparr>"
    by (auto simp: driveFlashCmd_def split: list.splits if_splits)
  have "set (unexec v) = set (unexec w)" by (auto simp: c unexec_def main_cmd_def)
  then show ?case by (intro doomed_moved [OF step_drive(4)]) (simp_all add: read_waits_def, simp_all add: c)
next
  case (step_chip i w v)
  then show ?case using doomed_chip by blast
next
  case (step_report w v)
  then show ?case using doomed_report by blast
next
  case (step_handled w v)
  obtain op t where x: "fw_handler w = Some (op, t)" using step_handled(1) by (auto simp: handler_end_def split: option.splits)
  have "fw_ops v = fw_ops w" "fw_status v = fw_status w" "fw_inds v = fw_inds w" "fw_cmdq v = fw_cmdq w" "fw_chips v = fw_chips w" "fw_stage v = fw_stage w"
    "tt_addr (fw_tags v READ_PAGE ! r) = tt_addr (fw_tags w READ_PAGE ! r)" for r
    using step_handled(1) x by (auto simp: handler_end_def Let_def)
  then show ?case using handled_inv(3) [OF step_handled(1,2)]
    by (intro doomed_moved [OF step_handled(4)]) (simp_all add: read_waits_def unexec_def main_cmd_def)
qed

lemma flash_start_doomed: "doomed (flash_start pages)"
proof -
  let ?W = "concat (map (\<lambda>bus. batch (WRITE_PAGE, blocks_of_bus bus)) [0..<8])"
  have "Do WRITE_PAGE odd_block \<in> set (batch (WRITE_PAGE, blocks_of_bus 1))" by (simp add: batch_def blocks_of_bus_set odd_block_def)
  moreover have "(1 :: nat) \<in> set [0..<8]" by simp
  ultimately have "Do WRITE_PAGE odd_block \<in> set ?W" unfolding set_concat set_map by blast
  then obtain xs ys where W: "?W = xs @ Do WRITE_PAGE odd_block # ys" using split_list by metis
  have "Do ERASE_BLOCK odd_block \<notin> set ?W" by (auto simp: batch_def)
  then have "Do ERASE_BLOCK odd_block \<notin> set ys" unfolding W by simp
  moreover have "odd_block \<in> set every_block" by (simp add: every_block_set odd_block_def)
  ultimately have "write_waits flash_main"
    unfolding write_waits_def flash_main_split W
    by (intro exI [of _ "map (Do ERASE_BLOCK) every_block @ Wait ERASE_BLOCK # map (Do READ_PAGE) every_block @ Wait READ_PAGE # xs"]
        exI [of _ "ys @ map (Do READ_PAGE) every_block @ [Wait READ_PAGE]"]) auto
  then show ?thesis by (simp add: doomed_def flash_start_def)
qed

section \<open>Properties\<close>

lemma distinct_at_most: "(\<And>x. count (mset xs) x \<le> 1) \<Longrightarrow> distinct xs"
proof (induction xs)
  case (Cons a xs)
  have "count (mset xs) x \<le> count (mset (a # xs)) x" for x by simp
  then have "count (mset xs) x \<le> 1" for x using Cons.prems [of x] le_trans by blast
  moreover have "a \<notin> set xs" using Cons.prems [of a] by simp
  ultimately show ?case using Cons.IH by simp
qed simp

text \<open>
  C13: On chips that keep what is written to them the flash test passes, however the main program, the
  handlers and the chips take turns: no check fails at any point; as long as the program is not done
  and every command has been handled some step is possible; and no run goes on forever.
\<close>

theorem flash_test_passes:
  assumes "flash_run False (flash_start pages) w"
  shows "fw_testPass w \<and> (fw_ops w = [] \<and> held w = [] \<or> (\<exists>v. flash_step False w v)) \<and>
    (\<forall>v. flash_step False w v \<longrightarrow> flash_work v < flash_work w)"
proof -
  have "flash_inv w" "fw_testPass w" using flash_run_inv [OF assms] by simp_all
  then show ?thesis using flash_progress flash_work_falls by blast
qed

theorem flash_test_passes_witness:
  "fw_testPass (flash_start (\<lambda>_ _. [])) \<and> (\<exists>v. flash_step False (flash_start (\<lambda>_ _. [])) v)"
  using flash_test_passes [OF run_start, of "\<lambda>_ _. []"] by (simp add: flash_start_def flash_main_split)

text \<open>
  The tables and counters of the flash test are exact at every moment, with whatever data the
  chips return: a tag is busy just while it is picked or its command is under way, no tag is used by
  two commands, and each counter is the number of commands of its kind under way.
\<close>

lemma flash_tables_exact:
  assumes "flash_run hashed (flash_start pages) w"
  shows "distinct (held w) \<and> (\<forall>op t. t < NUM_TAGS \<longrightarrow> tt_busy (fw_tags w op ! t) = ((op, t) \<in> set (held w))) \<and>
    (\<forall>op. fw_inFlight w op = int (length (filter (\<lambda>x. fst x = op) (issued w))))"
proof -
  have "table_inv (fw_tags w) (fw_inFlight w) (mset (held w)) (mset (issued w))"
    using flash_run_inv [OF assms] by (simp add: flash_inv_def tag_inv_def)
  then have t: "\<forall>x. count (mset (held w)) x \<le> 1" "\<forall>op t. t < 128 \<longrightarrow> tt_busy (fw_tags w op ! t) = ((op, t) \<in># mset (held w))"
    "\<forall>op. fw_inFlight w op = int (size (filter_mset (\<lambda>x. fst x = op) (mset (issued w))))"
    unfolding table_inv_def by blast+
  have "distinct (held w)" using t(1) by (intro distinct_at_most) blast
  moreover have "size (filter_mset (\<lambda>x. fst x = op) (mset (issued w))) = length (filter (\<lambda>x. fst x = op) (issued w))" for op
    by (metis mset_filter size_mset)
  ultimately show ?thesis using t(2,3) unfolding NUM_TAGS_def set_mset_mset by simp
qed

text \<open>
  C38: With hashed data, as the simulated chips are configured, the flash test fails: when the program
  is done and every command has been handled, it reports an error.
\<close>

theorem flash_test_fails_hashed:
  assumes "flash_run True (flash_start pages) w" and "\<not> (\<exists>v. flash_step True w v)"
  shows "fw_ops w = [] \<and> \<not> fw_testPass w"
proof -
  have "doomed w" using assms(1)
  proof (induction rule: flash_run.induct)
    case run_start
    show ?case by (rule flash_start_doomed)
  next
    case (run_step v u)
    then show ?case using flash_run_inv doomed_step by blast
  qed
  moreover have e: "fw_ops w = []" "held w = []" using flash_progress flash_run_inv [OF assms(1)] assms(2) by blast+
  then have "fw_inds w = []" "unexec w = []" by (simp_all add: held_def issued_def)
  ultimately show ?thesis using e by (simp add: doomed_def write_waits_def read_waits_def)
qed

text \<open>Every run that is not continued ends like this, and there is one.\<close>

lemma flash_run_ends: "flash_inv w \<Longrightarrow> \<exists>v. flash_run h w v \<and> \<not> (\<exists>u. flash_step h v u)"
proof (induction "flash_work w" arbitrary: w rule: less_induct)
  case less
  show ?case
  proof (cases "\<exists>u. flash_step h w u")
    case True
    then obtain u where u: "flash_step h w u" by blast
    then obtain v where v: "flash_run h u v" "\<not> (\<exists>u. flash_step h v u)"
      using less.hyps [OF flash_work_falls [OF u less.prems] flash_step_inv [OF u less.prems]] by blast
    have "flash_run h w v" using v(1)
    proof (induction rule: flash_run.induct)
      case run_start
      show ?case by (rule run_step [OF flash_run.run_start u])
    next
      case (run_step x y)
      then show ?case by (blast intro: flash_run.run_step)
    qed
    then show ?thesis using v(2) by blast
  next
    case False
    then show ?thesis by (blast intro: run_start)
  qed
qed

theorem flash_test_fails_hashed_witness:
  "\<exists>w. flash_run True (flash_start (\<lambda>_ _. [])) w \<and> fw_ops w = [] \<and> \<not> fw_testPass w"
proof -
  obtain w where "flash_run True (flash_start (\<lambda>_ _. [])) w" "\<not> (\<exists>u. flash_step True w u)"
    using flash_run_ends [OF flash_start_inv(1)] by blast
  then show ?thesis using flash_test_fails_hashed by blast
qed

end
