(* ===== verification/String_Search.thy ===== *)
theory String_Search
  imports Connectal_Prelude
begin

text \<open>
  The string search in software, \<open>lib/strstr/cpp/mp.h\<close>: the two tables a search may use and the
  search with them, as \<open>examples/strstr/teststrstr.cpp\<close> calls them.  The pattern \<open>x\<close> is an array of
  characters with its terminator, \<open>m\<close> its length.  The tables read the pattern from index 1: they
  are those of the pattern without its first character.
\<close>

section \<open>The code\<close>

partial_function (option) borders_while :: "u8 list \<Rightarrow> int list \<Rightarrow> int \<Rightarrow> int \<Rightarrow> int result option" where
  "borders_while x border i j =
     (if 0 \<le> j then
        (case aget x i of Inl e \<Rightarrow> Some (Inl e) | Inr c \<Rightarrow>
        (case aget x (j + 1) of Inl e \<Rightarrow> Some (Inl e) | Inr d \<Rightarrow>
           if c \<noteq> d then (case aget border j of Inl e \<Rightarrow> Some (Inl e) | Inr j \<Rightarrow> borders_while x border i j)
           else Some (Inr j)))
      else Some (Inr j))"

function borders_for :: "u8 list \<Rightarrow> int \<Rightarrow> int \<Rightarrow> int list \<Rightarrow> int list result" where
  "borders_for x m i border =
     (if i \<le> m then
        rbind (aget border (i - 1)) (\<lambda>j.
        rbind (returned (borders_while x border i j)) (\<lambda>j.
        rbind (aset border i (j + 1)) (\<lambda>border. borders_for x m (i + 1) border)))
      else Inr border)"
  by pat_completeness auto
termination by (relation "measure (\<lambda>(x, m, i, border). nat (m + 1 - i))") auto

definition compute_borders :: "u8 list \<Rightarrow> int list \<Rightarrow> int \<Rightarrow> int list result" where
  "compute_borders x border m = rbind (aset border 0 (- 1)) (\<lambda>border. borders_for x m 1 border)"

partial_function (option) next_while :: "u8 list \<Rightarrow> int list \<Rightarrow> int \<Rightarrow> int \<Rightarrow> int result option" where
  "next_while x MP_next i j =
     (if 0 < j then
        (case aget x i of Inl e \<Rightarrow> Some (Inl e) | Inr c \<Rightarrow>
        (case aget x j of Inl e \<Rightarrow> Some (Inl e) | Inr d \<Rightarrow>
           if c \<noteq> d then (case aget MP_next j of Inl e \<Rightarrow> Some (Inl e) | Inr j \<Rightarrow> next_while x MP_next i j)
           else Some (Inr j)))
      else Some (Inr j))"

function next_for :: "u8 list \<Rightarrow> int \<Rightarrow> int \<Rightarrow> int \<Rightarrow> int list \<Rightarrow> int list result" where
  "next_for x m i j MP_next =
     (if i \<le> m then
        rbind (returned (next_while x MP_next i j)) (\<lambda>j.
        rbind (aset MP_next (i + 1) (j + 1)) (\<lambda>MP_next. next_for x m (i + 1) (j + 1) MP_next))
      else Inr MP_next)"
  by pat_completeness auto
termination by (relation "measure (\<lambda>(x, m, i, j, MP_next). nat (m + 1 - i))") auto

definition compute_MP_next :: "u8 list \<Rightarrow> int list \<Rightarrow> int \<Rightarrow> int list result" where
  "compute_MP_next x MP_next m = rbind (aset MP_next 1 0) (\<lambda>MP_next. next_for x m 1 0 MP_next)"

text \<open>The search returns the positions it prints and the new value of the match counter.\<close>

partial_function (option) MP_while ::
  "u8 list \<Rightarrow> u8 list \<Rightarrow> int list \<Rightarrow> int \<Rightarrow> int \<Rightarrow> int \<Rightarrow> int result option" where
  "MP_while x t MP_next m i j =
     (if i = m + 1 then
        (case aget MP_next i of Inl e \<Rightarrow> Some (Inl e) | Inr i \<Rightarrow> MP_while x t MP_next m i j)
      else if 0 < i then
        (case aget x (i - 1) of Inl e \<Rightarrow> Some (Inl e) | Inr c \<Rightarrow>
        (case aget t (j - 1) of Inl e \<Rightarrow> Some (Inl e) | Inr d \<Rightarrow>
           if c \<noteq> d then (case aget MP_next i of Inl e \<Rightarrow> Some (Inl e) | Inr i \<Rightarrow> MP_while x t MP_next m i j)
           else Some (Inr i)))
      else Some (Inr i))"

function MP_loop ::
  "u8 list \<Rightarrow> u8 list \<Rightarrow> int list \<Rightarrow> int \<Rightarrow> int \<Rightarrow> int \<Rightarrow> int \<Rightarrow> int list \<times> int \<Rightarrow> (int list \<times> int) result" where
  "MP_loop x t MP_next m n i j out =
     (if j \<le> n then
        rbind (returned (MP_while x t MP_next m i j)) (\<lambda>i.
        let i = i + 1; j = j + 1 in
        if i = m + 1 then MP_loop x t MP_next m n 1 j (fst out @ [j - i], snd out + 1)
        else MP_loop x t MP_next m n i j out)
      else Inr out)"
  by pat_completeness auto
termination by (relation "measure (\<lambda>(x, t, MP_next, m, n, i, j, out). nat (n + 1 - j))") auto

definition MP :: "u8 list \<Rightarrow> u8 list \<Rightarrow> int list \<Rightarrow> int \<Rightarrow> int \<Rightarrow> int \<Rightarrow> (int list \<times> int) result" where
  "MP x t MP_next m n match_cnt = MP_loop x t MP_next m n 1 1 ([], match_cnt)"

text \<open>The part of the test that runs in software: both tables, the assertions about them, the search.\<close>

function assert_tables :: "int list \<Rightarrow> int list \<Rightarrow> int \<Rightarrow> int \<Rightarrow> unit result" where
  "assert_tables mpNext border needle_len i =
     (if i < needle_len + 1 then
        rbind (aget mpNext i) (\<lambda>v.
        rbind (aget border (i - 1)) (\<lambda>w.
        rbind (rassert (v = w + 1) AssertFailed) (\<lambda>_. assert_tables mpNext border needle_len (i + 1))))
      else Inr ())"
  by pat_completeness auto
termination by (relation "measure (\<lambda>(mpNext, border, needle_len, i). nat (needle_len + 1 - i))") auto

definition search_test ::
  "u8 list \<Rightarrow> int list \<Rightarrow> int list \<Rightarrow> u8 list \<Rightarrow> int \<Rightarrow> int \<Rightarrow> int \<Rightarrow> (int list \<times> int) result" where
  "search_test needle border mpNext haystack needle_len haystack_len sw_match_cnt =
     rbind (compute_borders needle border needle_len) (\<lambda>border.
     rbind (compute_MP_next needle mpNext needle_len) (\<lambda>mpNext.
     rbind (aget mpNext 1) (\<lambda>v. rbind (rassert (v = 0) AssertFailed) (\<lambda>_.
     rbind (aget border 1) (\<lambda>v. rbind (rassert (v = 0) AssertFailed) (\<lambda>_.
     rbind (assert_tables mpNext border needle_len 2) (\<lambda>_.
     MP needle haystack mpNext needle_len haystack_len sw_match_cnt)))))))"

declare borders_for.simps [simp del] next_for.simps [simp del] MP_loop.simps [simp del] assert_tables.simps [simp del]

section \<open>Borders of a string\<close>

text \<open>A border is a proper prefix that is also a suffix.\<close>

definition border_of :: "'a list \<Rightarrow> nat \<Rightarrow> bool" where
  "border_of w k \<longleftrightarrow> k < length w \<and> take k w = drop (length w - k) w"

definition longest_border :: "'a list \<Rightarrow> nat \<Rightarrow> bool" where
  "longest_border w k \<longleftrightarrow> border_of w k \<and> (\<forall>l. border_of w l \<longrightarrow> l \<le> k)"

lemma border_of_0: "w \<noteq> [] \<Longrightarrow> border_of w 0"
  by (simp add: border_of_def)

lemma border_of_snoc: "border_of (w @ [c]) (Suc k) \<longleftrightarrow> border_of w k \<and> w ! k = c"
proof (cases "k < length w")
  case True
  then have "take (Suc k) (w @ [c]) = take k w @ [w ! k]"
    by (simp add: take_Suc_conv_app_nth)
  with True show ?thesis by (auto simp: border_of_def)
qed (simp add: border_of_def)

lemma border_of_border:
  assumes "border_of w k" and "j < k"
  shows "border_of w j \<longleftrightarrow> border_of (take k w) j"
proof -
  have k: "k < length w" and eq: "take k w = drop (length w - k) w"
    using assms(1) by (simp_all add: border_of_def)
  have "drop (k - j) (take k w) = drop (length w - j) w"
    unfolding eq using k assms(2) by simp
  then show ?thesis using k assms(2) by (auto simp: border_of_def min_def)
qed

lemma border_of_last:
  assumes "border_of w (Suc k)"
  shows "w ! k = last w"
proof (cases w rule: rev_cases)
  case (snoc v c)
  with assms have "border_of v k" "v ! k = c" by (simp_all add: border_of_snoc)
  then show ?thesis using snoc by (simp add: nth_append border_of_def)
qed (use assms in \<open>simp add: border_of_def\<close>)

section \<open>The tables\<close>

definition border_table :: "u8 list \<Rightarrow> int list \<Rightarrow> nat \<Rightarrow> bool" where
  "border_table x b i \<longleftrightarrow> b ! 0 = - 1 \<and> (\<forall>k. 0 < k \<and> k < i \<longrightarrow> (\<exists>l. b ! k = int l \<and> longest_border (take k (tl x)) l))"

lemma tail_snoc: "0 < i \<Longrightarrow> i < length x \<Longrightarrow> take i (tl x) = take (i - 1) (tl x) @ [x ! i]"
  by (cases i) (simp_all add: take_Suc_conv_app_nth nth_tl)

lemma tail_nth: "l < k \<Longrightarrow> k < length x \<Longrightarrow> take k (tl x) ! l = x ! Suc l"
  by (simp add: nth_tl)

text \<open>
  The inner loop visits the borders of the prefix before \<open>i\<close>, the longest first, until one can be
  extended.
\<close>

definition extends_from :: "u8 list \<Rightarrow> nat \<Rightarrow> int \<Rightarrow> bool" where
  "extends_from x i j \<longleftrightarrow> (let w = take (i - 1) (tl x) in
     (j = - 1 \<or> (\<exists>l. j = int l \<and> border_of w l)) \<and> (\<forall>k. border_of w k \<and> w ! k = x ! i \<longrightarrow> int k \<le> j))"

lemma extends_from_next:
  assumes tab: "border_table x b i" and i: "0 < i" "i < length x" and from_j: "extends_from x i (int l)"
    and ne: "x ! i \<noteq> x ! Suc l"
  shows "extends_from x i (b ! l)" and "b ! l < int l" and "l < i"
proof -
  let ?w = "take (i - 1) (tl x)"
  have l: "border_of ?w l" and upper: "\<And>k. border_of ?w k \<Longrightarrow> ?w ! k = x ! i \<Longrightarrow> k \<le> l"
    using from_j by (auto simp: extends_from_def Let_def)
  have len: "l < i - 1" using l i by (simp add: border_of_def)
  then show "l < i" by simp
  have wl: "?w ! l = x ! Suc l" by (rule tail_nth) (use len i in auto)
  have below: "k < l" if "border_of ?w k" "?w ! k = x ! i" for k
    using upper [OF that] that(2) wl ne by (cases "k = l") auto
  have "extends_from x i (b ! l) \<and> b ! l < int l"
  proof (cases "l = 0")
    case True
    with below tab show ?thesis by (auto simp: extends_from_def Let_def border_table_def)
  next
    case False
    then obtain h where h: "b ! l = int h" "longest_border (take l (tl x)) h"
      using tab len i by (auto simp: border_table_def)
    have w': "take l ?w = take l (tl x)" using len by (simp add: min_def)
    have hb: "border_of (take l ?w) h" and top: "\<And>k. border_of (take l ?w) k \<Longrightarrow> k \<le> h"
      using h(2) unfolding longest_border_def w' by simp_all
    have "h < l" using hb by (simp add: border_of_def)
    moreover have "k \<le> h" if "border_of ?w k" "?w ! k = x ! i" for k
      using border_of_border [OF l below [OF that]] top that(1) by simp
    ultimately show ?thesis
      using border_of_border [OF l \<open>h < l\<close>] hb h(1) by (auto simp: extends_from_def Let_def)
  qed
  then show "extends_from x i (b ! l)" and "b ! l < int l" by simp_all
qed

lemma extends_from_found:
  assumes i: "0 < i" "i < length x" and from_j: "extends_from x i j" and fits: "j = - 1 \<or> x ! i = x ! nat (j + 1)"
  shows "\<exists>l. j + 1 = int l \<and> longest_border (take i (tl x)) l"
proof -
  let ?w = "take (i - 1) (tl x)"
  have snoc: "take i (tl x) = ?w @ [x ! i]" by (rule tail_snoc) (use i in auto)
  have upper: "\<And>k. border_of ?w k \<Longrightarrow> ?w ! k = x ! i \<Longrightarrow> int k \<le> j"
    using from_j by (auto simp: extends_from_def Let_def)
  have top: "int k \<le> j + 1" if "border_of (?w @ [x ! i]) k" and "- 1 \<le> j" for k
  proof (cases k)
    case (Suc k')
    with that(1) have "border_of ?w k'" "?w ! k' = x ! i" by (simp_all add: border_of_snoc)
    from upper [OF this] Suc show ?thesis by simp
  qed (use that(2) in simp)
  show ?thesis
  proof (cases "j = - 1")
    case True
    then show ?thesis using top by (force simp: snoc longest_border_def border_of_0)
  next
    case False
    then obtain l where l: "j = int l" "border_of ?w l"
      using from_j by (auto simp: extends_from_def Let_def)
    have "?w ! l = x ! Suc l" by (rule tail_nth) (use l(2) i in \<open>auto simp: border_of_def\<close>)
    with fits l False have "border_of (?w @ [x ! i]) (Suc l)" by (simp add: border_of_snoc nat_add_distrib)
    moreover have "k \<le> Suc l" if "border_of (?w @ [x ! i]) k" for k
      using top [OF that] l(1) by simp
    ultimately show ?thesis using l(1) unfolding snoc longest_border_def by (intro exI [of _ "Suc l"]) simp
  qed
qed

lemma borders_while_finds:
  assumes "border_table x b i" and "0 < i" "i < length x" "i \<le> length b" and "extends_from x i j"
  shows "\<exists>l. borders_while x b (int i) j = Some (Inr (int l - 1)) \<and> longest_border (take i (tl x)) l"
  using assms(5)
proof (induction "nat (j + 1)" arbitrary: j rule: less_induct)
  case less
  note found = extends_from_found [OF assms(2,3) less.prems]
  show ?case
  proof (cases "0 \<le> j")
    case False
    then have "j = - 1" using less.prems by (auto simp: extends_from_def Let_def)
    then show ?thesis using found by (auto simp: borders_while.simps)
  next
    case True
    then obtain l where l: "j = int l" by (auto simp: nonneg_int_cases elim: nonneg_int_cases)
    have "border_of (take (i - 1) (tl x)) l"
      using less.prems l by (auto simp: extends_from_def Let_def)
    then have bound: "Suc l < i" using assms(3) by (auto simp: border_of_def)
    have get: "aget x (int i) = Inr (x ! i)" "aget x (j + 1) = Inr (x ! Suc l)" "aget b j = Inr (b ! l)"
      using bound assms(3,4) l by (simp_all add: aget_def nat_add_distrib)
    show ?thesis
    proof (cases "x ! i = x ! Suc l")
      case True
      then obtain h where h: "j + 1 = int h" "longest_border (take i (tl x)) h"
        using found l by (auto simp: nat_add_distrib)
      have "borders_while x b (int i) j = Some (Inr j)"
        using True \<open>0 \<le> j\<close> by (subst borders_while.simps) (simp add: get)
      moreover have "j = int h - 1" using h(1) by simp
      ultimately show ?thesis using h(2) by blast
    next
      case False
      note step = extends_from_next [OF assms(1-3) less.prems [unfolded l] False]
      have "nat (b ! l + 1) < nat (j + 1)" using step(2) l by simp
      from less.hyps [OF this step(1)] show ?thesis
        using False \<open>0 \<le> j\<close> by (subst borders_while.simps) (simp add: get)
    qed
  qed
qed

text \<open>The second table is the first, moved by one: the loops run in step.\<close>

definition next_table :: "int list \<Rightarrow> int list \<Rightarrow> nat \<Rightarrow> bool" where
  "next_table b N i \<longleftrightarrow> (\<forall>k. k < i \<longrightarrow> N ! Suc k = b ! k + 1)"

lemma next_while_follows:
  assumes "border_table x b i" "next_table b N i" and "0 < i" "i < length x" "i \<le> length b" "i < length N"
    and "extends_from x i j" and "borders_while x b (int i) j = Some (Inr r)"
  shows "next_while x N (int i) (j + 1) = Some (Inr (r + 1))"
  using assms(7,8)
proof (induction "nat (j + 1)" arbitrary: j rule: less_induct)
  case less
  show ?case
  proof (cases "0 \<le> j")
    case False
    then show ?thesis using less.prems by (simp add: borders_while.simps next_while.simps)
  next
    case True
    then obtain l where l: "j = int l" by (auto elim: nonneg_int_cases)
    have "border_of (take (i - 1) (tl x)) l"
      using less.prems(1) l by (auto simp: extends_from_def Let_def)
    then have bound: "Suc l < i" using assms(4) by (auto simp: border_of_def)
    have get: "aget x (int i) = Inr (x ! i)" "aget x (j + 1) = Inr (x ! Suc l)" "aget b j = Inr (b ! l)"
      "aget N (j + 1) = Inr (b ! l + 1)"
      using bound assms(2,4,5,6) l by (simp_all add: aget_def nat_add_distrib next_table_def)
    show ?thesis
    proof (cases "x ! i = x ! Suc l")
      case True
      have "r = j"
        using less.prems(2) True \<open>0 \<le> j\<close> by (subst (asm) borders_while.simps) (simp add: get)
      then show ?thesis using True \<open>0 \<le> j\<close> get(1,2) by (subst next_while.simps) simp
    next
      case False
      note step = extends_from_next [OF assms(1,3,4) less.prems(1) [unfolded l] False]
      have "nat (b ! l + 1) < nat (j + 1)" using step(2) l by simp
      moreover have "borders_while x b (int i) (b ! l) = Some (Inr r)"
        using less.prems(2) False \<open>0 \<le> j\<close> by (subst (asm) borders_while.simps) (simp add: get)
      ultimately show ?thesis
        using less.hyps [OF _ step(1)] False \<open>0 \<le> j\<close> by (subst next_while.simps) (simp add: get)
    qed
  qed
qed

lemma table_start:
  assumes tab: "border_table x b i" and "0 < i" "i < length x"
  shows "extends_from x i (b ! (i - 1))"
proof (cases "i = 1")
  case True
  then show ?thesis using tab by (simp add: extends_from_def border_table_def border_of_def)
next
  case False
  with assms(2) have "0 < i - 1 \<and> i - 1 < i" by simp
  with tab obtain l where "b ! (i - 1) = int l" "longest_border (take (i - 1) (tl x)) l"
    unfolding border_table_def by blast
  then show ?thesis by (auto simp: extends_from_def Let_def longest_border_def)
qed

lemma tables_computed:
  assumes "0 < i" "i \<le> Suc m" "m < length x" "m < length b" "Suc m < length N"
    and "border_table x b i" "next_table b N i" "N ! 1 = 0"
  shows "\<exists>b' N'. borders_for x (int m) (int i) b = Inr b' \<and>
    next_for x (int m) (int i) (b ! (i - 1) + 1) N = Inr N' \<and>
    border_table x b' (Suc m) \<and> next_table b' N' (Suc m) \<and> length b' = length b \<and> length N' = length N \<and> N' ! 1 = 0"
  using assms
proof (induction "Suc m - i" arbitrary: i b N)
  case 0
  then have "i = Suc m" by simp
  then show ?case using 0 by (simp add: borders_for.simps [of x] next_for.simps [of x])
next
  case (Suc d)
  then have i: "i \<le> m" by simp
  note from_i = table_start [OF Suc.prems(6,1)]
  obtain l where l: "borders_while x b (int i) (b ! (i - 1)) = Some (Inr (int l - 1))" "longest_border (take i (tl x)) l"
    using borders_while_finds [OF Suc.prems(6,1)] from_i Suc.prems i by auto
  have nw: "next_while x N (int i) (b ! (i - 1) + 1) = Some (Inr (int l))"
    using next_while_follows [OF Suc.prems(6,7,1) _ _ _ _ l(1)] from_i Suc.prems i by simp
  let ?b = "b[i := int l]" and ?N = "N[Suc i := int l + 1]"
  have tab: "border_table x ?b (Suc i)"
    using Suc.prems(1,4,6) i l(2) by (auto simp: border_table_def nth_list_update less_Suc_eq)
  have nxt: "next_table ?b ?N (Suc i)"
    using Suc.prems(4,5,7) i by (auto simp: next_table_def nth_list_update less_Suc_eq)
  have "\<exists>b' N'. borders_for x (int m) (int (Suc i)) ?b = Inr b' \<and>
    next_for x (int m) (int (Suc i)) (?b ! (Suc i - 1) + 1) ?N = Inr N' \<and>
    border_table x b' (Suc m) \<and> next_table b' N' (Suc m) \<and> length b' = length ?b \<and> length N' = length ?N \<and> N' ! 1 = 0"
    by (rule Suc.hyps(1)) (use Suc.prems Suc.hyps(2) i tab nxt in auto)
  moreover have "?b ! i = int l" using Suc.prems(4) i by simp
  moreover have "aget b (int i - 1) = Inr (b ! (i - 1))" "aset b (int i) (int l) = Inr ?b"
    "aset N (int i + 1) (int l + 1) = Inr ?N"
    using Suc.prems(1,4,5) i by (simp_all add: aget_def aset_def nat_diff_distrib nat_add_distrib)
  ultimately show ?case
    using l(1) nw i by (simp add: borders_for.simps [of x "int m" "int i"] next_for.simps [of x "int m" "int i"] add.commute)
qed

lemma tables_exist:
  assumes "0 < m" "m < length x" "m < length border" "Suc m < length MP_next"
  shows "\<exists>b N. compute_borders x border (int m) = Inr b \<and> compute_MP_next x MP_next (int m) = Inr N \<and>
    border_table x b (Suc m) \<and> next_table b N (Suc m) \<and> length N = length MP_next \<and> N ! 1 = 0 \<and> length b = length border"
proof -
  let ?b = "border[0 := - 1]" and ?N = "MP_next[1 := 0]"
  have len: "0 < length border" "1 < length MP_next" using assms by auto
  have "\<exists>b' N'. borders_for x (int m) (int 1) ?b = Inr b' \<and>
    next_for x (int m) (int 1) (?b ! (1 - 1) + 1) ?N = Inr N' \<and>
    border_table x b' (Suc m) \<and> next_table b' N' (Suc m) \<and> length b' = length ?b \<and> length N' = length ?N \<and> N' ! 1 = 0"
    by (rule tables_computed) (use assms len in \<open>auto simp: border_table_def next_table_def\<close>)
  then show ?thesis
    using assms len by (auto simp: compute_borders_def compute_MP_next_def aset_def)
qed

lemma tables_asserted:
  assumes "next_table b N (Suc m)" "m < length b" "m < length N" "0 < i" "i \<le> Suc m"
  shows "assert_tables N b (int m) (int i) = Inr ()"
  using assms(4,5)
proof (induction "Suc m - i" arbitrary: i)
  case 0
  then show ?case by (simp add: assert_tables.simps)
next
  case (Suc d)
  then have i: "i \<le> m" by simp
  have "aget N (int i) = Inr (N ! i)" "aget b (int i - 1) = Inr (b ! (i - 1))"
    using Suc.prems(1) i assms(2,3) by (simp_all add: aget_def nat_diff_distrib)
  moreover have "N ! i = b ! (i - 1) + 1"
    using assms(1) Suc.prems(1) i by (cases i) (simp_all add: next_table_def)
  moreover have "assert_tables N b (int m) (int (Suc i)) = Inr ()"
    by (rule Suc.hyps(1)) (use Suc.hyps(2) i in auto)
  ultimately show ?case using i by (simp add: assert_tables.simps [of N b "int m" "int i"] add.commute)
qed

lemma first_border: "border_table x b (Suc m) \<Longrightarrow> 0 < m \<Longrightarrow> m < length x \<Longrightarrow> b ! 1 = 0"
  by (force simp: border_table_def longest_border_def border_of_def)

section \<open>The search\<close>

text \<open>
  What the search does with the table: when a character does not continue the match, it starts again
  at that character.  \<open>restart x k p cs\<close> gives the positions reported for the text \<open>cs\<close> that starts
  at position \<open>p\<close>, when the last \<open>k\<close> characters before it match.
\<close>

fun restart :: "'a list \<Rightarrow> nat \<Rightarrow> nat \<Rightarrow> 'a list \<Rightarrow> nat list" where
  "restart x k p [] = []"
| "restart x k p (c # cs) =
     (let k' = if x ! k = c then Suc k else if x ! 0 = c then 1 else 0
      in if k' = length x then (Suc p - length x) # restart x 0 (Suc p) cs
         else restart x k' (Suc p) cs)"

lemma border_repeats:
  assumes "border_table x b (Suc m)" "next_table b N (Suc m)" and "1 < i" "i \<le> m" "m < length x"
  shows "\<exists>k. N ! i = int (Suc k) \<and> Suc k < i \<and> (0 < k \<longrightarrow> x ! k = x ! (i - 1))"
proof -
  from assms(3) obtain h where h: "i = Suc (Suc h)" by (metis Suc_pred less_Suc_eq_0_disj not_less_eq less_trans zero_less_one One_nat_def)
  have "0 < Suc h \<and> Suc h < Suc m" using assms(4) h by simp
  with assms(1) obtain k where k: "b ! Suc h = int k" "longest_border (take (Suc h) (tl x)) k"
    unfolding border_table_def by blast
  have border: "border_of (take (Suc h) (tl x)) k" using k(2) by (simp add: longest_border_def)
  have lt: "k < Suc h" using border assms(4,5) h by (simp add: border_of_def)
  have "x ! k = x ! Suc h" if k0: "0 < k"
  proof -
    obtain k' where k': "k = Suc k'" using k0 by (cases k) auto
    have "take (Suc h) (tl x) ! k' = x ! k"
      using tail_nth [of k' "Suc h" x] k' lt assms(4,5) h by simp
    moreover have "last (take (Suc h) (tl x)) = x ! Suc h"
      using tail_snoc [of "Suc h" x] assms(4,5) h by simp
    ultimately show ?thesis using border_of_last [of "take (Suc h) (tl x)" k'] border k' by simp
  qed
  moreover have "N ! i = int (Suc k)" using assms(2,4) k(1) h by (simp add: next_table_def)
  ultimately show ?thesis using lt h by auto
qed

lemma MP_while_restarts:
  assumes tab: "border_table x b (Suc m)" "next_table b N (Suc m)" "N ! 1 = 0"
    and len: "m < length x" "m < length N" "j < length t" and "0 < i" "i \<le> m"
  shows "MP_while x t N (int m) (int i) (int j + 1) = Some (Inr (
     if x ! (i - 1) = t ! j then int i else if x ! 0 = t ! j then 1 else 0))"
  using assms(7,8)
proof (induction i rule: less_induct)
  case (less i)
  have get: "aget x (int i - 1) = Inr (x ! (i - 1))" "aget t (int j) = Inr (t ! j)" "aget N (int i) = Inr (N ! i)"
    using less.prems len by (auto simp: aget_def nat_diff_distrib)
  consider "x ! (i - 1) = t ! j" | "x ! (i - 1) \<noteq> t ! j" "i = 1" | "x ! (i - 1) \<noteq> t ! j" "1 < i"
    using less.prems(1) by linarith
  then show ?case
  proof cases
    case 1
    then show ?thesis using less.prems get by (subst MP_while.simps) simp
  next
    case 2
    then have stop: "MP_while x t N (int m) 0 (int j + 1) = Some (Inr 0)"
      by (subst MP_while.simps) simp
    show ?thesis using 2 less.prems get tab(3) stop by (subst MP_while.simps) simp
  next
    case 3
    obtain k where k: "N ! i = int (Suc k)" "Suc k < i" "0 < k \<longrightarrow> x ! k = x ! (i - 1)"
      using border_repeats [OF tab(1,2) 3(2) less.prems(2) len(1)] by blast
    have again: "MP_while x t N (int m) (int (Suc k)) (int j + 1) = Some (Inr (
        if x ! k = t ! j then int (Suc k) else if x ! 0 = t ! j then 1 else 0))"
      using less.IH [OF k(2)] k(2) less.prems(2) by simp
    have "MP_while x t N (int m) (int i) (int j + 1) = MP_while x t N (int m) (int (Suc k)) (int j + 1)"
      using 3 less.prems get k(1) by (subst MP_while.simps) simp
    then show ?thesis using again 3(1) k(3) by (cases k) auto
  qed
qed

lemma MP_loop_restarts:
  assumes tab: "border_table x b (Suc m)" "next_table b N (Suc m)" "N ! 1 = 0"
    and len: "m < length x" "m < length N" and "0 < m" "k < m" "k \<le> j" "n \<le> length t" "j \<le> n"
  shows "MP_loop x t N (int m) (int n) (int k + 1) (int j + 1) out =
    Inr (let ps = restart (take m x) k j (take (n - j) (drop j t)) in (fst out @ map int ps, snd out + int (length ps)))"
  using assms(7-10)
proof (induction "n - j" arbitrary: k j out)
  case 0
  then show ?case by (simp add: MP_loop.simps)
next
  case (Suc d)
  then have j: "j < n" "j < length t" by simp_all
  have rest: "take (n - j) (drop j t) = t ! j # take (n - Suc j) (drop (Suc j) t)"
    using j by (cases "n - j") (simp_all add: Cons_nth_drop_Suc [symmetric] Suc_diff_Suc [symmetric])
  let ?k = "if x ! k = t ! j then Suc k else if x ! 0 = t ! j then 1 else 0"
  have step: "MP_while x t N (int m) (int k + 1) (int j + 1) = Some (Inr (int ?k))"
    using MP_while_restarts [OF tab len j(2), of "Suc k"] Suc.prems(1) by (simp add: add.commute)
  have fst_x: "take m x ! k = x ! k" "take m x ! 0 = x ! 0" "length (take m x) = m"
    using Suc.prems(1) assms(6) len(1) by simp_all
  let ?rest = "take (n - Suc j) (drop (Suc j) t)"
  have unroll: "restart (take m x) k j (take (n - j) (drop j t)) =
    (if ?k = m then (Suc j - m) # restart (take m x) 0 (Suc j) ?rest else restart (take m x) ?k (Suc j) ?rest)"
    by (simp only: rest restart.simps Let_def fst_x)
  have IH: "MP_loop x t N (int m) (int n) (int k' + 1) (int (Suc j) + 1) out' =
    Inr (let ps = restart (take m x) k' (Suc j) ?rest
         in (fst out' @ map int ps, snd out' + int (length ps)))" if "k' < m" "k' \<le> Suc j" for k' out'
    by (rule Suc.hyps(1)) (use that Suc.prems Suc.hyps(2) in auto)
  show ?case
  proof (cases "?k = m")
    case True
    then have mj: "m \<le> Suc j" using Suc.prems(2) by (auto split: if_splits)
    have "MP_loop x t N (int m) (int n) (int k + 1) (int j + 1) out =
      MP_loop x t N (int m) (int n) (int 0 + 1) (int (Suc j) + 1) (fst out @ [int (Suc j - m)], snd out + 1)"
      using j(1) mj by (subst MP_loop.simps, subst step, subst True) (simp add: Let_def of_nat_diff algebra_simps)
    then show ?thesis
      unfolding unroll using IH [of 0] assms(6) True by (simp only: if_True) (simp add: Let_def)
  next
    case False
    then have "?k < m" "?k \<le> Suc j" using Suc.prems assms(6) by auto
    note IH = IH [OF this]
    have "MP_loop x t N (int m) (int n) (int k + 1) (int j + 1) out =
      MP_loop x t N (int m) (int n) (int ?k + 1) (int (Suc j) + 1) out"
      using j(1) False by (subst MP_loop.simps, subst step) (simp add: Let_def)
    then show ?thesis unfolding unroll IH using False by (simp only: if_False)
  qed
qed

definition occurs_at :: "'a list \<Rightarrow> 'a list \<Rightarrow> nat \<Rightarrow> bool" where
  "occurs_at x t q \<longleftrightarrow> q + length x \<le> length t \<and> take (length x) (drop q t) = x"

lemma occurs_at_nth: "occurs_at x t q \<Longrightarrow> i < length x \<Longrightarrow> t ! (q + i) = x ! i"
  unfolding occurs_at_def by (metis add_leD1 nth_drop nth_take)

definition matched :: "'a list \<Rightarrow> nat \<Rightarrow> 'a list \<Rightarrow> bool" where
  "matched x k t \<longleftrightarrow> k \<le> length x \<and> k \<le> length t \<and> take k x = drop (length t - k) t"

definition restart_next :: "'a list \<Rightarrow> nat \<Rightarrow> 'a \<Rightarrow> nat" where
  "restart_next x k c = (if x ! k = c then Suc k else if x ! 0 = c then 1 else 0)"

lemma restart_Cons:
  "restart x k p (c # cs) =
     (if restart_next x k c = length x then (Suc p - length x) # restart x 0 (Suc p) cs
      else restart x (restart_next x k c) (Suc p) cs)"
  by (simp add: restart_next_def Let_def)

declare restart.simps(2) [simp del]

lemma matched_0 [simp]: "matched x 0 t"
  by (simp add: matched_def)

lemma matched_next:
  assumes "matched x k t" "k < length x"
  shows "matched x (restart_next x k c) (t @ [c])"
proof -
  have t: "k \<le> length t" "take k x = drop (length t - k) t" using assms(1) by (simp_all add: matched_def)
  have "take (Suc k) x = take k x @ [x ! k]" using assms(2) by (simp add: take_Suc_conv_app_nth)
  moreover have "take 1 x = [x ! 0]" using assms(2) by (cases x) auto
  ultimately show ?thesis using t assms(2) by (auto simp: matched_def restart_next_def)
qed

lemma matched_occurs: "matched x (length x) t \<Longrightarrow> occurs_at x (t @ u) (length t - length x)"
  by (auto simp: matched_def occurs_at_def)

lemma matched_nth: "matched x k t \<Longrightarrow> i < k \<Longrightarrow> t ! (length t - k + i) = x ! i"
  unfolding matched_def by (metis diff_le_self nth_drop nth_take)

lemma restart_sound:
  assumes "matched x k t" "k < length x"
  shows "(\<forall>q \<in> set (restart x k (length t) cs). occurs_at x (t @ cs) q \<and> length t - k \<le> q) \<and>
    sorted_wrt (\<lambda>p q. p + length x \<le> q) (restart x k (length t) cs)"
  using assms
proof (induction cs arbitrary: k t)
  case (Cons c cs)
  let ?k = "restart_next x k c"
  have m: "matched x ?k (t @ [c])" by (rule matched_next [OF Cons.prems])
  have k: "Suc (length t) - ?k \<ge> length t - k" by (auto simp: restart_next_def)
  show ?case
  proof (cases "?k = length x")
    case True
    have "occurs_at x (t @ c # cs) (Suc (length t) - length x)"
      using matched_occurs [of x "t @ [c]" cs] m True by simp
    moreover have "length x \<le> Suc (length t)" using m True by (simp add: matched_def)
    moreover have "0 < length x" using Cons.prems(2) by linarith
    then have "(\<forall>q \<in> set (restart x 0 (Suc (length t)) cs). occurs_at x (t @ c # cs) q \<and> Suc (length t) \<le> q) \<and>
      sorted_wrt (\<lambda>p q. p + length x \<le> q) (restart x 0 (Suc (length t)) cs)"
      using Cons.IH [of 0 "t @ [c]"] by simp
    ultimately show ?thesis
      using True k by (auto simp: restart_Cons)
  next
    case False
    then have "?k < length x" using m by (simp add: matched_def)
    from Cons.IH [OF m this] False k show ?thesis by (auto simp: restart_Cons)
  qed
qed simp

lemma restart_complete:
  assumes alone: "\<And>i. 0 < i \<Longrightarrow> i < length x \<Longrightarrow> x ! i \<noteq> x ! 0"
    and "matched x k t" "k < length x" and "occurs_at x (t @ cs) q" "length t - k \<le> q"
  shows "q \<in> set (restart x k (length t) cs)"
  using assms(2-)
proof (induction cs arbitrary: k t)
  case Nil
  then have "length x \<le> k" by (auto simp: occurs_at_def matched_def)
  then show ?case using Nil by simp
next
  case (Cons c cs)
  let ?k = "restart_next x k c"
  have m: "matched x ?k (t @ [c])" by (rule matched_next [OF Cons.prems(1,2)])
  have kt: "k \<le> length t" using Cons.prems(1) by (simp add: matched_def)
  have later: "length t \<le> q" if "length t - k < q"
  proof (rule ccontr)
    assume "\<not> length t \<le> q"
    define i where "i = q - (length t - k)"
    have i: "q = length t - k + i" "0 < i" "i < k"
      using \<open>\<not> length t \<le> q\<close> that kt by (auto simp: i_def)
    have "(t @ c # cs) ! q = x ! i"
      using matched_nth [OF Cons.prems(1) i(3)] i(1) \<open>\<not> length t \<le> q\<close> by (simp add: nth_append)
    moreover have "0 < length x" using Cons.prems(2) by linarith
    ultimately show False
      using occurs_at_nth [OF Cons.prems(3), of 0] alone [OF i(2)] i(3) Cons.prems(2) by simp
  qed
  have here: "x ! (length t - q) = c" if "q \<le> length t" "length t < q + length x"
    using occurs_at_nth [OF Cons.prems(3), of "length t - q"] that by simp
  have IH: "q \<in> set (restart x k' (Suc (length t)) cs)"
    if "matched x k' (t @ [c])" "k' < length x" "Suc (length t) - k' \<le> q" for k'
    using Cons.IH [OF that(1,2)] Cons.prems(3) that(3) by simp
  show ?case
  proof (cases "x ! k = c")
    case True
    then have k: "?k = Suc k" by (simp add: restart_next_def)
    have past: "Suc (length t) \<le> q" if "length t - k < q"
      using later [OF that] here that True alone [of k] Cons.prems(2) by (cases "q = length t") force+
    show ?thesis
    proof (cases "Suc k = length x")
      case True
      then have "restart x k (length t) (c # cs) = (length t - k) # restart x 0 (Suc (length t)) cs"
        using k by (simp add: restart_Cons flip: True)
      moreover have "0 < length x" using Cons.prems(2) by linarith
      ultimately show ?thesis
        using IH [OF matched_0] past Cons.prems(4) by (cases "q = length t - k") auto
    next
      case False
      then show ?thesis using IH [OF m] k Cons.prems(2,4) by (simp add: restart_Cons)
    qed
  next
    case False
    have "q \<noteq> length t - k"
    proof
      assume q: "q = length t - k"
      then have "length t - q = k" "q \<le> length t" "length t < q + length x" using kt Cons.prems(2) by auto
      with here False show False by simp
    qed
    then have "length t - k < q" using Cons.prems(4) by simp
    from later [OF this] have "length t \<le> q" .
    moreover have "0 < k \<or> x ! 0 \<noteq> c" using False by (cases k) auto
    then have "?k \<noteq> length x" using False Cons.prems(2) by (auto simp: restart_next_def)
    moreover have "q \<noteq> length t" if "x ! 0 \<noteq> c"
    proof
      assume "q = length t"
      moreover have "x \<noteq> []" using Cons.prems(2) by auto
      ultimately show False using here that by simp
    qed
    moreover have "?k < length x" using m \<open>?k \<noteq> length x\<close> by (simp add: matched_def)
    ultimately show ?thesis
      using IH [OF m] False by (auto simp: restart_Cons restart_next_def)
  qed
qed

lemma MP_restarts:
  assumes "0 < m" "m < length x" "Suc m < length MP_next" "n \<le> length t"
  shows "\<exists>N. compute_MP_next x MP_next (int m) = Inr N \<and> (\<forall>match_cnt. MP x t N (int m) (int n) match_cnt =
    Inr (let ps = restart (take m x) 0 0 (take n t) in (map int ps, match_cnt + int (length ps))))"
proof -
  obtain b N where N: "compute_MP_next x MP_next (int m) = Inr N" "border_table x b (Suc m)" "next_table b N (Suc m)"
    "length N = length MP_next" "N ! 1 = 0"
    using tables_exist [OF assms(1,2), of "replicate (Suc m) 0" MP_next] assms(3) by auto
  have "m < length N" using N(4) assms(3) by simp
  from MP_loop_restarts [OF N(2,3,5) assms(2) this assms(1), of 0 0 n t] assms(1,4) N(1)
  show ?thesis by (auto simp: MP_def)
qed

section \<open>Properties\<close>

text \<open>
  C35: both tables are computed without an access out of bounds, and \<open>MP_next\<close> is \<open>border\<close> moved by
  one: the assertions of the test hold and it goes on to the search.  \<open>border[i]\<close> is the length of the
  longest border of the \<open>i\<close> characters that follow the first character of the pattern.
\<close>

theorem search_tables:
  assumes "0 < m" "m < length x" "m < length border" "Suc m < length MP_next"
  shows "\<exists>b N. compute_borders x border (int m) = Inr b \<and> compute_MP_next x MP_next (int m) = Inr N \<and>
    search_test x border MP_next t (int m) n match_cnt = MP x t N (int m) n match_cnt \<and>
    N ! 1 = 0 \<and> (\<forall>i. 1 \<le> i \<and> i \<le> Suc m \<longrightarrow> N ! i = b ! (i - 1) + 1) \<and>
    b ! 0 = - 1 \<and> (\<forall>i. 1 \<le> i \<and> i \<le> m \<longrightarrow> (\<exists>l. b ! i = int l \<and> longest_border (take i (tl x)) l))"
proof -
  obtain b N where tab: "compute_borders x border (int m) = Inr b" "compute_MP_next x MP_next (int m) = Inr N"
    "border_table x b (Suc m)" "next_table b N (Suc m)" "N ! 1 = 0" "length N = length MP_next" "length b = length border"
    using tables_exist [OF assms] by blast
  have "N ! i = b ! (i - 1) + 1" if "1 \<le> i" "i \<le> Suc m" for i
    using tab(4) that by (cases i) (simp_all add: next_table_def)
  moreover have "assert_tables N b (int m) 2 = Inr ()"
    using tables_asserted [OF tab(4), of 2] assms tab(6,7) by simp
  moreover have "aget N 1 = Inr 0" "aget b 1 = Inr 0"
    using tab(5-7) assms first_border [OF tab(3) assms(1,2)] by (simp_all add: aget_def)
  ultimately show ?thesis using tab(1,2,3,5) by (auto simp: border_table_def search_test_def)
qed

theorem search_tables_witness:
  "\<exists>b N. compute_borders [97, 98, 97, 0] (replicate 4 0) (int 3) = Inr b \<and>
     compute_MP_next [97, 98, 97, 0] (replicate 5 0) (int 3) = Inr N \<and> N ! 1 = 0 \<and> N ! 4 = b ! 3 + 1 \<and>
     search_test [97, 98, 97, 0] (replicate 4 0) (replicate 5 0) [] (int 3) 0 0 = MP [97, 98, 97, 0] [] N (int 3) 0 0"
  using search_tables [of 3 "[97, 98, 97, 0]" "replicate 4 0" "replicate 5 0" "[]" 0 0] by force

text \<open>
  C31: the search in software returns, every position it reports is an occurrence of the pattern, the
  reported occurrences do not overlap and are counted.  On a character that does not continue a match
  it starts again at that character; so if the first character of the pattern does not occur in
  it again, the positions reported are all occurrences.
\<close>

theorem MP_search:
  assumes "0 < m" "m < length x" "Suc m < length MP_next" "n \<le> length t"
  shows "\<exists>N ps. compute_MP_next x MP_next (int m) = Inr N \<and>
    MP x t N (int m) (int n) match_cnt = Inr (map int ps, match_cnt + int (length ps)) \<and>
    ps = restart (take m x) 0 0 (take n t) \<and>
    (\<forall>q \<in> set ps. occurs_at (take m x) (take n t) q) \<and> sorted_wrt (\<lambda>p q. p + m \<le> q) ps \<and>
    ((\<forall>i. 0 < i \<and> i < m \<longrightarrow> x ! i \<noteq> x ! 0) \<longrightarrow> set ps = {q. occurs_at (take m x) (take n t) q})"
proof -
  let ?x = "take m x" and ?t = "take n t"
  let ?ps = "restart ?x 0 0 ?t"
  have len: "0 < length ?x" "length ?x = m" using assms(1,2) by simp_all
  have sound: "\<forall>q \<in> set ?ps. occurs_at ?x ?t q" "sorted_wrt (\<lambda>p q. p + m \<le> q) ?ps"
    using restart_sound [OF matched_0 len(1), of "[]" ?t] unfolding len(2) by simp_all
  have "q \<in> set ?ps" if "\<forall>i. 0 < i \<and> i < m \<longrightarrow> x ! i \<noteq> x ! 0" "occurs_at ?x ?t q" for q
  proof -
    have "?x ! i \<noteq> ?x ! 0" if "0 < i" "i < length ?x" for i
      using \<open>\<forall>i. 0 < i \<and> i < m \<longrightarrow> x ! i \<noteq> x ! 0\<close> that assms(1) by simp
    from restart_complete [OF this matched_0 len(1), of "[]" ?t q] that(2) show ?thesis by simp
  qed
  with sound(1) have complete: "(\<forall>i. 0 < i \<and> i < m \<longrightarrow> x ! i \<noteq> x ! 0) \<longrightarrow> set ?ps = {q. occurs_at ?x ?t q}" by blast
  obtain N where N: "compute_MP_next x MP_next (int m) = Inr N"
    "MP x t N (int m) (int n) match_cnt = Inr (map int ?ps, match_cnt + int (length ?ps))"
    using MP_restarts [OF assms] unfolding Let_def by blast
  show ?thesis using N sound complete by (intro exI [of _ N] exI [of _ ?ps] conjI refl)
qed

theorem MP_search_witness:
  "\<exists>N ps. compute_MP_next [97, 98, 0] (replicate 4 0) (int 2) = Inr N \<and>
     MP [97, 98, 0] [97, 97, 98, 97, 98] N (int 2) (int 5) 0 = Inr (map int ps, int (length ps)) \<and> ps = [1, 3] \<and>
     set ps = {q. occurs_at [97, 98] [97, 97, 98, 97, 98 :: u8] q}"
proof -
  have "\<forall>i. 0 < i \<and> i < (2 :: nat) \<longrightarrow> [97, 98, 0 :: u8] ! i \<noteq> [97, 98, 0] ! 0"
    by (auto simp: less_2_cases_iff)
  moreover have "restart [97, 98] 0 0 [97, 97, 98, 97, 98 :: u8] = [1, 3]"
    by (simp add: restart_Cons restart_next_def)
  ultimately show ?thesis
    using MP_search [of 2 "[97, 98, 0]" "replicate 4 0" 5 "[97, 97, 98, 97, 98]" 0] by force
qed


end
