(* ===== verification/Strstr_Engine.thy ===== *)
theory Strstr_Engine
  imports String_Search
begin

text \<open>
  The string search in hardware: the engine \<open>lib/strstr/bsv/MPEngine.bsv\<close> and the module
  \<open>lib/strstr/bsv/Strstr.bsv\<close> that splits a haystack over several engines, with the class that
  receives the results, \<open>lib/strstr/cpp/strstr.h\<close>.  A rule of the engine is a function that gives the
  next state, or \<open>None\<close> when its guard or the guard of a method it uses does not hold (the sources are
  compiled with conditions of their own for every branch).  A transfer between memory and the
  memories of the engine is one step; results leave the engine as soon as they are there, and
  \<open>locf\<close> keeps all of them.  \<open>chars\<close> and \<open>ints\<close> are the contents of the buffers by their reference.
\<close>

section \<open>The engine\<close>

datatype mp_stage = Config_needle | Config_mpNext | Initialized | Search

record mp_engine =
  stage :: mp_stage
  needle :: "10 word \<Rightarrow> u8"
  mpNext :: "10 word \<Rightarrow> u32"
  needleLenReg :: u32
  haystackLenReg :: u32
  haystackBase :: u32
  jReg :: u32
  iReg :: u32
  epochReg :: "2 word"
  efifo :: "(2 word \<times> u32) list"
  ssfifo :: "(u32 \<times> u32 \<times> u32) list"
  haystack :: "u8 list"
  incoming :: "u8 list list"
  conff :: bool
  locf :: "u32 list"

definition nc :: nat where "nc = 8"

definition load_bram :: "(10 word \<Rightarrow> 'a) \<Rightarrow> 'a list \<Rightarrow> 10 word \<Rightarrow> 10 word \<Rightarrow> 'a" where
  "load_bram old xs finish_idx a = (if a \<le> finish_idx \<and> unat a < length xs then xs ! unat a else old a)"

definition setup_needle :: "(u32 \<Rightarrow> u8 list) \<Rightarrow> mp_engine \<Rightarrow> mp_engine option" where
  "setup_needle chars e =
     (case ssfifo e of (needle_sglId, mpNext_sglId, needle_len) # _ \<Rightarrow>
        if stage e = Config_needle \<and> \<not> conff e then
          Some (e\<lparr>needleLenReg := needle_len, stage := Config_mpNext,
                  needle := load_bram (needle e) (chars needle_sglId) (ucast needle_len)\<rparr>)
        else None
      | [] \<Rightarrow> None)"

definition setup_mpNext :: "(u32 \<Rightarrow> u32 list) \<Rightarrow> mp_engine \<Rightarrow> mp_engine option" where
  "setup_mpNext ints e =
     (case ssfifo e of (needle_sglId, mpNext_sglId, needle_len) # rest \<Rightarrow>
        if stage e = Config_mpNext \<and> \<not> conff e then
          Some (e\<lparr>needleLenReg := needle_len, stage := Initialized, ssfifo := rest,
                  mpNext := load_bram (mpNext e) (ints mpNext_sglId) (ucast needle_len)\<rparr>)
        else None
      | [] \<Rightarrow> None)"

fun bus_words :: "u8 list \<Rightarrow> nat \<Rightarrow> u8 list list" where
  "bus_words bs 0 = []"
| "bus_words bs (Suc k) = take nc bs # bus_words (drop nc bs) k"

definition start_search :: "(u32 \<Rightarrow> u8 list) \<Rightarrow> mp_engine \<Rightarrow> mp_engine option" where
  "start_search chars e =
     (case ssfifo e of (haystack_sglId, haystack_len, haystack_base) # rest \<Rightarrow>
        if stage e = Initialized \<and> efifo e = [] \<and> haystack e = [] \<and> \<not> conff e then
          Some (e\<lparr>stage := Search, conff := True, ssfifo := rest, haystackLenReg := haystack_len,
                  haystackBase := haystack_base, iReg := 1, jReg := 1, epochReg := 0,
                  incoming := bus_words (drop (unat haystack_base) (chars haystack_sglId))
                                (unat (haystack_len + of_nat (nc - 1)) div nc)\<rparr>)
        else None
      | [] \<Rightarrow> None)"

definition haystackResp :: "mp_engine \<Rightarrow> mp_engine option" where
  "haystackResp e = (case incoming e of rv # rest \<Rightarrow> Some (e\<lparr>incoming := rest, haystack := haystack e @ rv\<rparr>) | [] \<Rightarrow> None)"

definition haystackDrain :: "mp_engine \<Rightarrow> mp_engine option" where
  "haystackDrain e = (if stage e \<noteq> Search \<and> haystack e \<noteq> [] then Some (e\<lparr>haystack := tl (haystack e)\<rparr>) else None)"

definition bramDrain :: "mp_engine \<Rightarrow> mp_engine option" where
  "bramDrain e = (if stage e \<noteq> Search \<and> efifo e \<noteq> [] then Some (e\<lparr>efifo := tl (efifo e)\<rparr>) else None)"

definition finish_search :: "mp_engine \<Rightarrow> mp_engine option" where
  "finish_search e = (if conff e \<and> incoming e = [] then Some (e\<lparr>conff := False\<rparr>) else None)"

definition matchNeedleReq :: "mp_engine \<Rightarrow> mp_engine option" where
  "matchNeedleReq e =
     (if stage e = Search \<and> length (efifo e) < 2
      then Some (e\<lparr>efifo := efifo e @ [(epochReg e, iReg e)], iReg := 1\<rparr>) else None)"

definition matchNeedleResp :: "mp_engine \<Rightarrow> mp_engine option" where
  "matchNeedleResp e =
     (case efifo e of (epoch, i) # rest \<Rightarrow>
        if stage e \<noteq> Search then None
        else let e' = e\<lparr>efifo := rest\<rparr>; n = haystackLenReg e; m = needleLenReg e; j = jReg e;
                 nv = needle e (ucast (i - 1)); mp = mpNext e (ucast i) in
          if epoch = epochReg e then
            if n < j then Some (e'\<lparr>stage := Config_needle, locf := locf e @ [- 1]\<rparr>)
            else if i = m + 1 then Some (e'\<lparr>locf := locf e @ [haystackBase e + j - i]\<rparr>)
            else (case haystack e of hv # hs \<Rightarrow>
                if nv \<noteq> hv then
                  if mp = 0 then Some (e'\<lparr>iReg := 1, jReg := j + 1, haystack := hs\<rparr>)
                  else Some (e'\<lparr>epochReg := epochReg e + 1, iReg := mp\<rparr>)
                else Some (e'\<lparr>haystack := hs, jReg := j + 1, epochReg := epochReg e + 1, iReg := i + 1\<rparr>)
              | [] \<Rightarrow> None)
          else Some e'
      | [] \<Rightarrow> None)"

definition mp_rules :: "(u32 \<Rightarrow> u8 list) \<Rightarrow> (u32 \<Rightarrow> u32 list) \<Rightarrow> (mp_engine \<Rightarrow> mp_engine option) list" where
  "mp_rules chars ints =
     [haystackResp, haystackDrain, bramDrain, matchNeedleReq, matchNeedleResp, finish_search,
      setup_needle chars, setup_mpNext ints, start_search chars]"

definition mp_step :: "(u32 \<Rightarrow> u8 list) \<Rightarrow> (u32 \<Rightarrow> u32 list) \<Rightarrow> mp_engine \<Rightarrow> mp_engine \<Rightarrow> bool" where
  "mp_step chars ints e e' \<longleftrightarrow> (\<exists>r \<in> set (mp_rules chars ints). r e = Some e')"

section \<open>What is left to report\<close>

text \<open>
  The table sends the search back to a place where the same character is expected, or to the start.
  \<open>rem_from x t i j\<close> are the positions still to be reported when the search is at \<open>i\<close> in the pattern
  and \<open>j\<close> in the text, both counted from 1.  A match that ends with the text is not reported.
\<close>

definition good_table :: "u8 list \<Rightarrow> (nat \<Rightarrow> nat) \<Rightarrow> bool" where
  "good_table x nx \<longleftrightarrow> nx 1 = 0 \<and> (\<forall>i. 1 < i \<and> i \<le> length x \<longrightarrow>
     (\<exists>k. nx i = Suc k \<and> Suc k < i \<and> (0 < k \<longrightarrow> x ! k = x ! (i - 1))))"

definition before_end :: "'a list \<Rightarrow> 'a list \<Rightarrow> nat \<Rightarrow> bool" where
  "before_end x t q \<longleftrightarrow> q + length x < length t"

definition rem_from :: "'a list \<Rightarrow> 'a list \<Rightarrow> nat \<Rightarrow> nat \<Rightarrow> nat list" where
  "rem_from x t i j =
     (if length t < j then []
      else if i = Suc (length x) then (j - i) # filter (before_end x t) (restart x 0 (j - 1) (drop (j - 1) t))
      else filter (before_end x t) (restart x (i - 1) (j - 1) (drop (j - 1) t)))"

lemma rem_from_report:
  "j \<le> length t \<Longrightarrow> x \<noteq> [] \<Longrightarrow> rem_from x t (Suc (length x)) j = (j - Suc (length x)) # rem_from x t 1 j"
  by (simp add: rem_from_def)

lemma drop_text: "0 < j \<Longrightarrow> j \<le> length t \<Longrightarrow> drop (j - 1) t = t ! (j - 1) # drop j t"
  by (metis Cons_nth_drop_Suc One_nat_def Suc_le_lessD Suc_pred)

lemma rem_from_match:
  assumes "0 < i" "i \<le> length x" "i \<le> j" "j \<le> length t" and eq: "x ! (i - 1) = t ! (j - 1)"
  shows "rem_from x t i j = rem_from x t (Suc i) (Suc j)"
proof -
  have d: "drop (j - 1) t = t ! (j - 1) # drop j t" by (rule drop_text) (use assms in auto)
  have n: "restart_next x (i - 1) (t ! (j - 1)) = i" using eq assms(1) by (simp add: restart_next_def)
  have suc: "Suc (j - 1) = j" using assms by simp
  show ?thesis
  proof (cases "i = length x")
    case True
    then have "before_end x t (j - length x) \<longleftrightarrow> j < length t" using assms(3) by (simp add: before_end_def)
    moreover have "restart x (i - 1) (j - 1) (drop (j - 1) t) = (j - length x) # restart x 0 j (drop j t)"
      unfolding d restart_Cons n suc using True by simp
    ultimately show ?thesis using assms True by (auto simp: rem_from_def)
  next
    case False
    then have "restart x (i - 1) (j - 1) (drop (j - 1) t) = restart x i j (drop j t)"
      unfolding d restart_Cons n suc by simp
    then show ?thesis using assms False by (auto simp: rem_from_def)
  qed
qed

lemma rem_from_mismatch:
  assumes "good_table x nx" "0 < i" "i \<le> length x" "i \<le> j" "j \<le> length t" and ne: "x ! (i - 1) \<noteq> t ! (j - 1)"
  shows "rem_from x t i j = (if nx i = 0 then rem_from x t 1 (Suc j) else rem_from x t (nx i) j)"
    and "nx i < i"
proof -
  have d: "drop (j - 1) t = t ! (j - 1) # drop j t" by (rule drop_text) (use assms in auto)
  have suc: "Suc (j - 1) = j" using assms by simp
  have "rem_from x t i j = (if nx i = 0 then rem_from x t 1 (Suc j) else rem_from x t (nx i) j) \<and> nx i < i"
  proof (cases "i = 1")
    case True
    then have "nx i = 0" "restart_next x (i - 1) (t ! (j - 1)) = 0"
      using assms(1) ne by (simp_all add: good_table_def restart_next_def)
    moreover from this have "restart x (i - 1) (j - 1) (drop (j - 1) t) = restart x 0 j (drop j t)"
      unfolding d restart_Cons suc using assms(2,3) by auto
    ultimately show ?thesis using assms True by (auto simp: rem_from_def)
  next
    case False
    with assms obtain k where k: "nx i = Suc k" "Suc k < i" "0 < k \<longrightarrow> x ! k = x ! (i - 1)"
      unfolding good_table_def by (metis One_nat_def Suc_lessI)
    then have "restart_next x k (t ! (j - 1)) = restart_next x (i - 1) (t ! (j - 1))"
      using ne by (cases k) (auto simp: restart_next_def)
    then have "restart x (i - 1) (j - 1) (drop (j - 1) t) = restart x k (j - 1) (drop (j - 1) t)"
      unfolding d restart_Cons by simp
    then show ?thesis using assms k by (auto simp: rem_from_def)
  qed
  then show "rem_from x t i j = (if nx i = 0 then rem_from x t 1 (Suc j) else rem_from x t (nx i) j)"
    and "nx i < i" by simp_all
qed

section \<open>The pipeline\<close>

text \<open>
  While an answer is awaited the next place has already been asked for, as if the search would start
  again.  A request made for nothing has the previous epoch and is discarded.
\<close>

definition pending :: "2 word \<Rightarrow> u32 \<Rightarrow> (2 word \<times> u32) list \<Rightarrow> nat \<Rightarrow> bool" where
  "pending ep ir fifo i \<longleftrightarrow>
     (fifo = [] \<and> ir = of_nat i) \<or> (\<exists>s. fifo = [(ep - 1, s)] \<and> ir = of_nat i) \<or>
     (\<exists>s. fifo = [(ep - 1, s), (ep, of_nat i)] \<and> ir = 1) \<or>
     (fifo = [(ep, of_nat i)] \<and> ir = 1) \<or> (fifo = [(ep, of_nat i), (ep, 1)] \<and> ir = 1)"

lemma epoch_changes [simp]: "(ep :: 2 word) - 1 \<noteq> ep" "ep \<noteq> ep - 1"
  by (simp_all add: eq_diff_eq diff_eq_eq)

lemma pending_req: "pending ep ir fifo i \<Longrightarrow> length fifo < 2 \<Longrightarrow> pending ep 1 (fifo @ [(ep, ir)]) i"
  by (auto simp: pending_def)

lemma pending_stale: "pending ep ir ((ep', s) # rest) i \<Longrightarrow> ep' \<noteq> ep \<Longrightarrow> pending ep ir rest i"
  by (auto simp: pending_def)

lemma pending_cur:
  "pending ep ir ((ep, iw) # rest) i \<Longrightarrow> iw = of_nat i \<and> ir = 1 \<and> (rest = [] \<or> rest = [(ep, 1)])"
  by (auto simp: pending_def)

lemma pending_bump: "rest = [] \<or> rest = [(ep, 1)] \<Longrightarrow> pending (ep + 1) (of_nat i) rest i"
  by (auto simp: pending_def)

lemma pending_same: "rest = [] \<or> rest = [(ep, 1)] \<Longrightarrow> pending ep 1 rest 1"
  by (auto simp: pending_def)

definition reports :: "nat \<Rightarrow> nat list \<Rightarrow> u32 list" where
  "reports base qs = map (\<lambda>q. of_nat (base + q)) qs"

definition search_inv ::
  "u8 list \<Rightarrow> u8 list \<Rightarrow> (nat \<Rightarrow> nat) \<Rightarrow> nat \<Rightarrow> u32 list \<Rightarrow> nat \<Rightarrow> nat \<Rightarrow> mp_engine \<Rightarrow> bool" where
  "search_inv x t nx base out i j e \<longleftrightarrow>
     stage e = Search \<and> ssfifo e = [] \<and> needleLenReg e = of_nat (length x) \<and>
     haystackLenReg e = of_nat (length t) \<and> haystackBase e = of_nat base \<and>
     (\<forall>k < length x. needle e (of_nat k) = x ! k) \<and>
     (\<forall>k. 0 < k \<and> k \<le> length x \<longrightarrow> mpNext e (of_nat k) = of_nat (nx k)) \<and>
     pending (epochReg e) (iReg e) (efifo e) i \<and> jReg e = of_nat j \<and>
     0 < i \<and> i \<le> Suc (length x) \<and> i \<le> j \<and> j \<le> Suc (length t) \<and>
     take (Suc (length t) - j) (haystack e @ concat (incoming e)) = drop (j - 1) t \<and>
     out = locf e @ reports base (rem_from x t i j) @ [- 1]"

definition sized :: "u8 list \<Rightarrow> u8 list \<Rightarrow> bool" where
  "sized x t \<longleftrightarrow> x \<noteq> [] \<and> length x < 1023 \<and> length t < 2 ^ 31"

lemma of_nat_u32_eq: "a < 2 ^ 32 \<Longrightarrow> b < 2 ^ 32 \<Longrightarrow> (of_nat a :: u32) = of_nat b \<longleftrightarrow> a = b"
  by (simp add: word_unat_eq_iff unat_of_nat_small)

lemma of_nat_u32_less: "a < 2 ^ 32 \<Longrightarrow> b < 2 ^ 32 \<Longrightarrow> (of_nat a :: u32) < of_nat b \<longleftrightarrow> a < b"
  by (simp add: word_less_nat_alt unat_of_nat_small)

lemma bram_index: "ucast (of_nat k :: u32) = (of_nat k :: 10 word)"
  by (simp add: word_unat_eq_iff unat_ucast_mod unat_of_nat mod_mod_cancel)

lemma bram_index_pred: "0 < k \<Longrightarrow> ucast (of_nat k - 1 :: u32) = (of_nat (k - 1) :: 10 word)"
  using bram_index [of "k - 1"] by (simp add: of_nat_diff)

lemma next_char:
  assumes "take (Suc (length t) - j) hs = drop (j - 1) t" "0 < j" "j \<le> length t"
  shows "hs \<noteq> []" "hd hs = t ! (j - 1)" "take (Suc (length t) - Suc j) (tl hs) = drop (Suc j - 1) t"
proof -
  have d: "drop (j - 1) t = t ! (j - 1) # drop j t" using assms(2,3) by (rule drop_text)
  obtain d where j: "Suc (length t) - j = Suc d" "length t - j = d" using assms(3) by (metis Suc_diff_le)
  show "hs \<noteq> []" "hd hs = t ! (j - 1)" "take (Suc (length t) - Suc j) (tl hs) = drop (Suc j - 1) t"
    using assms(1) j unfolding d by (cases hs; simp)+
qed

text \<open>How far the search is from its end.\<close>

definition place :: "'a list \<Rightarrow> 'a list \<Rightarrow> nat \<Rightarrow> nat \<Rightarrow> nat" where
  "place x t i j = (length t + 1 - j) * (length x + 2) + i"

lemma place_match: "j \<le> length t \<Longrightarrow> place x t (Suc i) (Suc j) < place x t i j"
  by (simp add: place_def Suc_diff_le)

lemma place_skip: "j \<le> length t \<Longrightarrow> place x t 1 (Suc j) < place x t i j"
  by (simp add: place_def Suc_diff_le)

lemma place_back: "i' < i \<Longrightarrow> place x t i' j < place x t i j"
  by (simp add: place_def)

text \<open>Answers move the search on, and nothing else does.\<close>

lemma resp_current:
  assumes "stage e = Search" "efifo e = (epochReg e, i) # rest"
  shows "matchNeedleResp e =
    (if haystackLenReg e < jReg e then Some (e\<lparr>efifo := rest, stage := Config_needle, locf := locf e @ [- 1]\<rparr>)
     else if i = needleLenReg e + 1 then Some (e\<lparr>efifo := rest, locf := locf e @ [haystackBase e + jReg e - i]\<rparr>)
     else (case haystack e of hv # hs \<Rightarrow>
         if needle e (ucast (i - 1)) \<noteq> hv then
           if mpNext e (ucast i) = 0 then Some (e\<lparr>efifo := rest, iReg := 1, jReg := jReg e + 1, haystack := hs\<rparr>)
           else Some (e\<lparr>efifo := rest, epochReg := epochReg e + 1, iReg := mpNext e (ucast i)\<rparr>)
         else Some (e\<lparr>efifo := rest, haystack := hs, jReg := jReg e + 1, epochReg := epochReg e + 1, iReg := i + 1\<rparr>)
       | [] \<Rightarrow> None))"
  using assms by (simp add: matchNeedleResp_def Let_def)

lemma search_inv_resp:
  assumes inv: "search_inv x t nx base out i j e" and tab: "good_table x nx" and sz: "sized x t"
    and fifo: "efifo e = (epochReg e, iw) # rest" and step: "matchNeedleResp e = Some e'"
  shows "(stage e' = Config_needle \<and> locf e' = out \<and> ssfifo e' = []) \<or>
    (\<exists>i' j'. search_inv x t nx base out i' j' e' \<and> incoming e' = incoming e \<and>
      place x t i' j' < place x t i j)"
proof -
  note inv = inv [unfolded search_inv_def]
  have x: "x \<noteq> []" "Suc (length x) < 1024" "length t + 1 < 2 ^ 32" using sz by (auto simp: sized_def)
  have cur: "iw = of_nat i" "iReg e = 1" "rest = [] \<or> rest = [(epochReg e, 1)]"
    using pending_cur [of "epochReg e" "iReg e" iw rest i] inv fifo by auto
  note bump = pending_bump [OF cur(3)] and same = pending_same [OF cur(3)]
  have over: "haystackLenReg e < jReg e \<longleftrightarrow> length t < j"
    using inv x by (simp add: of_nat_u32_less)
  have full: "iw = needleLenReg e + 1 \<longleftrightarrow> i = Suc (length x)"
    using inv x of_nat_u32_eq [of i "Suc (length x)"] cur(1) by (simp add: add.commute)
  have searching: "stage e = Search" using inv by simp
  note step = step [unfolded resp_current [OF searching fifo] over full]
  show ?thesis
  proof (cases "length t < j")
    case True
    then have "rem_from x t i j = []" by (simp add: rem_from_def)
    with True inv step show ?thesis by (auto simp: reports_def)
  next
    case False
    then have j: "j \<le> length t" by simp
    show ?thesis
    proof (cases "i = Suc (length x)")
      case True
      then have e': "e' = e\<lparr>efifo := rest, locf := locf e @ [haystackBase e + jReg e - iw]\<rparr>"
        using step False by simp
      have "i \<le> j" using inv by simp
      then have "haystackBase e + jReg e - iw = of_nat (base + (j - i))"
        using inv cur(1) by (simp add: of_nat_diff algebra_simps)
      then have "search_inv x t nx base out 1 j e'"
        using inv j rem_from_report [OF j x(1)] same cur(2) True
        by (simp add: e' search_inv_def reports_def)
      moreover have "incoming e' = incoming e" by (simp add: e')
      moreover have "place x t 1 j < place x t i j" by (rule place_back) (use True x(1) in simp)
      ultimately show ?thesis by blast
    next
      case small: False
      then have i: "0 < i" "i \<le> length x" "i \<le> j" "0 < j" using inv by auto
      obtain hv hs where hs: "haystack e = hv # hs"
        using step small j by (auto split: list.splits)
      note char = next_char [of t j "haystack e @ concat (incoming e)", OF _ i(4) j]
      have hv: "hv = t ! (j - 1)" "take (Suc (length t) - Suc j) (hs @ concat (incoming e)) = drop (Suc j - 1) t"
        using inv char hs by auto
      have look: "needle e (ucast (iw - 1)) = x ! (i - 1)" "mpNext e (ucast iw) = of_nat (nx i)"
        using inv i cur(1) by (simp_all add: bram_index bram_index_pred del: of_nat_diff)
      show ?thesis
      proof (cases "x ! (i - 1) = hv")
        case True
        then have e': "e' = e\<lparr>efifo := rest, haystack := hs, jReg := jReg e + 1, epochReg := epochReg e + 1, iReg := iw + 1\<rparr>"
          using step small j look hs by simp
        have "search_inv x t nx base out (Suc i) (Suc j) e'"
          using inv i j hv(2) bump [of "Suc i"] cur(1) rem_from_match [OF i(1-3) j] True hv(1)
          by (simp add: e' search_inv_def add.commute)
        moreover have "incoming e' = incoming e" by (simp add: e')
        ultimately show ?thesis using place_match [OF j] by blast
      next
        case False
        then have ne: "x ! (i - 1) \<noteq> hv" "x ! (i - 1) \<noteq> t ! (j - 1)" by (simp_all add: hv(1))
        note fall = rem_from_mismatch [OF tab i(1-3) j ne(2)]
        have zero: "(of_nat (nx i) :: u32) = 0 \<longleftrightarrow> nx i = 0"
          using of_nat_u32_eq [of "nx i" 0] fall(2) i(2) x(2) by simp
        show ?thesis
        proof (cases "nx i = 0")
          case True
          then have e': "e' = e\<lparr>efifo := rest, iReg := 1, jReg := jReg e + 1, haystack := hs\<rparr>"
            using step small j look hs ne(1) by simp
          have "search_inv x t nx base out 1 (Suc j) e'"
            using inv i j hv(2) same fall(1) True by (simp add: e' search_inv_def add.commute)
          moreover have "incoming e' = incoming e" by (simp add: e')
          ultimately show ?thesis using place_skip [OF j] by blast
        next
          case nz: False
          then have e': "e' = e\<lparr>efifo := rest, epochReg := epochReg e + 1, iReg := of_nat (nx i)\<rparr>"
            using step small j look hs ne(1) zero by simp
          have "search_inv x t nx base out (nx i) j e'"
            using inv i j bump fall nz by (simp add: e' search_inv_def)
          moreover have "incoming e' = incoming e" by (simp add: e')
          ultimately show ?thesis using place_back [OF fall(2)] by blast
        qed
      qed
    qed
  qed
qed

section \<open>Progress\<close>

definition cur_place :: "mp_engine \<Rightarrow> u32" where
  "cur_place e = (case filter (\<lambda>r. fst r = epochReg e) (efifo e) of [] \<Rightarrow> iReg e | r # _ \<Rightarrow> snd r)"

definition stale :: "mp_engine \<Rightarrow> nat" where
  "stale e = length (filter (\<lambda>r. fst r \<noteq> epochReg e) (efifo e))"

definition search_left :: "u8 list \<Rightarrow> u8 list \<Rightarrow> mp_engine \<Rightarrow> nat" where
  "search_left x t e = 5 * place x t (unat (cur_place e)) (unat (jReg e)) + 3 * stale e + (2 - length (efifo e)) +
     length (incoming e) + (if conff e then 1 else 0)"

lemma pending_cur_place: "pending (epochReg e) (iReg e) (efifo e) i \<Longrightarrow> cur_place e = of_nat i"
  by (auto simp: pending_def cur_place_def)

lemma pending_stale_count: "pending (epochReg e) (iReg e) (efifo e) i \<Longrightarrow> stale e \<le> 1 \<and> length (efifo e) \<le> 2"
  by (auto simp: pending_def stale_def)

lemma search_left_eq:
  assumes "search_inv x t nx base out i j e" "sized x t"
  shows "search_left x t e = 5 * place x t i j + 3 * stale e + (2 - length (efifo e)) + length (incoming e) + (if conff e then 1 else 0)"
proof -
  have "cur_place e = of_nat i" "jReg e = of_nat j" "i < 2 ^ 32" "j < 2 ^ 32"
    using assms by (auto simp: search_inv_def sized_def pending_cur_place)
  then show ?thesis by (simp add: search_left_def unat_of_nat_small)
qed

definition finished :: "u32 list \<Rightarrow> mp_engine \<Rightarrow> bool" where
  "finished out e \<longleftrightarrow> stage e = Config_needle \<and> ssfifo e = [] \<and> locf e = out"

lemma search_inv_quiet:
  assumes "search_inv x t nx base out i j e" "sized x t"
  shows "haystackResp e = Some e' \<Longrightarrow> search_inv x t nx base out i j e' \<and> search_left x t e' < search_left x t e"
    and "finish_search e = Some e' \<Longrightarrow> search_inv x t nx base out i j e' \<and> search_left x t e' < search_left x t e"
    and "matchNeedleReq e = Some e' \<Longrightarrow> search_inv x t nx base out i j e' \<and> search_left x t e' < search_left x t e"
proof -
  note inv = assms(1)
  show "search_inv x t nx base out i j e' \<and> search_left x t e' < search_left x t e" if st: "haystackResp e = Some e'"
  proof -
    obtain rv rest where r: "incoming e = rv # rest" "e' = e\<lparr>incoming := rest, haystack := haystack e @ rv\<rparr>"
      using st by (auto simp: haystackResp_def split: list.splits)
    then have "search_inv x t nx base out i j e'" using inv by (simp add: search_inv_def)
    with inv r show ?thesis by (simp add: search_left_eq [OF _ assms(2)] stale_def)
  qed
  show "search_inv x t nx base out i j e' \<and> search_left x t e' < search_left x t e" if st: "finish_search e = Some e'"
  proof -
    have r: "conff e" "e' = e\<lparr>conff := False\<rparr>" using st by (auto simp: finish_search_def split: if_splits)
    then have "search_inv x t nx base out i j e'" using inv by (simp add: search_inv_def)
    with inv r show ?thesis by (simp add: search_left_eq [OF _ assms(2)] stale_def)
  qed
  show "search_inv x t nx base out i j e' \<and> search_left x t e' < search_left x t e" if st: "matchNeedleReq e = Some e'"
  proof -
    have r: "length (efifo e) < 2" "e' = e\<lparr>efifo := efifo e @ [(epochReg e, iReg e)], iReg := 1\<rparr>"
      using st by (auto simp: matchNeedleReq_def split: if_splits)
    then have "search_inv x t nx base out i j e'" using inv by (simp add: search_inv_def pending_req)
    with inv r show ?thesis by (simp add: search_left_eq [OF _ assms(2)] stale_def)
  qed
qed

lemma search_inv_answer:
  assumes inv: "search_inv x t nx base out i j e" and tab: "good_table x nx" and sz: "sized x t"
    and step: "matchNeedleResp e = Some e'"
  shows "finished out e' \<or> (\<exists>i j. search_inv x t nx base out i j e' \<and> search_left x t e' < search_left x t e)"
proof -
  have pend: "pending (epochReg e) (iReg e) (efifo e) i" "stage e = Search" using inv by (simp_all add: search_inv_def)
  obtain ep iw rest where fifo: "efifo e = (ep, iw) # rest"
    using step by (auto simp: matchNeedleResp_def split: list.splits)
  show ?thesis
  proof (cases "ep = epochReg e")
    case False
    then have e': "e' = e\<lparr>efifo := rest\<rparr>" using step fifo pend(2) by (simp add: matchNeedleResp_def Let_def)
    then have inv': "search_inv x t nx base out i j e'"
      using inv pending_stale False fifo by (auto simp: search_inv_def)
    have "stale e = Suc (stale e')" using False fifo by (simp add: e' stale_def)
    moreover have "length (efifo e') = length rest" "incoming e' = incoming e" "conff e' = conff e"
      by (simp_all add: e')
    ultimately have "search_left x t e' < search_left x t e"
      using fifo unfolding search_left_eq [OF inv sz] search_left_eq [OF inv' sz] by simp
    with inv' show ?thesis by blast
  next
    case True
    with fifo have fifo: "efifo e = (epochReg e, iw) # rest" by simp
    from search_inv_resp [OF inv tab sz fifo step] consider "finished out e'"
      | i' j' where "search_inv x t nx base out i' j' e'" "incoming e' = incoming e" "place x t i' j' < place x t i j"
      by (auto simp: finished_def)
    then show ?thesis
    proof cases
      case 2
      have "conff e' = conff e" "length (efifo e') = length rest"
        using step pend(2) unfolding resp_current [OF pend(2) fifo] by (auto split: if_splits list.splits)
      moreover have "stale e' \<le> 1" using pending_stale_count [of e' i'] 2(1) by (simp add: search_inv_def)
      ultimately have "search_left x t e' < search_left x t e"
        using 2(2,3) fifo unfolding search_left_eq [OF inv sz] search_left_eq [OF 2(1) sz] by simp
      with 2(1) show ?thesis by blast
    qed simp
  qed
qed

section \<open>The life of a search\<close>

definition quiet :: "mp_engine \<Rightarrow> bool" where
  "quiet e \<longleftrightarrow> efifo e = [] \<and> haystack e = [] \<and> incoming e = [] \<and> \<not> conff e"

definition needle_loaded :: "u8 list \<Rightarrow> mp_engine \<Rightarrow> bool" where
  "needle_loaded x e \<longleftrightarrow> (\<forall>k < length x. needle e (of_nat k) = x ! k)"

definition next_loaded :: "u8 list \<Rightarrow> (nat \<Rightarrow> nat) \<Rightarrow> mp_engine \<Rightarrow> bool" where
  "next_loaded x nx e \<longleftrightarrow> (\<forall>k. 0 < k \<and> k \<le> length x \<longrightarrow> mpNext e (of_nat k) = of_nat (nx k))"

text \<open>
  \<open>buffers\<close>: the buffers hold the pattern, the table and the text; the part of the haystack the engine
  is given is \<open>t\<close>, and the words it is read in are inside the buffer.
\<close>

definition buffers ::
  "(u32 \<Rightarrow> u8 list) \<Rightarrow> (u32 \<Rightarrow> u32 list) \<Rightarrow> u32 \<times> u32 \<times> u32 \<Rightarrow> u8 list \<Rightarrow> u8 list \<Rightarrow> (nat \<Rightarrow> nat) \<Rightarrow> nat \<Rightarrow> bool" where
  "buffers chars ints refs x t nx base \<longleftrightarrow> (case refs of (nid, mid, hid) \<Rightarrow>
     (\<exists>more. chars nid = x @ more) \<and>
     length x < length (ints mid) \<and> (\<forall>k. 0 < k \<and> k \<le> length x \<longrightarrow> ints mid ! k = of_nat (nx k)) \<and>
     take (length t) (drop base (chars hid)) = t \<and>
     base + (length t + 7) div 8 * 8 \<le> length (chars hid) \<and> length (chars hid) < 2 ^ 32)"

definition setup_entry :: "u32 \<times> u32 \<times> u32 \<Rightarrow> u8 list \<Rightarrow> u32 \<times> u32 \<times> u32" where
  "setup_entry refs x = (fst refs, fst (snd refs), of_nat (length x))"

definition search_entry :: "u32 \<times> u32 \<times> u32 \<Rightarrow> u8 list \<Rightarrow> nat \<Rightarrow> u32 \<times> u32 \<times> u32" where
  "search_entry refs t base = (snd (snd refs), of_nat (length t), of_nat base)"

definition engine_out :: "u8 list \<Rightarrow> u8 list \<Rightarrow> nat \<Rightarrow> u32 list" where
  "engine_out x t base = reports base (filter (before_end x t) (restart x 0 0 t)) @ [- 1]"

definition mp_inv :: "u32 \<times> u32 \<times> u32 \<Rightarrow> u8 list \<Rightarrow> u8 list \<Rightarrow> (nat \<Rightarrow> nat) \<Rightarrow> nat \<Rightarrow> mp_engine \<Rightarrow> bool" where
  "mp_inv refs x t nx base e \<longleftrightarrow>
     (stage e = Config_needle \<and> ssfifo e = [setup_entry refs x, search_entry refs t base] \<and> quiet e \<and> locf e = []) \<or>
     (stage e = Config_mpNext \<and> ssfifo e = [setup_entry refs x, search_entry refs t base] \<and> quiet e \<and> locf e = [] \<and>
        needle_loaded x e) \<or>
     (stage e = Initialized \<and> ssfifo e = [search_entry refs t base] \<and> quiet e \<and> locf e = [] \<and>
        needle_loaded x e \<and> next_loaded x nx e \<and> needleLenReg e = of_nat (length x)) \<or>
     (\<exists>i j. search_inv x t nx base (engine_out x t base) i j e) \<or>
     finished (engine_out x t base) e"

definition rank :: "mp_engine \<Rightarrow> nat" where
  "rank e = (case stage e of Config_needle \<Rightarrow> (if ssfifo e = [] then 0 else 4) | Config_mpNext \<Rightarrow> 3 | Initialized \<Rightarrow> 2 | Search \<Rightarrow> 1)"

definition mp_less :: "u8 list \<Rightarrow> u8 list \<Rightarrow> (mp_engine \<times> mp_engine) set" where
  "mp_less x t = measures [rank, \<lambda>e. if stage e = Search then search_left x t e else length (incoming e),
     \<lambda>e. length (efifo e) + length (haystack e) + (if conff e then 1 else 0)]"

lemma wf_mp_less [simp]: "wf (mp_less x t)"
  by (simp add: mp_less_def)

lemma concat_bus_words: "concat (bus_words bs k) = take (k * nc) bs"
  by (induction k arbitrary: bs) (simp_all add: take_add)

lemma load_bram_nth:
  assumes "k \<le> m" "m < 1024" "k < length xs"
  shows "load_bram old xs (ucast (of_nat m :: u32)) (of_nat k) = xs ! k"
  using assms by (simp add: load_bram_def bram_index word_le_nat_alt unat_of_nat)

lemma mp_stepE:
  assumes "mp_step chars ints e e'"
  obtains "haystackResp e = Some e'" | "haystackDrain e = Some e'" | "bramDrain e = Some e'"
    | "matchNeedleReq e = Some e'" | "matchNeedleResp e = Some e'" | "finish_search e = Some e'"
    | "setup_needle chars e = Some e'" | "setup_mpNext ints e = Some e'" | "start_search chars e = Some e'"
  using assms by (auto simp: mp_step_def mp_rules_def)

lemma mp_stepI: "r e = Some e' \<Longrightarrow> r \<in> set (mp_rules chars ints) \<Longrightarrow> mp_step chars ints e e'"
  by (auto simp: mp_step_def)

lemmas rule_defs = haystackResp_def haystackDrain_def bramDrain_def matchNeedleReq_def matchNeedleResp_def
  finish_search_def setup_needle_def setup_mpNext_def start_search_def

lemma only_setup_needle:
  assumes "mp_step chars ints e e'" "quiet e" "stage e = Config_needle"
  shows "setup_needle chars e = Some e'"
  using assms(1) by (rule mp_stepE) (use assms(2,3) in \<open>simp_all add: quiet_def rule_defs split: list.splits prod.splits\<close>)

lemma only_setup_mpNext:
  assumes "mp_step chars ints e e'" "quiet e" "stage e = Config_mpNext"
  shows "setup_mpNext ints e = Some e'"
  using assms(1) by (rule mp_stepE) (use assms(2,3) in \<open>simp_all add: quiet_def rule_defs split: list.splits prod.splits\<close>)

lemma only_search:
  assumes "mp_step chars ints e e'" "quiet e" "stage e = Initialized"
  shows "start_search chars e = Some e'"
  using assms(1) by (rule mp_stepE) (use assms(2,3) in \<open>simp_all add: quiet_def rule_defs split: list.splits prod.splits\<close>)

lemma search_starts:
  assumes buf: "buffers chars ints refs x t nx base" and sz: "sized x t"
    and e: "stage e = Initialized" "ssfifo e = [search_entry refs t base]" "quiet e" "locf e = []"
      "needle_loaded x e" "next_loaded x nx e" "needleLenReg e = of_nat (length x)"
    and step: "start_search chars e = Some e'"
  shows "search_inv x t nx base (engine_out x t base) 1 1 e'"
proof -
  obtain nid mid hid where refs: "refs = (nid, mid, hid)" by (cases refs)
  have b: "take (length t) (drop base (chars hid)) = t" "base < 2 ^ 32"
    using buf by (auto simp: buffers_def refs)
  have n: "unat (of_nat (length t) + of_nat (nc - 1) :: u32) = length t + 7"
    using sz unat_of_nat_small [of "length t + 7", where 'a = 32] by (simp add: nc_def sized_def)
  have words: "concat (bus_words (drop base (chars hid)) ((length t + 7) div nc)) = take ((length t + 7) div 8 * 8) (drop base (chars hid))"
    by (simp add: concat_bus_words nc_def)
  have "length t \<le> (length t + 7) div 8 * 8" by linarith
  then have whole: "take (length t) (concat (bus_words (drop base (chars hid)) ((length t + 7) div nc))) = t"
    unfolding words using b(1) by (simp add: min_def)
  have "rem_from x t 1 1 = filter (before_end x t) (restart x 0 0 t)"
    using sz by (cases t) (auto simp: rem_from_def sized_def)
  then show ?thesis
    using step e whole n b(2) refs
    by (auto simp: start_search_def search_entry_def quiet_def search_inv_def engine_out_def needle_loaded_def
        next_loaded_def pending_def unat_of_nat_small)
qed

lemma search_only:
  assumes "mp_step chars ints e e'" "stage e = Search"
  obtains "haystackResp e = Some e'" | "matchNeedleReq e = Some e'" | "matchNeedleResp e = Some e'" | "finish_search e = Some e'"
  using assms(1) by (rule mp_stepE)
    (use assms(2) that in \<open>simp_all add: haystackDrain_def bramDrain_def setup_needle_def setup_mpNext_def start_search_def split: list.splits prod.splits\<close>)

lemma finished_only:
  assumes "mp_step chars ints e e'" "finished out e"
  obtains "haystackResp e = Some e'" | "haystackDrain e = Some e'" | "bramDrain e = Some e'" | "finish_search e = Some e'"
  using assms(1) by (rule mp_stepE)
    (use assms(2) that in \<open>simp_all add: finished_def matchNeedleReq_def matchNeedleResp_def setup_needle_def setup_mpNext_def start_search_def split: list.splits prod.splits\<close>)

lemma finished_step:
  assumes step: "mp_step chars ints e e'" and fin: "finished out e"
  shows "finished out e' \<and> (e', e) \<in> mp_less x t"
  using step fin
proof (cases rule: finished_only)
  case 1
  then show ?thesis using fin
    by (auto simp: haystackResp_def finished_def mp_less_def rank_def split: list.splits)
next
  case 2
  then show ?thesis using fin
    by (auto simp: haystackDrain_def finished_def mp_less_def rank_def split: if_splits)
next
  case 3
  then show ?thesis using fin
    by (auto simp: bramDrain_def finished_def mp_less_def rank_def split: if_splits)
next
  case 4
  then show ?thesis using fin
    by (auto simp: finish_search_def finished_def mp_less_def rank_def split: if_splits)
qed

lemma search_inv_step:
  assumes inv: "search_inv x t nx base out i j e" and tab: "good_table x nx" and sz: "sized x t"
    and step: "mp_step chars ints e e'"
  shows "(finished out e' \<or> (\<exists>i j. search_inv x t nx base out i j e')) \<and> (e', e) \<in> mp_less x t"
proof -
  have s: "stage e = Search" using inv by (simp add: search_inv_def)
  have less: "(e', e) \<in> mp_less x t" if "search_inv x t nx base out i' j' e'" "search_left x t e' < search_left x t e" for i' j'
    using that s by (simp add: mp_less_def rank_def search_inv_def)
  have fin: "(e', e) \<in> mp_less x t" if "finished out e'"
    using that s by (simp add: mp_less_def rank_def finished_def)
  from step s show ?thesis
  proof (cases rule: search_only)
    case 1
    with search_inv_quiet(1) [OF inv sz] less show ?thesis by blast
  next
    case 2
    with search_inv_quiet(3) [OF inv sz] less show ?thesis by blast
  next
    case 3
    with search_inv_answer [OF inv tab sz] less fin show ?thesis by blast
  next
    case 4
    with search_inv_quiet(2) [OF inv sz] less show ?thesis by blast
  qed
qed

lemma mp_inv_step:
  assumes buf: "buffers chars ints refs x t nx base" and tab: "good_table x nx" and sz: "sized x t"
    and inv: "mp_inv refs x t nx base e" and step: "mp_step chars ints e e'"
  shows "mp_inv refs x t nx base e' \<and> (e', e) \<in> mp_less x t"
proof -
  obtain nid mid hid where refs: "refs = (nid, mid, hid)" by (cases refs)
  have len: "length x < 1024" using sz by (simp add: sized_def)
  from inv [unfolded mp_inv_def] consider
      (A) "stage e = Config_needle" "ssfifo e = [setup_entry refs x, search_entry refs t base]" "quiet e" "locf e = []"
    | (B) "stage e = Config_mpNext" "ssfifo e = [setup_entry refs x, search_entry refs t base]" "quiet e" "locf e = []"
        "needle_loaded x e"
    | (C) "stage e = Initialized" "ssfifo e = [search_entry refs t base]" "quiet e" "locf e = []" "needle_loaded x e"
        "next_loaded x nx e" "needleLenReg e = of_nat (length x)"
    | (D) i j where "search_inv x t nx base (engine_out x t base) i j e"
    | (E) "finished (engine_out x t base) e"
    by blast
  then show ?thesis
  proof cases
    case A
    from only_setup_needle [OF step A(3,1)] A
    have e': "e' = e\<lparr>needleLenReg := of_nat (length x), stage := Config_mpNext,
        needle := load_bram (needle e) (chars nid) (ucast (of_nat (length x) :: u32))\<rparr>"
      by (simp add: setup_needle_def setup_entry_def refs quiet_def)
    have "needle_loaded x e'"
      using buf len by (auto simp: needle_loaded_def e' load_bram_nth buffers_def refs nth_append)
    with A show ?thesis by (simp add: e' mp_inv_def quiet_def mp_less_def rank_def)
  next
    case B
    from only_setup_mpNext [OF step B(3,1)] B
    have e': "e' = e\<lparr>needleLenReg := of_nat (length x), stage := Initialized, ssfifo := [search_entry refs t base],
        mpNext := load_bram (mpNext e) (ints mid) (ucast (of_nat (length x) :: u32))\<rparr>"
      by (simp add: setup_mpNext_def setup_entry_def refs quiet_def)
    have "next_loaded x nx e'"
      using buf len by (auto simp: next_loaded_def e' load_bram_nth buffers_def refs)
    with B show ?thesis by (simp add: e' mp_inv_def quiet_def mp_less_def rank_def needle_loaded_def)
  next
    case C
    from only_search [OF step C(3,1)] have s: "start_search chars e = Some e'" .
    from search_starts [OF buf sz C s] have "search_inv x t nx base (engine_out x t base) 1 1 e'" .
    moreover from this have "(e', e) \<in> mp_less x t" using C(1) by (simp add: mp_less_def rank_def search_inv_def)
    ultimately show ?thesis unfolding mp_inv_def by blast
  next
    case D
    from search_inv_step [OF D tab sz step] show ?thesis unfolding mp_inv_def by blast
  next
    case E
    from finished_step [OF step E] show ?thesis unfolding mp_inv_def by blast
  qed
qed

text \<open>Until the search is over some rule can always fire.\<close>

lemma search_goes_on:
  assumes inv: "search_inv x t nx base out i j e" and sz: "sized x t"
  shows "\<exists>e'. mp_step chars ints e e'"
proof (cases "efifo e")
  case Nil
  then obtain e' where "matchNeedleReq e = Some e'" using inv by (auto simp: search_inv_def matchNeedleReq_def)
  then have "mp_step chars ints e e'" by (rule mp_stepI) (simp add: mp_rules_def)
  then show ?thesis ..
next
  case (Cons r rest)
  obtain ep iw where r: "r = (ep, iw)" by (cases r)
  have s: "stage e = Search" using inv by (simp add: search_inv_def)
  show ?thesis
  proof (cases "matchNeedleResp e")
    case (Some e')
    then have "mp_step chars ints e e'" by (rule mp_stepI) (simp add: mp_rules_def)
    then show ?thesis ..
  next
    case None
    then have ep: "ep = epochReg e" using Cons r s by (auto simp: matchNeedleResp_def Let_def split: if_splits)
    have wait: "\<not> haystackLenReg e < jReg e" "haystack e = []"
      using None resp_current [OF s Cons [unfolded r ep]] by (auto split: if_splits list.splits)
    then have "j \<le> length t" using inv sz by (auto simp: search_inv_def sized_def of_nat_u32_less)
    then have "incoming e \<noteq> []" using next_char(1) [of t j "haystack e @ concat (incoming e)"] inv wait
      by (auto simp: search_inv_def)
    then obtain e' where "haystackResp e = Some e'" by (cases "incoming e") (auto simp: haystackResp_def)
    then have "mp_step chars ints e e'" by (rule mp_stepI) (simp add: mp_rules_def)
    then show ?thesis ..
  qed
qed

lemma finished_goes_on:
  assumes "finished out e" "\<not> quiet e"
  shows "\<exists>e'. mp_step chars ints e e'"
proof -
  consider "incoming e \<noteq> []" | "haystack e \<noteq> []" | "efifo e \<noteq> []" | "conff e" "incoming e = []"
    using assms(2) by (auto simp: quiet_def)
  then have "\<exists>r \<in> set (mp_rules chars ints). \<exists>e'. r e = Some e'"
  proof cases
    case 1
    then show ?thesis by (auto simp: mp_rules_def haystackResp_def neq_Nil_conv)
  qed (use assms(1) in \<open>simp_all add: mp_rules_def haystackDrain_def bramDrain_def finish_search_def finished_def\<close>)
  then show ?thesis by (auto simp: mp_step_def)
qed

lemma mp_inv_goes_on:
  assumes sz: "sized x t" and inv: "mp_inv refs x t nx base e" and stuck: "\<not> (\<exists>e'. mp_step chars ints e e')"
  shows "finished (engine_out x t base) e \<and> quiet e"
proof -
  have none: "r e = None" if "r \<in> set (mp_rules chars ints)" for r
    using stuck that unfolding mp_step_def by (metis option.exhaust)
  from inv [unfolded mp_inv_def] consider
      "stage e = Config_needle" "ssfifo e = [setup_entry refs x, search_entry refs t base]" "quiet e"
    | "stage e = Config_mpNext" "ssfifo e = [setup_entry refs x, search_entry refs t base]" "quiet e"
    | "stage e = Initialized" "ssfifo e = [search_entry refs t base]" "quiet e"
    | i j where "search_inv x t nx base (engine_out x t base) i j e"
    | "finished (engine_out x t base) e"
    by blast
  then show ?thesis
  proof cases
    case 1
    then show ?thesis using none [of "setup_needle chars"] by (simp add: mp_rules_def setup_needle_def setup_entry_def quiet_def)
  next
    case 2
    then show ?thesis using none [of "setup_mpNext ints"] by (simp add: mp_rules_def setup_mpNext_def setup_entry_def quiet_def)
  next
    case 3
    then show ?thesis using none [of "start_search chars"] by (simp add: mp_rules_def start_search_def search_entry_def quiet_def)
  next
    case 4
    then show ?thesis using search_goes_on [OF 4 sz] stuck by blast
  next
    case 5
    then show ?thesis using finished_goes_on stuck by blast
  qed
qed

definition engine_ready :: "u32 \<times> u32 \<times> u32 \<Rightarrow> u8 list \<Rightarrow> u8 list \<Rightarrow> nat \<Rightarrow> mp_engine \<Rightarrow> bool" where
  "engine_ready refs x t base e \<longleftrightarrow>
     stage e = Config_needle \<and> ssfifo e = [setup_entry refs x, search_entry refs t base] \<and> quiet e \<and> locf e = []"

lemma engine_runs:
  assumes buf: "buffers chars ints refs x t nx base" and tab: "good_table x nx" and sz: "sized x t"
    and start: "engine_ready refs x t base e"
  shows "wf {(e2, e1). (mp_step chars ints)\<^sup>*\<^sup>* e e1 \<and> mp_step chars ints e1 e2}"
    and "(mp_step chars ints)\<^sup>*\<^sup>* e e' \<Longrightarrow> \<not> (\<exists>e''. mp_step chars ints e' e'') \<Longrightarrow>
      quiet e' \<and> stage e' = Config_needle \<and> locf e' = engine_out x t base"
proof -
  have reach: "mp_inv refs x t nx base e'" if "(mp_step chars ints)\<^sup>*\<^sup>* e e'" for e'
    using that
  proof (induction rule: rtranclp_induct)
    case base
    show ?case using start unfolding engine_ready_def mp_inv_def by blast
  next
    case (step y z)
    then show ?case using mp_inv_step [OF buf tab sz] by blast
  qed
  show "wf {(e2, e1). (mp_step chars ints)\<^sup>*\<^sup>* e e1 \<and> mp_step chars ints e1 e2}"
    by (rule wf_subset [OF wf_mp_less]) (use reach mp_inv_step [OF buf tab sz] in blast)
  show "quiet e' \<and> stage e' = Config_needle \<and> locf e' = engine_out x t base"
    if "(mp_step chars ints)\<^sup>*\<^sup>* e e'" "\<not> (\<exists>e''. mp_step chars ints e' e'')"
    using mp_inv_goes_on [OF sz reach [OF that(1)] that(2)] by (auto simp: finished_def)
qed

text \<open>The table computed in software is one the engine can use.\<close>

lemma computed_good_table:
  assumes "0 < m" "m < length x" "Suc m < length MP_next" "compute_MP_next x MP_next (int m) = Inr N"
  shows "good_table (take m x) (\<lambda>k. nat (N ! k))" and "\<And>k. 0 < k \<Longrightarrow> k \<le> m \<Longrightarrow> 0 \<le> N ! k" and "m < length N"
proof -
  obtain b where t: "border_table x b (Suc m)" "next_table b N (Suc m)" "length N = length MP_next" "N ! 1 = 0"
    using tables_exist [OF assms(1,2), of "replicate (Suc m) 0" MP_next] assms(3,4) by auto
  have rep: "\<exists>k. N ! i = int (Suc k) \<and> Suc k < i \<and> (0 < k \<longrightarrow> x ! k = x ! (i - 1))" if "1 < i" "i \<le> m" for i
    using border_repeats [OF t(1,2) that assms(2)] .
  show "good_table (take m x) (\<lambda>k. nat (N ! k))"
    unfolding good_table_def
  proof (intro conjI allI impI)
    show "nat (N ! 1) = 0" by (simp only: t(4))
    fix i assume "1 < i \<and> i \<le> length (take m x)"
    then have i: "1 < i" "i \<le> m" by auto
    from rep [OF this] obtain k where "N ! i = int (Suc k)" "Suc k < i" "0 < k \<longrightarrow> x ! k = x ! (i - 1)" by blast
    then show "\<exists>k. nat (N ! i) = Suc k \<and> Suc k < i \<and> (0 < k \<longrightarrow> take m x ! k = take m x ! (i - 1))"
      using i by (intro exI [of _ k]) simp
  qed
  show "0 \<le> N ! k" if "0 < k" "k \<le> m" for k
    using rep [of k] that t(4) by (cases "k = 1") auto
  show "m < length N" using t(3) assms(3) by simp
qed

lemma run_ends:
  assumes "wf {(e2, e1). R\<^sup>*\<^sup>* e e1 \<and> R e1 e2}"
  shows "\<exists>e'. R\<^sup>*\<^sup>* e e' \<and> \<not> (\<exists>e''. R e' e'')"
proof -
  have "e \<in> {e'. R\<^sup>*\<^sup>* e e'}" by simp
  from wfE_min [OF assms this] obtain z where z: "R\<^sup>*\<^sup>* e z"
    "\<And>y. (y, z) \<in> {(e2, e1). R\<^sup>*\<^sup>* e e1 \<and> R e1 e2} \<Longrightarrow> y \<notin> {e'. R\<^sup>*\<^sup>* e e'}" by blast
  have "\<not> R z y" for y
  proof
    assume y: "R z y"
    with z(1) have "R\<^sup>*\<^sup>* e y" by (rule rtranclp.rtrancl_into_rtrancl)
    with z y show False by blast
  qed
  with z(1) show ?thesis by blast
qed

lemma software_buffers:
  assumes "0 < m" "m < length x" "Suc m < length MP_next" "compute_MP_next x MP_next (int m) = Inr N"
    and "chars nid = x" "ints mid = map word_of_int N" "take (length t) (drop base (chars hid)) = t"
    and "base + (length t + 7) div 8 * 8 \<le> length (chars hid)" "length (chars hid) < 2 ^ 32"
  shows "buffers chars ints (nid, mid, hid) (take m x) t (\<lambda>k. nat (N ! k)) base"
proof -
  note tab = computed_good_table [OF assms(1-4)]
  have "ints mid ! k = of_nat (nat (N ! k))" if "0 < k" "k \<le> m" for k
    using tab(2) [OF that] tab(3) that(2) assms(6) by simp
  moreover have "chars nid = take m x @ drop m x" using assms(5) by simp
  then have "\<exists>more. chars nid = take m x @ more" by blast
  ultimately show ?thesis using assms(2,6-9) tab(3) by (simp add: buffers_def)
qed

section \<open>Properties\<close>

text \<open>
  C29: the engine with its pipeline of speculative requests, given the table computed in software,
  finds what the search in software finds.  However its rules fire, the search ends, and when no rule
  can fire any more the engine is idle and has reported the positions of \<open>MP\<close>, moved by the start of
  its part of the haystack, and then the end mark -1.  An occurrence that ends with the text is the
  one exception: it is not reported.
\<close>

theorem engine_matches_software:
  assumes "0 < m" "m < 1023" "m < length x" "Suc m < length MP_next" "compute_MP_next x MP_next (int m) = Inr N"
    and "chars nid = x" "ints mid = map word_of_int N" "take (length t) (drop base (chars hid)) = t"
    and "base + (length t + 7) div 8 * 8 \<le> length (chars hid)" "length (chars hid) < 2 ^ 31"
    and "engine_ready (nid, mid, hid) (take m x) t base e"
  shows "wf {(e2, e1). (mp_step chars ints)\<^sup>*\<^sup>* e e1 \<and> mp_step chars ints e1 e2} \<and>
    (\<exists>ps. MP x t N (int m) (int (length t)) 0 = Inr (map int ps, int (length ps)) \<and>
      (\<forall>e'. (mp_step chars ints)\<^sup>*\<^sup>* e e' \<and> \<not> (\<exists>e''. mp_step chars ints e' e'') \<longrightarrow>
        stage e' = Config_needle \<and> quiet e' \<and>
        locf e' = map (\<lambda>q. of_nat (base + q)) (filter (\<lambda>q. q + m < length t) ps) @ [- 1]))"
proof -
  have buf: "buffers chars ints (nid, mid, hid) (take m x) t (\<lambda>k. nat (N ! k)) base"
    by (rule software_buffers) (use assms in auto)
  have len: "length (take m x) = m" using assms(3) by simp
  have "length t < 2 ^ 31" using assms(9,10) by linarith
  then have sz: "sized (take m x) t" using assms(1-3) by (auto simp: sized_def)
  note tab = computed_good_table(1) [OF assms(1,3,4,5)]
  note runs = engine_runs [OF buf tab sz assms(11)]
  let ?ps = "restart (take m x) 0 0 t"
  have "MP x t N (int m) (int (length t)) 0 = Inr (map int ?ps, int (length ?ps))"
    using MP_restarts [OF assms(1,3,4), of "length t" t] assms(5) by (auto simp: Let_def)
  moreover have "engine_out (take m x) t base = map (\<lambda>q. of_nat (base + q)) (filter (\<lambda>q. q + m < length t) ?ps) @ [- 1]"
    unfolding engine_out_def reports_def before_end_def len ..
  ultimately show ?thesis using runs by auto
qed

text \<open>An example: the pattern \<open>ab\<close> in \<open>aabab\<close>.  Its second occurrence ends with the text.\<close>

definition example_chars :: "u32 \<Rightarrow> u8 list" where
  "example_chars r = (if r = 1 then [97, 98, 0] else [97, 97, 98, 97, 98, 0, 0, 0, 0, 0, 0, 0])"

definition example_ints :: "u32 \<Rightarrow> u32 list" where
  "example_ints r = [0, 0, 1, 1]"

definition example_engine :: "(u32 \<times> u32 \<times> u32) list \<Rightarrow> mp_engine" where
  "example_engine entries = \<lparr>stage = Config_needle, needle = \<lambda>_. 0, mpNext = \<lambda>_. 0, needleLenReg = 0, haystackLenReg = 0,
     haystackBase = 0, jReg = 0, iReg = 0, epochReg = 0, efifo = [], ssfifo = entries, haystack = [], incoming = [],
     conff = False, locf = []\<rparr>"

lemma example_table: "compute_MP_next [97, 98, 0] [0, 0, 0, 0] (int 2) = Inr [0, 0, 1, 1]"
  by (simp add: compute_MP_next_def next_for.simps next_while.simps aget_def aset_def)

theorem engine_matches_software_witness:
  "\<exists>e'. (mp_step example_chars example_ints)\<^sup>*\<^sup>* (example_engine [(1, 2, 2), (3, 5, 0)]) e' \<and> locf e' = [1, - 1]"
proof -
  let ?e = "example_engine [(1, 2, 2), (3, 5, 0)]" and ?t = "[97, 97, 98, 97, 98] :: u8 list"
  have ready: "engine_ready (1, 2, 3) (take 2 [97, 98, 0]) ?t 0 ?e"
    by (simp add: engine_ready_def example_engine_def setup_entry_def search_entry_def quiet_def)
  from engine_matches_software [OF _ _ _ _ example_table, of example_chars 1 example_ints 2 ?t 0 3 ?e] ready
  obtain ps where w: "wf {(e2, e1). (mp_step example_chars example_ints)\<^sup>*\<^sup>* ?e e1 \<and> mp_step example_chars example_ints e1 e2}"
    and ps: "MP [97, 98, 0] ?t [0, 0, 1, 1] (int 2) (int (length ?t)) 0 = Inr (map int ps, int (length ps))"
    and fin: "\<And>e'. (mp_step example_chars example_ints)\<^sup>*\<^sup>* ?e e' \<Longrightarrow> \<not> (\<exists>e''. mp_step example_chars example_ints e' e'') \<Longrightarrow>
        locf e' = map (\<lambda>q. of_nat (0 + q)) (filter (\<lambda>q. q + 2 < length ?t) ps) @ [- 1]"
    by (auto simp: example_chars_def example_ints_def)
  have "restart [97, 98] 0 0 ?t = [1, 3]" by (simp add: restart_Cons restart_next_def)
  then have "map int ps = [1, 3]"
    using ps MP_restarts [of 2 "[97, 98, 0]" "[0, 0, 0, 0]" 5 ?t] example_table by simp
  then have "ps = [1, 3]" by auto
  with run_ends [OF w] fin show ?thesis by auto
qed

end
