(* ===== verification/Strstr.thy ===== *)
theory Strstr
  imports Strstr_Engine
begin

text \<open>
  The string search of \<open>examples/strstr\<close> as a whole: \<open>lib/strstr/bsv/Strstr.bsv\<close> hands a part of the
  haystack to each of its engines and passes their results on, and the class of
  \<open>lib/strstr/cpp/strstr.h\<close> counts them.
\<close>

section \<open>The module and the indications\<close>

definition setupStmt :: "nat \<Rightarrow> u32 \<Rightarrow> u32 \<Rightarrow> u32 \<Rightarrow> (u32 \<times> u32 \<times> u32) list" where
  "setupStmt p needleSGLId mpNextSGLId needleLen = replicate p (needleSGLId, mpNextSGLId, needleLen)"

primrec start_rest :: "u32 \<Rightarrow> u32 \<Rightarrow> u32 \<Rightarrow> u32 \<Rightarrow> nat \<Rightarrow> (u32 \<times> u32 \<times> u32) list" where
  "start_rest haystackSGLId part needleLen startBase 0 = [(haystackSGLId, part, startBase)]"
| "start_rest haystackSGLId part needleLen startBase (Suc k) =
     (haystackSGLId, part + needleLen, startBase) # start_rest haystackSGLId part needleLen (startBase + part) k"

definition startStmt :: "nat \<Rightarrow> u32 \<Rightarrow> u32 \<Rightarrow> u32 \<Rightarrow> (u32 \<times> u32 \<times> u32) list" where
  "startStmt lp haystackSGLId haystackLen needleLen =
     start_rest haystackSGLId (drop_bit lp haystackLen) needleLen 0 (2 ^ lp - 1)"

definition resr :: "nat \<Rightarrow> u32 \<Rightarrow> nat \<times> u32 list \<Rightarrow> nat \<times> u32 list" where
  "resr p rv s = (case s of (doneCnt, out) \<Rightarrow>
     if rv = - 1 then if doneCnt + 1 = p then (0, out @ [- 1]) else (doneCnt + 1, out)
     else (doneCnt, out @ [rv]))"

record StrstrIndication =
  match_cnt :: nat
  sem :: nat

definition searchResult :: "u32 \<Rightarrow> StrstrIndication \<Rightarrow> StrstrIndication" where
  "searchResult v d = (if v = - 1 then d\<lparr>sem := sem d + 1\<rparr> else d\<lparr>match_cnt := match_cnt d + 1\<rparr>)"

definition setupComplete :: "StrstrIndication \<Rightarrow> StrstrIndication" where
  "setupComplete d = d\<lparr>sem := sem d + 1\<rparr>"

definition wait :: "StrstrIndication \<Rightarrow> StrstrIndication option" where
  "wait d = (if sem d = 0 then None else Some (d\<lparr>sem := sem d - 1\<rparr>))"

text \<open>The funnel in front of \<open>resr\<close> takes the results of the engines in any order.\<close>

inductive merged :: "'a list list \<Rightarrow> 'a list \<Rightarrow> bool" where
  merged_done: "\<forall>l \<in> set ls. l = [] \<Longrightarrow> merged ls []"
| merged_take: "i < length ls \<Longrightarrow> ls ! i = v # vs \<Longrightarrow> merged (ls[i := vs]) zs \<Longrightarrow> merged ls (v # zs)"

section \<open>Results of all engines\<close>

text \<open>Each engine ends with its end mark: the last result of all is the end mark of some engine.\<close>

definition open_streams :: "u32 list list \<Rightarrow> nat" where
  "open_streams ls = length (filter (\<lambda>l. l \<noteq> []) ls)"

definition stream_ok :: "u32 list \<Rightarrow> bool" where
  "stream_ok l \<longleftrightarrow> l = [] \<or> (\<exists>ps. l = ps @ [- 1] \<and> - 1 \<notin> set ps)"

definition found_in :: "u32 list list \<Rightarrow> nat" where
  "found_in ls = (\<Sum>l \<leftarrow> ls. length (filter (\<lambda>v. v \<noteq> - 1) l))"

lemma stream_ok_Cons: "stream_ok (v # vs) \<longleftrightarrow> (if v = - 1 then vs = [] else vs \<noteq> [] \<and> stream_ok vs)"
  by (auto simp: stream_ok_def Cons_eq_append_conv)

lemma open_streams_update:
  "i < length ls \<Longrightarrow> ls ! i \<noteq> [] \<Longrightarrow>
   open_streams ls = (if vs = [] then Suc (open_streams (ls[i := vs])) else open_streams (ls[i := vs]))"
  unfolding open_streams_def by (induction ls arbitrary: i) (auto simp: nth_Cons split: nat.splits)

lemma found_in_update:
  "i < length ls \<Longrightarrow> ls ! i = v # vs \<Longrightarrow> found_in ls = (if v = - 1 then 0 else 1) + found_in (ls[i := vs])"
  unfolding found_in_def by (induction ls arbitrary: i) (auto simp: nth_Cons split: nat.splits)

lemma resr_found: "v \<noteq> - 1 \<Longrightarrow> resr p v (d, out) = (d, out @ [v])"
  by (simp add: resr_def)

lemma resr_mark: "resr p (- 1) (d, out) = (if d + 1 = p then (0, out @ [- 1]) else (d + 1, out))"
  by (simp add: resr_def)

lemma merged_empty: "merged ls zs \<Longrightarrow> \<forall>l \<in> set ls. l = [] \<Longrightarrow> zs = []"
  by (erule merged.cases) (simp, metis list.distinct(1) nth_mem)

lemma merged_results:
  assumes "merged ls zs" "\<forall>l \<in> set ls. stream_ok l" "doneCnt + open_streams ls = p" "0 < open_streams ls" "- 1 \<notin> set out"
  shows "\<exists>rs. fold (resr p) zs (doneCnt, out) = (0, out @ rs @ [- 1]) \<and> length rs = found_in ls \<and> - 1 \<notin> set rs"
  using assms
proof (induction arbitrary: doneCnt out)
  case (merged_done ls)
  then show ?case by (simp add: open_streams_def filter_empty_conv)
next
  case (merged_take i ls v vs zs)
  have "ls ! i \<in> set ls" using merged_take.hyps(1) by simp
  with merged_take.prems(1) have ok: "stream_ok (v # vs)" using merged_take.hyps(2) by force
  have ok': "\<forall>l \<in> set (ls[i := vs]). stream_ok l"
    using merged_take.prems(1) ok set_update_subset_insert [of ls i vs]
    by (auto simp: stream_ok_Cons stream_ok_def [of "[]"] split: if_splits)
  note opn = open_streams_update [OF merged_take.hyps(1), of vs] and fnd = found_in_update [OF merged_take.hyps(1,2)]
  show ?case
  proof (cases "v = - 1")
    case False
    then have "vs \<noteq> []" using ok by (simp add: stream_ok_Cons)
    then have o: "open_streams (ls[i := vs]) = open_streams ls" using opn merged_take.hyps(2) by simp
    have "\<exists>rs. fold (resr p) zs (doneCnt, out @ [v]) = (0, (out @ [v]) @ rs @ [- 1]) \<and>
        length rs = found_in (ls[i := vs]) \<and> - 1 \<notin> set rs"
      by (rule merged_take.IH) (use ok' o merged_take.prems False in auto)
    then obtain rs where "fold (resr p) zs (doneCnt, out @ [v]) = (0, out @ (v # rs) @ [- 1])"
      "length rs = found_in (ls[i := vs])" "- 1 \<notin> set rs" by auto
    then show ?thesis using False fnd by (intro exI [of _ "v # rs"]) (simp add: resr_found)
  next
    case True
    then have "vs = []" using ok by (simp add: stream_ok_Cons)
    then have o: "open_streams ls = Suc (open_streams (ls[i := vs]))" using opn merged_take.hyps(2) by simp
    show ?thesis
    proof (cases "open_streams (ls[i := vs]) = 0")
      case True
      then have empty: "\<forall>l \<in> set (ls[i := vs]). l = []" by (simp add: open_streams_def filter_empty_conv)
      with merged_empty [OF merged_take.hyps(3)] have zs: "zs = []" by blast
      have "found_in (ls[i := vs]) = 0" using empty by (auto simp: found_in_def)
      then show ?thesis using \<open>v = - 1\<close> zs fnd o True merged_take.prems(2) by (auto simp: resr_mark)
    next
      case some: False
      have "\<exists>rs. fold (resr p) zs (doneCnt + 1, out) = (0, out @ rs @ [- 1]) \<and>
          length rs = found_in (ls[i := vs]) \<and> - 1 \<notin> set rs"
        by (rule merged_take.IH) (use ok' o merged_take.prems some in auto)
      then show ?thesis using \<open>v = - 1\<close> fnd o some merged_take.prems(2) by (auto simp: resr_mark)
    qed
  qed
qed

lemma searchResult_counts:
  "- 1 \<notin> set rs \<Longrightarrow> fold searchResult (rs @ [- 1]) d = d\<lparr>match_cnt := match_cnt d + length rs, sem := sem d + 1\<rparr>"
  by (induction rs arbitrary: d) (auto simp: searchResult_def)

section \<open>The parts of a haystack\<close>

text \<open>
  A haystack of \<open>p\<close> parts of \<open>s\<close> characters: every engine but the last is given its part and as many
  characters more as the pattern has.
\<close>

definition part_len :: "nat \<Rightarrow> nat \<Rightarrow> nat \<Rightarrow> nat \<Rightarrow> nat" where
  "part_len p s m k = (if Suc k < p then s + m else s)"

definition part_of :: "nat \<Rightarrow> nat \<Rightarrow> nat \<Rightarrow> 'a list \<Rightarrow> nat \<Rightarrow> 'a list" where
  "part_of p s m h k = take (part_len p s m k) (drop (k * s) h)"

lemma part_inside:
  assumes "k < p" "m \<le> s"
  shows "k * s + part_len p s m k \<le> p * s"
proof (cases "Suc k < p")
  case True
  then have "(k + 2) * s \<le> p * s" by (intro mult_le_mono1) simp
  then show ?thesis using True assms(2) by (simp add: part_len_def algebra_simps)
next
  case False
  then have "p = Suc k" using assms(1) by simp
  then show ?thesis by (simp add: part_len_def)
qed

lemma occurs_at_part:
  "b + len \<le> length h \<Longrightarrow>
   occurs_at x (take len (drop b h)) q \<longleftrightarrow> q + length x \<le> len \<and> take (length x) (drop (b + q) h) = x"
  by (auto simp: occurs_at_def drop_take min_def add.commute)

lemma part_occurrences:
  assumes k: "k < p" and m: "length x \<le> s" "0 < s" and h: "p * s \<le> length h"
  shows "(\<lambda>q. k * s + q) ` {q. occurs_at x (part_of p s (length x) h k) q \<and> before_end x (part_of p s (length x) h k) q} =
    {q. occurs_at x (take (p * s) h) q \<and> q + length x < p * s \<and> q div s = k}" (is "?f ` ?A = ?B")
proof -
  let ?len = "part_len p s (length x) k"
  have len: "k * s + ?len \<le> p * s" by (rule part_inside [OF k m(1)])
  have plen: "length (part_of p s (length x) h k) = ?len" using len h by (simp add: part_of_def)
  have A: "q \<in> ?A \<longleftrightarrow> q + length x < ?len \<and> take (length x) (drop (k * s + q) h) = x" for q
    using occurs_at_part [of "k * s" ?len h x q] len h plen by (auto simp: before_end_def part_of_def)
  have whole: "occurs_at x (take (p * s) h) q \<longleftrightarrow> q + length x \<le> p * s \<and> take (length x) (drop q h) = x" for q
    using occurs_at_part [of 0 "p * s" h x q] h by simp
  have fits: "q + length x < ?len \<longleftrightarrow> q < s \<and> k * s + q + length x < p * s" for q
  proof (cases "Suc k < p")
    case True
    then have "(k + 2) * s \<le> p * s" by (intro mult_le_mono1) simp
    then show ?thesis using True m(1) by (auto simp: part_len_def algebra_simps)
  next
    case False
    then have "p = Suc k" using k by simp
    then show ?thesis by (auto simp: part_len_def)
  qed
  show ?thesis
  proof (intro set_eqI iffI)
    fix r assume "r \<in> ?f ` ?A"
    then obtain q where "r = k * s + q" "q \<in> ?A" by blast
    then show "r \<in> ?B" using A [of q] fits [of q] whole [of r] m(2) by simp
  next
    fix r assume r: "r \<in> ?B"
    then have q: "r = k * s + r mod s" "r mod s < s" using m(2) by auto
    then have "r mod s \<in> ?A" using r A [of "r mod s"] fits [of "r mod s"] whole [of r] by simp
    with q(1) show "r \<in> ?f ` ?A" by blast
  qed
qed

lemma restart_all:
  assumes alone: "\<And>i. 0 < i \<Longrightarrow> i < length x \<Longrightarrow> x ! i \<noteq> x ! 0" and "x \<noteq> []"
  shows "set (restart x 0 0 t) = {q. occurs_at x t q}" and "distinct (restart x 0 0 t)"
proof -
  let ?ps = "restart x 0 0 t"
  have x: "0 < length x" using assms(2) by simp
  have "(\<forall>q \<in> set ?ps. occurs_at x t q)" and sorted: "sorted_wrt (\<lambda>p q. p + length x \<le> q) ?ps"
    using restart_sound [OF matched_0 x, of "[]" t] by auto
  moreover have "q \<in> set ?ps" if "occurs_at x t q" for q
    using restart_complete [OF alone matched_0 x, of "[]" t q] that by simp
  ultimately show "set ?ps = {q. occurs_at x t q}" by blast
  have "sorted_wrt (<) ?ps"
    by (rule sorted_wrt_mono_rel [OF _ sorted]) (use x in linarith)
  then show "distinct ?ps" by (simp add: strict_sorted_iff)
qed

lemma restart_count:
  assumes "\<And>i. 0 < i \<Longrightarrow> i < length x \<Longrightarrow> x ! i \<noteq> x ! 0" and "x \<noteq> []"
  shows "length (restart x 0 0 t) = card {q. occurs_at x t q}"
  using distinct_card [OF restart_all(2) [OF assms, of t]] restart_all(1) [OF assms, of t] by simp

lemma engine_counts:
  assumes "\<And>i. 0 < i \<Longrightarrow> i < length x \<Longrightarrow> x ! i \<noteq> x ! 0" and "x \<noteq> []"
  shows "length (filter (before_end x t) (restart x 0 0 t)) = card {q. occurs_at x t q \<and> before_end x t q}"
proof -
  note all = restart_all [OF assms]
  have eq: "set (filter (before_end x t) (restart x 0 0 t)) = {q. occurs_at x t q \<and> before_end x t q}"
    using all(1) [of t] by auto
  from all(2) have "distinct (filter (before_end x t) (restart x 0 0 t))" by simp
  from distinct_card [OF this] show ?thesis unfolding eq by simp
qed

lemma all_parts:
  assumes alone: "\<And>i. 0 < i \<Longrightarrow> i < length x \<Longrightarrow> x ! i \<noteq> x ! 0" and "x \<noteq> []" and m: "length x \<le> s" "p * s \<le> length h"
  shows "(\<Sum>k < p. length (filter (before_end x (part_of p s (length x) h k)) (restart x 0 0 (part_of p s (length x) h k)))) =
    card {q. occurs_at x (take (p * s) h) q \<and> q + length x < p * s}"
proof -
  have s: "0 < s" using assms(2) m(1) by (cases s) auto
  let ?t = "\<lambda>k. part_of p s (length x) h k"
  let ?B = "\<lambda>k. {q. occurs_at x (take (p * s) h) q \<and> q + length x < p * s \<and> q div s = k}"
  have "length (filter (before_end x (?t k)) (restart x 0 0 (?t k))) = card (?B k)" if "k < p" for k
  proof -
    have "length (filter (before_end x (?t k)) (restart x 0 0 (?t k))) = card {q. occurs_at x (?t k) q \<and> before_end x (?t k) q}"
      by (rule engine_counts [OF alone assms(2)])
    also have "\<dots> = card ((\<lambda>q. k * s + q) ` {q. occurs_at x (?t k) q \<and> before_end x (?t k) q})"
      by (rule card_image [symmetric]) (simp add: inj_on_def)
    finally show ?thesis unfolding part_occurrences [OF that m(1) s m(2)] .
  qed
  then have "(\<Sum>k < p. length (filter (before_end x (?t k)) (restart x 0 0 (?t k)))) = (\<Sum>k < p. card (?B k))"
    by simp
  also have "\<dots> = card (\<Union>k < p. ?B k)"
    by (rule card_UN_disjoint [symmetric]) (auto intro: finite_subset [of _ "{..< p * s}"])
  also have "(\<Union>k < p. ?B k) = {q. occurs_at x (take (p * s) h) q \<and> q + length x < p * s}"
    using s by (auto simp: less_mult_imp_div_less)
  finally show ?thesis .
qed

lemma start_rest_nth:
  "k \<le> r \<Longrightarrow> start_rest h part nl b r ! k = (h, if k < r then part + nl else part, b + of_nat k * part)"
proof (induction r arbitrary: k b)
  case (Suc r)
  then show ?case by (cases k) (simp_all add: algebra_simps)
qed simp

lemma startStmt_nth:
  assumes "k < 2 ^ lp" "m \<le> s" "2 ^ lp * s \<le> length h" "length h < 2 ^ 31"
  shows "startStmt lp hid (of_nat (2 ^ lp * s)) (of_nat m) ! k =
    search_entry (nid, mid, hid) (part_of (2 ^ lp) s m h k) (k * s)"
proof -
  have n: "2 ^ lp * s < 2 ^ 31" using assms(3,4) by (rule le_less_trans)
  moreover have "s \<le> 2 ^ lp * s" by simp
  ultimately have "s < 2 ^ 31" by (rule le_less_trans [rotated])
  with n have part: "drop_bit lp (of_nat (2 ^ lp * s) :: u32) = of_nat s"
    by (simp add: word_unat_eq_iff unat_drop_bit unat_of_nat del: of_nat_mult of_nat_power)
  have "length (part_of (2 ^ lp) s m h k) = part_len (2 ^ lp) s m k"
    using part_inside [OF assms(1,2)] assms(3) by (simp add: part_of_def)
  moreover have "k \<le> 2 ^ lp - 1" "k < 2 ^ lp - 1 \<longleftrightarrow> Suc k < 2 ^ lp" using assms(1) by auto
  ultimately show ?thesis
    unfolding startStmt_def part by (simp add: start_rest_nth search_entry_def part_len_def)
qed

lemma position_not_mark:
  assumes "r < 2 ^ 31"
  shows "(of_nat r :: u32) \<noteq> - 1"
proof
  assume "(of_nat r :: u32) = - 1"
  then have "unat (of_nat r :: u32) = unat (- 1 :: u32)" by simp
  then show False using assms by (simp add: unat_of_nat unsigned_minus_1_eq_mask mask_eq_exp_minus_1)
qed

lemma filter_mark: "- 1 \<notin> set rs \<Longrightarrow> filter (\<lambda>v. v \<noteq> - 1) (rs @ [- 1 :: u32]) = rs"
  by (induction rs) auto

lemma streams_of_engines:
  assumes "\<forall>k < p. locf (e k) = engine_out x (part_of p s m h k) (k * s)" "0 < p" "p * s \<le> length h" "length h < 2 ^ 31" "m \<le> s"
    and ls: "ls = map (\<lambda>k. locf (e k)) [0..<p]"
  shows "\<forall>l \<in> set ls. stream_ok l" "open_streams ls = p"
    and "found_in ls = (\<Sum>k < p. length (filter (before_end x (part_of p s m h k)) (restart x 0 0 (part_of p s m h k))))"
proof -
  have out: "- 1 \<notin> set (reports (k * s) (filter (before_end x (part_of p s m h k)) qs))" if "k < p" for k qs
  proof
    assume "- 1 \<in> set (reports (k * s) (filter (before_end x (part_of p s m h k)) qs))"
    then obtain q where q: "(- 1 :: u32) = of_nat (k * s + q)" "before_end x (part_of p s m h k) q"
      by (auto simp: reports_def)
    have "k * s + q < k * s + part_len p s m k"
      using q(2) by (simp add: before_end_def part_of_def)
    also have "\<dots> \<le> p * s" using that assms(5) by (rule part_inside)
    finally have "k * s + q < 2 ^ 31" using assms(3,4) by (meson le_less_trans less_trans)
    from position_not_mark [OF this] q(1) show False by simp
  qed
  show "\<forall>l \<in> set ls. stream_ok l" using out assms(1) by (fastforce simp: ls stream_ok_def engine_out_def)
  have "filter (\<lambda>l. l \<noteq> []) ls = ls" using assms(1) by (auto simp: ls engine_out_def filter_id_conv)
  then show "open_streams ls = p" by (simp add: open_streams_def ls)
  have "length (filter (\<lambda>v. v \<noteq> - 1) (locf (e k))) =
      length (filter (before_end x (part_of p s m h k)) (restart x 0 0 (part_of p s m h k)))" if "k < p" for k
  proof -
    have "locf (e k) = engine_out x (part_of p s m h k) (k * s)" using assms(1) that by simp
    then show ?thesis unfolding engine_out_def filter_mark [OF out [OF that]] by (simp only: filter_mark [OF out [OF that]]) (simp add: reports_def)
  qed
  then show "found_in ls = (\<Sum>k < p. length (filter (before_end x (part_of p s m h k)) (restart x 0 0 (part_of p s m h k))))"
    by (simp add: found_in_def ls interv_sum_list_conv_sum_set_nat atLeast0LessThan comp_def)
qed

lemma part_buffers:
  assumes "0 < m" "m < 1023" "m < length x" "Suc m < length MP_next" "compute_MP_next x MP_next (int m) = Inr N"
    and "chars nid = x" "ints mid = map word_of_int N" "chars hid = h"
    and "m \<le> s" "p * s + 7 \<le> length h" "length h < 2 ^ 31" and k: "k < p"
  shows "buffers chars ints (nid, mid, hid) (take m x) (part_of p s m h k) (\<lambda>k. nat (N ! k)) (k * s)"
    and "sized (take m x) (part_of p s m h k)"
proof -
  let ?t = "part_of p s m h k"
  have inside: "k * s + part_len p s m k \<le> p * s" by (rule part_inside [OF k assms(9)])
  then have len: "length ?t = part_len p s m k" using assms(10) by (simp add: part_of_def)
  have round: "(a + 7) div 8 * 8 \<le> a + 7" for a :: nat by simp
  show "buffers chars ints (nid, mid, hid) (take m x) ?t (\<lambda>k. nat (N ! k)) (k * s)"
  proof (rule software_buffers [OF assms(1,3,4,5), of chars nid ints mid, OF assms(6,7)])
    show "take (length ?t) (drop (k * s) (chars hid)) = ?t" unfolding len assms(8) by (simp add: part_of_def)
    show "k * s + (length ?t + 7) div 8 * 8 \<le> length (chars hid)"
      using inside round [of "part_len p s m k"] assms(10) unfolding len assms(8) by linarith
    show "length (chars hid) < 2 ^ 32" using assms(8,11) by simp
  qed
  have "length ?t < 2 ^ 31" using inside assms(10,11) len by simp
  then show "sized (take m x) ?t" using assms(1-3) by (auto simp: sized_def)
qed

lemma occurrences_at_end:
  assumes "length x \<le> length t"
  shows "card {q. occurs_at x t q} =
    card {q. occurs_at x t q \<and> q + length x < length t} + (if occurs_at x t (length t - length x) then 1 else 0)"
proof -
  let ?A = "{q. occurs_at x t q \<and> q + length x < length t}" and ?z = "length t - length x"
  have fin: "finite ?A" by (rule finite_subset [of _ "{..< length t}"]) auto
  have "q \<in> ?A \<or> q = ?z" if "occurs_at x t q" for q using that assms by (auto simp: occurs_at_def)
  then have all: "{q. occurs_at x t q} = (if occurs_at x t ?z then insert ?z ?A else ?A)" by auto
  moreover have "?z \<notin> ?A" using assms by simp
  ultimately show ?thesis using fin by simp
qed

lemma merged_one: "merged [l] l"
proof (induction l)
  case (Cons v l)
  have "merged ([v # l][0 := l]) l" using Cons by simp
  from merged_take [OF _ _ this, of v] show ?case by simp
qed (simp add: merged_done)

lemma example_ends:
  "\<exists>e'. (mp_step example_chars example_ints)\<^sup>*\<^sup>* (example_engine [(1, 2, 2), (3, 5, 0)]) e' \<and>
     \<not> (\<exists>e''. mp_step example_chars example_ints e' e'')"
proof -
  have buf: "buffers example_chars example_ints (1, 2, 3) (take 2 [97, 98, 0]) (part_of 1 5 2 (example_chars 3) 0)
      (\<lambda>k. nat ([0, 0, 1, 1] ! k)) (0 * 5)"
    and sz: "sized (take 2 [97, 98, 0]) (part_of 1 5 2 (example_chars 3) 0)"
    by (rule part_buffers [OF _ _ _ _ example_table, of example_chars 1 example_ints 2 3 "example_chars 3" 5 1 0];
        simp add: example_chars_def example_ints_def)+
  have tab: "good_table (take 2 [97, 98, 0]) (\<lambda>k. nat ([0, 0, 1, 1] ! k))"
    by (rule computed_good_table(1) [OF _ _ _ example_table]) simp_all
  have "engine_ready (1, 2, 3) (take 2 [97, 98, 0]) (part_of 1 5 2 (example_chars 3) 0) (0 * 5) (example_engine [(1, 2, 2), (3, 5, 0)])"
    by (simp add: engine_ready_def example_engine_def setup_entry_def search_entry_def quiet_def part_of_def part_len_def example_chars_def)
  from run_ends [OF engine_runs(1) [OF buf tab sz this]] show ?thesis .
qed

section \<open>Properties\<close>

text \<open>
  C27: the search in hardware counts what the search in software counts.  With \<open>2 ^ lp\<close> engines on
  equal parts of the haystack, and a pattern whose first character does not occur in it again,
  whatever the order in which the rules of the engines fire and their results are taken, the program
  is told once that the search is over, after every result, and its count of matches is that of the
  software, less one if the pattern stands at the very end of the haystack.
\<close>

theorem strstr_counts_agree:
  assumes needle: "0 < m" "m < 1023" "m < length x" "Suc m < length MP_next" "compute_MP_next x MP_next (int m) = Inr N"
    and alone: "\<forall>i. 0 < i \<and> i < m \<longrightarrow> x ! i \<noteq> x ! 0"
    and mem: "chars nid = x" "ints mid = map word_of_int N" "chars hid = h"
    and parts: "m \<le> s" "2 ^ lp * s + 7 \<le> length h" "length h < 2 ^ 31" "n = 2 ^ lp * s"
    and start: "\<forall>k < 2 ^ lp. stage (e0 k) = Config_needle \<and> quiet (e0 k) \<and> locf (e0 k) = [] \<and>
      ssfifo (e0 k) = [setupStmt (2 ^ lp) nid mid (of_nat m) ! k, startStmt lp hid (of_nat n) (of_nat m) ! k]"
    and runs: "\<forall>k < 2 ^ lp. (mp_step chars ints)\<^sup>*\<^sup>* (e0 k) (e k) \<and> \<not> (\<exists>e'. mp_step chars ints (e k) e')"
    and funnel: "merged (map (\<lambda>k. locf (e k)) [0..<2 ^ lp]) zs"
  shows "\<exists>ps rs. MP x h N (int m) (int n) 0 = Inr (map int ps, int (length ps)) \<and>
    fold (resr (2 ^ lp)) zs (0, []) = (0, rs @ [- 1]) \<and> - 1 \<notin> set rs \<and>
    fold searchResult (rs @ [- 1]) \<lparr>match_cnt = 0, sem = 0\<rparr> = \<lparr>match_cnt = length rs, sem = 1\<rparr> \<and>
    length ps = length rs + (if occurs_at (take m x) (take n h) (n - m) then 1 else 0)"
proof -
  let ?x = "take m x" and ?p = "2 ^ lp :: nat"
  let ?ls = "map (\<lambda>k. locf (e k)) [0..<?p]" and ?ps = "restart ?x 0 0 (take n h)"
  have len: "length ?x = m" "?x \<noteq> []" "0 < length ?x" using needle(1,3) by auto
  have h: "?p * s \<le> length h" "n \<le> length h" using parts by simp_all
  have alone': "?x ! i \<noteq> ?x ! 0" if "0 < i" "i < length ?x" for i using alone that needle(1) by simp
  have "locf (e k) = engine_out ?x (part_of ?p s m h k) (k * s)" if k: "k < ?p" for k
  proof -
    note buf = part_buffers [OF needle, of chars nid ints mid hid h, OF mem parts(1-3) k]
    have "ssfifo (e0 k) = [setup_entry (nid, mid, hid) ?x, search_entry (nid, mid, hid) (part_of ?p s m h k) (k * s)]"
      using start k startStmt_nth [OF k parts(1) h(1) parts(3)] len(1) parts(4)
      by (simp add: setupStmt_def setup_entry_def)
    then have "engine_ready (nid, mid, hid) ?x (part_of ?p s m h k) (k * s) (e0 k)"
      using start k by (simp add: engine_ready_def)
    from engine_runs(2) [OF buf(1) computed_good_table(1) [OF needle(1,3,4,5)] buf(2) this] runs k
    show ?thesis by blast
  qed
  then have outs: "\<forall>k < ?p. locf (e k) = engine_out ?x (part_of ?p s m h k) (k * s)" by blast
  have p: "0 < ?p" by simp
  note streams = streams_of_engines [OF outs p h(1) parts(3,1) refl]
  obtain rs where rs: "fold (resr ?p) zs (0, []) = (0, rs @ [- 1])" "length rs = found_in ?ls" "- 1 \<notin> set rs"
    using merged_results [OF funnel streams(1), of 0 ?p "[]"] streams(2) by auto
  have "length rs = card {q. occurs_at ?x (take n h) q \<and> q + m < n}"
    using rs(2) streams(3) all_parts [OF alone' len(2), of s ?p h] parts(1) h(1) len(1) parts(4) by simp
  moreover have "length ?ps = card {q. occurs_at ?x (take n h) q}"
    by (rule restart_count [OF alone' len(2)])
  moreover have "length ?x \<le> length (take n h)" "length (take n h) = n"
    using len(1) h parts(1,4) by (auto intro: order_trans)
  ultimately have "length ?ps = length rs + (if occurs_at ?x (take n h) (n - m) then 1 else 0)"
    using occurrences_at_end [of ?x "take n h"] len(1) by simp
  moreover have "MP x h N (int m) (int n) 0 = Inr (map int ?ps, int (length ?ps))"
    using MP_restarts [OF needle(1,3,4) h(2)] needle(5) by (auto simp: Let_def)
  ultimately show ?thesis using rs(1,3) searchResult_counts [OF rs(3), of "\<lparr>match_cnt = 0, sem = 0\<rparr>"]
    by (intro exI [of _ ?ps] exI [of _ rs]) simp
qed

theorem strstr_counts_agree_witness:
  "\<exists>e' rs. (mp_step example_chars example_ints)\<^sup>*\<^sup>* (example_engine [(1, 2, 2), (3, 5, 0)]) e' \<and>
     fold (resr 1) (locf e') (0, []) = (0, rs @ [- 1]) \<and>
     fold searchResult (rs @ [- 1]) \<lparr>match_cnt = 0, sem = 0\<rparr> = \<lparr>match_cnt = 1, sem = 1\<rparr>"
proof -
  let ?h = "[97, 97, 98, 97, 98, 0, 0, 0, 0, 0, 0, 0] :: u8 list" and ?x = "[97, 98, 0] :: u8 list"
  obtain e' where e': "(mp_step example_chars example_ints)\<^sup>*\<^sup>* (example_engine [(1, 2, 2), (3, 5, 0)]) e'"
    "\<not> (\<exists>e''. mp_step example_chars example_ints e' e'')" using example_ends by blast
  have "\<forall>i. 0 < i \<and> i < (2 :: nat) \<longrightarrow> ?x ! i \<noteq> ?x ! 0" by (auto simp: less_2_cases_iff)
  from strstr_counts_agree [OF _ _ _ _ example_table this, of example_chars 1 example_ints 2 3 ?h 5 0 5
      "\<lambda>_. example_engine [(1, 2, 2), (3, 5, 0)]" "\<lambda>_. e'" "locf e'"] e' merged_one [of "locf e'"]
  obtain ps rs where r: "MP ?x ?h [0, 0, 1, 1] (int 2) (int 5) 0 = Inr (map int ps, int (length ps))"
    "fold (resr 1) (locf e') (0, []) = (0, rs @ [- 1])"
    "fold searchResult (rs @ [- 1]) \<lparr>match_cnt = 0, sem = 0\<rparr> = \<lparr>match_cnt = length rs, sem = 1\<rparr>"
    "length ps = length rs + (if occurs_at (take 2 ?x) (take 5 ?h) (5 - 2) then 1 else 0)"
    by (auto simp: example_chars_def example_ints_def example_engine_def quiet_def setupStmt_def startStmt_def)
  have "restart [97, 98] 0 0 [97, 97, 98, 97, 98 :: u8] = [1, 3]" by (simp add: restart_Cons restart_next_def)
  then have "map int ps = [1, 3]"
    using r(1) MP_restarts [of 2 ?x "[0, 0, 0, 0]" 5 ?h] example_table by simp
  then have "length ps = 2" using length_map [of int ps] by simp
  moreover have "occurs_at [97, 98] [97, 97, 98, 97, 98 :: u8] 3" by (simp add: occurs_at_def)
  ultimately have "length rs = 1" using r(4) by simp
  with e'(1) r(2,3) show ?thesis by auto
qed

end
