(* ===== verification/Spec2Isabelle.thy ===== *)
theory Spec2Isabelle
  imports Send_Fd Shared_Portal Mux_Portal Pcie_Files Zynq_Driver Portal_Core Bsim Bsim_Dma Poller Dma_Manager Kernel_Relay Ring_Passes Flash_Test Strstr
begin

text \<open>
  Verification of the host software of Connectal, a framework that connects a program to a design
  in an FPGA.  File names below are relative to the root of the sources.

  \<^bold>\<open>The program.\<close>  A \<^emph>\<open>portal\<close> is a channel between a program and a design: requests go one way,
  indications the other, each a message with a header word.  Proxies and wrappers are generated for
  every interface and written over a table of functions, the \<^emph>\<open>transport\<close> (\<open>cpp/portal.h\<close>).  There
  are transports for memory-mapped hardware, for a simulated design behind a socket, for a socket
  and for shared memory between two programs, and a multiplexer of several portals over one socket.
  A poller calls the event function of every portal.  The hardware is reached through a kernel driver
  (PCIe or Zynq).  Buffers the design accesses come from the \<open>portalmem\<close> driver, are mapped into the
  program, and are registered, block by block, with the address translation unit of the design;
  from then on the design refers to bytes by identifier and offset.

  \<^bold>\<open>Conventions\<close> (\<open>Connectal_Prelude\<close>).  C integers are words of their width.  A computation that may
  go wrong has type \<open>'a result\<close>: \<open>Inl\<close> of a fault (an access out of bounds, a null or freed pointer, a
  failed assertion, \<open>exit\<close>, or not returning) or \<open>Inr\<close> of the value.  State is passed explicitly, as a
  record per component; memory shared by two parties is an array of words both change.  The kernel,
  the C library and the behaviour of the other party are arguments of the definitions, and what is
  relied on is a hypothesis of the theorem; each such theorem is followed by a witness in which
  the arguments are concrete functions and the hypotheses are discharged.  Log and trace output is
  left out everywhere.

  \<^bold>\<open>Memory.\<close>  \<open>Portal_Mem\<close> is \<open>drivers/portalmem/portalmem.c\<close>: allocation in blocks of decreasing
  order, mapping into processes and into the kernel, debugger accesses, the ioctls.  \<open>Send_Fd\<close> is the
  registration of a buffer (\<open>cpp/dmaSendFd.h\<close>, \<open>lib/cpp/userReference.h\<close>), \<open>Mmu\<close> the registers and
  the translation stages of \<open>bsv/MMU.bsv\<close>, \<open>Dma_Manager\<close> the manager of a program
  (\<open>cpp/dmaManager.c\<close>), its indications and the translation unit in software (\<open>cpp/MMUServer.h\<close>,
  \<open>cpp/StdDmaIndication.h\<close>), \<open>Bsim_Dma\<close> the memory of a simulated design (\<open>cpp/BsimDma.cxx\<close>).
  The lemmas show that a table of blocks covers the requested length, that every byte is mapped,
  that the translation of a registered buffer is the address of the byte, and that user, kernel and
  simulation variants of the registration agree.  The theorem below puts them together.

  \<^bold>\<open>Transports.\<close>  \<open>Portal_Interface\<close> has the table of functions, the stubs generated for
  \<open>MMURequest\<close> (\<open>generated/cpp/MMURequest.c\<close>) and two locales: \<open>message_transport\<close> states that a
  transport behaves as a queue of messages, \<open>mmu_transport\<close> extends it by what the stubs need, and
  gives that requests arrive as they were sent.  \<open>Shared_Portal\<close> (\<open>cpp/portalShared.c\<close>), \<open>Socket_Portal\<close>
  (\<open>cpp/sock_utils.c\<close>, \<open>cpp/portalSocket.c\<close>) and \<open>Mux_Portal\<close> (the multiplexer of
  \<open>cpp/portalSocket.c\<close>) interpret both.  \<open>Mem_Portal\<close> has the portal registers of a design
  (\<open>bsv/MemPortal.bsv\<close>, \<open>bsv/CtrlMux.bsv\<close>), the hardware transport of \<open>cpp/portal.c\<close> and its copy in
  \<open>cpp/portalKernel.h\<close>, over the locales \<open>register_transport\<close> and \<open>register_dispatch\<close>, which \<open>Bsim\<close>
  (the simulation side of \<open>cpp/portalSocket.c\<close>, \<open>cpp/BsimCtrl.cxx\<close>, \<open>bsv/BsimTop.bsv\<close>) interprets as
  well: sending pushes exactly the words of the message, an event drains the indications in order.
  \<open>Kernel_Relay\<close> is the case of a program inside the kernel against a simulation
  (\<open>cpp/kernel_module.c\<close>, \<open>cpp/bsim_relay.c\<close>, the kernel half of \<open>cpp/portalSocket.c\<close>) as a step
  relation of two threads.  \<open>Portal_Core\<close> is the rest of \<open>cpp/portal.c\<close>, \<open>Poller\<close> is
  \<open>cpp/poller.cpp\<close> with the portal objects of \<open>cpp/poller.h\<close>.

  \<^bold>\<open>Drivers.\<close>  \<open>Resource_Ledger\<close> has the accounting of kernel resources and the locale
  \<open>driver_cycle\<close>; \<open>Pcie_Driver\<close> and \<open>Pcie_Files\<close> are \<open>drivers/pcieportal/pcieportal.c\<close> (the life of
  a board; the device files), \<open>Zynq_Driver\<close> is \<open>drivers/zynqportal/zynqportal.c\<close>.  The lemmas say
  what is held after every outcome of a probe, that probe and remove balance, that windows of portals
  are disjoint and that an interrupt wakes who waits.

  \<^bold>\<open>Applications.\<close>  The ring example (\<open>examples/ring\<close>, \<open>lib/bsv/RingBuffer.bsv\<close>): \<open>Ring_Hardware\<close>
  (the engine as guarded actions), \<open>Ring_Driver\<close> (\<open>testring.cpp\<close>), \<open>Ring_Inv\<close> and \<open>Ring_Correct\<close> (the
  invariant of both rings and its preservation), \<open>Ring_Live\<close> and \<open>Ring_Send\<close> (progress), \<open>Ring_Test\<close>,
  \<open>Ring_Boot\<close> and \<open>Ring_Passes\<close> (the operations and the test program as a whole).  The flash test
  (\<open>tests/algo1_flashmodel\<close>): \<open>Flash_Model\<close> (controller and program as steps of several parties) and
  \<open>Flash_Test\<close> (invariant, progress measure, outcome).  The string search (\<open>lib/strstr\<close>,
  \<open>examples/strstr\<close>): \<open>String_Search\<close> (the tables and the search of \<open>mp.h\<close>, what they compute and
  what they miss), \<open>Strstr_Engine\<close> (the pipelined engine of \<open>MPEngine.bsv\<close>, rule by rule, and that it
  reports what the software reports) and \<open>Strstr\<close> (several engines on the parts of a haystack).

  \<^bold>\<open>Loops, bounds and fuel.\<close>  A loop that ends by itself is a terminating function.  A loop that
  waits for another party is a \<open>partial_function\<close> on \<open>option\<close>; not returning is the fault
  \<open>NoReturn\<close>, and the liveness theorems prove the value under a fair schedule.  No model is cut off by
  fuel: where a schedule of the hardware is an argument (ring), it is an infinite sequence, and
  \<open>fair\<close> says that every action has its turn again and again; where parties are interleaved (relay,
  flash, string search), progress is a measure that every step lowers and the absence of stuck states.  Bounds in
  hypotheses are those of the hardware: 256 pages per region, offsets below \<open>2 ^ 44\<close>.

  \<^bold>\<open>Not modelled.\<close>  The BSV sources are modelled where a property of the host software rests on
  them, as atomic actions: bus handshakes, pipelining and timing are left out.  Of the translation unit
  the tag generator and the indications are missing.  Example programs that send a few requests and
  print or time the answers have no behaviour beyond that of their portals.  Image, matrix and learning
  programs are written over OpenCV, CUDA or display hardware; the \<open>gralloc\<close> module is written over
  Android's libraries.  Their sources are listed in the manifest with the reason.
\<close>

section \<open>The life of a DMA buffer\<close>

text \<open>
  C1: the processor and the device see the same memory.  For a buffer created by the memory
  driver, mapped into a process with \<open>mmap\<close> and registered with the translation unit through
  its descriptor, every byte of the buffer is mapped at a physical address, and that is the
  address the unit produces for the byte's offset; offsets past the end are refused.
\<close>

theorem cpu_and_device_agree:
  assumes "portalmem_dmabuffer_create K len s = Inr (fd, Some b, log, s')"
    and "alloc_aligned K" and "unat (k_page_align K len) < 2 ^ 44" and "length (sg_table b) < 256"
    and "files fd = Some b" and "iid = ucast (drop_bit 16 sid)"
  shows "\<exists>rs m'. send_fd_to_portal_kernel files fd sid = Inr (sint sid, rs) \<and>
    mmu_requests iid rs m = Inr m' \<and>
    (\<forall>x < pb_size b. \<exists>p.
       mapped (snd (pa_dma_buf_mmap b vm (vm + pb_size b) 0)) (vm + x) = Some p \<and>
       mmu_translate m' (ucast sid) (of_nat x) = Inr (of_nat p :: 'a::len word)) \<and>
    (\<forall>off. pb_size b \<le> unat off \<longrightarrow>
       mmu_translate m' (ucast sid) off = (Inl DmaErrorOffsetOutOfRange :: dma_error + 'a word))"
proof -
  let ?ss = "sg_table b"
  have small: "unat (k_page_align K len) < 2 ^ 63" using assms(3) by simp
  have wf: "sg_wf ?ss" and size: "table_size ?ss = pb_size b" "pb_size b < 2 ^ 44"
    using create_table [OF assms(1) small] assms(3) by simp_all
  have ok: "\<forall>g \<in> set ?ss. sg_dma_ok g"
    using create_aligned [OF assms(1,2)] wf by (simp add: sg_dma_ok_def sg_wf_def)
  from send_entries_mmu [OF assms(6) ok wf assms(4)] obtain m' where
    m': "mmu_requests iid (send_entries sid (map dma_entry_of ?ss)) m = Inr m'" "mmu_holds m' (ucast sid) ?ss"
    by blast
  note tr = mmu_translate_holds [OF m'(2) wf ok assms(4), where 'a = 'a]
  have "\<exists>p. mapped (snd (pa_dma_buf_mmap b vm (vm + pb_size b) 0)) (vm + x) = Some p \<and>
       mmu_translate m' (ucast sid) (of_nat x) = Inr (of_nat p :: 'a word)" if x: "x < pb_size b" for x
  proof -
    obtain p where p: "phys_at ?ss x = Some p" using phys_at_defined [of ?ss x] x size by auto
    have "unat (of_nat x :: mem_offset) = x" using x size by (simp add: unat_of_nat)
    with tr [of "of_nat x"] p show ?thesis
      using mapped_mmap_loop [of vm "vm + x" "vm + pb_size b" 0 ?ss] sg_wf_pages [OF wf] x
      by (simp add: pa_dma_buf_mmap_def)
  qed
  moreover have "mmu_translate m' (ucast sid) off = (Inl DmaErrorOffsetOutOfRange :: dma_error + 'a word)"
    if "pb_size b \<le> unat off" for off
  proof -
    have "phys_at ?ss (unat off) = None" using phys_at_defined [of ?ss "unat off"] that size by fastforce
    then show ?thesis using tr by simp
  qed
  ultimately show ?thesis
    using m'(1) assms(5) by (auto simp: send_fd_to_portal_kernel_def)
qed

theorem cpu_and_device_agree_witness:
  "\<exists>m'. mmu_requests 0 (send_entries 3 (map dma_entry_of (sg_table demo_buffer))) blank_mmu = Inr m' \<and>
     mapped (snd (pa_dma_buf_mmap demo_buffer 8192 77824 0)) 73730 = Some 1114114 \<and>
     mmu_translate m' 3 65538 = Inr (1114114 :: 40 word)"
proof -
  have c: "portalmem_dmabuffer_create demo_kernel 69000 250 = Inr (5, Some demo_buffer, demo_log, 273)"
    by (rule demo_create)
  have b: "unat (k_page_align demo_kernel 69000) < 2 ^ 44" "length (sg_table demo_buffer) < 256"
    "fget demo_env 5 = Some demo_buffer" "0 = (ucast (drop_bit 16 (3 :: u32)) :: u16)"
    by (simp_all add: demo_align demo_buffer_def demo_env_def)
  from cpu_and_device_agree [OF c demo_aligned b(1,2), where files = "fget demo_env" and 'a = 40 and
      m = blank_mmu and vm = 8192, OF b(3,4)]
  obtain m' where m': "mmu_requests 0 (send_entries 3 (map dma_entry_of (sg_table demo_buffer))) blank_mmu = Inr m'"
    "\<forall>x < pb_size demo_buffer. \<exists>p.
       mapped (snd (pa_dma_buf_mmap demo_buffer 8192 (8192 + pb_size demo_buffer) 0)) (8192 + x) = Some p \<and>
       mmu_translate m' (ucast (3 :: u32)) (of_nat x) = Inr (of_nat p :: 40 word)"
    by (auto simp: send_fd_to_portal_kernel_def b(3))
  have "pb_size demo_buffer = 69632" "ucast (3 :: u32) = (3 :: list_id)" by (simp_all add: demo_buffer_def)
  with m'(2) [rule_format, of 65538] obtain p where
    p: "mapped (snd (pa_dma_buf_mmap demo_buffer 8192 77824 0)) 73730 = Some p"
      "mmu_translate m' 3 65538 = Inr (of_nat p :: 40 word)" by auto
  moreover have "mapped (snd (pa_dma_buf_mmap demo_buffer 8192 77824 0)) 73730 = Some 1114114"
    by (simp add: pa_dma_buf_mmap_def demo_buffer_def PAGE_SIZE_def)
  ultimately show ?thesis using m'(1) by simp
qed

end
